(* ===== verification/Prelude.thy ===== *)
theory Prelude
  imports Main "HOL-Library.Word" "HOL-Library.List_Lexorder" "HOL-Library.Product_Lexorder"
begin

text \<open>
  Shared vocabulary of the development: the machine integers, byte strings, text, instants and
  results of the Rust sources, and the generic facts about them that several components use.

  \<^item> Machine integers are words of their width. \<open>+\<close> on them wraps, as it does in the release
    profile of the workspace (\<^verbatim>\<open>src/Cargo.toml\<close> leaves overflow checks off there).
  \<^item> A \<open>String\<close> is the list of its Unicode scalar values; \<open>utf8_len\<close> is the byte length that
    \<open>str::len\<close> reports, and the byte order of two strings is the order of their scalar values.
  \<^item> \<open>Instant\<close> and \<open>Duration\<close> are naturals counting nanoseconds; subtraction on \<open>nat\<close> is exactly
    \<open>saturating_duration_since\<close> and \<open>saturating_sub\<close>.
  \<^item> A \<open>Result\<close> is a sum with the error on the left.
\<close>

section \<open>Types\<close>

type_synonym u8 = "8 word"
type_synonym u32 = "32 word"
type_synonym u64 = "64 word"
type_synonym bytes = "u8 list"
type_synonym rstr = "nat list"
type_synonym instant = nat
type_synonym duration = nat

named_theorems msg_simps \<open>unfolding rules for message and request dispatch\<close>
named_theorems map_simps \<open>lookups after an update of a modelled map\<close>

definition str :: "string \<Rightarrow> rstr" where
  "str s = map of_char s"

abbreviation millis_ns :: nat where
  "millis_ns \<equiv> 1000000"

abbreviation secs_ns :: nat where
  "secs_ns \<equiv> 1000000000"

section \<open>Results\<close>

fun result_bind :: "'e + 'a \<Rightarrow> ('a \<Rightarrow> 'e + 'b) \<Rightarrow> 'e + 'b" where
  "result_bind (Inl e) f = Inl e"
| "result_bind (Inr a) f = f a"

fun is_ok :: "'e + 'a \<Rightarrow> bool" where
  "is_ok (Inl e) = False"
| "is_ok (Inr a) = True"

lemma result_bind_cong [fundef_cong]:
  "r = r' \<Longrightarrow> (\<And>a. r' = Inr a \<Longrightarrow> f a = f' a) \<Longrightarrow> result_bind r f = result_bind r' f'"
  by (cases r') auto

lemma result_bind_Inr_iff [simp]:
  "result_bind r f = Inr b \<longleftrightarrow> (\<exists>a. r = Inr a \<and> f a = Inr b)"
  by (cases r) auto

lemma result_bind_Inl_iff:
  "result_bind r f = Inl e \<longleftrightarrow> r = Inl e \<or> (\<exists>a. r = Inr a \<and> f a = Inl e)"
  by (cases r) auto

text \<open>\<open>Option::ok_or\<close> and \<open>Result::map_err\<close>; with \<open>result_bind\<close> they render the \<open>?\<close> operator.\<close>

definition ok_or :: "'e \<Rightarrow> 'a option \<Rightarrow> 'e + 'a" where
  "ok_or e x = (case x of None \<Rightarrow> Inl e | Some a \<Rightarrow> Inr a)"

definition map_err :: "('e \<Rightarrow> 'f) \<Rightarrow> 'e + 'a \<Rightarrow> 'f + 'a" where
  "map_err f r = (case r of Inl e \<Rightarrow> Inl (f e) | Inr a \<Rightarrow> Inr a)"

lemma ok_or_simps [simp]: "ok_or e None = Inl e" "ok_or e (Some a) = Inr a"
  by (simp_all add: ok_or_def)

lemma ok_or_Inr_iff [simp]: "ok_or e x = Inr a \<longleftrightarrow> x = Some a"
  by (cases x) auto

lemma map_err_simps [simp]: "map_err f (Inl e) = Inl (f e)" "map_err f (Inr a) = Inr a"
  by (simp_all add: map_err_def)

lemma map_err_Inr_iff [simp]: "map_err f r = Inr a \<longleftrightarrow> r = Inr a"
  by (cases r) auto

lemma if_Inl_Inr_iff [simp]: "(if c then Inl e else r) = Inr a \<longleftrightarrow> \<not> c \<and> r = Inr a"
  by simp

lemma is_ok_iff: "is_ok r \<longleftrightarrow> (\<exists>a. r = Inr a)"
  by (cases r) auto

section \<open>Text\<close>

text \<open>The UTF-8 length of one scalar value and of a string.\<close>

definition utf8_width :: "nat \<Rightarrow> nat" where
  "utf8_width c = (if c < 0x80 then 1 else if c < 0x800 then 2 else if c < 0x10000 then 3 else 4)"

definition utf8_len :: "rstr \<Rightarrow> nat" where
  "utf8_len s = sum_list (map utf8_width s)"

text \<open>\<open>char::is_control\<close>: the general category Cc.\<close>

definition is_control :: "nat \<Rightarrow> bool" where
  "is_control c \<longleftrightarrow> c < 0x20 \<or> (0x7f \<le> c \<and> c < 0xa0)"

lemma utf8_len_Nil [simp]: "utf8_len [] = 0"
  by (simp add: utf8_len_def)

lemma utf8_len_Cons [simp]: "utf8_len (c # s) = utf8_width c + utf8_len s"
  by (simp add: utf8_len_def)

lemma utf8_len_append [simp]: "utf8_len (s @ t) = utf8_len s + utf8_len t"
  by (simp add: utf8_len_def)

lemma utf8_width_pos [simp]: "0 < utf8_width c"
  by (simp add: utf8_width_def)

lemma length_le_utf8_len: "length s \<le> utf8_len s"
proof (induction s)
  case Nil
  then show ?case by simp
next
  case (Cons c s)
  moreover have "1 \<le> utf8_width c" using utf8_width_pos [of c] by linarith
  ultimately show ?case by simp
qed

section \<open>Lists and options\<close>

lemma filter_True_id: "(\<And>x. x \<in> set xs \<Longrightarrow> P x) \<Longrightarrow> filter P xs = xs"
  by (induction xs) auto

lemma sum_list_filter_le: "sum_list (map (f :: 'a \<Rightarrow> nat) (filter P xs)) \<le> sum_list (map f xs)"
  by (induction xs) auto

lemma find_Some_in: "find P xs = Some x \<Longrightarrow> x \<in> set xs \<and> P x"
  by (auto simp: find_Some_iff in_set_conv_nth)

text \<open>\<open>Option::take_if\<close>: what is left behind, when \<open>p\<close> holds of the content it is taken.\<close>

definition keep_unless :: "('a \<Rightarrow> bool) \<Rightarrow> 'a option \<Rightarrow> 'a option" where
  "keep_unless p x = (case x of None \<Rightarrow> None | Some a \<Rightarrow> if p a then None else Some a)"

lemma keep_unless_simps [simp]:
  "keep_unless p None = None"
  "keep_unless p (Some a) = (if p a then None else Some a)"
  by (simp_all add: keep_unless_def)

lemma keep_unless_Some: "keep_unless p x = Some a \<longleftrightarrow> x = Some a \<and> \<not> p a"
  by (cases x) auto

section \<open>Words\<close>

lemma u64_succ_greater:
  assumes "(c :: u64) \<noteq> -1"
  shows "c < c + 1"
proof -
  have "c + 1 \<noteq> 0" using assms max_word_wrap by blast
  then show ?thesis by (simp add: word_less_nat_alt unatSuc add.commute [of c])
qed

end
