(* ===== verification/Rust_Maps.thy ===== *)
theory Rust_Maps
  imports Prelude "HOL-Library.AList"
begin

text \<open>
  The two map types of the sources. A \<open>HashMap\<close> is an association list with distinct keys, so
  that its iteration order is an arbitrary one and every fact proved about the list holds for
  whichever order the hasher picks; a \<open>BTreeMap\<close> is an association list sorted by key, which is
  the order its iterators use. The locale \<open>rust_map\<close> is what clients rely on; both
  representations interpret it.
\<close>

type_synonym ('k, 'v) hmap = "('k \<times> 'v) list"
type_synonym ('k, 'v) btmap = "('k \<times> 'v) list"

section \<open>The interface\<close>

locale rust_map =
  fixes insert_op :: "'k \<Rightarrow> 'v \<Rightarrow> ('k \<times> 'v) list \<Rightarrow> ('k \<times> 'v) list"
    and remove_op :: "'k \<Rightarrow> ('k \<times> 'v) list \<Rightarrow> ('k \<times> 'v) list"
    and invar :: "('k \<times> 'v) list \<Rightarrow> bool"
  assumes get_insert: "map_of (insert_op k v m) = (map_of m)(k \<mapsto> v)"
    and get_remove: "invar m \<Longrightarrow> map_of (remove_op k m) = (map_of m)(k := None)"
    and invar_empty: "invar []"
    and invar_insert: "invar m \<Longrightarrow> invar (insert_op k v m)"
    and invar_remove: "invar m \<Longrightarrow> invar (remove_op k m)"
    and invar_filter: "invar m \<Longrightarrow> invar (filter P m)"
    and invar_distinct: "invar m \<Longrightarrow> distinct (map fst m)"
begin

lemmas map_specs = get_insert get_remove invar_empty invar_insert invar_remove invar_filter

lemma get_iff_mem: "invar m \<Longrightarrow> map_of m k = Some v \<longleftrightarrow> (k, v) \<in> set m"
  using invar_distinct map_of_eq_Some_iff by metis

lemma get_filter:
  assumes "invar m"
  shows "map_of (filter P m) k = (case map_of m k of None \<Rightarrow> None | Some v \<Rightarrow> if P (k, v) then Some v else None)"
proof (cases "map_of m k")
  case None
  then have "k \<notin> fst ` set m" by (simp add: map_of_eq_None_iff)
  then have "map_of (filter P m) k = None" by (auto simp: map_of_eq_None_iff)
  with None show ?thesis by simp
next
  case (Some v)
  have mem: "\<And>w. (k, w) \<in> set m \<Longrightarrow> w = v"
    using Some get_iff_mem [OF assms] by (metis option.inject)
  show ?thesis
  proof (cases "P (k, v)")
    case True
    with Some have "(k, v) \<in> set (filter P m)" by (auto dest: map_of_SomeD)
    with get_iff_mem [OF invar_filter [OF assms]] show ?thesis using Some True by simp
  next
    case False
    with mem have "k \<notin> fst ` set (filter P m)" by auto
    then show ?thesis using Some False by (simp add: map_of_eq_None_iff)
  qed
qed

text \<open>Inserting a sequence of pairs, as a \<open>for\<close> loop over \<open>insert\<close> does: the last write wins.\<close>

lemma get_fold_insert:
  "map_of (fold (\<lambda>(k, v). insert_op k v) kvs m) k =
     (case map_of (rev kvs) k of None \<Rightarrow> map_of m k | Some v \<Rightarrow> Some v)"
proof (induction kvs arbitrary: m)
  case Nil
  then show ?case by simp
next
  case (Cons kv kvs)
  obtain k' v' where kv: "kv = (k', v')" by (cases kv)
  show ?case
    by (simp add: Cons.IH kv get_insert map_of_append map_add_def split: option.splits)
qed

lemma invar_fold_insert: "invar m \<Longrightarrow> invar (fold (\<lambda>(k, v). insert_op k v) kvs m)"
  by (induction kvs arbitrary: m) (auto simp: invar_insert)

end

section \<open>HashMap\<close>

abbreviation hm_invar :: "('k, 'v) hmap \<Rightarrow> bool" where
  "hm_invar m \<equiv> distinct (map fst m)"

definition hm_insert :: "'k \<Rightarrow> 'v \<Rightarrow> ('k, 'v) hmap \<Rightarrow> ('k, 'v) hmap" where
  "hm_insert = AList.update"

definition hm_remove :: "'k \<Rightarrow> ('k, 'v) hmap \<Rightarrow> ('k, 'v) hmap" where
  "hm_remove = AList.delete"

interpretation hm: rust_map hm_insert hm_remove hm_invar
proof unfold_locales
  fix k :: 'a and v :: 'b and m :: "('a, 'b) hmap"
  show "map_of (hm_insert k v m) = (map_of m)(k \<mapsto> v)"
    by (simp add: hm_insert_def update_conv')
  show "map_of (hm_remove k m) = (map_of m)(k := None)"
    by (simp add: hm_remove_def delete_conv')
  show "hm_invar m \<Longrightarrow> hm_invar (hm_insert k v m)"
    by (simp add: hm_insert_def distinct_update)
  show "hm_invar m \<Longrightarrow> hm_invar (hm_remove k m)"
    by (simp add: hm_remove_def distinct_delete)
  show "hm_invar m \<Longrightarrow> hm_invar (filter P m)" for P
    by (rule distinct_map_filter)
qed simp_all

declare hm.get_insert [map_simps] hm.invar_insert [intro] hm.invar_remove [intro]

lemma hm_get_remove [map_simps]: "map_of (hm_remove k m) = (map_of m)(k := None)"
  by (simp add: hm_remove_def delete_conv')

lemma hm_insert_code [simp]:
  "hm_insert k v [] = [(k, v)]"
  "hm_insert k v ((k', w) # m) = (if k' = k then (k, v) # m else (k', w) # hm_insert k v m)"
  by (simp_all add: hm_insert_def)

lemma hm_remove_code [simp]:
  "hm_remove k [] = []"
  "hm_remove k ((k', w) # m) = (if k' = k then hm_remove k m else (k', w) # hm_remove k m)"
  by (simp_all add: hm_remove_def)

lemma set_hm_insert_subset: "set (hm_insert k v m) \<subseteq> insert (k, v) (set m)"
  by (induction m) (auto split: if_splits)

lemma set_hm_remove_subset: "set (hm_remove k m) \<subseteq> set m"
  by (induction m) (auto split: if_splits)

lemma length_hm_insert:
  "length (hm_insert k v m) = (if k \<in> fst ` set m then length m else Suc (length m))"
  by (induction m) (auto simp: rev_image_eqI)

lemma length_hm_remove_le: "length (hm_remove k m) \<le> length m"
  by (induction m) auto

lemma keys_hm_insert: "fst ` set (hm_insert k v m) = insert k (fst ` set m)"
  by (simp add: dom_map_of_conv_image_fst [symmetric] map_simps)

lemma keys_hm_remove: "fst ` set (hm_remove k m) = fst ` set m - {k}"
  by (auto simp add: dom_map_of_conv_image_fst [symmetric] map_simps split: if_splits)

text \<open>A sum over the values, after an insertion: the old value of the key is replaced.\<close>

lemma sum_hm_insert:
  fixes f :: "'k \<times> 'v \<Rightarrow> nat"
  assumes "hm_invar m"
  shows "sum_list (map f (hm_insert k v m)) + (case map_of m k of None \<Rightarrow> 0 | Some w \<Rightarrow> f (k, w)) =
    sum_list (map f m) + f (k, v)"
  using assms
proof (induction m)
  case (Cons kw m)
  obtain k' w where "kw = (k', w)" by (cases kw)
  with Cons show ?case by (auto split: option.splits)
qed simp

text \<open>\<open>values_mut\<close> and a \<open>retain\<close> that never drops: rewriting every value in place.\<close>

lemma hm_map_values: "map_of (map (\<lambda>(k, v). (k, f k v)) m) k = map_option (f k) (map_of m k)"
  by (induction m) auto

section \<open>BTreeMap\<close>

fun bt_insert :: "'k :: linorder \<Rightarrow> 'v \<Rightarrow> ('k, 'v) btmap \<Rightarrow> ('k, 'v) btmap" where
  "bt_insert k v [] = [(k, v)]"
| "bt_insert k v ((k', w) # m) =
     (if k < k' then (k, v) # (k', w) # m
      else if k = k' then (k, v) # m
      else (k', w) # bt_insert k v m)"

fun bt_remove :: "'k :: linorder \<Rightarrow> ('k, 'v) btmap \<Rightarrow> ('k, 'v) btmap" where
  "bt_remove k [] = []"
| "bt_remove k ((k', w) # m) = (if k = k' then m else (k', w) # bt_remove k m)"

definition bt_invar :: "('k :: linorder, 'v) btmap \<Rightarrow> bool" where
  "bt_invar m \<longleftrightarrow> sorted_wrt (<) (map fst m)"

lemma bt_invar_Nil [simp]: "bt_invar []"
  by (simp add: bt_invar_def)

lemma bt_invar_Cons [simp]:
  "bt_invar ((k, v) # m) \<longleftrightarrow> (\<forall>k' \<in> fst ` set m. k < k') \<and> bt_invar m"
  by (auto simp: bt_invar_def)

lemma keys_bt_insert: "fst ` set (bt_insert k v m) = insert k (fst ` set m)"
  by (induction k v m rule: bt_insert.induct) auto

lemma set_bt_remove_subset: "set (bt_remove k m) \<subseteq> set m"
  by (induction m) (auto split: if_splits)

lemma bt_invar_insert: "bt_invar m \<Longrightarrow> bt_invar (bt_insert k v m)"
proof (induction k v m rule: bt_insert.induct)
  case (1 k v)
  then show ?case by simp
next
  case (2 k v k' w m)
  show ?case
  proof (cases "k < k'")
    case True
    with "2.prems" show ?thesis by (auto simp: less_trans)
  next
    case False
    with 2 show ?thesis by (auto simp: keys_bt_insert)
  qed
qed

lemma bt_invar_remove: "bt_invar m \<Longrightarrow> bt_invar (bt_remove k m)"
proof (induction m)
  case Nil
  then show ?case by simp
next
  case (Cons kv m)
  obtain k' w where kv: "kv = (k', w)" by (cases kv)
  from Cons show ?case using set_bt_remove_subset [of k m] by (auto simp: kv)
qed

interpretation bt: rust_map bt_insert bt_remove bt_invar
proof unfold_locales
  fix k :: 'a and v :: 'b and m :: "('a, 'b) btmap"
  show "map_of (bt_insert k v m) = (map_of m)(k \<mapsto> v)"
    by (induction m) (auto simp: fun_eq_iff)
  show "bt_invar m \<Longrightarrow> map_of (bt_remove k m) = (map_of m)(k := None)"
  proof (induction m)
    case (Cons kv m)
    obtain k' w where kv: "kv = (k', w)" by (cases kv)
    show ?case
    proof (cases "k = k'")
      case True
      with Cons.prems have "k \<notin> fst ` set m" by (auto simp: kv)
      then have "map_of m k = None" by (simp add: map_of_eq_None_iff)
      with True show ?thesis by (auto simp: kv fun_eq_iff)
    next
      case False
      with Cons show ?thesis by (auto simp: kv fun_eq_iff)
    qed
  qed simp
  show "bt_invar m \<Longrightarrow> bt_invar (filter P m)" for P
    by (induction m) auto
  show "bt_invar m \<Longrightarrow> hm_invar m"
    by (auto simp: bt_invar_def strict_sorted_iff)
qed (simp_all add: bt_invar_insert bt_invar_remove)

declare bt.get_insert [map_simps]

text \<open>Two ordered maps with the same lookups are the same list: iteration order is canonical.\<close>

lemma bt_ext:
  assumes "bt_invar m" "bt_invar m'" "map_of m = map_of m'"
  shows "m = m'"
proof -
  have mem: "set m = set m'"
    using assms bt.get_iff_mem by (metis (no_types, lifting) subsetI subset_antisym surj_pair)
  have "sorted (map fst m)" "distinct (map fst m)" "sorted (map fst m')" "distinct (map fst m')"
    using assms(1,2) by (auto simp: bt_invar_def strict_sorted_iff)
  moreover have "inj_on fst (set m \<union> set m')"
    using mem assms(1) bt.invar_distinct [of m] by (auto simp: distinct_map)
  ultimately show ?thesis
    using mem by (intro map_sorted_distinct_set_unique [where f = fst]) (auto simp: inj_on_def)
qed

end
