(* ===== verification/Text.thy ===== *)
theory Text
  imports Rust_Maps
begin

text \<open>
  The part of Rust's \<open>str\<close> the key and path code uses: UTF-8 encoding and strict decoding
  (\<open>as_bytes\<close>, \<open>std::str::from_utf8\<close>), \<open>split\<close>, \<open>split_once\<close>, \<open>join\<close> and the trimming functions.
  The decoder refuses what \<open>from_utf8\<close> refuses (overlong forms, surrogates, values past U+10FFFF),
  and the two round trips below say that it is the exact inverse of the encoder.
\<close>

section \<open>UTF-8\<close>

definition scalar :: "nat \<Rightarrow> bool" where
  "scalar c \<longleftrightarrow> c < 0xD800 \<or> (0xE000 \<le> c \<and> c < 0x110000)"

definition valid_str :: "rstr \<Rightarrow> bool" where
  "valid_str s \<longleftrightarrow> list_all scalar s"

definition utf8_char :: "nat \<Rightarrow> nat list" where
  "utf8_char c =
     (if c < 0x80 then [c]
      else if c < 0x800 then [0xC0 + c div 64, 0x80 + c mod 64]
      else if c < 0x10000 then [0xE0 + c div 4096, 0x80 + c div 64 mod 64, 0x80 + c mod 64]
      else [0xF0 + c div 262144, 0x80 + c div 4096 mod 64, 0x80 + c div 64 mod 64, 0x80 + c mod 64])"

definition as_bytes :: "rstr \<Rightarrow> bytes" where
  "as_bytes s = map of_nat (concat (map utf8_char s))"

definition is_cont :: "nat \<Rightarrow> bool" where
  "is_cont b \<longleftrightarrow> 0x80 \<le> b \<and> b < 0xC0"

text \<open>One step of the decoder: the scalar value at the front and the bytes it took.\<close>

definition utf8_step :: "nat list \<Rightarrow> (nat \<times> nat) option" where
  "utf8_step bs = (case bs of
      [] \<Rightarrow> None
    | b # r \<Rightarrow>
       if b < 0x80 then Some (b, 1)
       else if 0xC2 \<le> b \<and> b < 0xE0 then
         (case r of b1 # _ \<Rightarrow> if is_cont b1 then Some ((b - 0xC0) * 64 + (b1 - 0x80), 2) else None
          | _ \<Rightarrow> None)
       else if 0xE0 \<le> b \<and> b < 0xF0 then
         (case r of b1 # b2 # _ \<Rightarrow>
            (let c = (b - 0xE0) * 4096 + (b1 - 0x80) * 64 + (b2 - 0x80) in
             if is_cont b1 \<and> is_cont b2 \<and> 0x800 \<le> c \<and> scalar c then Some (c, 3) else None)
          | _ \<Rightarrow> None)
       else if 0xF0 \<le> b \<and> b < 0xF5 then
         (case r of b1 # b2 # b3 # _ \<Rightarrow>
            (let c = (b - 0xF0) * 262144 + (b1 - 0x80) * 4096 + (b2 - 0x80) * 64 + (b3 - 0x80) in
             if is_cont b1 \<and> is_cont b2 \<and> is_cont b3 \<and> 0x10000 \<le> c \<and> scalar c
             then Some (c, 4) else None)
          | _ \<Rightarrow> None)
       else None)"

lemma utf8_step_pos: "utf8_step bs = Some (c, n) \<Longrightarrow> 0 < n \<and> bs \<noteq> []"
  by (auto simp: utf8_step_def Let_def split: list.splits if_splits)

function utf8_decode :: "nat list \<Rightarrow> rstr option" where
  "utf8_decode bs =
     (if bs = [] then Some []
      else case utf8_step bs of
          None \<Rightarrow> None
        | Some (c, n) \<Rightarrow> map_option (Cons c) (utf8_decode (drop n bs)))"
  by pat_completeness auto
termination
  by (relation "measure length") (auto dest: utf8_step_pos simp: diff_less)

declare utf8_decode.simps [simp del]

definition from_utf8 :: "bytes \<Rightarrow> rstr option" where
  "from_utf8 bs = utf8_decode (map unat bs)"

lemma utf8_decode_Nil [simp]: "utf8_decode [] = Some []"
  by (simp add: utf8_decode.simps)

lemma utf8_char_lt: "scalar c \<Longrightarrow> b \<in> set (utf8_char c) \<Longrightarrow> b < 256"
  by (auto simp: utf8_char_def scalar_def split: if_splits)

lemma utf8_char_nonempty [simp]: "utf8_char c \<noteq> []"
  by (simp add: utf8_char_def)

lemma length_utf8_char: "length (utf8_char c) = utf8_width c"
  by (simp add: utf8_char_def utf8_width_def)

lemma length_as_bytes [simp]: "length (as_bytes s) = utf8_len s"
  by (induction s) (auto simp: as_bytes_def length_utf8_char)

lemma as_bytes_Nil [simp]: "as_bytes [] = []"
  by (simp add: as_bytes_def)

lemma as_bytes_append [simp]: "as_bytes (s @ t) = as_bytes s @ as_bytes t"
  by (simp add: as_bytes_def)

lemma as_bytes_ascii: "c < 0x80 \<Longrightarrow> as_bytes (c # s) = of_nat c # as_bytes s"
  by (simp add: as_bytes_def utf8_char_def)

lemma base64_digits:
  fixes c :: nat
  shows "c div 4096 * 4096 + c div 64 mod 64 * 64 + c mod 64 = c"
    and "c div 262144 * 262144 + c div 4096 mod 64 * 4096 + c div 64 mod 64 * 64 + c mod 64 = c"
proof -
  have 1: "c div 64 * 64 + c mod 64 = c" by simp
  have 2: "c div 4096 * 64 + c div 64 mod 64 = c div 64"
    using div_mult_mod_eq [of "c div 64" 64] div_mult2_eq [of c 64 64] by simp
  have 3: "c div 262144 * 64 + c div 4096 mod 64 = c div 4096"
    using div_mult_mod_eq [of "c div 4096" 64] div_mult2_eq [of c 4096 64] by simp
  show "c div 4096 * 4096 + c div 64 mod 64 * 64 + c mod 64 = c"
    using 1 2 by linarith
  show "c div 262144 * 262144 + c div 4096 mod 64 * 4096 + c div 64 mod 64 * 64 + c mod 64 = c"
    using 1 2 3 by linarith
qed

lemma utf8_step_char:
  assumes "scalar c"
  shows "utf8_step (utf8_char c @ bs) = Some (c, length (utf8_char c))"
proof -
  consider (1) "c < 0x80" | (2) "0x80 \<le> c" "c < 0x800" | (3) "0x800 \<le> c" "c < 0x10000"
    | (4) "0x10000 \<le> c" by linarith
  then show ?thesis
  proof cases
    case 1
    then show ?thesis by (simp add: utf8_step_def utf8_char_def)
  next
    case 2
    have "2 \<le> c div 64" "c div 64 < 32" using 2 by (simp_all add: div_le_mono less_mult_imp_div_less)
    moreover have "c div 64 * 64 + c mod 64 = c" by simp
    ultimately show ?thesis using 2 by (simp add: utf8_step_def utf8_char_def is_cont_def)
  next
    case 3
    have "c div 4096 < 16" using 3 by (simp add: less_mult_imp_div_less)
    then show ?thesis using 3 assms base64_digits(1) [of c]
      by (simp add: utf8_step_def utf8_char_def is_cont_def Let_def)
  next
    case 4
    then have lt: "c < 0x110000" using assms by (auto simp: scalar_def)
    have "c div 262144 < 5" using lt by (simp add: less_mult_imp_div_less)
    then show ?thesis using 4 assms base64_digits(2) [of c]
      by (simp add: utf8_step_def utf8_char_def is_cont_def Let_def)
  qed
qed

lemma utf8_decode_encode: "valid_str s \<Longrightarrow> utf8_decode (concat (map utf8_char s)) = Some s"
proof (induction s)
  case Nil
  then show ?case by simp
next
  case (Cons c s)
  then have "scalar c" by (simp add: valid_str_def)
  with Cons show ?case
    by (subst utf8_decode.simps) (simp add: utf8_step_char valid_str_def)
qed

lemma unat_of_nat_u8: "n < 256 \<Longrightarrow> unat (of_nat n :: u8) = n"
  by (simp add: unat_of_nat)

lemma map_unat_as_bytes:
  assumes "valid_str s"
  shows "map unat (as_bytes s) = concat (map utf8_char s)"
proof -
  have "\<forall>b \<in> set (concat (map utf8_char s)). b < 256"
    using assms utf8_char_lt by (fastforce simp: valid_str_def list_all_iff)
  then have "map (unat \<circ> (of_nat :: nat \<Rightarrow> u8)) (concat (map utf8_char s)) = concat (map utf8_char s)"
    by (intro map_idI) (auto simp: unat_of_nat_u8)
  then show ?thesis by (simp add: as_bytes_def)
qed

lemma from_utf8_as_bytes: "valid_str s \<Longrightarrow> from_utf8 (as_bytes s) = Some s"
  by (simp add: from_utf8_def map_unat_as_bytes utf8_decode_encode)

lemma as_bytes_inj: "valid_str s \<Longrightarrow> valid_str t \<Longrightarrow> as_bytes s = as_bytes t \<Longrightarrow> s = t"
  by (metis from_utf8_as_bytes option.inject)

text \<open>Conversely, whatever the strict decoder accepts is the encoding of what it returns.\<close>

lemma digit64: "c = q * 64 + z \<Longrightarrow> z < 64 \<Longrightarrow> c div 64 = q \<and> c mod 64 = z" for c q z :: nat
  by simp

lemma utf8_step_inv:
  assumes "utf8_step bs = Some (c, n)"
  shows "scalar c \<and> bs = utf8_char c @ drop n bs"
proof -
  obtain b r where bs: "bs = b # r" using assms utf8_step_pos by (metis list.exhaust)
  consider (1) "b < 0x80" | (2) "0xC2 \<le> b" "b < 0xE0" | (3) "0xE0 \<le> b" "b < 0xF0"
    | (4) "0xF0 \<le> b" "b < 0xF5"
    using assms by (auto simp: utf8_step_def bs split: if_splits)
  then show ?thesis
  proof cases
    case 1
    then show ?thesis using assms by (auto simp: utf8_step_def bs utf8_char_def scalar_def)
  next
    case 2
    then obtain b1 r' where r: "r = b1 # r'" and n: "n = 2" and cont: "0x80 \<le> b1" "b1 < 0xC0"
      and c: "c = (b - 0xC0) * 64 + (b1 - 0x80)"
      using assms by (auto simp: utf8_step_def bs is_cont_def split: list.splits if_splits)
    have "0xC0 \<le> b" using 2 by linarith
    then obtain x y where xy: "b = 0xC0 + x" "b1 = 0x80 + y"
      using cont by (metis le_add_diff_inverse)
    have "c div 64 = x" "c mod 64 = y" "0x80 \<le> c" "c < 0x800"
      using 2 cont by (simp_all add: c xy)
    then show ?thesis using 2 cont by (auto simp: bs r n xy utf8_char_def scalar_def)
  next
    case 3
    then obtain b1 b2 r' where r: "r = b1 # b2 # r'" and n: "n = 3"
      and cont: "0x80 \<le> b1" "b1 < 0xC0" "0x80 \<le> b2" "b2 < 0xC0"
      and c: "c = (b - 0xE0) * 4096 + (b1 - 0x80) * 64 + (b2 - 0x80)"
      and lo: "0x800 \<le> c" and sc: "scalar c"
      using assms by (auto simp: utf8_step_def bs is_cont_def Let_def split: list.splits if_splits)
    obtain x y z where xyz: "b = 0xE0 + x" "b1 = 0x80 + y" "b2 = 0x80 + z"
      using 3 cont by (metis le_add_diff_inverse)
    have "c = (x * 64 + y) * 64 + z" "z < 64" using cont by (simp_all add: c xyz)
    then have d: "c div 64 = x * 64 + y" "c mod 64 = z" using digit64 by blast+
    have "c div 4096 = x" using d(1) cont div_mult2_eq [of c 64 64] by (simp add: xyz)
    moreover have "c div 64 mod 64 = y" using d(1) cont by (simp add: xyz)
    moreover have "c < 0x10000" using 3 cont by (simp add: c xyz)
    ultimately show ?thesis using lo sc d by (auto simp: bs r n xyz utf8_char_def)
  next
    case 4
    then obtain b1 b2 b3 r' where r: "r = b1 # b2 # b3 # r'" and n: "n = 4"
      and cont: "0x80 \<le> b1" "b1 < 0xC0" "0x80 \<le> b2" "b2 < 0xC0" "0x80 \<le> b3" "b3 < 0xC0"
      and c: "c = (b - 0xF0) * 262144 + (b1 - 0x80) * 4096 + (b2 - 0x80) * 64 + (b3 - 0x80)"
      and lo: "0x10000 \<le> c" and sc: "scalar c"
      using assms by (auto simp: utf8_step_def bs is_cont_def Let_def split: list.splits if_splits)
    obtain x y z w where xyz: "b = 0xF0 + x" "b1 = 0x80 + y" "b2 = 0x80 + z" "b3 = 0x80 + w"
      using 4 cont by (metis le_add_diff_inverse)
    have "c = (x * 4096 + y * 64 + z) * 64 + w" "w < 64" using cont by (simp_all add: c xyz)
    then have d: "c div 64 = x * 4096 + y * 64 + z" "c mod 64 = w" using digit64 by blast+
    have "c div 64 = (x * 64 + y) * 64 + z" "z < 64" using d(1) cont by (simp_all add: xyz)
    then have z: "c div 64 div 64 = x * 64 + y" "c div 64 mod 64 = z" using digit64 by blast+
    have e: "c div 4096 = x * 64 + y" using z(1) div_mult2_eq [of c 64 64] by simp
    have "c div 64 mod 64 = z" by (rule z(2))
    moreover have "c div 262144 = x" using e cont div_mult2_eq [of c 4096 64] by (simp add: xyz)
    moreover have "c div 4096 mod 64 = y" using e cont by (simp add: xyz)
    ultimately show ?thesis using lo sc d by (auto simp: bs r n xyz utf8_char_def)
  qed
qed

lemma utf8_decode_inv:
  "utf8_decode bs = Some s \<Longrightarrow> valid_str s \<and> concat (map utf8_char s) = bs"
proof (induction bs arbitrary: s rule: utf8_decode.induct)
  case (1 bs)
  show ?case
  proof (cases "bs = []")
    case True
    then show ?thesis using "1.prems" by (auto simp: valid_str_def)
  next
    case False
    with "1.prems" obtain c n s' where step: "utf8_step bs = Some (c, n)"
      and rest: "utf8_decode (drop n bs) = Some s'" and s: "s = c # s'"
      by (subst (asm) utf8_decode.simps) (auto split: option.splits)
    have "valid_str s' \<and> concat (map utf8_char s') = drop n bs"
      using "1.IH" [OF False step refl rest] .
    then show ?thesis using utf8_step_inv [OF step] by (simp add: s valid_str_def)
  qed
qed

lemma from_utf8_inv: "from_utf8 bs = Some s \<Longrightarrow> valid_str s \<and> as_bytes s = bs"
  using utf8_decode_inv [of "map unat bs" s] by (auto simp: from_utf8_def as_bytes_def o_def)

lemma from_utf8_iff: "from_utf8 bs = Some s \<longleftrightarrow> valid_str s \<and> as_bytes s = bs"
  using from_utf8_as_bytes from_utf8_inv by blast

section \<open>Splitting and trimming\<close>

fun split_on :: "nat \<Rightarrow> rstr \<Rightarrow> rstr list" where
  "split_on d [] = [[]]"
| "split_on d (c # s) =
     (if c = d then [] # split_on d s
      else case split_on d s of [] \<Rightarrow> [[c]] | w # ws \<Rightarrow> (c # w) # ws)"

fun join_with :: "nat \<Rightarrow> rstr list \<Rightarrow> rstr" where
  "join_with d [] = []"
| "join_with d [w] = w"
| "join_with d (w # w' # ws) = w @ d # join_with d (w' # ws)"

fun split_once :: "nat \<Rightarrow> rstr \<Rightarrow> (rstr \<times> rstr) option" where
  "split_once d [] = None"
| "split_once d (c # s) =
     (if c = d then Some ([], s)
      else map_option (\<lambda>(a, b). (c # a, b)) (split_once d s))"

definition trim_start :: "(nat \<Rightarrow> bool) \<Rightarrow> rstr \<Rightarrow> rstr" where
  "trim_start p s = dropWhile p s"

definition trim_end :: "(nat \<Rightarrow> bool) \<Rightarrow> rstr \<Rightarrow> rstr" where
  "trim_end p s = rev (dropWhile p (rev s))"

text \<open>\<open>char::is_whitespace\<close> (the Unicode property White_Space) and \<open>str::trim\<close>.\<close>

definition is_whitespace :: "nat \<Rightarrow> bool" where
  "is_whitespace c \<longleftrightarrow>
     (9 \<le> c \<and> c \<le> 13) \<or> c \<in> {32, 133, 160, 5760, 8232, 8233, 8239, 8287, 12288}
     \<or> (8192 \<le> c \<and> c \<le> 8202)"

definition trim :: "rstr \<Rightarrow> rstr" where
  "trim s = trim_end is_whitespace (trim_start is_whitespace s)"

lemma trim_id:
  assumes "s \<noteq> []" "\<not> is_whitespace (hd s)" "\<not> is_whitespace (last s)"
  shows "trim s = s"
proof -
  have "trim_start is_whitespace s = s"
    using assms(1,2) by (cases s) (auto simp: trim_start_def)
  moreover have "trim_end is_whitespace s = s"
    using assms(1,3) by (cases s rule: rev_cases) (auto simp: trim_end_def)
  ultimately show ?thesis by (simp add: trim_def)
qed

lemma split_on_nonempty [simp]: "split_on d s \<noteq> []"
  by (induction s) (auto split: list.splits)

lemma join_split: "join_with d (split_on d s) = s"
proof (induction s)
  case Nil
  then show ?case by simp
next
  case (Cons c s)
  obtain w ws where ws: "split_on d s = w # ws" by (cases "split_on d s") auto
  with Cons show ?case by (cases ws) (auto)
qed

lemma split_on_no_delim: "w \<in> set (split_on d s) \<Longrightarrow> d \<notin> set w"
proof (induction s arbitrary: w)
  case Nil
  then show ?case by simp
next
  case (Cons c s)
  obtain v ws where ws: "split_on d s = v # ws" by (cases "split_on d s") auto
  with Cons show ?case by (auto split: if_splits)
qed

lemma split_on_append: "d \<notin> set w \<Longrightarrow> split_on d (w @ d # s) = w # split_on d s"
  by (induction w) auto

lemma split_on_single: "d \<notin> set w \<Longrightarrow> split_on d w = [w]"
  by (induction w) auto

lemma split_join: "ws \<noteq> [] \<Longrightarrow> \<forall>w \<in> set ws. d \<notin> set w \<Longrightarrow> split_on d (join_with d ws) = ws"
  by (induction d ws rule: join_with.induct) (auto simp: split_on_append split_on_single)

lemma set_split_on: "w \<in> set (split_on d s) \<Longrightarrow> set w \<subseteq> set s"
proof (induction s arbitrary: w)
  case Nil
  then show ?case by simp
next
  case (Cons c s)
  obtain v ws where ws: "split_on d s = v # ws" by (cases "split_on d s") auto
  have "\<And>u. u \<in> set (v # ws) \<Longrightarrow> set u \<subseteq> set s" using Cons.IH ws by simp
  with Cons.prems ws show ?case by (fastforce split: if_splits)
qed

lemma split_once_Some:
  "split_once d s = Some (a, b) \<longleftrightarrow> s = a @ d # b \<and> d \<notin> set a"
proof (induction s arbitrary: a)
  case Nil
  then show ?case by simp
next
  case (Cons c s)
  show ?case
  proof (cases "c = d")
    case True
    then show ?thesis by (cases a) auto
  next
    case False
    then show ?thesis by (cases a) (auto simp: Cons.IH)
  qed
qed

lemma valid_str_append [simp]: "valid_str (s @ t) \<longleftrightarrow> valid_str s \<and> valid_str t"
  by (simp add: valid_str_def)

lemma valid_str_Cons [simp]: "valid_str (c # s) \<longleftrightarrow> scalar c \<and> valid_str s"
  by (simp add: valid_str_def)

lemma valid_str_Nil [simp]: "valid_str []"
  by (simp add: valid_str_def)

lemma scalar_ascii [simp]: "c < 0x80 \<Longrightarrow> scalar c"
  by (simp add: scalar_def)

text \<open>A byte prefix that is itself encoded text ends at a character boundary of the whole.\<close>

lemma utf8_decode_append:
  "valid_str s \<Longrightarrow> utf8_decode (concat (map utf8_char s) @ bs) = map_option ((@) s) (utf8_decode bs)"
proof (induction s)
  case Nil
  then show ?case by (simp add: option.map_id0 map_option.id [unfolded id_def])
next
  case (Cons c s)
  then show ?case
    by (subst utf8_decode.simps) (cases "utf8_decode bs"; simp add: utf8_step_char)
qed

lemma as_bytes_prefix:
  assumes "as_bytes s @ rest = as_bytes t" "valid_str s" "valid_str t"
  shows "\<exists>r. valid_str r \<and> t = s @ r"
proof -
  have "from_utf8 (as_bytes s @ rest) = Some t"
    using assms by (simp add: from_utf8_as_bytes)
  then have "map_option ((@) s) (utf8_decode (map unat rest)) = Some t"
    using assms(2) by (simp add: from_utf8_def map_unat_as_bytes utf8_decode_append)
  then show ?thesis using utf8_decode_inv by auto
qed

end
