(* ===== verification/Keyspace.thy ===== *)
theory Keyspace
  imports Text
begin

text \<open>
  The trie keyspace: path normalisation (\<^verbatim>\<open>synch-core/src/path.rs\<close>) and the construction and
  parsing of every key family (\<^verbatim>\<open>synch-core/src/record.rs\<close>). Unicode normalisation is a
  third-party crate, so \<open>is_nfc\<close> and \<open>nfc\<close> are parameters; \<open>nfc_laws\<close> collects what Unicode
  documents of them. Curve-point validation of a device key is a parameter as well.
\<close>

section \<open>Paths (path.rs)\<close>

definition MAX_KEY_LEN :: nat where
  "MAX_KEY_LEN = 4096"

datatype path_error = Empty | LeadingSlash | EmptyComponent | DotComponent | ControlCharacter | TooLong

definition slash :: nat where
  "slash = 47"

text \<open>The loop of \<open>normalize_path\<close> over the components, with its output buffer.\<close>

fun push_components :: "rstr \<Rightarrow> rstr list \<Rightarrow> path_error + rstr" where
  "push_components out [] = Inr out"
| "push_components out (component # rest) =
     (if component = [] then Inl EmptyComponent
      else if component = str ''.'' \<or> component = str ''..'' then Inl DotComponent
      else push_components ((if out \<noteq> [] then out @ [slash] else out) @ component) rest)"

definition normalize_path :: "(rstr \<Rightarrow> bool) \<Rightarrow> (rstr \<Rightarrow> rstr) \<Rightarrow> rstr \<Rightarrow> path_error + rstr" where
  "normalize_path is_nfc nfc path =
     (if path = [] then Inl Empty
      else if hd path = slash then Inl LeadingSlash
      else if list_ex is_control path then Inl ControlCharacter
      else
        let normalized = (if is_nfc path then path else nfc path) in
        case push_components [] (split_on slash normalized) of
          Inl e \<Rightarrow> Inl e
        | Inr out \<Rightarrow>
            if out = [] then Inl Empty
            else if utf8_len out > MAX_KEY_LEN then Inl TooLong
            else Inr out)"

text \<open>\<open>std::path::Component\<close>; a \<open>Normal\<close> part is \<open>None\<close> when it is not UTF-8.\<close>

datatype component = Normal "rstr option" | CurDir | ParentDir | RootDir | Prefix

fun native_parts :: "component list \<Rightarrow> path_error + rstr list" where
  "native_parts [] = Inr []"
| "native_parts (Normal None # cs) = Inl ControlCharacter"
| "native_parts (Normal (Some part) # cs) = result_bind (native_parts cs) (\<lambda>ps. Inr (part # ps))"
| "native_parts (CurDir # cs) = native_parts cs"
| "native_parts (ParentDir # cs) = Inl DotComponent"
| "native_parts (RootDir # cs) = Inl LeadingSlash"
| "native_parts (Prefix # cs) = Inl LeadingSlash"

definition normalize_native_path ::
  "(rstr \<Rightarrow> bool) \<Rightarrow> (rstr \<Rightarrow> rstr) \<Rightarrow> component list \<Rightarrow> path_error + rstr" where
  "normalize_native_path is_nfc nfc path =
     result_bind (native_parts path) (\<lambda>parts. normalize_path is_nfc nfc (join_with slash parts))"

text \<open>What Unicode documents of NFC: the quick check is sound, normalising yields a normalised
  string, and neither control characters nor ill-formed text are introduced.\<close>

definition nfc_laws :: "(rstr \<Rightarrow> bool) \<Rightarrow> (rstr \<Rightarrow> rstr) \<Rightarrow> bool" where
  "nfc_laws is_nfc nfc \<longleftrightarrow>
     (\<forall>s. is_nfc (nfc s)) \<and>
     (\<forall>s. \<not> list_ex is_control s \<longrightarrow> \<not> list_ex is_control (nfc s)) \<and>
     (\<forall>s. valid_str s \<longrightarrow> valid_str (nfc s))"

section \<open>Keys (record.rs)\<close>

type_synonym hash = bytes
type_synonym node_id = bytes

datatype key_error = Space rstr | Path path_error | Malformed | KeyTooLong

definition PREFIX_FILE :: u8 where "PREFIX_FILE = 102"
definition PREFIX_BLOB :: u8 where "PREFIX_BLOB = 98"
definition PREFIX_MANIFEST :: u8 where "PREFIX_MANIFEST = 109"
definition PREFIX_DELEGATION :: u8 where "PREFIX_DELEGATION = 100"
definition PREFIX_REPLICA :: u8 where "PREFIX_REPLICA = 114"

definition colon :: u8 where "colon = 58"

lemmas prefix_defs = PREFIX_FILE_def PREFIX_BLOB_def PREFIX_MANIFEST_def PREFIX_DELEGATION_def
  PREFIX_REPLICA_def colon_def

definition validate_space :: "rstr \<Rightarrow> key_error + unit" where
  "validate_space space =
     (if space \<noteq> [] \<and> utf8_len space \<le> 63 \<and> slash \<notin> set space \<and> \<not> list_ex is_control space
      then Inr () else Inl (Space space))"

definition file_key ::
  "(rstr \<Rightarrow> bool) \<Rightarrow> (rstr \<Rightarrow> rstr) \<Rightarrow> rstr \<Rightarrow> rstr \<Rightarrow> key_error + bytes" where
  "file_key is_nfc nfc space path =
     result_bind (validate_space space) (\<lambda>_.
     result_bind (map_err Path (normalize_path is_nfc nfc path)) (\<lambda>path.
       let key = PREFIX_FILE # colon # as_bytes space @ of_nat slash # as_bytes path in
       if length key > MAX_KEY_LEN then Inl KeyTooLong else Inr key))"

definition space_prefix :: "rstr \<Rightarrow> key_error + bytes" where
  "space_prefix space =
     result_bind (validate_space space) (\<lambda>_.
       Inr (PREFIX_FILE # colon # as_bytes space @ [of_nat slash]))"

definition dir_prefix ::
  "(rstr \<Rightarrow> bool) \<Rightarrow> (rstr \<Rightarrow> rstr) \<Rightarrow> rstr \<Rightarrow> rstr \<Rightarrow> key_error + bytes" where
  "dir_prefix is_nfc nfc space dir =
     result_bind (space_prefix space) (\<lambda>key.
       let dir = trim_start (\<lambda>c. c = slash) dir in
       if dir \<noteq> [] then
         result_bind (map_err Path (normalize_path is_nfc nfc (trim_end (\<lambda>c. c = slash) dir)))
           (\<lambda>dir. Inr (key @ as_bytes dir @ [of_nat slash]))
       else Inr key)"

definition parse_file_key ::
  "(rstr \<Rightarrow> bool) \<Rightarrow> (rstr \<Rightarrow> rstr) \<Rightarrow> bytes \<Rightarrow> key_error + (rstr \<times> rstr)" where
  "parse_file_key is_nfc nfc key =
     (if length key < 4 \<or> key ! 0 \<noteq> PREFIX_FILE \<or> key ! 1 \<noteq> colon then Inl Malformed
      else
        result_bind (ok_or Malformed (from_utf8 (drop 2 key))) (\<lambda>rest.
        result_bind (ok_or Malformed (split_once slash rest)) (\<lambda>(space, path).
        result_bind (validate_space space) (\<lambda>_.
          if path = [] then Inl Malformed
          else result_bind (map_err (\<lambda>_. Malformed) (normalize_path is_nfc nfc path)) (\<lambda>normalized.
            if normalized \<noteq> path then Inl Malformed else Inr (space, normalized))))))"

definition hash_from_slice :: "bytes \<Rightarrow> hash option" where
  "hash_from_slice bs = (if length bs = 32 then Some bs else None)"

definition blob_key :: "hash \<Rightarrow> bytes" where
  "blob_key root = PREFIX_BLOB # colon # root"

definition parse_blob_key :: "bytes \<Rightarrow> key_error + hash" where
  "parse_blob_key key =
     (if length key \<noteq> 34 \<or> key ! 0 \<noteq> PREFIX_BLOB \<or> key ! 1 \<noteq> colon then Inl Malformed
      else ok_or Malformed (hash_from_slice (drop 2 key)))"

definition manifest_key :: bytes where
  "manifest_key = PREFIX_MANIFEST # colon # as_bytes (str ''self'')"

definition space_info_key :: "rstr \<Rightarrow> key_error + bytes" where
  "space_info_key space =
     result_bind (validate_space space) (\<lambda>_.
       Inr (PREFIX_MANIFEST # colon # as_bytes (str ''space/'') @ as_bytes space))"

definition replica_claim_key :: "rstr \<Rightarrow> key_error + bytes" where
  "replica_claim_key space =
     result_bind (validate_space space) (\<lambda>_. Inr (PREFIX_REPLICA # colon # as_bytes space))"

definition parse_replica_claim_key :: "bytes \<Rightarrow> key_error + rstr" where
  "parse_replica_claim_key key =
     (if length key < 3 \<or> key ! 0 \<noteq> PREFIX_REPLICA \<or> key ! 1 \<noteq> colon then Inl Malformed
      else
        result_bind (ok_or Malformed (from_utf8 (drop 2 key))) (\<lambda>space.
        result_bind (validate_space space) (\<lambda>_. Inr space)))"

definition delegation_key :: "node_id \<Rightarrow> bytes" where
  "delegation_key subject = PREFIX_DELEGATION # colon # subject"

definition parse_delegation_key :: "(bytes \<Rightarrow> bool) \<Rightarrow> bytes \<Rightarrow> key_error + node_id" where
  "parse_delegation_key on_curve key =
     (if length key \<noteq> 34 \<or> key ! 0 \<noteq> PREFIX_DELEGATION \<or> key ! 1 \<noteq> colon then Inl Malformed
      else if on_curve (drop 2 key) then Inr (drop 2 key) else Inl Malformed)"

section \<open>What normalisation establishes\<close>

text \<open>The canonical paths: what a component may be, and what a whole path may be.\<close>

definition plain_component :: "rstr \<Rightarrow> bool" where
  "plain_component c \<longleftrightarrow> c \<noteq> [] \<and> c \<noteq> str ''.'' \<and> c \<noteq> str ''..'' \<and> slash \<notin> set c"

definition canonical_path :: "rstr \<Rightarrow> bool" where
  "canonical_path p \<longleftrightarrow> list_all plain_component (split_on slash p) \<and> utf8_len p \<le> MAX_KEY_LEN"

lemma push_components_Inr:
  "push_components out comps = Inr p \<longleftrightarrow>
     list_all (\<lambda>c. c \<noteq> [] \<and> c \<noteq> str ''.'' \<and> c \<noteq> str ''..'') comps \<and>
     p = (if comps = [] then out else if out = [] then join_with slash comps
          else out @ slash # join_with slash comps)"
proof (induction out comps rule: push_components.induct)
  case (1 out)
  then show ?case by auto
next
  case (2 out c rest)
  then show ?case by (cases rest) auto
qed

lemma push_split:
  "push_components [] (split_on slash s) = Inr p \<longleftrightarrow>
     list_all plain_component (split_on slash s) \<and> p = s"
  using split_on_no_delim [of _ slash s]
  by (auto simp: push_components_Inr join_split list_all_iff plain_component_def)

lemma plain_not_Nil: "list_all plain_component (split_on slash s) \<Longrightarrow> s \<noteq> [] \<and> hd s \<noteq> slash"
  by (cases s) (auto simp: plain_component_def)

lemma push_split_bounded:
  "(case push_components [] (split_on slash n) of
      Inl e \<Rightarrow> Inl e
    | Inr out \<Rightarrow> if out = [] then Inl Empty
        else if utf8_len out > MAX_KEY_LEN then Inl TooLong else Inr out) = Inr p
   \<longleftrightarrow> p = n \<and> canonical_path n"
proof (cases "push_components [] (split_on slash n)")
  case (Inl e)
  then have "\<not> list_all plain_component (split_on slash n)" using push_split [of n n] by auto
  with Inl show ?thesis by (simp add: canonical_path_def)
next
  case (Inr out)
  then have "list_all plain_component (split_on slash n)" "out = n" by (simp_all add: push_split)
  with Inr plain_not_Nil [of n] show ?thesis by (auto simp: canonical_path_def)
qed

lemma normalize_path_Inr:
  "normalize_path is_nfc nfc path = Inr p \<longleftrightarrow>
     path \<noteq> [] \<and> hd path \<noteq> slash \<and> \<not> list_ex is_control path \<and>
     p = (if is_nfc path then path else nfc path) \<and> canonical_path p"
  by (auto simp: normalize_path_def Let_def push_split_bounded)

lemma validate_space_Inr [simp]:
  "validate_space s = Inr u \<longleftrightarrow>
     s \<noteq> [] \<and> utf8_len s \<le> 63 \<and> slash \<notin> set s \<and> \<not> list_ex is_control s"
  by (auto simp: validate_space_def)

lemma canonical_path_nonempty: "canonical_path p \<Longrightarrow> p \<noteq> [] \<and> hd p \<noteq> slash"
  by (simp add: canonical_path_def plain_not_Nil)

lemma normalize_path_canonical:
  assumes "nfc_laws is_nfc nfc" "normalize_path is_nfc nfc path = Inr p"
  shows "is_nfc p" "\<not> list_ex is_control p" "canonical_path p"
  using assms by (auto simp: nfc_laws_def normalize_path_Inr split: if_splits)

lemma normalize_path_fixed:
  "is_nfc p \<Longrightarrow> \<not> list_ex is_control p \<Longrightarrow> canonical_path p \<Longrightarrow> normalize_path is_nfc nfc p = Inr p"
  using canonical_path_nonempty [of p] by (simp add: normalize_path_Inr)

lemma normalize_path_valid:
  "nfc_laws is_nfc nfc \<Longrightarrow> valid_str path \<Longrightarrow> normalize_path is_nfc nfc path = Inr p \<Longrightarrow> valid_str p"
  by (auto simp: nfc_laws_def normalize_path_Inr split: if_splits)

lemma file_key_Inr:
  "file_key is_nfc nfc space path = Inr key \<longleftrightarrow>
     is_ok (validate_space space) \<and>
     (\<exists>p. normalize_path is_nfc nfc path = Inr p \<and>
          key = PREFIX_FILE # colon # as_bytes space @ of_nat slash # as_bytes p \<and>
          length key \<le> MAX_KEY_LEN)"
  by (auto simp: file_key_def is_ok_iff Let_def)

lemma parse_file_key_Inr:
  "parse_file_key is_nfc nfc key = Inr (space, path) \<longleftrightarrow>
     is_ok (validate_space space) \<and> normalize_path is_nfc nfc path = Inr path \<and>
     valid_str space \<and> valid_str path \<and>
     key = PREFIX_FILE # colon # as_bytes space @ of_nat slash # as_bytes path"
proof -
  have bs: "valid_str (space @ slash # path) \<and> as_bytes (space @ slash # path) = drop 2 key \<longleftrightarrow>
    valid_str space \<and> valid_str path \<and> drop 2 key = as_bytes space @ of_nat slash # as_bytes path"
    by (auto simp: as_bytes_ascii slash_def)
  have "parse_file_key is_nfc nfc key = Inr (space, path) \<longleftrightarrow>
     4 \<le> length key \<and> key ! 0 = PREFIX_FILE \<and> key ! 1 = colon \<and>
     from_utf8 (drop 2 key) = Some (space @ slash # path) \<and> slash \<notin> set space \<and>
     is_ok (validate_space space) \<and> path \<noteq> [] \<and> normalize_path is_nfc nfc path = Inr path"
    by (auto simp: parse_file_key_def is_ok_iff split_once_Some)
  moreover have "4 \<le> length key \<and> key ! 0 = PREFIX_FILE \<and> key ! 1 = colon \<and>
      drop 2 key = as_bytes space @ of_nat slash # as_bytes path \<longleftrightarrow>
      key = PREFIX_FILE # colon # as_bytes space @ of_nat slash # as_bytes path"
    if "space \<noteq> []" "path \<noteq> []"
  proof -
    have "0 < utf8_len space" "0 < utf8_len path"
      using that length_le_utf8_len [of space] length_le_utf8_len [of path]
      by (cases space; cases path; simp)+
    then show ?thesis
      by (cases key; cases "tl key") auto
  qed
  ultimately show ?thesis
    using bs by (auto simp: from_utf8_iff is_ok_iff normalize_path_Inr)
qed

section \<open>Properties of keys\<close>

text \<open>Building a file key and parsing it back returns the space and the normalised path: for
  every space and path text, if \<open>file_key\<close> succeeds then \<open>parse_file_key\<close> accepts its output and
  returns exactly the pair it encodes.\<close>

theorem file_key_roundtrip:
  assumes "nfc_laws is_nfc nfc" "valid_str space" "valid_str path"
    and "file_key is_nfc nfc space path = Inr key"
  shows "\<exists>p. normalize_path is_nfc nfc path = Inr p \<and> parse_file_key is_nfc nfc key = Inr (space, p)"
proof -
  from assms(4) obtain p where p: "normalize_path is_nfc nfc path = Inr p"
    and key: "key = PREFIX_FILE # colon # as_bytes space @ of_nat slash # as_bytes p"
    and sp: "is_ok (validate_space space)"
    by (auto simp: file_key_Inr)
  have "valid_str p" using assms(1,3) p by (rule normalize_path_valid)
  moreover have "normalize_path is_nfc nfc p = Inr p"
    using normalize_path_canonical [OF assms(1) p] normalize_path_fixed by blast
  ultimately have "parse_file_key is_nfc nfc key = Inr (space, p)"
    using key sp assms(2) by (simp add: parse_file_key_Inr)
  with p show ?thesis by blast
qed

theorem file_key_roundtrip_witness:
  "\<exists>p. normalize_path (\<lambda>_. True) id (str ''a/b'') = Inr p \<and>
       parse_file_key (\<lambda>_. True) id
         (PREFIX_FILE # colon # as_bytes (str ''docs'') @ of_nat slash # as_bytes (str ''a/b''))
         = Inr (str ''docs'', p)"
proof (rule file_key_roundtrip [of "\<lambda>_. True" id "str ''docs''" "str ''a/b''"])
  show "nfc_laws (\<lambda>_. True) id" by (simp add: nfc_laws_def)
  show "valid_str (str ''docs'')" "valid_str (str ''a/b'')"
    by (simp_all add: str_def)
  show "file_key (\<lambda>_. True) id (str ''docs'') (str ''a/b'') =
      Inr (PREFIX_FILE # colon # as_bytes (str ''docs'') @ of_nat slash # as_bytes (str ''a/b''))"
    by (simp add: file_key_def normalize_path_def validate_space_def str_def slash_def is_control_def
        MAX_KEY_LEN_def utf8_width_def)
qed

text \<open>A key a peer published is accepted only with a canonical path: no component is empty,
  \<open>.\<close> or \<open>..\<close>, nothing is absolute, no control character occurs, so joining the path under a
  checkout root cannot leave it; and the accepted pair re-encodes to the very bytes parsed.\<close>

theorem parse_file_key_safe:
  assumes "parse_file_key is_nfc nfc key = Inr (space, path)"
  shows "(\<forall>c \<in> set (split_on slash path). c \<noteq> [] \<and> c \<noteq> str ''.'' \<and> c \<noteq> str ''..'') \<and>
         hd path \<noteq> slash \<and> \<not> list_ex is_control path \<and> slash \<notin> set space \<and>
         key = PREFIX_FILE # colon # as_bytes space @ of_nat slash # as_bytes path"
proof -
  from assms have "normalize_path is_nfc nfc path = Inr path" "is_ok (validate_space space)"
    "key = PREFIX_FILE # colon # as_bytes space @ of_nat slash # as_bytes path"
    by (simp_all add: parse_file_key_Inr)
  then show ?thesis
    by (auto simp: normalize_path_Inr canonical_path_def plain_component_def list_all_iff is_ok_iff)
qed

theorem parse_file_key_safe_witness:
  "\<exists>path. parse_file_key (\<lambda>_. True) id
      (PREFIX_FILE # colon # as_bytes (str ''docs'') @ of_nat slash # as_bytes (str ''a/b''))
      = Inr (str ''docs'', path) \<and>
    (\<forall>c \<in> set (split_on slash path). c \<noteq> str ''..'')"
proof -
  have "parse_file_key (\<lambda>_. True) id
      (PREFIX_FILE # colon # as_bytes (str ''docs'') @ of_nat slash # as_bytes (str ''a/b''))
      = Inr (str ''docs'', str ''a/b'')"
    by (simp add: parse_file_key_Inr normalize_path_def validate_space_def str_def slash_def is_control_def
        MAX_KEY_LEN_def utf8_width_def)
  with parse_file_key_safe [OF this] show ?thesis by blast
qed

text \<open>Normalisation is idempotent: its result is a fixed point.\<close>

theorem normalize_path_idem:
  assumes "nfc_laws is_nfc nfc" "normalize_path is_nfc nfc path = Inr p"
  shows "normalize_path is_nfc nfc p = Inr p"
  using normalize_path_canonical [OF assms] normalize_path_fixed by blast

theorem normalize_path_idem_witness:
  "normalize_path (\<lambda>_. True) id (str ''a/b'') = Inr (str ''a/b'')"
proof (rule normalize_path_idem)
  show "nfc_laws (\<lambda>_. True) id" by (simp add: nfc_laws_def)
  show "normalize_path (\<lambda>_. True) id (str ''a/b'') = Inr (str ''a/b'')"
    by (simp add: normalize_path_def str_def slash_def is_control_def MAX_KEY_LEN_def utf8_width_def)
qed

text \<open>Range scans are confined to their space: a file key lies under \<open>space_prefix s\<close> exactly
  when \<open>s\<close> is the space the key names, so one space's prefix never covers another space's keys
  (not even a space whose id extends it).\<close>

theorem space_prefix_isolates:
  assumes "parse_file_key is_nfc nfc key = Inr (space, path)"
    and "valid_str s" "space_prefix s = Inr pre"
  shows "(\<exists>rest. key = pre @ rest) \<longleftrightarrow> s = space"
proof -
  from assms(1) have key: "key = PREFIX_FILE # colon # as_bytes space @ of_nat slash # as_bytes path"
    and vs: "valid_str space" "valid_str path" and sl: "slash \<notin> set space"
    by (auto simp: parse_file_key_Inr is_ok_iff)
  from assms(3) have pre: "pre = PREFIX_FILE # colon # as_bytes s @ [of_nat slash]"
    and sl': "slash \<notin> set s"
    by (auto simp: space_prefix_def)
  show ?thesis
  proof
    assume "\<exists>rest. key = pre @ rest"
    then obtain rest where "as_bytes space @ of_nat slash # as_bytes path = as_bytes s @ of_nat slash # rest"
      by (auto simp: key pre)
    moreover have "as_bytes (space @ slash # path) = as_bytes space @ of_nat slash # as_bytes path"
      by (simp add: as_bytes_ascii slash_def)
    ultimately have eq: "as_bytes (space @ slash # path) = as_bytes (s @ [slash]) @ rest"
      by (simp add: as_bytes_ascii slash_def)
    have "as_bytes (s @ [slash]) @ rest = as_bytes (space @ slash # path)" using eq by simp
    then obtain r where "valid_str r" "space @ slash # path = (s @ [slash]) @ r"
      using as_bytes_prefix [of "s @ [slash]" rest "space @ slash # path"] vs assms(2)
      by (auto simp: slash_def)
    then have "split_once slash (space @ slash # path) = Some (s, r)"
      using sl' by (simp add: split_once_Some)
    moreover have "split_once slash (space @ slash # path) = Some (space, path)"
      using sl by (simp add: split_once_Some)
    ultimately show "s = space" by simp
  next
    assume "s = space"
    then show "\<exists>rest. key = pre @ rest" by (simp add: key pre)
  qed
qed

theorem space_prefix_isolates_witness:
  "\<not> (\<exists>rest. PREFIX_FILE # colon # as_bytes (str ''photos-raw'') @ of_nat slash # as_bytes (str ''a'')
        = (PREFIX_FILE # colon # as_bytes (str ''photos'') @ [of_nat slash]) @ rest)"
proof -
  have k: "parse_file_key (\<lambda>_. True) id
      (PREFIX_FILE # colon # as_bytes (str ''photos-raw'') @ of_nat slash # as_bytes (str ''a''))
      = Inr (str ''photos-raw'', str ''a'')"
    by (simp add: parse_file_key_Inr normalize_path_def validate_space_def str_def slash_def is_control_def
        MAX_KEY_LEN_def utf8_width_def)
  have p: "valid_str (str ''photos'')"
    "space_prefix (str ''photos'') = Inr (PREFIX_FILE # colon # as_bytes (str ''photos'') @ [of_nat slash])"
    by (simp_all add: space_prefix_def validate_space_def str_def slash_def is_control_def utf8_width_def)
  show ?thesis using space_prefix_isolates [OF k p] by (simp add: str_def)
qed

end
