(* ===== verification/Numerals.thy ===== *)
theory Numerals
  imports Text
begin

text \<open>
  The number formatting and parsing of the standard library that the sources use: \<open>{}\<close> and
  \<open>{:016x}\<close> of a \<open>u64\<close>, and \<open>u64::from_str_radix\<close> (which \<open>str::parse\<close> is at radix 10), with its
  leading \<open>+\<close>, its digit alphabet and its overflow check. Parsing inverts formatting.
\<close>

definition digit_value :: "nat \<Rightarrow> nat option" where
  "digit_value c =
     (if 48 \<le> c \<and> c \<le> 57 then Some (c - 48)
      else if 97 \<le> c \<and> c \<le> 122 then Some (c - 87)
      else if 65 \<le> c \<and> c \<le> 90 then Some (c - 55)
      else None)"

definition to_digit :: "nat \<Rightarrow> nat \<Rightarrow> nat option" where
  "to_digit radix c =
     (case digit_value c of None \<Rightarrow> None | Some d \<Rightarrow> if d < radix then Some d else None)"

fun digits_value :: "nat \<Rightarrow> nat \<Rightarrow> rstr \<Rightarrow> nat option" where
  "digits_value radix acc [] = Some acc"
| "digits_value radix acc (c # cs) =
     (case to_digit radix c of None \<Rightarrow> None | Some d \<Rightarrow>
        if acc * radix + d < 2 ^ 64 then digits_value radix (acc * radix + d) cs else None)"

definition from_str_radix :: "nat \<Rightarrow> rstr \<Rightarrow> u64 option" where
  "from_str_radix radix s =
     (let ds = (case s of [] \<Rightarrow> [] | c # r \<Rightarrow> if c = 43 \<and> r \<noteq> [] then r else s) in
      if ds = [] then None else map_option of_nat (digits_value radix 0 ds))"

definition digit_char :: "nat \<Rightarrow> nat" where
  "digit_char d = (if d < 10 then 48 + d else 87 + d)"

fun fmt_nat :: "nat \<Rightarrow> nat \<Rightarrow> rstr" where
  "fmt_nat radix n =
     (if radix < 2 \<or> n < radix then [digit_char n]
      else fmt_nat radix (n div radix) @ [digit_char (n mod radix)])"

declare fmt_nat.simps [simp del]

definition fmt_u64 :: "u64 \<Rightarrow> rstr" where
  "fmt_u64 w = fmt_nat 10 (unat w)"

text \<open>\<open>{:016x}\<close>: sixteen lowercase hex digits.\<close>

fun hex_pad :: "nat \<Rightarrow> nat \<Rightarrow> rstr" where
  "hex_pad 0 n = []"
| "hex_pad (Suc k) n = hex_pad k (n div 16) @ [digit_char (n mod 16)]"

definition fmt_hex16 :: "u64 \<Rightarrow> rstr" where
  "fmt_hex16 w = hex_pad 16 (unat w)"

section \<open>Parsing inverts formatting\<close>

lemma to_digit_char [simp]: "d < radix \<Longrightarrow> radix \<le> 16 \<Longrightarrow> to_digit radix (digit_char d) = Some d"
  by (auto simp: to_digit_def digit_char_def digit_value_def)

lemma digits_value_append:
  "digits_value radix acc (s @ t) =
     (case digits_value radix acc s of None \<Rightarrow> None | Some a \<Rightarrow> digits_value radix a t)"
  by (induction radix acc s rule: digits_value.induct) (auto split: option.splits)

lemma digits_value_fmt_nat:
  assumes "2 \<le> radix" "radix \<le> 16" "n < 2 ^ 64"
  shows "digits_value radix 0 (fmt_nat radix n) = Some n"
  using assms(3)
proof (induction n rule: less_induct)
  case (less n)
  show ?case
  proof (cases "n < radix")
    case True
    with assms less.prems show ?thesis by (subst fmt_nat.simps) simp
  next
    case False
    then have lt: "n div radix < n" using assms by (simp add: div_less_dividend)
    with less have "digits_value radix 0 (fmt_nat radix (n div radix)) = Some (n div radix)" by simp
    moreover have "n div radix * radix + n mod radix = n" by simp
    ultimately show ?thesis using False assms less.prems
      by (subst fmt_nat.simps) (simp add: digits_value_append)
  qed
qed

lemma digits_value_hex_pad:
  "n < 16 ^ k \<Longrightarrow> n < 2 ^ 64 \<Longrightarrow> digits_value 16 0 (hex_pad k n) = Some n"
proof (induction k arbitrary: n)
  case 0
  then show ?case by simp
next
  case (Suc k)
  have "n div 16 < 16 ^ k" using Suc.prems(1) by (simp add: less_mult_imp_div_less mult.commute)
  moreover have "n div 16 < 2 ^ 64" using Suc.prems(2) by simp
  ultimately have "digits_value 16 0 (hex_pad k (n div 16)) = Some (n div 16)" by (rule Suc.IH)
  moreover have "n div 16 * 16 + n mod 16 = n" by simp
  ultimately show ?case using Suc.prems by (simp add: digits_value_append)
qed

lemma digit_char_range: "d < 16 \<Longrightarrow> 48 \<le> digit_char d \<and> digit_char d < 103"
  by (simp add: digit_char_def)

lemma set_fmt_nat: "2 \<le> radix \<Longrightarrow> radix \<le> 16 \<Longrightarrow> c \<in> set (fmt_nat radix n) \<Longrightarrow> 48 \<le> c \<and> c < 103"
proof (induction n arbitrary: c rule: less_induct)
  case (less n)
  show ?case
  proof (cases "n < radix")
    case True
    with less.prems show ?thesis by (subst (asm) fmt_nat.simps) (auto simp: digit_char_range)
  next
    case False
    then have lt: "n div radix < n" using less.prems by (simp add: div_less_dividend)
    have "n mod radix < 16" using less.prems(1,2) by (intro less_le_trans [OF mod_less_divisor]) auto
    moreover have "c \<in> set (fmt_nat radix (n div radix)) \<or> c = digit_char (n mod radix)"
      using less.prems(1,3) False by (subst (asm) fmt_nat.simps) (auto split: if_splits)
    ultimately show ?thesis using less.IH [OF lt less.prems(1,2)] digit_char_range by auto
  qed
qed

lemma set_hex_pad: "c \<in> set (hex_pad k n) \<Longrightarrow> 48 \<le> c \<and> c < 103"
  by (induction k arbitrary: n) (auto simp: digit_char_range)

lemma fmt_nat_nonempty [simp]: "fmt_nat radix n \<noteq> []"
  by (subst fmt_nat.simps) simp

lemma length_hex_pad [simp]: "length (hex_pad k n) = k"
  by (induction k arbitrary: n) auto

lemma from_str_radix_digits:
  assumes "s \<noteq> []" "\<forall>c \<in> set s. 48 \<le> c" "digits_value radix 0 s = Some n"
  shows "from_str_radix radix s = Some (of_nat n)"
  using assms by (cases s) (auto simp: from_str_radix_def Let_def)

lemma from_str_radix_fmt_u64 [simp]: "from_str_radix 10 (fmt_u64 w) = Some w"
proof -
  have "unat w < 2 ^ 64" using unsigned_less [of w] by simp
  then show ?thesis
    using from_str_radix_digits [of "fmt_u64 w" 10 "unat w"] set_fmt_nat [of 10 _ "unat w"]
    by (auto simp: fmt_u64_def digits_value_fmt_nat)
qed

lemma from_str_radix_fmt_hex16 [simp]: "from_str_radix 16 (fmt_hex16 w) = Some w"
proof -
  have b: "unat w < 2 ^ 64" using unsigned_less [of w] by simp
  then have "digits_value 16 0 (fmt_hex16 w) = Some (unat w)"
    by (simp add: fmt_hex16_def digits_value_hex_pad)
  moreover have "length (fmt_hex16 w) = 16" unfolding fmt_hex16_def by (rule length_hex_pad)
  then have "fmt_hex16 w \<noteq> []" by auto
  ultimately show ?thesis
    using from_str_radix_digits [of "fmt_hex16 w" 16 "unat w"] set_hex_pad [of _ 16 "unat w"]
    by (auto simp: fmt_hex16_def)
qed

end
