(* ===== verification/Lock_Types.thy ===== *)
theory Lock_Types
  imports Keyspace Numerals
begin

text \<open>
  The wire schema of cluster locks (\<^verbatim>\<open>synch-core/src/lock.rs\<close>) and the origin identities of
  \<^verbatim>\<open>synch-core/src/origin.rs\<close>: lock names, tickets, claim ids and their derived order, claims,
  reports, and the frames of the exchange with the bounds each must keep. The rendering and
  parsing of an origin is decided by the separately verified Lean library, so \<open>canonical\<close> and
  \<open>parse\<close> are parameters.
\<close>

section \<open>Origins (origin.rs)\<close>

datatype origin_id = Key node_id | Named rstr rstr

fun as_key :: "origin_id \<Rightarrow> node_id option" where
  "as_key (Key k) = Some k"
| "as_key (Named _ _) = None"

fun origin_domain :: "origin_id \<Rightarrow> rstr option" where
  "origin_domain (Key _) = None"
| "origin_domain (Named d _) = Some d"

text \<open>The derived order: variants by position, then fields in declaration order.\<close>

fun origin_key :: "origin_id \<Rightarrow> nat \<times> u8 list \<times> rstr \<times> rstr" where
  "origin_key (Key k) = (0, k, [], [])"
| "origin_key (Named d i) = (1, [], d, i)"

lemma origin_key_inj: "origin_key a = origin_key b \<Longrightarrow> a = b"
  by (cases a; cases b) auto

instantiation origin_id :: linorder
begin

definition less_eq_origin_id :: "origin_id \<Rightarrow> origin_id \<Rightarrow> bool" where
  "less_eq_origin_id a b \<longleftrightarrow> origin_key a \<le> origin_key b"

definition less_origin_id :: "origin_id \<Rightarrow> origin_id \<Rightarrow> bool" where
  "less_origin_id a b \<longleftrightarrow> origin_key a < origin_key b"

instance
  by standard (auto simp: less_eq_origin_id_def less_origin_id_def origin_key_inj)

end

section \<open>Lock names\<close>

definition MAX_LOCK_NAME_BYTES :: nat where "MAX_LOCK_NAME_BYTES = 512"
definition MAX_LOCK_OWNER_BYTES :: nat where "MAX_LOCK_OWNER_BYTES = 128"
definition MAX_LOCK_PAYLOAD_BYTES :: nat where "MAX_LOCK_PAYLOAD_BYTES = 16 * 1024"
definition MIN_LOCK_TTL_MS :: u32 where "MIN_LOCK_TTL_MS = 5000"
definition MAX_LOCK_TTL_MS :: u32 where "MAX_LOCK_TTL_MS = 3600000"
definition MAX_LOCK_REPORTS :: nat where "MAX_LOCK_REPORTS = 64"
definition MAX_LOCK_ENDED :: nat where "MAX_LOCK_ENDED = 256"
definition MAX_LOCK_WATERMARKS :: nat where "MAX_LOCK_WATERMARKS = 8"
definition MAX_LOCK_SUPERSEDES :: nat where "MAX_LOCK_SUPERSEDES = 16"

datatype lock_name = LockName (space: rstr) (lname: rstr)

datatype lock_name_error = Shape | SpaceError key_error | Name

definition lock_name_check :: "lock_name \<Rightarrow> lock_name_error + unit" where
  "lock_name_check lock =
     result_bind (map_err SpaceError (validate_space (space lock)))
       (\<lambda>_. if lname lock = [] \<or> utf8_len (lname lock) > MAX_LOCK_NAME_BYTES
                \<or> list_ex is_control (lname lock)
            then Inl Name else Inr ())"

definition lock_name_new :: "rstr \<Rightarrow> rstr \<Rightarrow> lock_name_error + lock_name" where
  "lock_name_new s n = (let lock = LockName s n in
     result_bind (lock_name_check lock) (\<lambda>_. Inr lock))"

definition lock_name_parse :: "rstr \<Rightarrow> lock_name_error + lock_name" where
  "lock_name_parse text =
     result_bind (ok_or Shape (split_once slash text)) (\<lambda>(s, n). lock_name_new s n)"

definition lock_name_fmt :: "lock_name \<Rightarrow> rstr" where
  "lock_name_fmt lock = space lock @ slash # lname lock"

instantiation lock_name :: linorder
begin

definition less_eq_lock_name :: "lock_name \<Rightarrow> lock_name \<Rightarrow> bool" where
  "less_eq_lock_name a b \<longleftrightarrow> (space a, lname a) \<le> (space b, lname b)"

definition less_lock_name :: "lock_name \<Rightarrow> lock_name \<Rightarrow> bool" where
  "less_lock_name a b \<longleftrightarrow> (space a, lname a) < (space b, lname b)"

instance
  by standard (auto simp: less_eq_lock_name_def less_lock_name_def lock_name.expand)

end

section \<open>Tickets and claim ids\<close>

datatype ticket = Ticket (lamport: u64) (origin: origin_id)

instantiation ticket :: linorder
begin

definition less_eq_ticket :: "ticket \<Rightarrow> ticket \<Rightarrow> bool" where
  "less_eq_ticket a b \<longleftrightarrow> (lamport a, origin a) \<le> (lamport b, origin b)"

definition less_ticket :: "ticket \<Rightarrow> ticket \<Rightarrow> bool" where
  "less_ticket a b \<longleftrightarrow> (lamport a, origin a) < (lamport b, origin b)"

instance
  by standard (auto simp: less_eq_ticket_def less_ticket_def ticket.expand)

end

datatype claim_id = ClaimId (ticket: ticket) (nonce: u64)

instantiation claim_id :: linorder
begin

definition less_eq_claim_id :: "claim_id \<Rightarrow> claim_id \<Rightarrow> bool" where
  "less_eq_claim_id a b \<longleftrightarrow> (ticket a, nonce a) \<le> (ticket b, nonce b)"

definition less_claim_id :: "claim_id \<Rightarrow> claim_id \<Rightarrow> bool" where
  "less_claim_id a b \<longleftrightarrow> (ticket a, nonce a) < (ticket b, nonce b)"

instance
  by standard (auto simp: less_eq_claim_id_def less_claim_id_def claim_id.expand)

end

abbreviation id_lamport :: "claim_id \<Rightarrow> u64" where
  "id_lamport i \<equiv> lamport (ticket i)"

abbreviation id_origin :: "claim_id \<Rightarrow> origin_id" where
  "id_origin i \<equiv> origin (ticket i)"

definition dash :: nat where "dash = 45"

definition token :: "(origin_id \<Rightarrow> rstr) \<Rightarrow> claim_id \<Rightarrow> rstr" where
  "token canonical i =
     fmt_u64 (id_lamport i) @ [dash] @ fmt_hex16 (nonce i) @ [dash] @ canonical (id_origin i)"

definition parse_token :: "(rstr \<Rightarrow> origin_id option) \<Rightarrow> rstr \<Rightarrow> claim_id option" where
  "parse_token parse text =
     (case split_once dash (trim text) of None \<Rightarrow> None | Some (l, rest) \<Rightarrow>
      case from_str_radix 10 l of None \<Rightarrow> None | Some lam \<Rightarrow>
      case split_once dash rest of None \<Rightarrow> None | Some (n, o_text) \<Rightarrow>
      case from_str_radix 16 n of None \<Rightarrow> None | Some non \<Rightarrow>
      case parse o_text of None \<Rightarrow> None | Some org \<Rightarrow>
      Some (ClaimId (Ticket lam org) non))"

section \<open>Claims, reports and frames\<close>

record claim =
  cid :: claim_id
  ttl_ms :: u32
  owner :: rstr
  payload :: bytes
  supersedes :: "claim_id list"

datatype check_error = TtlRange | OwnerTooLong | PayloadTooLarge | TooManySuperseded
  | BadName lock_name_error | OverLimits

definition claim_check :: "claim \<Rightarrow> check_error + unit" where
  "claim_check c =
     (if \<not> (MIN_LOCK_TTL_MS \<le> ttl_ms c \<and> ttl_ms c \<le> MAX_LOCK_TTL_MS) then Inl TtlRange
      else if utf8_len (owner c) > MAX_LOCK_OWNER_BYTES then Inl OwnerTooLong
      else if length (payload c) > MAX_LOCK_PAYLOAD_BYTES then Inl PayloadTooLarge
      else if length (supersedes c) > MAX_LOCK_SUPERSEDES then Inl TooManySuperseded
      else Inr ())"

datatype claim_state = Expired | Live | Held

fun state_rank :: "claim_state \<Rightarrow> nat" where
  "state_rank Expired = 0"
| "state_rank Live = 1"
| "state_rank Held = 2"

lemma state_rank_inj: "state_rank a = state_rank b \<Longrightarrow> a = b"
  by (cases a; cases b) auto

instantiation claim_state :: linorder
begin

definition less_eq_claim_state :: "claim_state \<Rightarrow> claim_state \<Rightarrow> bool" where
  "less_eq_claim_state a b \<longleftrightarrow> state_rank a \<le> state_rank b"

definition less_claim_state :: "claim_state \<Rightarrow> claim_state \<Rightarrow> bool" where
  "less_claim_state a b \<longleftrightarrow> state_rank a < state_rank b"

instance
  by standard (auto simp: less_eq_claim_state_def less_claim_state_def state_rank_inj)

end

lemma claim_state_le_simps [simp]:
  "Expired \<le> s" "Live \<le> Live" "Live \<le> Held" "\<not> Live \<le> Expired" "s \<le> Held"
  "Held \<le> s \<longleftrightarrow> s = Held" "s \<le> Expired \<longleftrightarrow> s = Expired"
  by (cases s; simp add: less_eq_claim_state_def)+

lemma claim_state_less_simps [simp]:
  "Expired < Live" "Expired < Held" "Live < Held" "\<not> s < Expired" "\<not> Held < s"
  by (cases s; simp add: less_claim_state_def)+

record report =
  r_claim :: claim
  r_state :: claim_state
  remaining_ms :: u32

datatype end_reason = Released | Withdrawn | Superseded | Broken

fun end_reason_str :: "end_reason \<Rightarrow> rstr" where
  "end_reason_str Released = str ''released''"
| "end_reason_str Withdrawn = str ''withdrawn''"
| "end_reason_str Superseded = str ''superseded''"
| "end_reason_str Broken = str ''broken''"

record watermark =
  w_origin :: origin_id
  w_seq :: u64

text \<open>Why a request was refused; the source's text is only shown to a person, so each message
  it can carry is a constructor.\<close>

datatype refusal = NotAWriter | NotAReader | TableFull | NotTheClaimOwner | NotALockRequest
  | ServeFailed

datatype lock_message =
    MClaim lock_name claim
  | MRenew lock_name claim
  | MEnd lock_name claim_id end_reason "watermark option"
  | MInspect lock_name
  | MAnswer "report list" "(claim_id \<times> end_reason) list" "watermark list"
  | MAck
  | MRefused refusal

fun try_for_each :: "('a \<Rightarrow> 'e + unit) \<Rightarrow> 'a list \<Rightarrow> 'e + unit" where
  "try_for_each f [] = Inr ()"
| "try_for_each f (x # xs) = result_bind (f x) (\<lambda>_. try_for_each f xs)"

fun message_check :: "lock_message \<Rightarrow> check_error + unit" where
  "message_check (MClaim lock c) =
     result_bind (map_err BadName (lock_name_check lock)) (\<lambda>_. claim_check c)"
| "message_check (MRenew lock c) =
     result_bind (map_err BadName (lock_name_check lock)) (\<lambda>_. claim_check c)"
| "message_check (MEnd lock i reason w) = map_err BadName (lock_name_check lock)"
| "message_check (MInspect lock) = map_err BadName (lock_name_check lock)"
| "message_check (MAnswer reports ended watermarks) =
     (if length reports > MAX_LOCK_REPORTS \<or> length ended > MAX_LOCK_ENDED
         \<or> length watermarks > MAX_LOCK_WATERMARKS
      then Inl OverLimits
      else try_for_each (\<lambda>r. claim_check (r_claim r)) reports)"
| "message_check MAck = Inr ()"
| "message_check (MRefused _) = Inr ()"

section \<open>Facts of the order\<close>

lemma claim_id_less_lamport: "id_lamport a < id_lamport b \<Longrightarrow> a < b"
  by (simp add: less_claim_id_def less_ticket_def)

lemma claim_id_le_lamport: "a \<le> b \<Longrightarrow> id_lamport a \<le> id_lamport b"
  by (auto simp: less_eq_claim_id_def less_ticket_def less_eq_ticket_def)

lemma claim_id_ticket_le: "a \<le> b \<Longrightarrow> ticket a \<le> ticket b"
  by (auto simp: less_eq_claim_id_def)

lemma ticket_less_lamport: "lamport a < lamport b \<Longrightarrow> a < b"
  by (simp add: less_ticket_def)

lemma ticket_less_claim_id: "ticket a < ticket b \<Longrightarrow> a < b"
  by (simp add: less_claim_id_def)

lemma try_for_each_Inr [simp]: "try_for_each f xs = Inr u \<longleftrightarrow> (\<forall>x \<in> set xs. f x = Inr ())"
  by (induction xs) auto

lemma lock_name_parse_iff:
  "lock_name_parse text = Inr lock \<longleftrightarrow>
     lock_name_check lock = Inr () \<and> text = lock_name_fmt lock \<and> slash \<notin> set (space lock)"
  by (cases lock) (auto simp: lock_name_parse_def lock_name_new_def lock_name_fmt_def Let_def
      split_once_Some split: option.splits)

section \<open>Tokens round-trip\<close>

lemma dash_not_in_digits [simp]: "dash \<notin> set (fmt_u64 w)" "dash \<notin> set (fmt_hex16 w)"
  using set_fmt_nat [of 10 dash "unat w"] set_hex_pad [of dash 16 "unat w"]
  by (auto simp: fmt_u64_def fmt_hex16_def dash_def)

lemma split_once_append [simp]: "d \<notin> set a \<Longrightarrow> split_once d (a @ d # b) = Some (a, b)"
  by (simp add: split_once_Some)

lemma trim_token:
  assumes "canonical (id_origin i) \<noteq> []" "\<not> is_whitespace (last (canonical (id_origin i)))"
  shows "trim (token canonical i) = token canonical i"
proof (rule trim_id)
  have ne: "fmt_u64 w \<noteq> []" for w by (simp add: fmt_u64_def)
  have "hd (fmt_u64 (id_lamport i)) \<in> set (fmt_nat 10 (unat (id_lamport i)))"
    using ne by (simp add: fmt_u64_def)
  then have "48 \<le> hd (fmt_u64 (id_lamport i)) \<and> hd (fmt_u64 (id_lamport i)) < 103"
    using set_fmt_nat [of 10] by simp
  then show "\<not> is_whitespace (hd (token canonical i))"
    using ne by (auto simp: token_def is_whitespace_def)
qed (use assms in \<open>auto simp: token_def\<close>)

text \<open>A fencing token reads back as exactly the claim id it names: \<open>parse_token\<close> inverts
  \<open>token\<close> whenever the origin's own text parses back and does not end in white space, even if
  that text contains dashes.\<close>
theorem token_roundtrip:
  assumes "parse (canonical (id_origin i)) = Some (id_origin i)"
    and "canonical (id_origin i) \<noteq> []"
    and "\<not> is_whitespace (last (canonical (id_origin i)))"
  shows "parse_token parse (token canonical i) = Some i"
proof -
  have "trim (token canonical i) = fmt_u64 (id_lamport i) @ dash # fmt_hex16 (nonce i) @ dash #
      canonical (id_origin i)"
    using trim_token [of canonical i, OF assms(2,3)] by (simp add: token_def)
  then show ?thesis using assms(1) by (cases i) (simp add: parse_token_def)
qed

theorem token_roundtrip_witness:
  "parse_token (\<lambda>t. if t = str ''a-b@x'' then Some (Named (str ''x'') (str ''a-b'')) else None)
     (token (\<lambda>_. str ''a-b@x'') (ClaimId (Ticket 7 (Named (str ''x'') (str ''a-b''))) 255)) =
   Some (ClaimId (Ticket 7 (Named (str ''x'') (str ''a-b''))) 255)"
  by (rule token_roundtrip) (simp_all add: str_def is_whitespace_def)

text \<open>A lock's printed name parses back to it, and whatever parses is a checked name that
  prints as the text it came from: the command line and the wire agree on which lock is meant.\<close>
theorem lock_name_roundtrip:
  "lock_name_parse text = Inr lock \<longleftrightarrow>
     lock_name_check lock = Inr () \<and> lock_name_fmt lock = text"
proof -
  have "lock_name_check lock = Inr () \<Longrightarrow> slash \<notin> set (space lock)"
    by (auto simp: lock_name_check_def validate_space_def slash_def split: if_splits)
  then show ?thesis by (auto simp: lock_name_parse_iff)
qed

section \<open>Sample values\<close>

definition demo_lock :: lock_name where
  "demo_lock = LockName (str ''s'') (str ''n'')"

definition demo_claim :: "u64 \<Rightarrow> u8 \<Rightarrow> claim" where
  "demo_claim lam k =
     \<lparr>cid = ClaimId (Ticket lam (Key [k])) 0, ttl_ms = 5000, owner = [], payload = [],
      supersedes = []\<rparr>"

lemma demo_checks [simp]:
  "lock_name_check demo_lock = Inr ()" "claim_check (demo_claim lam k) = Inr ()"
  by (simp_all add: demo_lock_def demo_claim_def lock_name_check_def validate_space_def str_def
      claim_check_def MIN_LOCK_TTL_MS_def MAX_LOCK_TTL_MS_def MAX_LOCK_NAME_BYTES_def utf8_width_def
      slash_def is_control_def)

lemma demo_claim_simps [simp]:
  "cid (demo_claim lam k) = ClaimId (Ticket lam (Key [k])) 0" "ttl_ms (demo_claim lam k) = 5000"
  "supersedes (demo_claim lam k) = []"
  by (simp_all add: demo_claim_def)

end
