(* ===== verification/Lock_Rules.thy ===== *)
theory Lock_Rules
  imports Lock_Types Rust_Maps
begin

text \<open>
  The pure rules of the lock protocol, the free functions at the end of
  \<^verbatim>\<open>synch-engine/src/locks.rs\<close>: who may write a space, the observer's lease, the gathering of
  answers, the decision of a claimant, the split-brain heal, and the validation of a request.
  Error values keep the kind a caller branches on; the text shown to a person is left out.
\<close>

section \<open>Errors and requests\<close>

datatype lock_failure = FHeld | FContended | FLost | FHandoffPending

datatype engine_error = Lock lock_failure | Invalid | NotFound | RecordError | StoreError

datatype hold_mode = Session | Lease | Sticky

fun hold_mode_str :: "hold_mode \<Rightarrow> rstr" where
  "hold_mode_str Session = str ''session''"
| "hold_mode_str Lease = str ''lease''"
| "hold_mode_str Sticky = str ''sticky''"

record lock_request =
  rq_lock :: lock_name
  ttl :: duration
  wait :: duration
  rq_owner :: rstr
  rq_payload :: bytes
  rq_mode :: hold_mode
  allow_behind :: bool

definition ttl_in_range :: "duration \<Rightarrow> bool" where
  "ttl_in_range d \<longleftrightarrow>
     unat MIN_LOCK_TTL_MS \<le> d div millis_ns \<and> d div millis_ns \<le> unat MAX_LOCK_TTL_MS"

definition check_request :: "lock_request \<Rightarrow> engine_error + unit" where
  "check_request request =
     result_bind (map_err (\<lambda>_. Invalid) (lock_name_check (rq_lock request)))
       (\<lambda>_. if \<not> ttl_in_range (ttl request) then Inl Invalid
            else if utf8_len (rq_owner request) > MAX_LOCK_OWNER_BYTES then Inl Invalid
            else if length (rq_payload request) > MAX_LOCK_PAYLOAD_BYTES then Inl Invalid
            else Inr ())"

section \<open>Scopes, leases and durations\<close>

datatype publish_scope = Untrusted | Unrestricted | Confined "rstr list"

fun may_publish :: "publish_scope \<Rightarrow> rstr \<Rightarrow> bool" where
  "may_publish Untrusted sp = False"
| "may_publish Unrestricted sp = True"
| "may_publish (Confined spaces) sp = list_ex (\<lambda>s. s = sp) spaces"

definition millis :: "duration \<Rightarrow> u32" where
  "millis d = of_nat (min (d div millis_ns) (2 ^ 32 - 1))"

text \<open>\<open>Duration::from_millis(ttl).mul_f64(1.002)\<close>: for a lease of at most an hour the floating
  product is within a thousandth of a nanosecond of \<open>ttl * 1_002_000\<close>, which is an integer, so
  rounding to nanoseconds yields exactly that.\<close>

definition observer_lease :: "u32 \<Rightarrow> duration" where
  "observer_lease ms = unat ms * 1002000"

section \<open>Gathering answers\<close>

record gathered =
  known :: "(claim_id, claim \<times> claim_state) btmap"
  g_ended :: "(claim_id, end_reason) btmap"
  g_watermarks :: "(origin_id, watermark) btmap"

definition gathered_default :: gathered where
  "gathered_default = \<lparr>known = [], g_ended = [], g_watermarks = []\<rparr>"

definition note_claim :: "claim \<Rightarrow> claim_state \<Rightarrow> gathered \<Rightarrow> gathered" where
  "note_claim c st g =
     (case map_of (known g) (cid c) of
        None \<Rightarrow> g\<lparr>known := bt_insert (cid c) (c, st) (known g)\<rparr>
      | Some slot \<Rightarrow>
          if st > snd slot then g\<lparr>known := bt_insert (cid c) (c, st) (known g)\<rparr> else g)"

definition add_mark :: "watermark \<Rightarrow> (origin_id, watermark) btmap \<Rightarrow> (origin_id, watermark) btmap" where
  "add_mark mark ms =
     (case map_of ms (w_origin mark) of
        None \<Rightarrow> bt_insert (w_origin mark) mark ms
      | Some slot \<Rightarrow> if w_seq mark > w_seq slot then bt_insert (w_origin mark) mark ms else ms)"

definition add_answer ::
  "report list \<Rightarrow> (claim_id \<times> end_reason) list \<Rightarrow> watermark list \<Rightarrow> gathered \<Rightarrow> gathered" where
  "add_answer reports ended marks g =
     (let g = fold (\<lambda>r. note_claim (r_claim r) (r_state r)) reports g;
          g = g\<lparr>g_ended := fold (\<lambda>(i, reason). bt_insert i reason) ended (g_ended g)\<rparr>
      in g\<lparr>g_watermarks := fold add_mark marks (g_watermarks g)\<rparr>)"

definition tickets :: "gathered \<Rightarrow> u64 list" where
  "tickets g = map id_lamport (map fst (known g) @ map fst (g_ended g))"

section \<open>The decision\<close>

datatype verdict = Hold "claim_id list" | Yield "(claim \<times> bool) option" bool

definition predecessor_above :: "claim_id \<Rightarrow> (claim_id, end_reason) btmap \<Rightarrow> bool" where
  "predecessor_above mine ended =
     list_ex (\<lambda>(i, reason). i > mine \<and> id_origin i \<noteq> id_origin mine \<and> reason \<noteq> Withdrawn) ended"

definition live_id :: "claim_id \<Rightarrow> (claim_id, end_reason) btmap \<Rightarrow> claim_id \<Rightarrow> bool" where
  "live_id mine ended i \<longleftrightarrow> map_of ended i = None \<and> i \<noteq> mine"

fun blocker_step ::
  "claim_id \<Rightarrow> claim_id \<times> claim \<times> claim_state \<Rightarrow> (claim \<times> bool) option \<Rightarrow> (claim \<times> bool) option" where
  "blocker_step mine (i, c, st) blocker =
     (let held = (st = Held) in
      if (held \<or> (st = Live \<and> i < mine))
         \<and> (case blocker of None \<Rightarrow> True | Some (_, was_held) \<Rightarrow> held \<and> \<not> was_held)
      then Some (c, held) else blocker)"

definition decide ::
  "claim_id \<Rightarrow> (claim_id, claim \<times> claim_state) btmap \<Rightarrow> (claim_id, end_reason) btmap \<Rightarrow> verdict" where
  "decide mine knowns ended =
     (if predecessor_above mine ended then Yield None True
      else
        case fold (blocker_step mine) (filter (\<lambda>k. live_id mine ended (fst k)) knowns) None of
          Some to \<Rightarrow> Yield (Some to) False
        | None \<Rightarrow> Hold (take MAX_LOCK_SUPERSEDES
            (map fst (filter (\<lambda>k. live_id mine ended (fst k) \<and> snd (snd k) = Expired) knowns))))"

fun yield_error :: "(claim \<times> bool) option \<Rightarrow> bool \<Rightarrow> engine_error" where
  "yield_error (Some (holder, True)) reclaim = Lock FHeld"
| "yield_error (Some (rival, False)) reclaim = Lock FContended"
| "yield_error None reclaim = Lock FContended"

section \<open>The heal\<close>

datatype lost = LEnded end_reason | LSuperseded claim_id

fun heal_scan ::
  "claim \<Rightarrow> gathered \<Rightarrow> (claim_id \<times> claim \<times> claim_state) list \<Rightarrow> lost option" where
  "heal_scan mine g [] = None"
| "heal_scan mine g ((i, other, st) # rest) =
     (if i = cid mine \<or> st \<noteq> Held \<or> map_of (g_ended g) i \<noteq> None \<or> i \<in> set (supersedes mine)
      then heal_scan mine g rest
      else if cid mine \<in> set (supersedes other) \<or> i < cid mine then Some (LSuperseded i)
      else heal_scan mine g rest)"

definition heal :: "claim \<Rightarrow> gathered \<Rightarrow> lost option" where
  "heal mine g =
     (case map_of (g_ended g) (cid mine) of
        Some reason \<Rightarrow> Some (LEnded reason)
      | None \<Rightarrow> heal_scan mine g (known g))"

section \<open>Collecting the answers of an exchange\<close>

text \<open>The loop of \<open>attempt\<close> over the answers: \<open>Inl ()\<close> is a peer that stayed silent or failed.
  \<open>renew_once\<close> and \<open>break_lock\<close> run the same loop and ignore the second component.\<close>

type_synonym peer_answer = "node_id \<times> (unit + lock_message)"

fun gather_answer :: "peer_answer \<Rightarrow> gathered \<times> node_id list \<Rightarrow> gathered \<times> node_id list" where
  "gather_answer (peer, answer) (g, waited_on) =
     (case answer of
        Inr (MAnswer reports ended watermarks) \<Rightarrow> (add_answer reports ended watermarks g, waited_on)
      | Inr (MRefused reason) \<Rightarrow> (g, waited_on)
      | Inr _ \<Rightarrow> (g, waited_on @ [peer])
      | Inl _ \<Rightarrow> (g, waited_on @ [peer]))"

definition collect_answers :: "peer_answer list \<Rightarrow> gathered \<times> node_id list" where
  "collect_answers answers = fold gather_answer answers (gathered_default, [])"

section \<open>Facts of gathering\<close>

definition gathered_ok :: "gathered \<Rightarrow> bool" where
  "gathered_ok g \<longleftrightarrow>
     bt_invar (known g) \<and> bt_invar (g_ended g) \<and> bt_invar (g_watermarks g) \<and>
     (\<forall>(i, c, st) \<in> set (known g). cid c = i)"

definition state_of :: "gathered \<Rightarrow> claim_id \<Rightarrow> claim_state option" where
  "state_of g i = map_option snd (map_of (known g) i)"

lemma gathered_ok_default [simp]: "gathered_ok gathered_default"
  by (simp add: gathered_ok_def gathered_default_def)

lemma note_claim_other [simp]:
  "g_ended (note_claim c st g) = g_ended g" "g_watermarks (note_claim c st g) = g_watermarks g"
  by (auto simp: note_claim_def split: option.splits)

lemma set_bt_insert_subset: "set (bt_insert k v m) \<subseteq> insert (k, v) (set m)"
  by (induction k v m rule: bt_insert.induct) auto

lemma gathered_ok_note [intro]: "gathered_ok g \<Longrightarrow> gathered_ok (note_claim c st g)"
  using set_bt_insert_subset [of "cid c" "(c, st)" "known g"]
  by (auto simp: gathered_ok_def note_claim_def bt_invar_insert split: option.splits)

lemma bt_invar_add_mark [intro]: "bt_invar ms \<Longrightarrow> bt_invar (add_mark m ms)"
  by (auto simp: add_mark_def bt_invar_insert split: option.splits)

lemma fold_invariant': "P s \<Longrightarrow> (\<And>x s. x \<in> set xs \<Longrightarrow> P s \<Longrightarrow> P (f x s)) \<Longrightarrow> P (fold f xs s)"
  by (induction xs arbitrary: s) auto

lemma gathered_ok_add [intro]:
  assumes "gathered_ok g"
  shows "gathered_ok (add_answer reports ended marks g)"
proof -
  have "gathered_ok (fold (\<lambda>r. note_claim (r_claim r) (r_state r)) reports g)"
    using assms by (rule fold_invariant' [where P = gathered_ok]) auto
  moreover have "bt_invar ms \<Longrightarrow> bt_invar (fold add_mark marks ms)" for ms
    by (rule fold_invariant' [where P = bt_invar]) auto
  ultimately show ?thesis
    by (simp add: gathered_ok_def add_answer_def Let_def bt.invar_fold_insert)
qed

lemma state_of_default [simp]: "state_of gathered_default i = None"
  by (simp add: state_of_def gathered_default_def)

lemma state_of_note:
  "state_of (note_claim c st g) i =
     (if i = cid c then Some (case state_of g i of None \<Rightarrow> st | Some s \<Rightarrow> max s st) else state_of g i)"
  by (auto simp: state_of_def note_claim_def map_simps max_def split: option.splits)

lemma state_of_updates [simp]:
  "state_of (g\<lparr>g_ended := e\<rparr>) = state_of g" "state_of (g\<lparr>g_watermarks := w\<rparr>) = state_of g"
  by (auto simp: state_of_def fun_eq_iff)

text \<open>\<open>strongest S x\<close>: \<open>x\<close> is the greatest state in \<open>S\<close>, if any.\<close>

definition strongest :: "claim_state set \<Rightarrow> claim_state option \<Rightarrow> bool" where
  "strongest S x \<longleftrightarrow> (case x of None \<Rightarrow> S = {} | Some s \<Rightarrow> s \<in> S \<and> (\<forall>t \<in> S. t \<le> s))"

lemma strongest_insert:
  "strongest S x \<Longrightarrow> strongest (insert st S) (Some (case x of None \<Rightarrow> st | Some s \<Rightarrow> max s st))"
  by (auto simp: strongest_def max_def split: option.splits if_splits)

lemma strongest_fold_note:
  "strongest S (state_of g i) \<Longrightarrow>
   strongest (S \<union> {r_state r | r. r \<in> set reports \<and> cid (r_claim r) = i})
     (state_of (fold (\<lambda>r. note_claim (r_claim r) (r_state r)) reports g) i)"
proof (induction reports arbitrary: g S)
  case Nil
  then show ?case by simp
next
  case (Cons r rs)
  let ?S = "if cid (r_claim r) = i then insert (r_state r) S else S"
  have "strongest ?S (state_of (note_claim (r_claim r) (r_state r) g) i)"
    using Cons.prems by (auto simp: state_of_note intro: strongest_insert)
  from Cons.IH [OF this]
  have "strongest (?S \<union> {r_state r | r. r \<in> set rs \<and> cid (r_claim r) = i})
      (state_of (fold (\<lambda>r. note_claim (r_claim r) (r_state r)) (r # rs) g) i)" by simp
  moreover have "?S \<union> {r_state r | r. r \<in> set rs \<and> cid (r_claim r) = i} =
      S \<union> {r_state q | q. q \<in> set (r # rs) \<and> cid (r_claim q) = i}" by auto
  ultimately show ?case by metis
qed

fun reported :: "peer_answer list \<Rightarrow> claim_id \<Rightarrow> claim_state set" where
  "reported [] i = {}"
| "reported ((_, Inr (MAnswer reports _ _)) # as) i =
     {r_state r | r. r \<in> set reports \<and> cid (r_claim r) = i} \<union> reported as i"
| "reported (_ # as) i = reported as i"

lemma fold_gather_strongest:
  "strongest S (state_of g i) \<Longrightarrow>
   strongest (S \<union> reported answers i) (state_of (fst (fold gather_answer answers (g, w))) i)"
proof (induction answers i arbitrary: g S w rule: reported.induct)
  case (2 p reports ended marks as i)
  have "strongest (S \<union> {r_state r | r. r \<in> set reports \<and> cid (r_claim r) = i})
      (state_of (add_answer reports ended marks g) i)"
    using strongest_fold_note [OF "2.prems"] by (simp add: add_answer_def Let_def)
  from "2.IH" [OF this] show ?case by (simp add: Un_assoc)
qed simp_all

text \<open>Whatever order the answers of an exchange arrive in, the claimant ranks each claim by
  the strongest state any peer reported for it (held over live over expired), and knows no claim
  that nobody reported.\<close>
theorem collect_answers_strongest:
  "strongest (reported answers i) (state_of (fst (collect_answers answers)) i)"
  using fold_gather_strongest [of "{}" gathered_default i answers "[]"]
  by (simp add: collect_answers_def strongest_def)

lemma collect_answers_ok: "gathered_ok (fst (collect_answers answers))"
proof -
  have "gathered_ok g \<Longrightarrow> gathered_ok (fst (fold gather_answer answers (g, w)))" for g w
  proof (induction answers arbitrary: g w)
    case (Cons a answers)
    have "gathered_ok (fst (gather_answer a (g, w)))"
      using Cons.prems by (cases a) (auto split: sum.splits lock_message.splits)
    with Cons.IH show ?case by (metis fold_simps(2) prod.collapse)
  qed simp
  then show ?thesis by (simp add: collect_answers_def)
qed

section \<open>The decision, characterised\<close>

abbreviation k_state :: "claim_id \<times> claim \<times> claim_state \<Rightarrow> claim_state" where
  "k_state k \<equiv> snd (snd k)"

abbreviation k_claim :: "claim_id \<times> claim \<times> claim_state \<Rightarrow> claim" where
  "k_claim k \<equiv> fst (snd k)"

definition blocks :: "claim_id \<Rightarrow> claim_id \<times> claim \<times> claim_state \<Rightarrow> bool" where
  "blocks mine k \<longleftrightarrow> k_state k = Held \<or> (k_state k = Live \<and> fst k < mine)"

lemma blocker_step_None:
  "blocker_step mine k None = (if blocks mine k then Some (k_claim k, k_state k = Held) else None)"
  by (cases k) (simp add: Let_def blocks_def)

lemma blocker_step_Some:
  "blocker_step mine k (Some (c, w)) =
     (if k_state k = Held \<and> \<not> w then Some (k_claim k, True) else Some (c, w))"
  by (cases k) (auto simp: Let_def)

text \<open>The reference reading of the decision: a live held claim wins, else the first live lesser one.\<close>

definition find_blocker ::
  "claim_id \<Rightarrow> (claim_id \<times> claim \<times> claim_state) list \<Rightarrow> (claim \<times> bool) option" where
  "find_blocker mine ks =
     (case find (\<lambda>k. k_state k = Held) ks of
        Some k \<Rightarrow> Some (k_claim k, True)
      | None \<Rightarrow> map_option (\<lambda>k. (k_claim k, False)) (find (\<lambda>k. k_state k = Live \<and> fst k < mine) ks))"

definition decide_spec ::
  "claim_id \<Rightarrow> (claim_id, claim \<times> claim_state) btmap \<Rightarrow> (claim_id, end_reason) btmap \<Rightarrow> verdict" where
  "decide_spec mine knowns ended =
     (let rivals = filter (\<lambda>k. live_id mine ended (fst k)) knowns in
      if predecessor_above mine ended then Yield None True
      else case find_blocker mine rivals of
        Some b \<Rightarrow> Yield (Some b) False
      | None \<Rightarrow> Hold (take MAX_LOCK_SUPERSEDES
          (map fst (filter (\<lambda>k. k_state k = Expired) rivals))))"

lemma fold_blocker_Some:
  "fold (blocker_step mine) ks (Some (c, w)) =
     (if w then Some (c, True)
      else case find (\<lambda>k. k_state k = Held) ks of
             None \<Rightarrow> Some (c, False) | Some k \<Rightarrow> Some (k_claim k, True))"
  by (induction ks arbitrary: c w) (auto simp: blocker_step_Some)

lemma fold_blocker: "fold (blocker_step mine) ks None = find_blocker mine ks"
proof (induction ks)
  case (Cons k ks)
  show ?case
  proof (cases "blocks mine k")
    case True
    then show ?thesis
      by (auto simp: blocker_step_None fold_blocker_Some find_blocker_def blocks_def
          split: option.splits)
  next
    case False
    then show ?thesis using Cons.IH
      by (auto simp: blocker_step_None find_blocker_def blocks_def split: option.splits)
  qed
qed (simp add: find_blocker_def)

lemma find_blocker_None: "find_blocker mine ks = None \<longleftrightarrow> (\<forall>k \<in> set ks. \<not> blocks mine k)"
  by (auto simp: find_blocker_def find_None_iff blocks_def split: option.splits dest: find_Some_in)
    fastforce+

text \<open>The one-pass scan of the decision computes the reference reading: re-claim above an
  ended predecessor hold, else yield to a live held claim if there is one, else to a live claim
  with a lesser id, and hold only if there is neither, superseding the expired claims known.\<close>
theorem decide_eq_spec: "decide mine knowns ended = decide_spec mine knowns ended"
  by (simp add: decide_def decide_spec_def Let_def fold_blocker conj_commute cong: option.case_cong)

lemma decide_Hold_iff:
  "decide mine knowns ended = Hold sups \<longleftrightarrow>
     \<not> predecessor_above mine ended \<and>
     (\<forall>k \<in> set knowns. live_id mine ended (fst k) \<longrightarrow> \<not> blocks mine k) \<and>
     sups = take MAX_LOCK_SUPERSEDES
       (map fst (filter (\<lambda>k. live_id mine ended (fst k) \<and> k_state k = Expired) knowns))"
proof -
  have "find_blocker mine (filter (\<lambda>k. live_id mine ended (fst k)) knowns) = None \<longleftrightarrow>
      (\<forall>k \<in> set knowns. live_id mine ended (fst k) \<longrightarrow> \<not> blocks mine k)"
    by (auto simp: find_blocker_None)
  then show ?thesis by (auto simp: decide_def fold_blocker split: option.splits)
qed

definition holds :: "verdict \<Rightarrow> bool" where
  "holds v \<longleftrightarrow> (case v of Hold _ \<Rightarrow> True | Yield _ _ \<Rightarrow> False)"

lemma holds_decide_iff:
  "holds (decide mine knowns ended) \<longleftrightarrow>
     \<not> predecessor_above mine ended \<and>
     (\<forall>k \<in> set knowns. live_id mine ended (fst k) \<longrightarrow> \<not> blocks mine k)"
  using decide_Hold_iff [of mine knowns ended]
  by (cases "decide mine knowns ended") (auto simp: holds_def)

text \<open>Among simultaneous contenders that all heard of each other, exactly one holds and it is
  the one with the least id: if every contender of a finite non-empty set knows every other as
  live, knows no other claim that blocks it, and none is ended, the decision grants the minimum
  and nobody else.\<close>
theorem decide_unique_winner:
  assumes "finite S" "S \<noteq> {}"
    and known: "\<And>m i. m \<in> S \<Longrightarrow> i \<in> S \<Longrightarrow> i \<noteq> m \<Longrightarrow> \<exists>c. (i, c, Live) \<in> set (knowns m)"
    and only: "\<And>m i c st. m \<in> S \<Longrightarrow> (i, c, st) \<in> set (knowns m) \<Longrightarrow> i \<notin> S \<Longrightarrow> st = Expired"
    and live: "\<And>m i c st. m \<in> S \<Longrightarrow> (i, c, st) \<in> set (knowns m) \<Longrightarrow> i \<in> S \<Longrightarrow> st \<noteq> Held"
    and ended: "\<And>m i. m \<in> S \<Longrightarrow> i \<in> S \<Longrightarrow> map_of (ended m) i = None"
    and above: "\<And>m. m \<in> S \<Longrightarrow> \<not> predecessor_above m (ended m)"
    and m: "m \<in> S"
  shows "holds (decide m (knowns m) (ended m)) \<longleftrightarrow> m = Min S"
proof
  assume h: "holds (decide m (knowns m) (ended m))"
  show "m = Min S"
  proof (rule ccontr)
    assume ne: "m \<noteq> Min S"
    have "Min S \<in> S" "Min S \<le> m" using assms(1,2) m by auto
    with ne known m obtain c where "(Min S, c, Live) \<in> set (knowns m)" "Min S < m" by force
    with h ended [OF m \<open>Min S \<in> S\<close>] ne show False
      by (auto simp: holds_decide_iff blocks_def live_id_def)
  qed
next
  assume min: "m = Min S"
  have "\<not> blocks m k" if "k \<in> set (knowns m)" "live_id m (ended m) (fst k)" for k
  proof -
    obtain i c st where k: "k = (i, c, st)" by (cases k)
    have "m \<le> i" if "i \<in> S" using assms(1) that min by simp
    with only [OF m, of i c st] live [OF m, of i c st] \<open>k \<in> set (knowns m)\<close> show ?thesis
      by (cases "i \<in> S") (auto simp: k blocks_def)
  qed
  with above [OF m] show "holds (decide m (knowns m) (ended m))" by (simp add: holds_decide_iff)
qed

theorem decide_unique_winner_witness:
  "let a = ClaimId (Ticket 3 (Key [1])) 7; b = ClaimId (Ticket 3 (Key [2])) 9;
       claim = (\<lambda>i. \<lparr>cid = i, ttl_ms = 5000, owner = [], payload = [], supersedes = []\<rparr>);
       knowns = (\<lambda>m. if m = a then [(b, claim b, Live)] else [(a, claim a, Live)])
   in holds (decide a (knowns a) []) \<and> \<not> holds (decide b (knowns b) [])"
proof -
  let ?a = "ClaimId (Ticket 3 (Key [1])) 7" and ?b = "ClaimId (Ticket 3 (Key [2])) 9"
  let ?claim = "\<lambda>i. \<lparr>cid = i, ttl_ms = 5000, owner = [], payload = [], supersedes = []\<rparr>"
  let ?knowns = "\<lambda>m. if m = ?a then [(?b, ?claim ?b, Live)] else [(?a, ?claim ?a, Live)]"
  have less: "?a < ?b" by (simp add: less_claim_id_def less_ticket_def less_origin_id_def)
  then have min: "Min {?a, ?b} = ?a" by simp
  have "holds (decide m (?knowns m) []) \<longleftrightarrow> m = Min {?a, ?b}" if "m \<in> {?a, ?b}" for m
    using that by (intro decide_unique_winner [where knowns = ?knowns and ended = "\<lambda>_. []"])
      (auto simp: predecessor_above_def split: if_splits)
  from this [of ?a] this [of ?b] show ?thesis using min by (simp add: Let_def)
qed

section \<open>The heal, characterised\<close>

text \<open>\<open>beaten_by g mine k\<close>: the gathered entry \<open>k\<close> is a rival hold that outranks \<open>mine\<close>.\<close>

definition beaten_by :: "gathered \<Rightarrow> claim \<Rightarrow> claim_id \<times> claim \<times> claim_state \<Rightarrow> bool" where
  "beaten_by g mine k \<longleftrightarrow>
     fst k \<noteq> cid mine \<and> k_state k = Held \<and> map_of (g_ended g) (fst k) = None \<and>
     fst k \<notin> set (supersedes mine) \<and>
     (cid mine \<in> set (supersedes (k_claim k)) \<or> fst k < cid mine)"

lemma heal_scan_find:
  "heal_scan mine g ks = map_option (\<lambda>k. LSuperseded (fst k)) (find (beaten_by g mine) ks)"
  by (induction ks) (auto simp: beaten_by_def)

lemma heal_None_iff:
  "heal mine g = None \<longleftrightarrow>
     map_of (g_ended g) (cid mine) = None \<and> (\<forall>k \<in> set (known g). \<not> beaten_by g mine k)"
  by (auto simp: heal_def heal_scan_find find_None_iff split: option.splits)

text \<open>\<open>sees g C\<close>: the answers report exactly the claims \<open>C\<close> as held, and none of them as ended.\<close>

definition sees :: "gathered \<Rightarrow> claim set \<Rightarrow> bool" where
  "sees g C \<longleftrightarrow>
     {k \<in> set (known g). k_state k = Held} = (\<lambda>c. (cid c, c, Held)) ` C \<and>
     (\<forall>c \<in> C. map_of (g_ended g) (cid c) = None)"

lemma heal_sees:
  assumes "sees g C" "mine \<in> C"
  shows "heal mine g = None \<longleftrightarrow>
    (\<forall>c \<in> C. cid c = cid mine \<or> cid c \<in> set (supersedes mine) \<or>
       (cid mine \<notin> set (supersedes c) \<and> cid mine < cid c))"
proof -
  have "beaten_by g mine k \<Longrightarrow> k_state k = Held" for k by (simp add: beaten_by_def)
  then have "(\<forall>k \<in> set (known g). \<not> beaten_by g mine k) \<longleftrightarrow>
      (\<forall>k \<in> {k \<in> set (known g). k_state k = Held}. \<not> beaten_by g mine k)"
    by blast
  also have "\<dots> \<longleftrightarrow> (\<forall>c \<in> C. \<not> beaten_by g mine (cid c, c, Held))"
    using assms by (simp add: sees_def)
  also have "\<dots> \<longleftrightarrow> (\<forall>c \<in> C. cid c = cid mine \<or> cid c \<in> set (supersedes mine) \<or>
       (cid mine \<notin> set (supersedes c) \<and> cid mine < cid c))"
  proof (rule ball_cong [OF refl])
    fix c assume "c \<in> C"
    then have "map_of (g_ended g) (cid c) = None" using assms(1) by (simp add: sees_def)
    then show "\<not> beaten_by g mine (cid c, c, Held) \<longleftrightarrow>
        cid c = cid mine \<or> cid c \<in> set (supersedes mine) \<or>
        (cid mine \<notin> set (supersedes c) \<and> cid mine < cid c)"
      by (auto simp: beaten_by_def)
  qed
  finally show ?thesis using assms by (simp add: heal_None_iff sees_def)
qed

lemma seesI:
  "known g = map (\<lambda>c. (cid c, c, Held)) cs \<Longrightarrow> g_ended g = [] \<Longrightarrow> sees g (set cs)"
  by (auto simp: sees_def)

text \<open>What a renewal gathers when one peer reports the holds \<open>cs\<close>.\<close>

definition holders_seen :: "claim list \<Rightarrow> gathered" where
  "holders_seen cs = fst (collect_answers
     [([], Inr (MAnswer (map (\<lambda>c. \<lparr>r_claim = c, r_state = Held, remaining_ms = 0\<rparr>) cs) [] []))])"

lemmas heal_eval = holders_seen_def collect_answers_def gathered_default_def add_answer_def
  note_claim_def Let_def less_claim_id_def less_ticket_def less_origin_id_def

text \<open>When the two holders of a split-brained lock hear of each other, exactly one of them
  keeps it: the one that took over from the other's expired lease if just one did, otherwise the
  one with the lesser id.\<close>
theorem heal_one_survivor:
  assumes "sees ga {a, b}" "sees gb {a, b}" "cid a \<noteq> cid b"
    and "\<not> (cid b \<in> set (supersedes a) \<and> cid a \<in> set (supersedes b))"
  shows "(heal a ga = None) \<noteq> (heal b gb = None) \<and>
    (heal a ga = None \<longleftrightarrow>
      cid b \<in> set (supersedes a) \<or> (cid a \<notin> set (supersedes b) \<and> cid a < cid b))"
  using assms(3,4) heal_sees [OF assms(1), of a] heal_sees [OF assms(2), of b] by auto

theorem heal_one_survivor_witness:
  "let a = \<lparr>cid = ClaimId (Ticket 3 (Key [1])) 7, ttl_ms = 5000, owner = [], payload = [],
             supersedes = []\<rparr>;
       b = \<lparr>cid = ClaimId (Ticket 8 (Key [2])) 9, ttl_ms = 5000, owner = [], payload = [],
             supersedes = [cid a]\<rparr>
   in heal a (holders_seen [a, b]) \<noteq> None \<and> heal b (holders_seen [a, b]) = None"
proof -
  define a where "a = \<lparr>cid = ClaimId (Ticket 3 (Key [1])) 7, ttl_ms = 5000, owner = [],
    payload = [], supersedes = []\<rparr>"
  define b where "b = \<lparr>cid = ClaimId (Ticket 8 (Key [2])) 9, ttl_ms = 5000, owner = [],
    payload = [], supersedes = [cid a]\<rparr>"
  have "sees (holders_seen [a, b]) (set [a, b])"
    by (rule seesI) (simp_all add: heal_eval a_def b_def)
  then have g: "sees (holders_seen [a, b]) {a, b}" by simp
  have "cid a \<noteq> cid b" "cid a \<in> set (supersedes b)" "cid b \<notin> set (supersedes a)"
    by (simp_all add: a_def b_def)
  with heal_one_survivor [OF g g]
  have "heal a (holders_seen [a, b]) \<noteq> None \<and> heal b (holders_seen [a, b]) = None" by blast
  then show ?thesis unfolding Let_def a_def b_def .
qed

text \<open>However many holders a partition left, if none took over from another then exactly the
  holder with the least id survives once they hear of each other.\<close>
theorem heal_least_survives:
  assumes "finite C" "inj_on cid C" "c \<in> C" "sees g C"
    and "\<forall>c \<in> C. \<forall>d \<in> C. cid d \<notin> set (supersedes c)"
  shows "heal c g = None \<longleftrightarrow> cid c = Min (cid ` C)"
proof -
  have "heal c g = None \<longleftrightarrow> (\<forall>d \<in> C. cid d = cid c \<or> cid c < cid d)"
    using heal_sees [OF assms(4,3)] assms(3,5) by auto
  also have "\<dots> \<longleftrightarrow> cid c = Min (cid ` C)"
  proof
    assume "\<forall>d \<in> C. cid d = cid c \<or> cid c < cid d"
    then show "cid c = Min (cid ` C)"
      using assms(1,3) by (intro Min_eqI [symmetric]) auto
  next
    assume "cid c = Min (cid ` C)"
    then have "\<forall>d \<in> C. cid c \<le> cid d" using assms(1) by simp
    then show "\<forall>d \<in> C. cid d = cid c \<or> cid c < cid d" by (auto simp: le_less)
  qed
  finally show ?thesis .
qed

theorem heal_least_survives_witness:
  "let a = \<lparr>cid = ClaimId (Ticket 3 (Key [1])) 7, ttl_ms = 5000, owner = [], payload = [],
             supersedes = []\<rparr>
   in heal a (holders_seen [a]) = None"
proof -
  let ?a = "\<lparr>cid = ClaimId (Ticket 3 (Key [1])) 7, ttl_ms = 5000, owner = [], payload = [],
      supersedes = []\<rparr>"
  have "sees (holders_seen [?a]) (set [?a])" by (rule seesI) (simp_all add: heal_eval)
  then show ?thesis using heal_least_survives [of "{?a}" ?a] by (simp add: Let_def)
qed

text \<open>The ranking of the heal is not transitive: with three holders of which the latest took
  over from the earliest, each is outranked by another, so a renewal that reports all three makes
  every one of them give the lock up and no holder survives.\<close>
theorem heal_three_way_no_survivor:
  "let claim = (\<lambda>l o1 sup. \<lparr>cid = ClaimId (Ticket l (Key [o1])) 0, ttl_ms = 5000, owner = [],
                             payload = [], supersedes = sup\<rparr>);
       a = claim 1 1 []; b = claim 2 2 []; c = claim 3 3 [cid a];
       g = holders_seen [a, b, c]
   in heal a g = Some (LSuperseded (cid c)) \<and> heal b g = Some (LSuperseded (cid a)) \<and>
      heal c g = Some (LSuperseded (cid b))"
  by (simp add: heal_def heal_eval)

section \<open>The observer's margin\<close>

text \<open>A clock that advances \<open>r\<close> ticks while real time advances 1000 measures a lease of \<open>d\<close> ticks as
  \<open>1000 * d / r\<close> of real time. \<open>outlasts ms h r\<close>: an observer whose clock runs at rate \<open>r\<close> and that
  receives the claim the moment it is sent keeps it at least until the lease of a holder whose
  clock runs at rate \<open>h\<close> has ended.\<close>

definition outlasts :: "u32 \<Rightarrow> nat \<Rightarrow> nat \<Rightarrow> bool" where
  "outlasts ms h r \<longleftrightarrow> unat ms * millis_ns * r \<le> observer_lease ms * h"

text \<open>The observer's lease of \<open>ttl * (1 + 2 * rho)\<close> outlasts the holder's exactly when the
  observer's clock is at most 1.002 times as fast as the holder's. Two clocks that are each within
  \<open>rho = 1/1000\<close> of real time may be further apart than that: an observer at 1001 and a holder at
  999 per 1000 let the claim expire at the observer before the holder's lease is over.\<close>
theorem observer_lease_margin:
  "(outlasts ms h r \<longleftrightarrow> ms = 0 \<or> 1000 * r \<le> 1002 * h) \<and>
   (ms \<noteq> 0 \<longrightarrow> \<not> outlasts ms 999 1001)"
proof -
  have eq: "outlasts ms h r \<longleftrightarrow> ms = 0 \<or> 1000 * r \<le> 1002 * h" for h r
  proof (cases "unat ms")
    case 0
    then show ?thesis by (simp add: outlasts_def observer_lease_def unat_eq_zero)
  next
    case (Suc n)
    then have "ms \<noteq> 0" by auto
    have "outlasts ms h r \<longleftrightarrow> (1000 * unat ms) * (1000 * r) \<le> (1000 * unat ms) * (1002 * h)"
      by (simp add: outlasts_def observer_lease_def mult.assoc)
    also have "\<dots> \<longleftrightarrow> 1000 * r \<le> 1002 * h" using Suc by (subst mult_le_cancel1) simp
    finally show ?thesis using \<open>ms \<noteq> 0\<close> by simp
  qed
  show ?thesis using eq [of h r] eq [of 999 1001] by simp
qed

theorem observer_lease_margin_witness: "outlasts 30000 1000 1002 \<and> \<not> outlasts 30000 999 1001"
  using observer_lease_margin [of 30000 1000 1002] by simp

end
