(* ===== verification/Lock_Table.thy ===== *)
theory Lock_Table
  imports Lock_Rules
begin

text \<open>
  The lock table of one node (\<^verbatim>\<open>synch-engine/src/locks.rs\<close>: \<open>Own\<close>, \<open>Observed\<close>, \<open>Entry\<close>, \<open>Table\<close>):
  what it records of a lock's claims, the answer it gives about a lock, and the bounded
  bookkeeping of ended claims. The invariant \<open>table_ok\<close> says that every map is keyed by the ids
  its values carry and that no claim is both observed and ended.
\<close>

section \<open>State\<close>

definition ENDED_MEMORY :: duration where "ENDED_MEMORY = 2 * 3600 * secs_ns"
definition MAX_ENDED_IDS :: nat where "MAX_ENDED_IDS = 65536"
definition MAX_TABLE_CLAIMS :: nat where "MAX_TABLE_CLAIMS = 65536"
definition MAX_CLAIMS_PER_ORIGIN :: nat where "MAX_CLAIMS_PER_ORIGIN = 1024"

datatype phase = Contending | PHeld | Unconfirmed

record own =
  own_claim :: claim
  phase :: phase
  mode :: hold_mode
  deadline :: instant
  client_deadline :: "instant option"
  last_renew :: "instant option"
  renewing :: bool
  acquired_at :: int

definition own_held :: "own \<Rightarrow> bool" where
  "own_held own \<longleftrightarrow> phase own \<noteq> Contending"

record observed =
  obs_claim :: claim
  obs_held :: bool
  until :: instant
  expired :: bool

definition obs_state :: "observed \<Rightarrow> claim_state" where
  "obs_state ob = (if expired ob then Expired else if obs_held ob then Held else Live)"

record entry =
  observed :: "(claim_id, observed) hmap"
  ended :: "(claim_id, end_reason \<times> instant) hmap"
  watermarks :: "(origin_id, u64 \<times> instant) hmap"
  own :: "own option"

definition entry_default :: entry where
  "entry_default = \<lparr>observed = [], ended = [], watermarks = [], own = None\<rparr>"

definition entry_is_empty :: "entry \<Rightarrow> bool" where
  "entry_is_empty e \<longleftrightarrow> observed e = [] \<and> ended e = [] \<and> watermarks e = [] \<and> own e = None"

definition entry_end :: "claim_id \<Rightarrow> end_reason \<Rightarrow> instant \<Rightarrow> entry \<Rightarrow> entry" where
  "entry_end i reason now e =
     e\<lparr>observed := hm_remove i (observed e), ended := hm_insert i (reason, now) (ended e)\<rparr>"

definition entry_watermark :: "watermark \<Rightarrow> instant \<Rightarrow> entry \<Rightarrow> entry" where
  "entry_watermark mark now e =
     (let slot = (case map_of (watermarks e) (w_origin mark) of None \<Rightarrow> (0, now) | Some s \<Rightarrow> s);
          slot = (if w_seq mark \<ge> fst slot then (w_seq mark, now) else slot)
      in e\<lparr>watermarks := hm_insert (w_origin mark) slot (watermarks e)\<rparr>)"

section \<open>Answers and views\<close>

text \<open>\<open>sort_by_key\<close> is a stable sort; \<open>Reverse\<close> of a state or an instant is its negation.\<close>

definition own_report :: "instant \<Rightarrow> own \<Rightarrow> report" where
  "own_report now o1 =
     \<lparr>r_claim = own_claim o1, r_state = (if own_held o1 then Held else Live),
      remaining_ms = millis (deadline o1 - now)\<rparr>"

definition obs_report :: "instant \<Rightarrow> observed \<Rightarrow> report" where
  "obs_report now ob =
     \<lparr>r_claim = obs_claim ob, r_state = obs_state ob, remaining_ms = millis (until ob - now)\<rparr>"

definition sorted_observed :: "entry \<Rightarrow> observed list" where
  "sorted_observed e =
     sort_key (\<lambda>ob. (2 - state_rank (obs_state ob), cid (obs_claim ob))) (map snd (observed e))"

definition answer_reports :: "instant \<Rightarrow> entry \<Rightarrow> report list" where
  "answer_reports now e =
     (let mine = (case own e of None \<Rightarrow> [] | Some o1 \<Rightarrow> [own_report now o1]);
          room = MAX_LOCK_REPORTS - length mine
      in mine @ map (obs_report now) (take room (sorted_observed e)))"

definition answer_ended :: "entry \<Rightarrow> (claim_id \<times> end_reason) list" where
  "answer_ended e = map (\<lambda>(i, reason, at). (i, reason))
     (take MAX_LOCK_ENDED (sort_key (\<lambda>(i, reason, at). - int at) (ended e)))"

definition answer_watermarks :: "entry \<Rightarrow> watermark list" where
  "answer_watermarks e = map (\<lambda>(org, seq, at). \<lparr>w_origin = org, w_seq = seq\<rparr>)
     (take MAX_LOCK_WATERMARKS (sort_key (\<lambda>(org, seq, at). - int at) (watermarks e)))"

definition entry_answer :: "instant \<Rightarrow> entry \<Rightarrow> lock_message" where
  "entry_answer now e = MAnswer (answer_reports now e) (answer_ended e) (answer_watermarks e)"

record lock_view =
  v_lock :: lock_name
  v_claim :: claim
  v_state :: claim_state
  v_mode :: "hold_mode option"
  v_contending :: bool
  v_remaining :: duration

definition entry_views :: "lock_name \<Rightarrow> instant \<Rightarrow> entry \<Rightarrow> lock_view list" where
  "entry_views lock now e =
     (case own e of None \<Rightarrow> [] | Some o1 \<Rightarrow>
        [\<lparr>v_lock = lock, v_claim = own_claim o1, v_state = (if own_held o1 then Held else Live),
          v_mode = Some (mode o1), v_contending = (\<not> own_held o1),
          v_remaining =
            (case client_deadline o1 of None \<Rightarrow> deadline o1 | Some d \<Rightarrow> d) - now\<rparr>]) @
     map (\<lambda>ob. \<lparr>v_lock = lock, v_claim = obs_claim ob, v_state = obs_state ob, v_mode = None,
                v_contending = False, v_remaining = until ob - now\<rparr>)
       (sort_key (\<lambda>ob. cid (obs_claim ob)) (map snd (observed e)))"

section \<open>The table\<close>

record table =
  clock :: u64
  saved :: u64
  locks :: "(lock_name, entry) hmap"

definition table_default :: table where
  "table_default = \<lparr>clock = 0, saved = 0, locks = []\<rparr>"

definition hear :: "u64 \<Rightarrow> table \<Rightarrow> table" where
  "hear lam t = t\<lparr>clock := max (clock t) lam\<rparr>"

definition claims :: "table \<Rightarrow> nat" where
  "claims t = sum_list (map (\<lambda>(l, e). length (observed e)) (locks t))"

definition claims_of :: "origin_id \<Rightarrow> table \<Rightarrow> nat" where
  "claims_of org t =
     length (filter (\<lambda>i. id_origin i = org)
       (concat (map (\<lambda>(l, e). map fst (observed e)) (locks t))))"

text \<open>\<open>locks.entry(lock).or_default()\<close>, read and written back.\<close>

definition get_entry :: "lock_name \<Rightarrow> table \<Rightarrow> entry" where
  "get_entry lock t = (case map_of (locks t) lock of None \<Rightarrow> entry_default | Some e \<Rightarrow> e)"

definition put_entry :: "lock_name \<Rightarrow> entry \<Rightarrow> table \<Rightarrow> table" where
  "put_entry lock e t = t\<lparr>locks := hm_insert lock e (locks t)\<rparr>"

definition modify_entry :: "lock_name \<Rightarrow> (entry \<Rightarrow> entry) \<Rightarrow> table \<Rightarrow> table" where
  "modify_entry lock f t = put_entry lock (f (get_entry lock t)) t"

definition own_id :: "lock_name \<Rightarrow> table \<Rightarrow> claim_id option" where
  "own_id lock t =
     (case map_of (locks t) lock of None \<Rightarrow> None
      | Some e \<Rightarrow> map_option (\<lambda>o1. cid (own_claim o1)) (own e))"

definition table_answer :: "lock_name \<Rightarrow> instant \<Rightarrow> table \<Rightarrow> lock_message" where
  "table_answer lock now t =
     (case map_of (locks t) lock of
        None \<Rightarrow> entry_answer now entry_default | Some e \<Rightarrow> entry_answer now e)"

text \<open>\<open>get_mut(&lock)\<close> followed by removal of one ended id, for each of the oldest surplus ids.\<close>

definition drop_ended :: "lock_name \<times> claim_id \<times> instant \<Rightarrow> table \<Rightarrow> table" where
  "drop_ended = (\<lambda>(lock, i, at) t.
     case map_of (locks t) lock of None \<Rightarrow> t
     | Some e \<Rightarrow> put_entry lock (e\<lparr>ended := hm_remove i (ended e)\<rparr>) t)"

definition all_ended :: "table \<Rightarrow> (lock_name \<times> claim_id \<times> instant) list" where
  "all_ended t = concat (map (\<lambda>(lock, e). map (\<lambda>(i, reason, at). (lock, i, at)) (ended e)) (locks t))"

definition trim_ended :: "table \<Rightarrow> table" where
  "trim_ended t =
     (let total = sum_list (map (\<lambda>(l, e). length (ended e)) (locks t)) in
      if total \<le> MAX_ENDED_IDS then t
      else fold drop_ended
             (take (total - MAX_ENDED_IDS) (sort_key (\<lambda>(l, i, at). at) (all_ended t))) t)"

section \<open>The table invariant\<close>

definition entry_ok :: "entry \<Rightarrow> bool" where
  "entry_ok e \<longleftrightarrow>
     hm_invar (observed e) \<and> hm_invar (ended e) \<and> hm_invar (watermarks e) \<and>
     (\<forall>(i, ob) \<in> set (observed e). cid (obs_claim ob) = i) \<and>
     fst ` set (observed e) \<inter> fst ` set (ended e) = {}"

definition table_ok :: "table \<Rightarrow> bool" where
  "table_ok t \<longleftrightarrow> hm_invar (locks t) \<and> (\<forall>(l, e) \<in> set (locks t). entry_ok e)"

lemma entry_ok_default [simp]: "entry_ok entry_default"
  by (simp add: entry_ok_def entry_default_def)

lemma table_ok_default [simp]: "table_ok table_default"
  by (simp add: table_ok_def table_default_def)

lemma entry_ok_end [simp, intro]:
  assumes "entry_ok e"
  shows "entry_ok (entry_end i reason now e)"
  using assms set_hm_remove_subset [of i "observed e"]
  by (auto simp: entry_ok_def entry_end_def keys_hm_insert keys_hm_remove)

lemma entry_ok_watermark [simp, intro]: "entry_ok e \<Longrightarrow> entry_ok (entry_watermark mark now e)"
  by (auto simp: entry_ok_def entry_watermark_def Let_def)

lemma entry_ok_own [simp]: "entry_ok (e\<lparr>own := o1\<rparr>) = entry_ok e"
  by (simp add: entry_ok_def)

lemma get_entry_put [simp]:
  "get_entry l (put_entry l' e t) = (if l = l' then e else get_entry l t)"
  by (simp add: get_entry_def put_entry_def map_simps)

lemma get_entry_modify [simp]:
  "get_entry l (modify_entry l' f t) = (if l = l' then f (get_entry l t) else get_entry l t)"
  by (simp add: modify_entry_def)

lemma put_entry_other [simp]:
  "clock (put_entry l e t) = clock t" "saved (put_entry l e t) = saved t"
  "clock (modify_entry l f t) = clock t" "saved (modify_entry l f t) = saved t"
  by (simp_all add: put_entry_def modify_entry_def)

lemma get_entry_hear [simp]: "get_entry l (hear lam t) = get_entry l t"
  by (simp add: get_entry_def hear_def)

lemma locks_hear [simp]: "locks (hear lam t) = locks t" "saved (hear lam t) = saved t"
  by (simp_all add: hear_def)

lemma clock_hear [simp]: "clock (hear lam t) = max (clock t) lam"
  by (simp add: hear_def)

lemma table_ok_hear [simp]: "table_ok (hear lam t) = table_ok t"
  by (simp add: table_ok_def)

lemma get_entry_ok: "table_ok t \<Longrightarrow> entry_ok (get_entry l t)"
  by (auto simp: table_ok_def get_entry_def split: option.splits dest!: map_of_SomeD)

lemma table_ok_put [intro]: "table_ok t \<Longrightarrow> entry_ok e \<Longrightarrow> table_ok (put_entry l e t)"
  using set_hm_insert_subset [of l e "locks t"] by (auto simp: table_ok_def put_entry_def)

lemma table_ok_modify [intro]:
  "table_ok t \<Longrightarrow> (\<And>e. entry_ok e \<Longrightarrow> entry_ok (f e)) \<Longrightarrow> table_ok (modify_entry l f t)"
  by (auto simp: modify_entry_def get_entry_ok)

lemma own_id_get_entry: "own_id l t = map_option (\<lambda>o1. cid (own_claim o1)) (own (get_entry l t))"
  by (simp add: own_id_def get_entry_def entry_default_def split: option.splits)

lemma table_answer_get_entry: "table_answer l now t = entry_answer now (get_entry l t)"
  by (simp add: table_answer_def get_entry_def split: option.splits)

lemma entry_end_simps [simp]:
  "own (entry_end i r now e) = own e" "watermarks (entry_end i r now e) = watermarks e"
  "map_of (ended (entry_end i r now e)) = (map_of (ended e))(i \<mapsto> (r, now))"
  "map_of (observed (entry_end i r now e)) = (map_of (observed e))(i := None)"
  by (simp_all add: entry_end_def map_simps)

lemma entry_watermark_simps [simp]:
  "own (entry_watermark m now e) = own e" "ended (entry_watermark m now e) = ended e"
  "observed (entry_watermark m now e) = observed e"
  by (simp_all add: entry_watermark_def Let_def)

section \<open>What an answer says\<close>

definition entry_claims_ok :: "entry \<Rightarrow> bool" where
  "entry_claims_ok e \<longleftrightarrow>
     (\<forall>(i, ob) \<in> set (observed e). claim_check (obs_claim ob) = Inr ()) \<and>
     (case own e of None \<Rightarrow> True | Some o1 \<Rightarrow> claim_check (own_claim o1) = Inr ())"

lemma set_sorted_observed [simp]: "set (sorted_observed e) = snd ` set (observed e)"
  by (simp add: sorted_observed_def)

lemma answer_reports_cases:
  "r \<in> set (answer_reports now e) \<Longrightarrow>
     (\<exists>o1. own e = Some o1 \<and> r = own_report now o1) \<or>
     (\<exists>ob \<in> snd ` set (observed e). r = obs_report now ob)"
  by (auto simp: answer_reports_def Let_def split: option.splits dest!: in_set_takeD)

lemma length_answer_reports: "length (answer_reports now e) \<le> MAX_LOCK_REPORTS"
  by (simp add: answer_reports_def Let_def MAX_LOCK_REPORTS_def split: option.splits)



lemma own_reported: "own e = Some o1 \<Longrightarrow> own_report now o1 \<in> set (answer_reports now e)"
  by (simp add: answer_reports_def Let_def)

section \<open>Trimming the ended claims\<close>

abbreviation akey :: "lock_name \<times> claim_id \<times> instant \<Rightarrow> lock_name \<times> claim_id" where
  "akey x \<equiv> (fst x, fst (snd x))"

abbreviation ended_at :: "table \<Rightarrow> lock_name \<Rightarrow> claim_id \<Rightarrow> (end_reason \<times> instant) option" where
  "ended_at t l i \<equiv> map_of (ended (get_entry l t)) i"

lemma length_all_ended: "length (all_ended t) = sum_list (map (\<lambda>(l, e). length (ended e)) (locks t))"
  by (simp add: all_ended_def length_concat comp_def case_prod_unfold)

lemma mem_all_ended:
  assumes "table_ok t"
  shows "(l, i, at) \<in> set (all_ended t) \<longleftrightarrow> (\<exists>r. ended_at t l i = Some (r, at))"
proof -
  have "(l, i, at) \<in> set (all_ended t) \<longleftrightarrow> (\<exists>e r. (l, e) \<in> set (locks t) \<and> (i, r, at) \<in> set (ended e))"
    by (force simp: all_ended_def)
  also have "\<dots> \<longleftrightarrow> (\<exists>e r. map_of (locks t) l = Some e \<and> map_of (ended e) i = Some (r, at))"
    using assms by (force simp: table_ok_def entry_ok_def)
  also have "\<dots> \<longleftrightarrow> (\<exists>r. ended_at t l i = Some (r, at))"
    by (auto simp: get_entry_def entry_default_def split: option.splits)
  finally show ?thesis .
qed

lemma distinct_all_ended:
  assumes "table_ok t"
  shows "distinct (map akey (all_ended t))"
proof -
  let ?f = "\<lambda>(lock, e). map (\<lambda>(i, reason, at). (lock, i, at)) (ended e)"
  have lock: "fst x \<in> fst ` set ls" if x: "x \<in> set (concat (map ?f ls))"
    for x and ls :: "(lock_name, entry) hmap"
  proof -
    obtain le where le: "le \<in> set ls" "x \<in> set (?f le)"
      using x by (simp only: set_concat set_map) blast
    then have "fst x = fst le" by (auto simp: case_prod_unfold)
    with le show ?thesis by simp
  qed
  have core: "distinct (map akey (concat (map ?f ls)))"
    if "hm_invar ls" "\<forall>le \<in> set ls. hm_invar (ended (snd le))" for ls :: "(lock_name, entry) hmap"
    using that
  proof (induction ls)
    case (Cons le ls)
    have eq: "map akey (?f le) = map (Pair (fst le)) (map fst (ended (snd le)))"
      by (simp add: case_prod_unfold)
    have "distinct (map akey (?f le))"
      unfolding eq using Cons.prems by (simp add: distinct_map inj_on_def)
    moreover have "set (map akey (?f le)) \<inter> set (map akey (concat (map ?f ls))) = {}"
    proof -
      have a: "fst le \<notin> fst ` set ls" using Cons.prems by simp
      have b: "fst k = fst le" if "k \<in> set (map akey (?f le))" for k
        using that unfolding eq by (simp only: set_map) auto
      have c: "fst k \<in> fst ` set ls" if "k \<in> set (map akey (concat (map ?f ls)))" for k
      proof -
        from that obtain x where "x \<in> set (concat (map ?f ls))" "k = akey x"
          by (simp only: set_map [of akey]) blast
        with lock [of x ls] show ?thesis by simp
      qed
      show ?thesis using a b c by (intro Int_emptyI) force
    qed
    moreover have "distinct (map akey (concat (map ?f ls)))" using Cons by simp
    ultimately show ?case
      by (simp only: list.map concat.simps map_append distinct_append)
  qed simp
  show ?thesis unfolding all_ended_def
    by (rule core) (use assms in \<open>auto simp: table_ok_def entry_ok_def\<close>)
qed

lemma get_entry_drop:
  "get_entry l (drop_ended x t) =
     (let e = get_entry l t in if l = fst x then e\<lparr>ended := hm_remove (fst (snd x)) (ended e)\<rparr> else e)"
  by (cases x) (auto simp: drop_ended_def Let_def get_entry_def put_entry_def map_simps
      entry_default_def split: option.splits)

lemma table_ok_drop: "table_ok t \<Longrightarrow> table_ok (drop_ended x t)"
proof (cases x)
  case (fields l i at)
  assume ok: "table_ok t"
  then have "entry_ok (get_entry l t)" by (rule get_entry_ok)
  then have "entry_ok ((get_entry l t)\<lparr>ended := hm_remove i (ended (get_entry l t))\<rparr>)"
    by (auto simp: entry_ok_def keys_hm_remove)
  with ok show ?thesis
    by (auto simp: fields drop_ended_def get_entry_def split: option.splits)
qed

lemma ended_at_drop:
  "ended_at (drop_ended x t) l i = (if (l, i) = akey x then None else ended_at t l i)"
  by (auto simp: get_entry_drop Let_def map_simps)

lemma drop_ended_frame [simp]:
  "own (get_entry l (drop_ended x t)) = own (get_entry l t)"
  "observed (get_entry l (drop_ended x t)) = observed (get_entry l t)"
  "clock (drop_ended x t) = clock t"
  by (simp_all add: get_entry_drop Let_def) (simp add: drop_ended_def split: prod.split option.split)

lemma fold_drop_ok: "table_ok t \<Longrightarrow> table_ok (fold drop_ended xs t)"
  by (induction xs arbitrary: t) (simp_all add: table_ok_drop)

lemma fold_drop_ended:
  "ended_at (fold drop_ended xs t) l i = (if (l, i) \<in> akey ` set xs then None else ended_at t l i)"
  by (induction xs arbitrary: t) (simp_all add: ended_at_drop)

lemma fold_drop_frame:
  "own (get_entry l (fold drop_ended xs t)) = own (get_entry l t)"
  "observed (get_entry l (fold drop_ended xs t)) = observed (get_entry l t)"
  "clock (fold drop_ended xs t) = clock t"
  by (induction xs arbitrary: t) simp_all

lemma card_all_ended: "table_ok t \<Longrightarrow> card (set (all_ended t)) = length (all_ended t)"
  using distinct_all_ended [of t] by (simp add: distinct_card distinct_map)

lemma set_all_ended_fold:
  assumes "table_ok t"
  shows "set (all_ended (fold drop_ended xs t)) = {x \<in> set (all_ended t). akey x \<notin> akey ` set xs}"
proof -
  have "x \<in> set (all_ended (fold drop_ended xs t)) \<longleftrightarrow> x \<in> set (all_ended t) \<and> akey x \<notin> akey ` set xs"
    for x
    by (cases x) (simp add: mem_all_ended assms fold_drop_ok fold_drop_ended)
  then show ?thesis by auto
qed

lemma trim_ended_alt:
  "trim_ended t =
     (let total = length (all_ended t) in
      if total \<le> MAX_ENDED_IDS then t
      else fold drop_ended
        (take (total - MAX_ENDED_IDS) (sort_key (\<lambda>(l, i, at). at) (all_ended t))) t)"
  by (simp add: trim_ended_def length_all_ended)

lemma sorted_take_drop:
  assumes "sorted (map f xs)" "x \<in> set (take n xs)" "y \<in> set (drop n xs)"
  shows "f x \<le> f y"
proof -
  have "sorted (map f (take n xs @ drop n xs))" using assms(1) by simp
  then have "sorted (map f (take n xs) @ map f (drop n xs))" by (simp only: map_append)
  with assms(2,3) show ?thesis by (simp only: sorted_append) auto
qed

lemma set_minus_take:
  assumes "distinct xs"
  shows "{x \<in> set xs. x \<notin> set (take n xs)} = set (drop n xs)"
proof -
  have "set xs = set (take n xs) \<union> set (drop n xs)"
    using set_append [of "take n xs" "drop n xs"] by simp
  with set_take_disj_set_drop_if_distinct [OF assms, of n n] show ?thesis by blast
qed

lemma set_all_ended_trim:
  assumes "table_ok t" "MAX_ENDED_IDS < length (all_ended t)"
  shows "set (all_ended (trim_ended t)) =
    set (drop (length (all_ended t) - MAX_ENDED_IDS) (sort_key (\<lambda>(l, i, at). at) (all_ended t)))"
proof -
  let ?A = "sort_key (\<lambda>(l, i, at). at) (all_ended t)" and ?n = "length (all_ended t) - MAX_ENDED_IDS"
  have A: "set ?A = set (all_ended t)" by simp
  have "distinct (all_ended t)" "inj_on akey (set (all_ended t))"
    using distinct_all_ended [OF assms(1)] by (simp_all add: distinct_map)
  then have dis: "distinct ?A" and inj: "inj_on akey (set ?A)" by simp_all
  have "akey x \<in> akey ` set (take ?n ?A) \<longleftrightarrow> x \<in> set (take ?n ?A)" if "x \<in> set ?A" for x
    by (rule inj_on_image_mem_iff [OF inj that set_take_subset])
  then have eq: "{x \<in> set ?A. akey x \<notin> akey ` set (take ?n ?A)} = {x \<in> set ?A. x \<notin> set (take ?n ?A)}"
    by blast
  have "set (all_ended (trim_ended t)) = {x \<in> set ?A. akey x \<notin> akey ` set (take ?n ?A)}"
    using assms by (simp add: trim_ended_alt Let_def set_all_ended_fold)
  then have "set (all_ended (trim_ended t)) = {x \<in> set ?A. x \<notin> set (take ?n ?A)}"
    by (simp only: eq)
  also have "\<dots> = set (drop ?n ?A)"
    by (rule set_minus_take [OF dis])
  finally show ?thesis .
qed

text \<open>Trimming bounds the ended ids a node remembers: at most \<open>MAX_ENDED_IDS\<close> remain over
  all locks, nothing but ended ids is touched, an id that stays keeps its time, and
  every id that is dropped ended no later than every id that is kept.\<close>
theorem trim_ended_bound:
  assumes "table_ok t"
  shows "length (all_ended (trim_ended t)) \<le> MAX_ENDED_IDS \<and> table_ok (trim_ended t) \<and>
    set (all_ended (trim_ended t)) \<subseteq> set (all_ended t) \<and>
    (\<forall>x \<in> set (all_ended t) - set (all_ended (trim_ended t)).
       \<forall>y \<in> set (all_ended (trim_ended t)). snd (snd x) \<le> snd (snd y)) \<and>
    (\<forall>l. own (get_entry l (trim_ended t)) = own (get_entry l t) \<and>
         observed (get_entry l (trim_ended t)) = observed (get_entry l t))"
proof (cases "length (all_ended t) \<le> MAX_ENDED_IDS")
  case True
  then show ?thesis using assms by (simp add: trim_ended_alt)
next
  case False
  let ?A = "sort_key (\<lambda>(l, i, at). at) (all_ended t)" and ?n = "length (all_ended t) - MAX_ENDED_IDS"
  have ok: "table_ok (trim_ended t)"
    using assms by (simp add: trim_ended_alt Let_def fold_drop_ok)
  have eq: "set (all_ended (trim_ended t)) = set (drop ?n ?A)"
    using set_all_ended_trim assms False by simp
  have "distinct ?A" using distinct_all_ended [OF assms] by (simp add: distinct_map)
  then have "length (all_ended (trim_ended t)) = length (drop ?n ?A)"
    using card_all_ended [OF ok] eq by (simp add: distinct_card)
  then have len: "length (all_ended (trim_ended t)) \<le> MAX_ENDED_IDS" by simp
  have sub: "set (all_ended (trim_ended t)) \<subseteq> set (all_ended t)"
    using eq set_drop_subset [of ?n ?A] by simp
  have ord: "snd (snd x) \<le> snd (snd y)"
    if "x \<in> set (all_ended t) - set (all_ended (trim_ended t))" "y \<in> set (all_ended (trim_ended t))"
    for x y
  proof -
    have "x \<in> set (take ?n ?A)"
      using that(1) set_append [of "take ?n ?A" "drop ?n ?A"] by (auto simp: eq)
    moreover have "y \<in> set (drop ?n ?A)" using that(2) eq by simp
    ultimately show ?thesis
      using sorted_take_drop [of "\<lambda>(l, i, at). at" ?A x ?n y] by (simp add: case_prod_unfold)
  qed
  have "own (get_entry l (trim_ended t)) = own (get_entry l t)"
    "observed (get_entry l (trim_ended t)) = observed (get_entry l t)" for l
    using False by (simp_all add: trim_ended_alt Let_def fold_drop_frame)
  with ok len sub ord show ?thesis by blast
qed

theorem trim_ended_bound_witness:
  "let t = modify_entry (LockName (str ''s'') (str ''n''))
             (entry_end (ClaimId (Ticket 3 (Key [1])) 7) Released 5) table_default
   in length (all_ended (trim_ended t)) \<le> MAX_ENDED_IDS"
  unfolding Let_def by (rule trim_ended_bound [THEN conjunct1]) auto

end
