(* ===== verification/Lock_Store.thy ===== *)
theory Lock_Store
  imports Lock_Table
begin

text \<open>
  The lock state a node keeps across restarts (\<^verbatim>\<open>synch-store/src/locks.rs\<close>): the one-row table
  \<open>lock_clock\<close>, whose column is a signed 64-bit integer, and \<open>lock_holds\<close>, keyed by space and name
  and read in that order. A \<open>u64\<close> is stored by casting it to \<open>i64\<close>; SQLite compares the stored
  integers as signed.
\<close>

section \<open>State and operations\<close>

record lock_hold_row =
  row_space :: rstr
  row_name :: rstr
  row_origin :: rstr
  row_lamport :: u64
  row_nonce :: u64
  row_ttl_ms :: u32
  sticky :: bool
  row_owner :: rstr
  row_payload :: bytes
  row_supersedes :: bytes
  row_acquired_at :: int
  lease_until :: "int option"

record lock_store =
  clock_row :: "int option"
  hold_rows :: "(rstr \<times> rstr, lock_hold_row) btmap"

definition store_default :: lock_store where
  "store_default = \<lparr>clock_row = None, hold_rows = []\<rparr>"

definition lock_clock :: "lock_store \<Rightarrow> u64" where
  "lock_clock s = (case clock_row s of None \<Rightarrow> 0 | Some v \<Rightarrow> word_of_int v)"

definition raise_lock_clock :: "u64 \<Rightarrow> lock_store \<Rightarrow> lock_store" where
  "raise_lock_clock lam s =
     s\<lparr>clock_row := Some (case clock_row s of None \<Rightarrow> sint lam | Some v \<Rightarrow> max v (sint lam))\<rparr>"

definition put_lock_hold :: "lock_hold_row \<Rightarrow> lock_store \<Rightarrow> lock_store" where
  "put_lock_hold row s =
     s\<lparr>hold_rows := bt_insert (row_space row, row_name row) row (hold_rows s)\<rparr>"

definition remove_lock_hold :: "rstr \<Rightarrow> rstr \<Rightarrow> u64 \<Rightarrow> u64 \<Rightarrow> lock_store \<Rightarrow> lock_store" where
  "remove_lock_hold sp nm lam non s =
     s\<lparr>hold_rows := filter (\<lambda>(k, row).
         \<not> (k = (sp, nm) \<and> row_lamport row = lam \<and> row_nonce row = non)) (hold_rows s)\<rparr>"

definition lock_holds :: "lock_store \<Rightarrow> lock_hold_row list" where
  "lock_holds s = map snd (hold_rows s)"

section \<open>Facts\<close>

definition store_ok :: "lock_store \<Rightarrow> bool" where
  "store_ok s \<longleftrightarrow>
     bt_invar (hold_rows s) \<and>
     (\<forall>(k, row) \<in> set (hold_rows s). k = (row_space row, row_name row)) \<and>
     (case clock_row s of None \<Rightarrow> True | Some v \<Rightarrow> - (2 ^ 63) \<le> v \<and> v < 2 ^ 63)"

lemma sint_u64_bounds: "- (2 ^ 63) \<le> sint (w :: u64)" "sint (w :: u64) < 2 ^ 63"
  using sint_ge [of w] sint_lt [of w] by simp_all

lemma store_ok_default [simp]: "store_ok store_default"
  by (simp add: store_ok_def store_default_def)

lemma store_ok_put [intro]: "store_ok s \<Longrightarrow> store_ok (put_lock_hold row s)"
  using set_bt_insert_subset [of "(row_space row, row_name row)" row "hold_rows s"]
  by (auto simp: store_ok_def put_lock_hold_def bt_invar_insert)

lemma store_ok_remove [intro]: "store_ok s \<Longrightarrow> store_ok (remove_lock_hold sp nm lam non s)"
  by (auto simp: store_ok_def remove_lock_hold_def bt.invar_filter)

lemma store_ok_raise [intro]: "store_ok s \<Longrightarrow> store_ok (raise_lock_clock lam s)"
  using sint_u64_bounds [of lam]
  by (auto simp: store_ok_def raise_lock_clock_def split: option.splits)

lemma get_remove_lock_hold:
  assumes "store_ok s"
  shows "map_of (hold_rows (remove_lock_hold sp nm lam non s)) k =
    (case map_of (hold_rows s) k of None \<Rightarrow> None
     | Some row \<Rightarrow> if k = (sp, nm) \<and> row_lamport row = lam \<and> row_nonce row = non then None else Some row)"
  using assms by (auto simp: store_ok_def remove_lock_hold_def bt.get_filter split: option.splits)

lemma get_put_lock_hold:
  "map_of (hold_rows (put_lock_hold row s)) =
     (map_of (hold_rows s))((row_space row, row_name row) \<mapsto> row)"
  by (simp add: put_lock_hold_def map_simps)

lemma u64_of_small_sint:
  assumes "unat (w :: u64) < 2 ^ 63"
  shows "sint w = int (unat w)"
proof -
  have "int (unat w) < int (2 ^ 63)" using assms by (simp only: of_nat_less_iff)
  then have hi: "uint w < 2 ^ 63" by simp
  have "- (2 ^ 63) \<le> (0 :: int)" by simp
  also have "0 \<le> uint w" by (rule uint_ge_0)
  finally have "signed_take_bit 63 (uint w) = uint w"
    using hi by (rule signed_take_bit_int_eq_self)
  moreover have "sint w = signed_take_bit 63 (uint w)" using sint_uint [of w] by simp
  ultimately show ?thesis by simp
qed

text \<open>Below \<open>2^63\<close> the persisted clock behaves as documented: raising it to a lamport time
  makes it the maximum of the two, so it never falls and never forgets a raise.\<close>
theorem raise_lock_clock_max:
  assumes "store_ok s" "unat (lock_clock s) < 2 ^ 63" "unat lam < 2 ^ 63"
  shows "lock_clock (raise_lock_clock lam s) = max (lock_clock s) lam"
proof (cases "clock_row s")
  case None
  then show ?thesis by (simp add: lock_clock_def raise_lock_clock_def max_def)
next
  case (Some v)
  have v: "sint (word_of_int v :: u64) = v"
    using assms(1) Some by (simp add: store_ok_def sint_sbintrunc' signed_take_bit_int_eq_self)
  then have "v = int (unat (lock_clock s))"
    using u64_of_small_sint [OF assms(2)] Some by (simp add: lock_clock_def)
  moreover have "sint lam = int (unat lam)" by (rule u64_of_small_sint [OF assms(3)])
  ultimately have "max v (sint lam) = int (unat (max (lock_clock s) lam))"
    by (simp add: max_def word_le_def)
  then show ?thesis using Some by (simp add: lock_clock_def raise_lock_clock_def)
qed

theorem raise_lock_clock_max_witness:
  "lock_clock (raise_lock_clock 3 (raise_lock_clock 7 store_default)) = 7"
proof -
  have c: "lock_clock (raise_lock_clock 7 store_default) = 7"
    by (simp add: lock_clock_def raise_lock_clock_def store_default_def)
  have "store_ok (raise_lock_clock 7 store_default)" by (rule store_ok_raise) simp
  from raise_lock_clock_max [OF this, of 3] show ?thesis by (simp add: c)
qed

text \<open>From \<open>2^63\<close> on the signed comparison of the column breaks the promise that the clock is
  only ever raised: a raise to \<open>2^63\<close> over a smaller clock is dropped, and a clock first stored at
  \<open>2^63\<close> is lowered by the next raise.\<close>
theorem raise_lock_clock_signed:
  "lock_clock (raise_lock_clock (2 ^ 63) (raise_lock_clock 7 store_default)) = 7 \<and>
   lock_clock (raise_lock_clock (2 ^ 63) store_default) = 2 ^ 63 \<and>
   lock_clock (raise_lock_clock 1 (raise_lock_clock (2 ^ 63) store_default)) = 1"
  by (simp add: lock_clock_def raise_lock_clock_def store_default_def)

text \<open>Recording a hold replaces any earlier hold of the same lock and leaves every other lock's
  row alone, and forgetting a hold removes only the claim it names: a stale removal cannot take a
  newer hold of the lock with it.\<close>
theorem lock_holds_put_remove:
  assumes "store_ok s"
  shows "map_of (hold_rows (remove_lock_hold (row_space row) (row_name row) lam non
      (put_lock_hold row s))) k =
    (if k = (row_space row, row_name row)
     then if row_lamport row = lam \<and> row_nonce row = non then None else Some row
     else map_of (hold_rows s) k)"
  using assms by (simp add: get_remove_lock_hold store_ok_put get_put_lock_hold split: option.splits)

theorem lock_holds_put_remove_witness:
  "let row = \<lparr>row_space = str ''infra'', row_name = str ''l'', row_origin = [], row_lamport = 2,
              row_nonce = 5, row_ttl_ms = 30000, sticky = True, row_owner = [], row_payload = [],
              row_supersedes = [], row_acquired_at = 1, lease_until = None\<rparr>
   in map_of (hold_rows (remove_lock_hold (str ''infra'') (str ''l'') 1 5
        (put_lock_hold row store_default))) (str ''infra'', str ''l'') = Some row"
proof -
  define row where "row = \<lparr>row_space = str ''infra'', row_name = str ''l'', row_origin = [],
    row_lamport = 2, row_nonce = 5, row_ttl_ms = 30000, sticky = True, row_owner = [],
    row_payload = [], row_supersedes = [], row_acquired_at = 1, lease_until = None\<rparr>"
  have "map_of (hold_rows (remove_lock_hold (row_space row) (row_name row) 1 5
      (put_lock_hold row store_default))) (row_space row, row_name row) = Some row"
    by (subst lock_holds_put_remove) (simp_all add: row_def)
  then show ?thesis by (simp add: row_def Let_def)
qed

end
