(* ===== verification/Lock_Serve.thy ===== *)
theory Lock_Serve
  imports Lock_Store
begin

text \<open>
  The state of a node's \<open>LockManager\<close> (\<^verbatim>\<open>synch-engine/src/locks.rs\<close>) and the half of it that
  answers peers: authorising, recording claims and ends, and serving a request. The lookups that
  bind a device key to origins and an origin to its publication scope read the membership tables
  of the store; here they are the parameter \<open>authority\<close>, and every fact holds for whatever they
  return.

  The table mutex makes each operation that holds it one atomic step, so an operation is a
  function on the manager. A \<open>RwLock\<close> of \<open>fences\<close> is the number of read guards out on it, and the
  \<open>lost\<close> channels are the list of what was sent on them, newest first.
\<close>

section \<open>The manager\<close>

record authority =
  key_origins :: "node_id \<Rightarrow> engine_error + origin_id list"
  origin_scope :: "origin_id \<Rightarrow> engine_error + publish_scope"
  key_scope :: "node_id \<Rightarrow> engine_error + publish_scope"

record manager =
  m_origin :: origin_id
  claim_window :: duration
  handoff_window :: duration
  m_table :: table
  m_store :: lock_store
  fences :: "lock_name \<Rightarrow> nat"
  notices :: "(claim_id \<times> lost) list"

definition manager_new :: "origin_id \<Rightarrow> duration \<Rightarrow> duration \<Rightarrow> lock_store \<Rightarrow> manager" where
  "manager_new org cw hw st =
     \<lparr>m_origin = org, claim_window = cw, handoff_window = hw, m_table = table_default,
      m_store = st, fences = (\<lambda>_. 0), notices = []\<rparr>"

definition update_table :: "(table \<Rightarrow> table) \<Rightarrow> manager \<Rightarrow> manager" where
  "update_table f m = m\<lparr>m_table := f (m_table m)\<rparr>"

text \<open>The condition on which the maintenance loop stops sleeping.\<close>

definition has_work :: "table \<Rightarrow> bool" where
  "has_work t \<longleftrightarrow> locks t \<noteq> [] \<or> clock t > saved t"

section \<open>Authorisation\<close>

fun keep_writers :: "authority \<Rightarrow> rstr \<Rightarrow> origin_id list \<Rightarrow> engine_error + origin_id list" where
  "keep_writers a sp [] = Inr []"
| "keep_writers a sp (org # orgs) =
     result_bind (origin_scope a org) (\<lambda>scope.
     result_bind (keep_writers a sp orgs) (\<lambda>writers.
     Inr (if may_publish scope sp then org # writers else writers)))"

definition writer_origins :: "authority \<Rightarrow> node_id \<Rightarrow> rstr \<Rightarrow> engine_error + origin_id list" where
  "writer_origins a peer sp = result_bind (key_origins a peer) (keep_writers a sp)"

definition may_read :: "authority \<Rightarrow> node_id \<Rightarrow> rstr \<Rightarrow> engine_error + bool" where
  "may_read a peer sp = result_bind (key_scope a peer) (\<lambda>scope. Inr (may_publish scope sp))"

text \<open>\<open>grant\<close> and \<open>read_only\<close> are what \<open>own_grant\<close> and \<open>own_read_only\<close> return.\<close>

definition check_own_authority ::
  "engine_error + rstr list option \<Rightarrow> engine_error + rstr list \<Rightarrow> rstr \<Rightarrow> engine_error + unit" where
  "check_own_authority grant read_only sp =
     result_bind grant (\<lambda>g.
     result_bind (case g of
        None \<Rightarrow> Inr False
      | Some spaces \<Rightarrow>
          if \<not> list_ex (\<lambda>s. s = sp) spaces then Inr True
          else result_bind read_only (\<lambda>ro. Inr (list_ex (\<lambda>s. s = sp) ro)))
       (\<lambda>refused. if refused then Inl Invalid else Inr ()))"

fun pick_targets ::
  "authority \<Rightarrow> rstr \<Rightarrow> node_id list \<Rightarrow> engine_error + node_id list" where
  "pick_targets a sp [] = Inr []"
| "pick_targets a sp (peer # peers) =
     result_bind (writer_origins a peer sp) (\<lambda>writers.
     result_bind (pick_targets a sp peers) (\<lambda>rest.
     Inr (if writers \<noteq> [] then peer # rest else rest)))"

section \<open>Recording a claim or a renewal\<close>

definition refresh :: "claim \<Rightarrow> bool \<Rightarrow> instant \<Rightarrow> observed option \<Rightarrow> observed" where
  "refresh c renewal now slot =
     (let lease_end = now + observer_lease (ttl_ms c);
          ob = (case slot of
                  None \<Rightarrow> \<lparr>obs_claim = c, obs_held = False, until = lease_end, expired = False\<rparr>
                | Some ob \<Rightarrow> ob)
      in ob\<lparr>obs_claim := c, until := lease_end, expired := False,
             obs_held := obs_held ob \<or> renewal\<rparr>)"

definition observe :: "claim \<Rightarrow> bool \<Rightarrow> instant \<Rightarrow> entry \<Rightarrow> entry" where
  "observe c renewal now e =
     (if map_of (ended e) (cid c) \<noteq> None then e
      else e\<lparr>observed :=
             hm_insert (cid c) (refresh c renewal now (map_of (observed e) (cid c))) (observed e)\<rparr>)"

definition table_full :: "table \<Rightarrow> lock_name \<Rightarrow> claim_id \<Rightarrow> bool" where
  "table_full t lock i \<longleftrightarrow>
     (case map_of (locks t) lock of None \<Rightarrow> True | Some e \<Rightarrow> map_of (observed e) i = None) \<and>
     (claims t \<ge> MAX_TABLE_CLAIMS \<or> claims_of (id_origin i) t \<ge> MAX_CLAIMS_PER_ORIGIN)"

text \<open>The part of \<open>record\<close> that holds the table.\<close>

definition record_table ::
  "lock_name \<Rightarrow> claim \<Rightarrow> bool \<Rightarrow> instant \<Rightarrow> table \<Rightarrow> table \<times> lock_message" where
  "record_table lock c renewal now t =
     (let t = hear (id_lamport (cid c)) t in
      if table_full t lock (cid c) then (t, MRefused TableFull)
      else
        let e = observe c renewal now (get_entry lock t)
        in (put_entry lock e t, entry_answer now e))"

definition record_claim ::
  "authority \<Rightarrow> node_id \<Rightarrow> lock_name \<Rightarrow> claim \<Rightarrow> bool \<Rightarrow> instant \<Rightarrow> manager
     \<Rightarrow> manager \<times> (engine_error + lock_message)" where
  "record_claim a peer lock c renewal now m =
     (if id_origin (cid c) = m_origin m then (m, Inr (table_answer lock now (m_table m)))
      else case writer_origins a peer (space lock) of
        Inl e \<Rightarrow> (m, Inl e)
      | Inr writers \<Rightarrow>
          if id_origin (cid c) \<notin> set writers then (m, Inr (MRefused NotAWriter))
          else
            let (t, answer) = record_table lock c renewal now (m_table m)
            in (m\<lparr>m_table := t\<rparr>, Inr answer))"

section \<open>Recording an end\<close>

text \<open>The branch taken under the write half of the fence, once no fenced commit is in flight.\<close>

definition take_own :: "lock_name \<Rightarrow> claim_id \<Rightarrow> lost \<Rightarrow> manager \<Rightarrow> manager" where
  "take_own lock i why m =
     (let e = get_entry lock (m_table m) in
      case own e of
        None \<Rightarrow> m
      | Some o1 \<Rightarrow>
          if cid (own_claim o1) = i
          then m\<lparr>m_table := put_entry lock (e\<lparr>own := None\<rparr>) (m_table m),
                 notices := (i, why) # notices m\<rparr>
          else m)"

definition record_end_own ::
  "bool \<Rightarrow> lock_name \<Rightarrow> claim_id \<Rightarrow> end_reason \<Rightarrow> instant \<Rightarrow> manager
     \<Rightarrow> manager \<times> (engine_error + lock_message)" where
  "record_end_own sok lock i reason now m =
     (let m = take_own lock i (LEnded reason) m;
          m = update_table (modify_entry lock (entry_end i reason now)) m
      in if sok
         then (m\<lparr>m_store := remove_lock_hold (space lock) (lname lock) (id_lamport i) (nonce i)
                 (m_store m)\<rparr>, Inr MAck)
         else (m, Inl StoreError))"

definition record_end_other ::
  "lock_name \<Rightarrow> claim_id \<Rightarrow> end_reason \<Rightarrow> watermark option \<Rightarrow> instant \<Rightarrow> manager \<Rightarrow> manager" where
  "record_end_other lock i reason mark now m =
     update_table (modify_entry lock (\<lambda>e.
       let e = entry_end i reason now e in
       case mark of
         None \<Rightarrow> e
       | Some w \<Rightarrow> if w_origin w = id_origin i then entry_watermark w now e else e)) m"

definition end_allowed :: "end_reason \<Rightarrow> claim_id \<Rightarrow> origin_id list \<Rightarrow> bool" where
  "end_allowed reason i writers \<longleftrightarrow>
     (if reason = Broken then writers \<noteq> [] else id_origin i \<in> set writers)"

definition record_end ::
  "authority \<Rightarrow> bool \<Rightarrow> node_id \<Rightarrow> lock_name \<Rightarrow> claim_id \<Rightarrow> end_reason \<Rightarrow> watermark option
     \<Rightarrow> instant \<Rightarrow> manager \<Rightarrow> manager \<times> (engine_error + lock_message)" where
  "record_end a sok peer lock i reason mark now m =
     (case writer_origins a peer (space lock) of
        Inl e \<Rightarrow> (m, Inl e)
      | Inr writers \<Rightarrow>
          if \<not> end_allowed reason i writers then (m, Inr (MRefused NotTheClaimOwner))
          else if own_id lock (m_table m) = Some i
          then record_end_own sok lock i reason now m
          else (record_end_other lock i reason mark now m, Inr MAck))"

section \<open>Serving a request\<close>

fun serve_request ::
  "authority \<Rightarrow> bool \<Rightarrow> instant \<Rightarrow> node_id \<Rightarrow> lock_message \<Rightarrow> manager
     \<Rightarrow> manager \<times> (engine_error + lock_message)" where
  "serve_request a sok now peer (MClaim lock c) m = record_claim a peer lock c False now m"
| "serve_request a sok now peer (MRenew lock c) m = record_claim a peer lock c True now m"
| "serve_request a sok now peer (MEnd lock i reason mark) m =
     record_end a sok peer lock i reason mark now m"
| "serve_request a sok now peer (MInspect lock) m =
     (case may_read a peer (space lock) of
        Inl e \<Rightarrow> (m, Inl e)
      | Inr ok \<Rightarrow> if \<not> ok then (m, Inr (MRefused NotAReader))
                 else (m, Inr (table_answer lock now (m_table m))))"
| "serve_request a sok now peer (MAnswer _ _ _) m = (m, Inr (MRefused NotALockRequest))"
| "serve_request a sok now peer MAck m = (m, Inr (MRefused NotALockRequest))"
| "serve_request a sok now peer (MRefused _) m = (m, Inr (MRefused NotALockRequest))"

text \<open>\<open>LockService::serve\<close>, and the frame check of \<^verbatim>\<open>synch-net/src/lock.rs\<close> in front of it.\<close>

definition serve ::
  "authority \<Rightarrow> bool \<Rightarrow> instant \<Rightarrow> node_id \<Rightarrow> lock_message \<Rightarrow> manager \<Rightarrow> manager \<times> lock_message" where
  "serve a sok now peer request m =
     (case serve_request a sok now peer request m of
        (m', Inl e) \<Rightarrow> (m', MRefused ServeFailed)
      | (m', Inr answer) \<Rightarrow> (m', answer))"

definition serve_frame ::
  "authority \<Rightarrow> bool \<Rightarrow> instant \<Rightarrow> node_id \<Rightarrow> lock_message \<Rightarrow> manager \<Rightarrow> manager \<times> lock_message" where
  "serve_frame a sok now peer request m =
     (case message_check request of
        Inl e \<Rightarrow> (m, MRefused ServeFailed)
      | Inr _ \<Rightarrow> serve a sok now peer request m)"

section \<open>The invariant is kept\<close>

lemma keys_observe:
  "fst ` set (observed (observe c renewal now e)) =
     (if map_of (ended e) (cid c) = None then insert (cid c) (fst ` set (observed e))
      else fst ` set (observed e))"
  by (simp add: observe_def keys_hm_insert)

lemma observe_frame [simp]:
  "ended (observe c renewal now e) = ended e" "own (observe c renewal now e) = own e"
  "watermarks (observe c renewal now e) = watermarks e"
  by (simp_all add: observe_def)

lemma refresh_simps [simp]:
  "obs_claim (refresh c renewal now slot) = c"
  "until (refresh c renewal now slot) = now + observer_lease (ttl_ms c)"
  "\<not> expired (refresh c renewal now slot)"
  "obs_held (refresh c renewal now slot) \<longleftrightarrow>
     renewal \<or> (case slot of None \<Rightarrow> False | Some ob \<Rightarrow> obs_held ob)"
  by (auto simp: refresh_def Let_def split: option.splits)

lemma entry_ok_observe [simp, intro]:
  assumes "entry_ok e"
  shows "entry_ok (observe c renewal now e)"
proof (cases "map_of (ended e) (cid c)")
  case None
  then have "cid c \<notin> fst ` set (ended e)" by (simp add: map_of_eq_None_iff)
  then show ?thesis
    using assms None
      set_hm_insert_subset [of "cid c" "refresh c renewal now (map_of (observed e) (cid c))" "observed e"]
    by (auto simp: entry_ok_def observe_def keys_hm_insert)
next
  case (Some x)
  with assms show ?thesis by (simp add: observe_def)
qed

lemma table_ok_record: "table_ok t \<Longrightarrow> table_ok (fst (record_table lock c renewal now t))"
  by (auto simp: record_table_def Let_def intro!: table_ok_put get_entry_ok)

lemma table_ok_record_claim:
  "table_ok (m_table m) \<Longrightarrow> table_ok (m_table (fst (record_claim a peer lock c renewal now m)))"
  using table_ok_record [of "m_table m" lock c renewal now]
  by (auto simp: record_claim_def split: sum.splits prod.splits)

lemma table_ok_take_own: "table_ok (m_table m) \<Longrightarrow> table_ok (m_table (take_own lock i why m))"
  by (auto simp: take_own_def Let_def get_entry_ok split: option.splits)

lemma m_table_update [simp]: "m_table (update_table f m) = f (m_table m)"
  by (simp add: update_table_def)

lemma table_ok_end: "table_ok t \<Longrightarrow> table_ok (modify_entry lock (entry_end i reason now) t)"
  by (rule table_ok_modify) auto

lemma table_ok_record_end_other:
  "table_ok (m_table m) \<Longrightarrow> table_ok (m_table (record_end_other lock i reason mark now m))"
  by (auto simp: record_end_other_def Let_def split: option.splits intro!: table_ok_modify)

lemma table_ok_record_end:
  "table_ok (m_table m) \<Longrightarrow>
   table_ok (m_table (fst (record_end a sok peer lock i reason mark now m)))"
  by (auto simp: record_end_def record_end_own_def Let_def table_ok_end table_ok_take_own
      table_ok_record_end_other split: sum.splits)

lemma table_ok_serve:
  assumes "table_ok (m_table m)"
  shows "table_ok (m_table (fst (serve_frame a sok now peer request m)))"
proof -
  have "table_ok (m_table (fst (serve_request a sok now peer request m)))"
    using assms by (cases request)
      (auto simp: table_ok_record_claim table_ok_record_end split: sum.splits)
  then show ?thesis
    using assms by (auto simp: serve_frame_def serve_def split: sum.splits prod.splits)
qed

section \<open>Only writers move the table\<close>

fun request_space :: "lock_message \<Rightarrow> rstr option" where
  "request_space (MClaim lock _) = Some (space lock)"
| "request_space (MRenew lock _) = Some (space lock)"
| "request_space (MEnd lock _ _ _) = Some (space lock)"
| "request_space _ = None"

text \<open>What a peer must be entitled to for its request to have an effect.\<close>

fun entitled :: "origin_id list \<Rightarrow> lock_message \<Rightarrow> bool" where
  "entitled writers (MClaim _ c) = (id_origin (cid c) \<in> set writers)"
| "entitled writers (MRenew _ c) = (id_origin (cid c) \<in> set writers)"
| "entitled writers (MEnd _ i reason _) =
     (if reason = Broken then writers \<noteq> [] else id_origin i \<in> set writers)"
| "entitled writers _ = False"

lemma serve_request_entitled:
  assumes "fst (serve_request a sok now peer request m) \<noteq> m"
  shows "\<exists>sp writers. request_space request = Some sp \<and>
    writer_origins a peer sp = Inr writers \<and> entitled writers request"
  using assms by (cases request)
    (auto simp: record_claim_def record_end_def end_allowed_def split: sum.splits if_splits)

text \<open>A request changes a node's lock state only if the peer's device key speaks for an origin
  that may write the lock's space, and that origin owns the claim it records or ends; only a
  forced break may end somebody else's claim, and it too takes a writer of the space. Frames that
  fail their bounds, inspections, and answers sent as requests change nothing.\<close>
theorem serve_only_entitled:
  assumes "fst (serve_frame a sok now peer request m) \<noteq> m"
  shows "message_check request = Inr () \<and>
    (\<exists>sp writers. request_space request = Some sp \<and> writer_origins a peer sp = Inr writers \<and>
       entitled writers request)"
proof -
  have "message_check request = Inr ()" "fst (serve a sok now peer request m) \<noteq> m"
    using assms by (auto simp: serve_frame_def split: sum.splits)
  moreover have "fst (serve a sok now peer request m) = fst (serve_request a sok now peer request m)"
    by (auto simp: serve_def split: prod.splits sum.splits)
  ultimately show ?thesis using serve_request_entitled by metis
qed

definition demo_authority :: authority where
  "demo_authority = \<lparr>key_origins = (\<lambda>k. Inr [Key k]), origin_scope = (\<lambda>_. Inr Unrestricted),
     key_scope = (\<lambda>_. Inr Unrestricted)\<rparr>"

definition demo_manager :: manager where
  "demo_manager = manager_new (Key [9]) (2 * secs_ns) (10 * secs_ns) store_default"

lemma demo_writer [simp]: "writer_origins demo_authority k sp = Inr [Key k]"
  by (simp add: writer_origins_def demo_authority_def)

lemma demo_manager_simps [simp]:
  "m_origin demo_manager = Key [9]" "m_table demo_manager = table_default"
  by (simp_all add: demo_manager_def manager_new_def)

theorem serve_only_entitled_witness:
  "let request = MClaim demo_lock (demo_claim 3 1);
       m = fst (serve_frame demo_authority True 5 [1] request demo_manager)
   in m \<noteq> demo_manager \<and>
      (\<exists>writers. writer_origins demo_authority [1] (space demo_lock) = Inr writers \<and>
         entitled writers request)"
proof -
  let ?request = "MClaim demo_lock (demo_claim 3 1)"
  let ?m = "fst (serve_frame demo_authority True 5 [1] ?request demo_manager)"
  have "clock (m_table ?m) = 3"
    by (simp add: serve_frame_def serve_def record_claim_def record_table_def Let_def table_full_def
        claims_def claims_of_def MAX_TABLE_CLAIMS_def MAX_CLAIMS_PER_ORIGIN_def table_default_def
        hear_def)
  then have "?m \<noteq> demo_manager" by (auto simp: table_default_def)
  with serve_only_entitled [OF this] show ?thesis by (simp add: Let_def)
qed

section \<open>Ended claims stay ended\<close>

definition serve_all ::
  "authority \<Rightarrow> (bool \<times> instant \<times> node_id \<times> lock_message) list \<Rightarrow> manager \<Rightarrow> manager" where
  "serve_all a reqs m =
     fold (\<lambda>(sok, now, peer, request) m. fst (serve_frame a sok now peer request m)) reqs m"

lemma serve_all_invariant:
  assumes "P m" "\<And>sok now peer request m. P m \<Longrightarrow> P (fst (serve_frame a sok now peer request m))"
  shows "P (serve_all a reqs m)"
  using assms(1) by (induction reqs arbitrary: m) (auto simp: serve_all_def assms(2))

lemma get_entry_take_own [simp]:
  "ended (get_entry l (m_table (take_own lock i why m))) = ended (get_entry l (m_table m))"
  "observed (get_entry l (m_table (take_own lock i why m))) = observed (get_entry l (m_table m))"
  by (auto simp: take_own_def Let_def split: option.splits)

lemma clock_take_own [simp]: "clock (m_table (take_own lock i why m)) = clock (m_table m)"
  by (auto simp: take_own_def Let_def split: option.splits)

lemma get_entry_record_table:
  "get_entry l (fst (record_table lock c renewal now t)) =
     (if l = lock \<and> \<not> table_full (hear (id_lamport (cid c)) t) lock (cid c)
      then observe c renewal now (get_entry l t) else get_entry l t)"
  by (simp add: record_table_def Let_def)

lemma fst_serve_frame:
  "fst (serve_frame a sok now peer request m) =
     (if message_check request = Inr () then fst (serve_request a sok now peer request m) else m)"
  by (auto simp: serve_frame_def serve_def split: sum.splits prod.splits)

lemma m_table_record_claim:
  "m_table (fst (record_claim a peer lock c renewal now m)) =
     (if id_origin (cid c) \<noteq> m_origin m \<and>
         (\<exists>writers. writer_origins a peer (space lock) = Inr writers \<and> id_origin (cid c) \<in> set writers)
      then fst (record_table lock c renewal now (m_table m)) else m_table m)"
  by (auto simp: record_claim_def split: sum.splits prod.splits)

lemma ended_serve_frame:
  assumes "ended_at (m_table m) l i \<noteq> None"
  shows "ended_at (m_table (fst (serve_frame a sok now peer request m))) l i \<noteq> None"
  using assms
  by (cases request) (auto simp: fst_serve_frame m_table_record_claim get_entry_record_table
      record_end_def record_end_own_def record_end_other_def Let_def split: sum.splits option.splits)



section \<open>The table stays within its capacity\<close>

definition within_capacity :: "table \<Rightarrow> bool" where
  "within_capacity t \<longleftrightarrow>
     claims t \<le> MAX_TABLE_CLAIMS \<and> (\<forall>org. claims_of org t \<le> MAX_CLAIMS_PER_ORIGIN)"

definition obs_count :: "(claim_id \<Rightarrow> bool) \<Rightarrow> entry \<Rightarrow> nat" where
  "obs_count P e = length (filter (\<lambda>x. P (fst x)) (observed e))"

definition obs_total :: "(claim_id \<Rightarrow> bool) \<Rightarrow> table \<Rightarrow> nat" where
  "obs_total P t = sum_list (map (\<lambda>(l, e). obs_count P e) (locks t))"

lemma claims_alt: "claims t = obs_total (\<lambda>_. True) t"
  by (simp add: claims_def obs_count_def obs_total_def)

lemma claims_of_alt: "claims_of org t = obs_total (\<lambda>i. id_origin i = org) t"
  by (simp add: claims_of_def obs_count_def obs_total_def filter_concat length_concat comp_def
      filter_map case_prod_unfold)

lemma obs_total_put:
  assumes "table_ok t"
  shows "obs_total P (put_entry lock e t) + obs_count P (get_entry lock t) =
    obs_total P t + obs_count P e"
proof -
  have "hm_invar (locks t)" using assms by (simp add: table_ok_def)
  from sum_hm_insert [OF this, of "\<lambda>(l, e). obs_count P e" lock e] show ?thesis
    by (cases "map_of (locks t) lock")
      (simp_all add: obs_total_def put_entry_def get_entry_def obs_count_def entry_default_def)
qed

lemma obs_total_put_le:
  assumes "table_ok t" "obs_count P e \<le> obs_count P (get_entry lock t)"
  shows "obs_total P (put_entry lock e t) \<le> obs_total P t"
  using obs_total_put [OF assms(1), of P lock e] assms(2) by simp

lemma obs_count_remove_le:
  "length (filter (\<lambda>x. P (fst x)) (hm_remove i m)) \<le> length (filter (\<lambda>x. P (fst x)) m)"
  by (induction m) auto

lemma capacity_put:
  assumes "table_ok t" "within_capacity t" "\<And>P. obs_count P e \<le> obs_count P (get_entry lock t)"
  shows "within_capacity (put_entry lock e t)"
  using assms(2) obs_total_put_le [OF assms(1,3)]
  unfolding within_capacity_def claims_alt claims_of_alt by (meson order_trans)

lemma obs_count_end_le: "obs_count P (entry_end i reason now e) \<le> obs_count P e"
  by (simp add: obs_count_def entry_end_def obs_count_remove_le)

lemma obs_count_same: "observed e = observed e' \<Longrightarrow> obs_count P e = obs_count P e'"
  by (simp add: obs_count_def)

lemma capacity_hear [simp]: "within_capacity (hear lam t) = within_capacity t"
  by (simp add: within_capacity_def claims_def claims_of_def)

lemma obs_count_insert:
  "length (filter (\<lambda>x. P (fst x)) (hm_insert i ob m)) =
     length (filter (\<lambda>x. P (fst x)) m) + (if map_of m i = None \<and> P i then 1 else 0)"
  by (induction m) auto

lemma obs_count_observe:
  "obs_count P (observe c renewal now e) \<le>
     obs_count P e + (if map_of (observed e) (cid c) = None \<and> P (cid c) then 1 else 0)"
  by (simp add: obs_count_def observe_def obs_count_insert)

lemma table_full_iff:
  "table_full t lock i \<longleftrightarrow> map_of (observed (get_entry lock t)) i = None \<and>
     (claims t \<ge> MAX_TABLE_CLAIMS \<or> claims_of (id_origin i) t \<ge> MAX_CLAIMS_PER_ORIGIN)"
  by (simp add: table_full_def get_entry_def entry_default_def split: option.splits)

lemma capacity_record:
  assumes "table_ok t" "within_capacity t"
  shows "within_capacity (fst (record_table lock c renewal now t))"
proof (cases "table_full (hear (id_lamport (cid c)) t) lock (cid c)")
  case True
  then show ?thesis using assms by (simp add: record_table_def)
next
  case False
  let ?t = "hear (id_lamport (cid c)) t" and ?e = "observe c renewal now (get_entry lock t)"
  have ok: "table_ok ?t" and cap: "within_capacity ?t" using assms by simp_all
  have bound: "obs_total P (put_entry lock ?e ?t) \<le> n"
    if "obs_total P ?t \<le> n"
      "map_of (observed (get_entry lock t)) (cid c) = None \<Longrightarrow> P (cid c) \<Longrightarrow> obs_total P ?t < n" for P n
    using obs_total_put [OF ok, of P lock ?e] obs_count_observe [of P c renewal now "get_entry lock t"]
      that by (auto split: if_splits)
  have "claims (put_entry lock ?e ?t) \<le> MAX_TABLE_CLAIMS"
    using cap False unfolding claims_alt
    by (intro bound) (auto simp: within_capacity_def table_full_iff claims_alt)
  moreover have "claims_of org (put_entry lock ?e ?t) \<le> MAX_CLAIMS_PER_ORIGIN" for org
    using cap False unfolding claims_of_alt
    by (intro bound) (auto simp: within_capacity_def table_full_iff claims_of_alt)
  ultimately show ?thesis using False by (simp add: record_table_def Let_def within_capacity_def)
qed

lemma capacity_modify:
  assumes "table_ok t" "within_capacity t" "\<And>P e. obs_count P (f e) \<le> obs_count P e"
  shows "within_capacity (modify_entry lock f t)"
  unfolding modify_entry_def using assms by (intro capacity_put)

lemma capacity_take_own:
  assumes "table_ok (m_table m)" "within_capacity (m_table m)"
  shows "within_capacity (m_table (take_own lock i why m))"
  using assms by (auto simp: take_own_def Let_def split: option.splits intro!: capacity_put
      eq_refl obs_count_same)

lemma capacity_serve:
  assumes "table_ok (m_table m)" "within_capacity (m_table m)"
  shows "within_capacity (m_table (fst (serve_frame a sok now peer request m)))"
proof -
  have "obs_count P (case mark of None \<Rightarrow> entry_end i reason now e
      | Some w \<Rightarrow> if w_origin w = id_origin i then entry_watermark w now (entry_end i reason now e)
                  else entry_end i reason now e) \<le> obs_count P e" for P mark i reason e
    using obs_count_end_le [of P i reason now e]
    by (auto simp: obs_count_same [of "entry_watermark _ _ _"] split: option.splits)
  with assms show ?thesis
    by (cases request) (auto simp: fst_serve_frame m_table_record_claim capacity_record record_end_def
        record_end_own_def record_end_other_def Let_def capacity_modify capacity_take_own
        table_ok_take_own obs_count_end_le split: sum.splits)
qed

text \<open>C32. However many claims peers send, a node never observes more than \<open>MAX_TABLE_CLAIMS\<close> claims
  in all nor more than \<open>MAX_CLAIMS_PER_ORIGIN\<close> of one origin: from an empty table, any sequence of
  frames leaves it within capacity and well formed.\<close>
theorem serve_within_capacity:
  "within_capacity (m_table (serve_all a reqs (manager_new org cw hw st))) \<and>
   table_ok (m_table (serve_all a reqs (manager_new org cw hw st)))"
proof (rule serve_all_invariant [where P = "\<lambda>m. within_capacity (m_table m) \<and> table_ok (m_table m)"])
  show "within_capacity (m_table (manager_new org cw hw st)) \<and>
      table_ok (m_table (manager_new org cw hw st))"
    by (simp add: manager_new_def within_capacity_def claims_def claims_of_def table_default_def)
      (simp add: table_ok_def)
qed (simp add: capacity_serve table_ok_serve)

end
