(* ===== verification/Lock_Manager.thy ===== *)
theory Lock_Manager
  imports Lock_Serve
begin

text \<open>
  The acquiring and holding half of \<open>LockManager\<close> (\<^verbatim>\<open>synch-engine/src/locks.rs\<close>): persistence
  and restore, the claim exchange, renewal, release, the loss of a hold, breaking, the fence of a
  commit, and the standing loop. An asynchronous method is one definition per section that holds
  the table, so that anything may happen between two sections, and a definition that composes
  them for one undisturbed run. What a run reads from outside (clocks, the random nonce, the
  answers of peers, whether a store call succeeds) is an argument.

  The text of an origin and the serialisation of a list of claim ids are decided elsewhere, so
  \<open>codec\<close> bundles them as parameters.
\<close>

record codec =
  canonical :: "origin_id \<Rightarrow> rstr"
  parse_origin :: "rstr \<Rightarrow> origin_id option"
  encode_ids :: "claim_id list \<Rightarrow> bytes option"
  decode_ids :: "bytes \<Rightarrow> claim_id list option"

section \<open>Persistence\<close>

text \<open>\<open>i64::saturating_add\<close> and \<open>saturating_sub\<close>.\<close>

definition i64_sat :: "int \<Rightarrow> int" where
  "i64_sat x = max (- (2 ^ 63)) (min (2 ^ 63 - 1) x)"

definition hold_row ::
  "codec \<Rightarrow> origin_id \<Rightarrow> lock_name \<Rightarrow> own \<Rightarrow> int \<Rightarrow> instant \<Rightarrow> engine_error + lock_hold_row option" where
  "hold_row cd self lock o1 wall now =
     (if mode o1 = Session then Inr None
      else result_bind (ok_or RecordError (encode_ids cd (supersedes (own_claim o1)))) (\<lambda>bs.
        Inr (Some
          \<lparr>row_space = space lock, row_name = lname lock, row_origin = canonical cd self,
           row_lamport = id_lamport (cid (own_claim o1)), row_nonce = nonce (cid (own_claim o1)),
           row_ttl_ms = ttl_ms (own_claim o1), sticky = (mode o1 = Sticky),
           row_owner = owner (own_claim o1), row_payload = payload (own_claim o1),
           row_supersedes = bs, row_acquired_at = acquired_at o1,
           lease_until = map_option (\<lambda>d. i64_sat (wall + min (int (d - now)) (2 ^ 63 - 1)))
             (client_deadline o1)\<rparr>)))"

definition persist_hold ::
  "bool \<Rightarrow> lock_hold_row option \<Rightarrow> manager \<Rightarrow> manager \<times> (engine_error + unit)" where
  "persist_hold sok row m =
     (case row of
        None \<Rightarrow> (m, Inr ())
      | Some r \<Rightarrow> if sok then (m\<lparr>m_store := put_lock_hold r (m_store m)\<rparr>, Inr ())
                  else (m, Inl StoreError))"

definition forget_hold ::
  "bool \<Rightarrow> lock_name \<Rightarrow> claim_id \<Rightarrow> manager \<Rightarrow> manager \<times> (engine_error + unit)" where
  "forget_hold sok lock i m =
     (if sok
      then (m\<lparr>m_store := remove_lock_hold (space lock) (lname lock) (id_lamport i) (nonce i) (m_store m)\<rparr>,
            Inr ())
      else (m, Inl StoreError))"

definition persist_clock :: "bool \<Rightarrow> manager \<Rightarrow> manager \<times> (engine_error + unit)" where
  "persist_clock sok m =
     (let t = m_table m in
      if clock t > saved t then
        if sok
        then (m\<lparr>m_store := raise_lock_clock (clock t) (m_store m),
                m_table := t\<lparr>saved := max (saved t) (clock t)\<rparr>\<rparr>, Inr ())
        else (m, Inl StoreError)
      else (m, Inr ()))"

definition restored_own :: "codec \<Rightarrow> origin_id \<Rightarrow> int \<Rightarrow> instant \<Rightarrow> lock_hold_row \<Rightarrow> own" where
  "restored_own cd self wall now row =
     \<lparr>own_claim =
        \<lparr>cid = ClaimId (Ticket (row_lamport row) self) (row_nonce row), ttl_ms = row_ttl_ms row,
         owner = row_owner row, payload = row_payload row,
         supersedes = (case decode_ids cd (row_supersedes row) of None \<Rightarrow> [] | Some ids \<Rightarrow> ids)\<rparr>,
      phase = Unconfirmed, mode = (if sticky row then Sticky else Lease),
      deadline = now + unat (row_ttl_ms row) * millis_ns,
      client_deadline = map_option (\<lambda>u. now + nat (max 0 (i64_sat (u - wall)))) (lease_until row),
      last_renew = None, renewing = False, acquired_at = row_acquired_at row\<rparr>"

definition restore_row :: "codec \<Rightarrow> int \<Rightarrow> instant \<Rightarrow> lock_hold_row \<Rightarrow> manager \<Rightarrow> manager" where
  "restore_row cd wall now row m =
     (let lapsed = (\<not> sticky row \<and> (case lease_until row of None \<Rightarrow> False | Some u \<Rightarrow> u \<le> wall)) in
      case lock_name_new (row_space row) (row_name row) of
        Inl _ \<Rightarrow> m\<lparr>m_store := remove_lock_hold (row_space row) (row_name row) (row_lamport row)
                   (row_nonce row) (m_store m)\<rparr>
      | Inr lock \<Rightarrow>
          if parse_origin cd (row_origin row) \<noteq> Some (m_origin m) \<or> lapsed
          then m\<lparr>m_store := remove_lock_hold (row_space row) (row_name row) (row_lamport row)
                  (row_nonce row) (m_store m)\<rparr>
          else update_table (\<lambda>t. modify_entry lock
                 (\<lambda>e. e\<lparr>own := Some (restored_own cd (m_origin m) wall now row)\<rparr>)
                 (hear (row_lamport row) t)) m)"

definition restore :: "codec \<Rightarrow> int \<Rightarrow> instant \<Rightarrow> manager \<Rightarrow> manager" where
  "restore cd wall now m =
     (let c = lock_clock (m_store m); rows = lock_holds (m_store m);
          m = update_table (\<lambda>t. (hear c t)\<lparr>saved := max (saved t) c\<rparr>) m
      in fold (restore_row cd wall now) rows m)"

section \<open>One claim exchange\<close>

definition held_here :: "lock_name \<Rightarrow> table \<Rightarrow> engine_error option" where
  "held_here lock t = (case own_id lock t of None \<Rightarrow> None | Some _ \<Rightarrow> Some (Lock FHeld))"

definition heard :: "lock_name \<Rightarrow> table \<Rightarrow> u64" where
  "heard lock t =
     (case map_of (locks t) lock of
        None \<Rightarrow> 0
      | Some e \<Rightarrow> fold max (map id_lamport (map fst (observed e) @ map fst (ended e))) 0)"

text \<open>Taking a ticket and putting the claim up. The addition wraps, as \<open>u64\<close> addition does in a
  release build.\<close>

definition attempt_begin ::
  "lock_request \<Rightarrow> u64 \<Rightarrow> instant \<Rightarrow> int \<Rightarrow> manager \<Rightarrow> manager \<times> claim" where
  "attempt_begin request non now wall m =
     (let t = m_table m; lock = rq_lock request;
          lam = max (clock t) (heard lock t) + 1;
          t = t\<lparr>clock := lam\<rparr>;
          c = \<lparr>cid = ClaimId (Ticket lam (m_origin m)) non, ttl_ms = millis (ttl request),
               owner = rq_owner request, payload = rq_payload request, supersedes = []\<rparr>;
          o1 = \<lparr>own_claim = c, phase = Contending, mode = rq_mode request,
                deadline = now + ttl request,
                client_deadline = (if rq_mode request = Lease then Some (now + ttl request) else None),
                last_renew = Some now, renewing = False, acquired_at = wall\<rparr>
      in (m\<lparr>m_table := modify_entry lock (\<lambda>e. e\<lparr>own := Some o1\<rparr>) t\<rparr>, c))"

definition attempt_abort :: "lock_name \<Rightarrow> claim \<Rightarrow> manager \<Rightarrow> manager" where
  "attempt_abort lock c m =
     (case map_of (locks (m_table m)) lock of
        None \<Rightarrow> m
      | Some e \<Rightarrow> update_table (put_entry lock
          (e\<lparr>own := keep_unless (\<lambda>o1. cid (own_claim o1) = cid c) (own e)\<rparr>)) m)"

datatype decided = DHold "lock_hold_row option" | DYield engine_error | DWithdraw engine_error

definition absorb_ended ::
  "claim_id \<Rightarrow> (claim_id, end_reason) btmap \<Rightarrow> instant \<Rightarrow> entry \<Rightarrow> entry" where
  "absorb_ended mine ends now e =
     fold (\<lambda>(i, reason) e. if i \<noteq> mine then entry_end i reason now e else e) ends e"

definition absorb_marks :: "(origin_id, watermark) btmap \<Rightarrow> instant \<Rightarrow> entry \<Rightarrow> entry" where
  "absorb_marks marks now e = fold (\<lambda>(org, mark). entry_watermark mark now) marks e"

definition note_observed :: "entry \<Rightarrow> gathered \<Rightarrow> gathered" where
  "note_observed e g = fold (\<lambda>(i, ob). note_claim (obs_claim ob) (obs_state ob)) (observed e) g"

definition ended_map :: "entry \<Rightarrow> (claim_id, end_reason) btmap" where
  "ended_map e = fold (\<lambda>(i, reason, at). bt_insert i reason) (ended e) []"

definition decide_entry ::
  "claim \<Rightarrow> duration \<Rightarrow> instant \<Rightarrow> instant \<Rightarrow> gathered \<Rightarrow> entry \<Rightarrow> entry \<times> verdict option" where
  "decide_entry c ttl_d sent now g e =
     (let e = absorb_ended (cid c) (g_ended g) now e;
          e = absorb_marks (g_watermarks g) now e;
          still_ours = (case own e of None \<Rightarrow> False
            | Some o1 \<Rightarrow> cid (own_claim o1) = cid c \<and> \<not> own_held o1)
      in if \<not> still_ours \<or> map_of (g_ended g) (cid c) \<noteq> None
         then (e\<lparr>own := keep_unless (\<lambda>o1. cid (own_claim o1) = cid c) (own e)\<rparr>, None)
         else
           let v = decide (cid c) (known (note_observed e g)) (ended_map e) in
           case v of
             Hold sups \<Rightarrow>
               (e\<lparr>own := map_option (\<lambda>o1. o1\<lparr>own_claim := (own_claim o1)\<lparr>supersedes := sups\<rparr>,
                   phase := PHeld, deadline := sent + ttl_d, last_renew := None\<rparr>) (own e)\<rparr>, Some v)
           | Yield to reclaim \<Rightarrow>
               (entry_end (cid c) Withdrawn now (e\<lparr>own := None\<rparr>), Some v))"

text \<open>The \<open>own\<close> of a claim that holds is there by the check just made, which is what the source's
  \<open>expect\<close> says; the branch without one is not reached.\<close>

definition attempt_decide ::
  "codec \<Rightarrow> lock_request \<Rightarrow> claim \<Rightarrow> instant \<Rightarrow> instant \<Rightarrow> int \<Rightarrow> gathered \<Rightarrow> manager
     \<Rightarrow> manager \<times> (engine_error + decided)" where
  "attempt_decide cd request c sent now wall g m =
     (let lock = rq_lock request;
          t = fold hear (tickets g) (m_table m);
          (e, v) = decide_entry c (ttl request) sent now g (get_entry lock t);
          m = m\<lparr>m_table := put_entry lock e t\<rparr>
      in case v of
           None \<Rightarrow> (m, Inr (DYield (Lock FContended)))
         | Some (Yield to reclaim) \<Rightarrow> (m, Inr (DWithdraw (yield_error to reclaim)))
         | Some (Hold sups) \<Rightarrow>
             (m, case own e of
                   None \<Rightarrow> Inl RecordError
                 | Some o1 \<Rightarrow> result_bind (hold_row cd (m_origin m) lock o1 wall now)
                     (\<lambda>row. Inr (DHold row))))"

section \<open>The handoff\<close>

text \<open>One entry of \<open>looks\<close> is what one turn of the loop reads: the complete head of each origin and
  the instant it is compared with the deadline. \<open>None\<close> is a loop still waiting when the
  observations end.\<close>

definition missing_marks :: "(origin_id \<Rightarrow> u64 option) \<Rightarrow> watermark list \<Rightarrow> watermark list" where
  "missing_marks head marks =
     filter (\<lambda>mark. (case head (w_origin mark) of None \<Rightarrow> 0 | Some s \<Rightarrow> s) < w_seq mark) marks"

fun handoff_loop ::
  "instant \<Rightarrow> watermark list \<Rightarrow> ((engine_error + (origin_id \<Rightarrow> u64 option)) \<times> instant) list
     \<Rightarrow> (unit + unit) option" where
  "handoff_loop deadline_at marks [] = None"
| "handoff_loop deadline_at marks ((Inl e, now) # looks) = Some (Inl ())"
| "handoff_loop deadline_at marks ((Inr head, now) # looks) =
     (if missing_marks head marks = [] then Some (Inr ())
      else if now \<ge> deadline_at then Some (Inl ())
      else handoff_loop deadline_at marks looks)"

definition await_handoff ::
  "duration \<Rightarrow> instant \<Rightarrow> watermark list \<Rightarrow> ((engine_error + (origin_id \<Rightarrow> u64 option)) \<times> instant) list
     \<Rightarrow> (unit + unit) option" where
  "await_handoff window start marks looks =
     (if marks = [] then Some (Inr ()) else handoff_loop (start + window) marks looks)"

section \<open>Renewing, releasing, losing\<close>

definition renewed_own :: "duration option \<Rightarrow> bytes option \<Rightarrow> instant \<Rightarrow> own \<Rightarrow> own" where
  "renewed_own ttl_o payload_o now o1 =
     (let d = (case ttl_o of None \<Rightarrow> unat (ttl_ms (own_claim o1)) * millis_ns | Some d \<Rightarrow> d);
          o1 = (if mode o1 = Lease then o1\<lparr>client_deadline := Some (now + d)\<rparr> else o1)
      in case payload_o of None \<Rightarrow> o1
         | Some p \<Rightarrow> o1\<lparr>own_claim := (own_claim o1)\<lparr>payload := p\<rparr>, last_renew := None\<rparr>)"

definition client_left :: "duration \<Rightarrow> instant \<Rightarrow> own \<Rightarrow> duration" where
  "client_left window now o1 =
     ((case client_deadline o1 of None \<Rightarrow> deadline o1 | Some d \<Rightarrow> d) - now) - window"

definition renew ::
  "codec \<Rightarrow> bool \<Rightarrow> lock_name \<Rightarrow> claim_id \<Rightarrow> duration option \<Rightarrow> bytes option \<Rightarrow> instant \<Rightarrow> int \<Rightarrow> manager
     \<Rightarrow> manager \<times> (engine_error + duration)" where
  "renew cd sok lock tok ttl_o payload_o now wall m =
     (if (case ttl_o of None \<Rightarrow> False | Some d \<Rightarrow> \<not> ttl_in_range d) then (m, Inl Invalid)
      else if (case payload_o of None \<Rightarrow> False | Some p \<Rightarrow> length p > MAX_LOCK_PAYLOAD_BYTES)
      then (m, Inl Invalid)
      else
        let e = get_entry lock (m_table m) in
        case own e of
          None \<Rightarrow> (m, Inl (Lock FLost))
        | Some o1 \<Rightarrow>
            if \<not> (cid (own_claim o1) = tok \<and> own_held o1) then (m, Inl (Lock FLost))
            else
              let o1 = renewed_own ttl_o payload_o now o1;
                  m = update_table (put_entry lock (e\<lparr>own := Some o1\<rparr>)) m
              in case hold_row cd (m_origin m) lock o1 wall now of
                   Inl err \<Rightarrow> (m, Inl err)
                 | Inr row \<Rightarrow>
                     let (m, r) = persist_hold sok row m
                     in (m, result_bind r (\<lambda>_. Inr (client_left (claim_window m) now o1))))"

definition release_find :: "lock_name \<Rightarrow> claim_id option \<Rightarrow> manager \<Rightarrow> engine_error + claim_id" where
  "release_find lock tok m =
     (case own_id lock (m_table m) of
        Some i \<Rightarrow>
          if tok = None \<or> tok = Some i then Inr i else Inl (Lock FLost)
      | None \<Rightarrow> if tok = None then Inl NotFound else Inl (Lock FLost))"

definition release_commit ::
  "lock_name \<Rightarrow> claim_id \<Rightarrow> watermark option \<Rightarrow> instant \<Rightarrow> manager \<Rightarrow> manager" where
  "release_commit lock i mark now m =
     (let m = take_own lock i (LEnded Released) m
      in update_table (modify_entry lock (\<lambda>e.
           let e = entry_end i Released now e
           in case mark of None \<Rightarrow> e | Some w \<Rightarrow> entry_watermark w now e)) m)"

text \<open>A broadcast is the list of its targets and the message; the answers to an end are ignored.\<close>

type_synonym sent = "node_id list \<times> lock_message"

definition release ::
  "bool \<Rightarrow> engine_error + u64 option \<Rightarrow> engine_error + node_id list \<Rightarrow> lock_name \<Rightarrow> claim_id option
     \<Rightarrow> instant \<Rightarrow> manager \<Rightarrow> manager \<times> sent list \<times> (engine_error + claim_id)" where
  "release sok head targets lock tok now m =
     (case release_find lock tok m of
        Inl e \<Rightarrow> (m, [], Inl e)
      | Inr i \<Rightarrow>
          case head of
            Inl e \<Rightarrow> (m, [], Inl e)
          | Inr seq \<Rightarrow>
              let mark = map_option (\<lambda>s. \<lparr>w_origin = m_origin m, w_seq = s\<rparr>) seq;
                  m = release_commit lock i mark now m;
                  (m, forgot) = forget_hold sok lock i m
              in case forgot of
                   Inl e \<Rightarrow> (m, [], Inl e)
                 | Inr _ \<Rightarrow>
                     case targets of
                       Inl e \<Rightarrow> (m, [], Inl e)
                     | Inr peers \<Rightarrow> (m, [(peers, MEnd lock i Released mark)], Inr i))"

definition end_of_lost :: "lost \<Rightarrow> end_reason" where
  "end_of_lost why = (case why of LEnded reason \<Rightarrow> reason | LSuperseded _ \<Rightarrow> Superseded)"

definition lose ::
  "bool \<Rightarrow> engine_error + node_id list \<Rightarrow> lock_name \<Rightarrow> claim_id \<Rightarrow> lost \<Rightarrow> instant \<Rightarrow> manager
     \<Rightarrow> manager \<times> sent list" where
  "lose sok targets lock i why now m =
     (if own_id lock (m_table m) \<noteq> Some i then (update_table (modify_entry lock (\<lambda>e. e)) m, [])
      else
        let m = take_own lock i why m;
            m = update_table (modify_entry lock (entry_end i (end_of_lost why) now)) m;
            m = fst (forget_hold sok lock i m)
        in (m, case (why, targets) of
                 (LSuperseded _, Inr peers) \<Rightarrow> [(peers, MEnd lock i (end_of_lost why) None)]
               | _ \<Rightarrow> []))"

section \<open>The whole attempt\<close>

record acquired =
  a_lock :: lock_name
  a_id :: claim_id
  valid_for :: duration
  waited_on :: "node_id list"
  a_handoff :: "watermark list"

text \<open>What one run of \<open>attempt\<close> reads from outside, in the order it reads it.\<close>

record attempt_env =
  ae_targets :: "engine_error + node_id list"
  ae_nonce :: u64
  ae_begin :: instant
  ae_wall :: int
  ae_clock_ok :: bool
  ae_sent :: instant
  ae_answers :: "peer_answer list"
  ae_decided :: instant
  ae_row_ok :: bool
  ae_looks :: "((engine_error + (origin_id \<Rightarrow> u64 option)) \<times> instant) list"
  ae_forget_ok :: bool
  ae_head :: "engine_error + u64 option"
  ae_end_targets :: "engine_error + node_id list"
  ae_released :: instant
  ae_done :: instant

definition attempt ::
  "codec \<Rightarrow> attempt_env \<Rightarrow> lock_request \<Rightarrow> manager
     \<Rightarrow> manager \<times> sent list \<times> (engine_error + (engine_error + acquired)) option" where
  "attempt cd env request m =
     (case ae_targets env of
        Inl e \<Rightarrow> (m, [], Some (Inl e))
      | Inr targets \<Rightarrow>
          let lock = rq_lock request;
              (m, c) = attempt_begin request (ae_nonce env) (ae_begin env) (ae_wall env) m;
              (m, persisted) = persist_clock (ae_clock_ok env) m
          in case persisted of
               Inl e \<Rightarrow> (attempt_abort lock c m, [], Some (Inl e))
             | Inr _ \<Rightarrow>
                 let out = [(targets, MClaim lock c)];
                     (g, silent) = collect_answers (ae_answers env);
                     (m, d) = attempt_decide cd request c (ae_sent env) (ae_decided env) (ae_wall env) g m
                 in case d of
                      Inl e \<Rightarrow> (m, out, Some (Inl e))
                    | Inr (DYield failure) \<Rightarrow> (m, out, Some (Inr (Inl failure)))
                    | Inr (DWithdraw failure) \<Rightarrow>
                        (m, out @ [(targets, MEnd lock (cid c) Withdrawn None)], Some (Inr (Inl failure)))
                    | Inr (DHold row) \<Rightarrow>
                        let (m, stored) = persist_hold (ae_row_ok env) row m in
                        case stored of
                          Inl e \<Rightarrow> (m, out, Some (Inl e))
                        | Inr _ \<Rightarrow>
                            let handoff = filter (\<lambda>w. w_origin w \<noteq> m_origin m) (map snd (g_watermarks g));
                                waited = (if allow_behind request then Some (Inr ())
                                  else await_handoff (handoff_window m) (ae_decided env) handoff (ae_looks env))
                            in case waited of
                                 None \<Rightarrow> (m, out, None)
                               | Some (Inl _) \<Rightarrow>
                                   let (m, ends, _) = release (ae_forget_ok env) (ae_head env)
                                         (ae_end_targets env) lock (Some (cid c)) (ae_released env) m
                                   in (m, out @ ends, Some (Inr (Inl (Lock FHandoffPending))))
                               | Some (Inr _) \<Rightarrow>
                                   (m, out, Some (Inr (Inr
                                     \<lparr>a_lock = lock, a_id = cid c,
                                      valid_for = ttl request - (ae_done env - ae_sent env) - claim_window m,
                                      waited_on = silent, a_handoff = handoff\<rparr>))))"

section \<open>Acquiring with retries\<close>

definition jitter :: "nat \<Rightarrow> u64 \<Rightarrow> nat" where
  "jitter max_ms rnd = (if max_ms = 0 then 0 else unat rnd mod max_ms)"

definition backoff :: "engine_error \<Rightarrow> nat \<Rightarrow> duration \<Rightarrow> u64 \<Rightarrow> duration" where
  "backoff failure retries ttl_d rnd =
     (if failure = Lock FContended
      then (10 + jitter (50 * min retries 10) rnd) * millis_ns
      else min (ttl_d div 6) secs_ns + jitter 250 rnd * millis_ns)"

text \<open>One turn of the loop per element of \<open>turns\<close>: the environment of its attempt and the instant
  at which it checks the caller's patience. \<open>None\<close> is a caller still waiting.\<close>

fun acquire_loop ::
  "codec \<Rightarrow> instant \<Rightarrow> lock_request \<Rightarrow> (attempt_env \<times> instant) list \<Rightarrow> manager
     \<Rightarrow> manager \<times> sent list \<times> (engine_error + acquired) option" where
  "acquire_loop cd give_up request [] m = (m, [], None)"
| "acquire_loop cd give_up request ((env, now) # turns) m =
     (case held_here (rq_lock request) (m_table m) of
        Some failure \<Rightarrow>
          if now \<ge> give_up then (m, [], Some (Inl failure))
          else acquire_loop cd give_up request turns m
      | None \<Rightarrow>
          (case attempt cd env request m of
             (m, out, None) \<Rightarrow> (m, out, None)
           | (m, out, Some (Inl e)) \<Rightarrow> (m, out, Some (Inl e))
           | (m, out, Some (Inr (Inr acq))) \<Rightarrow> (m, out, Some (Inr acq))
           | (m, out, Some (Inr (Inl failure))) \<Rightarrow>
               if now \<ge> give_up then (m, out, Some (Inl failure))
               else let (m, more, r) = acquire_loop cd give_up request turns m in (m, out @ more, r)))"

definition acquire ::
  "codec \<Rightarrow> engine_error + rstr list option \<Rightarrow> engine_error + rstr list \<Rightarrow> instant \<Rightarrow> lock_request
     \<Rightarrow> (attempt_env \<times> instant) list \<Rightarrow> manager
     \<Rightarrow> manager \<times> sent list \<times> (engine_error + acquired) option" where
  "acquire cd grant read_only start request turns m =
     (case result_bind (check_request request)
             (\<lambda>_. check_own_authority grant read_only (space (rq_lock request))) of
        Inl e \<Rightarrow> (m, [], Some (Inl e))
      | Inr _ \<Rightarrow> acquire_loop cd (start + wait request) request turns m)"

section \<open>Breaking other nodes' claims\<close>

definition victims ::
  "origin_id \<Rightarrow> origin_id option \<Rightarrow> gathered \<Rightarrow> entry \<Rightarrow> claim_id list" where
  "victims self holder g e =
     map fst (filter (\<lambda>(i, c, st).
         st \<noteq> Expired \<and> id_origin i \<noteq> self \<and> (holder = None \<or> holder = Some (id_origin i)) \<and>
         map_of (g_ended g) i = None \<and> map_of (ended e) i = None) (known g))"

definition break_lock ::
  "bool \<Rightarrow> engine_error + rstr list option \<Rightarrow> engine_error + rstr list \<Rightarrow> engine_error + u64 option
     \<Rightarrow> engine_error + node_id list \<Rightarrow> peer_answer list \<Rightarrow> lock_name \<Rightarrow> origin_id option \<Rightarrow> instant
     \<Rightarrow> manager \<Rightarrow> manager \<times> sent list \<times> (engine_error + claim_id list)" where
  "break_lock sok grant read_only head targets answers lock holder now m =
     (case result_bind (map_err (\<lambda>_. Invalid) (lock_name_check lock))
             (\<lambda>_. check_own_authority grant read_only (space lock)) of
        Inl e \<Rightarrow> (m, [], Inl e)
      | Inr _ \<Rightarrow>
          if (holder = None \<or> holder = Some (m_origin m)) \<and> own_id lock (m_table m) \<noteq> None
          then
            let (m, out, r) = release sok head targets lock None now m
            in (m, out, result_bind r (\<lambda>i. Inr [i]))
          else case targets of
            Inl e \<Rightarrow> (m, [], Inl e)
          | Inr peers \<Rightarrow>
              let e = get_entry lock (m_table m);
                  g = note_observed e (fst (collect_answers answers));
                  vs = victims (m_origin m) holder g e;
                  m = update_table (put_entry lock (fold (\<lambda>i. entry_end i Broken now) vs e)) m
              in (m, (peers, MInspect lock) # map (\<lambda>i. (peers, MEnd lock i Broken None)) vs, Inr vs))"

section \<open>The fence\<close>

definition fence_current :: "lock_name \<Rightarrow> claim_id \<Rightarrow> instant \<Rightarrow> table \<Rightarrow> bool" where
  "fence_current lock tok now t \<longleftrightarrow>
     (case own (get_entry lock t) of
        None \<Rightarrow> False
      | Some o1 \<Rightarrow> cid (own_claim o1) = tok \<and> own_held o1 \<and>
          (case client_deadline o1 of None \<Rightarrow> True | Some d \<Rightarrow> d > now))"

text \<open>Taking a read guard, and dropping it when the commit is done. A refused fence drops its
  guard at once.\<close>

definition fence :: "lock_name \<Rightarrow> claim_id \<Rightarrow> instant \<Rightarrow> manager \<Rightarrow> manager \<times> (engine_error + unit)" where
  "fence lock tok now m =
     (if fence_current lock tok now (m_table m)
      then (m\<lparr>fences := (fences m)(lock := fences m lock + 1)\<rparr>, Inr ())
      else (m, Inl (Lock FLost)))"

definition unfence :: "lock_name \<Rightarrow> manager \<Rightarrow> manager" where
  "unfence lock m = m\<lparr>fences := (fences m)(lock := fences m lock - 1)\<rparr>"

section \<open>The standing loop\<close>

definition expire_entry :: "instant \<Rightarrow> entry \<Rightarrow> entry" where
  "expire_entry now e =
     (let obs = map (\<lambda>(i, ob). (i, if \<not> expired ob \<and> until ob \<le> now then ob\<lparr>expired := True\<rparr> else ob))
                  (observed e)
      in e\<lparr>observed := filter (\<lambda>(i, ob). \<not> expired ob \<or> now - until ob < ENDED_MEMORY) obs,
           ended := filter (\<lambda>(i, reason, at). now - at < ENDED_MEMORY) (ended e),
           watermarks := filter (\<lambda>(org, seq, at). now - at < ENDED_MEMORY) (watermarks e)\<rparr>)"

definition lapsed :: "instant \<Rightarrow> own \<Rightarrow> bool" where
  "lapsed now o1 \<longleftrightarrow>
     own_held o1 \<and> (case client_deadline o1 of None \<Rightarrow> False | Some d \<Rightarrow> d \<le> now)"

definition renew_due :: "instant \<Rightarrow> own \<Rightarrow> bool" where
  "renew_due now o1 \<longleftrightarrow>
     own_held o1 \<and> \<not> lapsed now o1 \<and> \<not> renewing o1 \<and>
     (case last_renew o1 of None \<Rightarrow> True
      | Some at \<Rightarrow> now \<ge> at + unat (ttl_ms (own_claim o1)) * millis_ns div 3)"

definition tick_entry :: "instant \<Rightarrow> entry \<Rightarrow> entry" where
  "tick_entry now e =
     (let e = expire_entry now e in
      case own e of
        None \<Rightarrow> e
      | Some o1 \<Rightarrow>
          if renew_due now o1
          then e\<lparr>own := Some (o1\<lparr>renewing := True, last_renew := Some now\<rparr>)\<rparr> else e)"

definition tick_table :: "instant \<Rightarrow> table \<Rightarrow> table" where
  "tick_table now t =
     trim_ended (t\<lparr>locks := filter (\<lambda>(l, e). \<not> entry_is_empty e)
                     (map (\<lambda>(l, e). (l, tick_entry now e)) (locks t))\<rparr>)"

definition tick_lapsed :: "instant \<Rightarrow> table \<Rightarrow> (lock_name \<times> claim_id) list" where
  "tick_lapsed now t = concat (map (\<lambda>(l, e). case own e of None \<Rightarrow> []
     | Some o1 \<Rightarrow> if lapsed now o1 then [(l, cid (own_claim o1))] else []) (locks t))"

definition tick_due :: "instant \<Rightarrow> table \<Rightarrow> (lock_name \<times> claim) list" where
  "tick_due now t = concat (map (\<lambda>(l, e). case own e of None \<Rightarrow> []
     | Some o1 \<Rightarrow> if renew_due now o1 then [(l, own_claim o1)] else []) (locks t))"

text \<open>What a renewal does with its answers.\<close>

definition renew_settle ::
  "lock_name \<Rightarrow> claim \<Rightarrow> instant \<Rightarrow> instant \<Rightarrow> gathered \<Rightarrow> table \<Rightarrow> table \<times> lost option" where
  "renew_settle lock c sent now g t =
     (let t = fold hear (tickets g) t in
      case map_of (locks t) lock of
        None \<Rightarrow> (t, None)
      | Some e \<Rightarrow>
          let e = absorb_marks (g_watermarks g) now e in
          case own e of
            None \<Rightarrow> (put_entry lock e t, None)
          | Some o1 \<Rightarrow>
              if cid (own_claim o1) \<noteq> cid c then (put_entry lock e t, None)
              else
                let o1 = o1\<lparr>renewing := False\<rparr>;
                    why = heal (own_claim o1) g;
                    o1 = (if why = None
                          then o1\<lparr>deadline := sent + unat (ttl_ms (own_claim o1)) * millis_ns,
                                  phase := (if phase o1 = Unconfirmed then PHeld else phase o1)\<rparr>
                          else o1)
                in (put_entry lock (e\<lparr>own := Some o1\<rparr>) t, why))"

definition renew_once ::
  "bool \<Rightarrow> engine_error + node_id list \<Rightarrow> lock_name \<Rightarrow> claim \<Rightarrow> instant \<Rightarrow> peer_answer list \<Rightarrow> instant
     \<Rightarrow> manager \<Rightarrow> manager \<times> sent list" where
  "renew_once sok targets lock c sent_at answers now m =
     (let peers = (case targets of Inl _ \<Rightarrow> [] | Inr ps \<Rightarrow> ps);
          g = fst (collect_answers answers);
          (t, why) = renew_settle lock c sent_at now g (m_table m);
          m = m\<lparr>m_table := t\<rparr>;
          out = [(peers, MRenew lock c)]
      in case why of
           None \<Rightarrow> (m, out)
         | Some w \<Rightarrow> let (m, ends) = lose sok targets lock (cid c) w now m in (m, out @ ends))"

text \<open>A whole tick: \<open>rel\<close> and \<open>ren\<close> give, per lock, what the release of a lapsed lease and the
  renewal of a hold read from outside.\<close>

definition tick ::
  "(lock_name \<Rightarrow> bool \<times> (engine_error + u64 option) \<times> (engine_error + node_id list) \<times> instant)
     \<Rightarrow> (lock_name \<Rightarrow> bool \<times> (engine_error + node_id list) \<times> instant \<times> peer_answer list \<times> instant)
     \<Rightarrow> bool \<Rightarrow> instant \<Rightarrow> manager \<Rightarrow> manager \<times> sent list" where
  "tick rel ren clock_ok now m =
     (let laps = tick_lapsed now (m_table m); due = tick_due now (m_table m);
          m = update_table (tick_table now) m;
          (m, out) = fold (\<lambda>(lock, i) (m, out).
              let (sok, head, targets, at) = rel lock;
                  (m, ends, _) = release sok head targets lock (Some i) at m
              in (m, out @ ends)) laps (m, []);
          (m, out) = fold (\<lambda>(lock, c) (m, out).
              let (sok, targets, sent_at, answers, at) = ren lock;
                  (m, ends) = renew_once sok targets lock c sent_at answers at m
              in (m, out @ ends)) due (m, out)
      in (fst (persist_clock clock_ok m), out))"

section \<open>Reading\<close>

definition list_views :: "rstr option \<Rightarrow> instant \<Rightarrow> table \<Rightarrow> lock_view list" where
  "list_views sp now t =
     sort_key (\<lambda>v. (v_lock v, cid (v_claim v)))
       (concat (map (\<lambda>(l, e). entry_views l now e)
         (filter (\<lambda>(l, e). sp = None \<or> sp = Some (space l)) (locks t))))"

fun min_by_id :: "lock_view list \<Rightarrow> lock_view option" where
  "min_by_id [] = None"
| "min_by_id (v # vs) =
     Some (fold (\<lambda>w b. if cid (v_claim w) < cid (v_claim b) then w else b) vs v)"

definition current_view :: "lock_view list \<Rightarrow> lock_view option" where
  "current_view vs =
     (case find (\<lambda>v. v_mode v \<noteq> None \<and> \<not> v_contending v) vs of
        Some v \<Rightarrow> Some v
      | None \<Rightarrow>
          (case find (\<lambda>v. v_mode v = None \<and> v_state v = Held) vs of
             Some v \<Rightarrow> Some v
           | None \<Rightarrow> min_by_id (filter (\<lambda>v. v_mode v = None \<and> v_state v = Live) vs)))"

definition current :: "lock_name \<Rightarrow> instant \<Rightarrow> table \<Rightarrow> lock_view option" where
  "current lock now t =
     (case map_of (locks t) lock of None \<Rightarrow> None | Some e \<Rightarrow> current_view (entry_views lock now e))"

datatype status_failure = SFRefused refusal | SFOutOfTurn | SFSilent

fun peer_view_answer :: "unit + lock_message \<Rightarrow> status_failure + report list" where
  "peer_view_answer (Inr (MAnswer reports _ _)) = Inr reports"
| "peer_view_answer (Inr (MRefused reason)) = Inl (SFRefused reason)"
| "peer_view_answer (Inr _) = Inl SFOutOfTurn"
| "peer_view_answer (Inl _) = Inl SFSilent"

definition status ::
  "engine_error + node_id list \<Rightarrow> peer_answer list \<Rightarrow> lock_name \<Rightarrow> bool \<Rightarrow> instant \<Rightarrow> table
     \<Rightarrow> engine_error + (lock_view list \<times> watermark list \<times> (node_id \<times> (status_failure + report list)) list)" where
  "status targets answers lock peers now t =
     result_bind (map_err (\<lambda>_. Invalid) (lock_name_check lock)) (\<lambda>_.
     result_bind (if peers
        then result_bind targets (\<lambda>_. Inr (sort_key fst (map (\<lambda>(p, r). (p, peer_view_answer r)) answers)))
        else Inr []) (\<lambda>peer_views.
     Inr (case map_of (locks t) lock of
            None \<Rightarrow> ([], [], peer_views)
          | Some e \<Rightarrow> (entry_views lock now e,
              map (\<lambda>(org, seq, at). \<lparr>w_origin = org, w_seq = seq\<rparr>) (watermarks e), peer_views))))"

end
