(* ===== verification/Lock_Node.thy ===== *)
theory Lock_Node
  imports Lock_Manager
begin

text \<open>
  One node's lock manager as a state machine: every section that holds the table is a step, and
  sections of different operations interleave freely. \<open>pending\<close> is the attempt gate of a lock: it
  holds the claim whose exchange is under way. A step that takes the write half of a fence needs
  every read guard of that fence to be gone. The invariant, proved by rule induction, ties the
  phase of the node's own claim to the gate, and from it follow the promises of the fence and of
  the ticket.
\<close>

section \<open>What each section keeps\<close>

abbreviation own_of :: "lock_name \<Rightarrow> manager \<Rightarrow> own option" where
  "own_of lock m \<equiv> own (get_entry lock (m_table m))"

lemma trim_frame [simp]:
  "own (get_entry l (trim_ended t)) = own (get_entry l t)"
  "observed (get_entry l (trim_ended t)) = observed (get_entry l t)"
  "clock (trim_ended t) = clock t"
  by (simp_all add: trim_ended_alt Let_def fold_drop_frame)

lemma table_ok_trim: "table_ok t \<Longrightarrow> table_ok (trim_ended t)"
  by (simp add: trim_ended_alt Let_def fold_drop_ok)

definition tick_own :: "instant \<Rightarrow> own \<Rightarrow> own" where
  "tick_own now o1 =
     (if renew_due now o1 then o1\<lparr>renewing := True, last_renew := Some now\<rparr> else o1)"

lemma own_expire [simp]: "own (expire_entry now e) = own e"
  by (simp add: expire_entry_def Let_def)

lemma own_tick_entry: "own (tick_entry now e) = map_option (tick_own now) (own e)"
  by (simp add: tick_entry_def Let_def tick_own_def split: option.splits)

lemma entry_ok_expire:
  assumes "entry_ok e"
  shows "entry_ok (expire_entry now e)"
proof -
  let ?f = "\<lambda>(i, ob). (i, if \<not> expired ob \<and> until ob \<le> now then ob\<lparr>expired := True\<rparr> else ob)"
  have keys: "map fst (map ?f xs) = map fst xs" for xs :: "(claim_id, observed) hmap"
    by (simp add: case_prod_unfold)
  have "hm_invar (map ?f (observed e))"
    by (subst keys) (use assms in \<open>simp add: entry_ok_def\<close>)
  moreover have "\<forall>(i, ob) \<in> set (map ?f (observed e)). cid (obs_claim ob) = i"
    using assms by (auto simp: entry_ok_def)
  moreover have "fst ` set (map ?f (observed e)) \<inter> fst ` set (ended e) = {}"
    using assms keys [of "observed e"] by (metis entry_ok_def set_map)
  ultimately show ?thesis using assms
    by (auto simp: expire_entry_def Let_def entry_ok_def hm.invar_filter) 
qed

lemma entry_ok_tick: "entry_ok e \<Longrightarrow> entry_ok (tick_entry now e)"
  by (simp add: tick_entry_def Let_def entry_ok_expire split: option.splits)

lemma entry_is_empty_default: "entry_is_empty e \<longleftrightarrow> e = entry_default"
  by (auto simp: entry_is_empty_def entry_default_def)

lemma get_entry_retain:
  assumes "hm_invar (locks t)"
  shows "get_entry l (t\<lparr>locks := filter (\<lambda>(l, e). \<not> entry_is_empty e)
      (map (\<lambda>(l, e). (l, tick_entry now e)) (locks t))\<rparr>) =
    (case map_of (locks t) l of None \<Rightarrow> entry_default | Some e \<Rightarrow> tick_entry now e)"
proof -
  have inv: "hm_invar (map (\<lambda>(l, e). (l, tick_entry now e)) (locks t))"
    using assms by (simp add: comp_def case_prod_unfold)
  show ?thesis
    by (auto simp: get_entry_def hm.get_filter [OF inv] hm_map_values [where f = "\<lambda>_. tick_entry now"]
        entry_is_empty_default split: option.splits)
qed

lemma own_tick_table:
  assumes "table_ok t"
  shows "own (get_entry l (tick_table now t)) = map_option (tick_own now) (own (get_entry l t))"
proof -
  have "own (get_entry l (tick_table now t)) =
      own (case map_of (locks t) l of None \<Rightarrow> entry_default | Some e \<Rightarrow> tick_entry now e)"
    using assms by (simp add: tick_table_def get_entry_retain table_ok_def)
  then show ?thesis
    by (simp add: own_tick_entry get_entry_def entry_default_def split: option.splits)
qed

lemma table_ok_tick:
  assumes "table_ok t"
  shows "table_ok (tick_table now t)"
  unfolding tick_table_def
proof (rule table_ok_trim)
  have "hm_invar (map (\<lambda>(l, e). (l, tick_entry now e)) (locks t))"
    using assms by (simp add: table_ok_def comp_def case_prod_unfold)
  then show "table_ok (t\<lparr>locks := filter (\<lambda>(l, e). \<not> entry_is_empty e)
      (map (\<lambda>(l, e). (l, tick_entry now e)) (locks t))\<rparr>)"
    using assms by (auto simp: table_ok_def hm.invar_filter entry_ok_tick simp del: map_map)
qed

lemma absorb_ended_frame [simp]:
  "own (absorb_ended mine ends now e) = own e"
  "watermarks (absorb_ended mine ends now e) = watermarks e"
  unfolding absorb_ended_def by (induction ends arbitrary: e) auto

lemma absorb_marks_frame [simp]:
  "own (absorb_marks marks now e) = own e" "observed (absorb_marks marks now e) = observed e"
  "ended (absorb_marks marks now e) = ended e"
  unfolding absorb_marks_def by (induction marks arbitrary: e) auto

lemma entry_ok_absorb_ended [simp]: "entry_ok e \<Longrightarrow> entry_ok (absorb_ended mine ends now e)"
  unfolding absorb_ended_def
  by (rule fold_invariant' [where P = entry_ok]) (simp_all split: prod.split)

lemma entry_ok_absorb_marks [simp]: "entry_ok e \<Longrightarrow> entry_ok (absorb_marks marks now e)"
  unfolding absorb_marks_def
  by (rule fold_invariant' [where P = entry_ok]) (simp_all split: prod.split)

lemma fold_hear_frame [simp]:
  "locks (fold hear ls t) = locks t" "get_entry l (fold hear ls t) = get_entry l t"
  "table_ok (fold hear ls t) = table_ok t"
  by (induction ls arbitrary: t) auto

lemma entry_ok_decide:
  assumes "entry_ok e"
  shows "entry_ok (fst (decide_entry c d sent now g e))"
  using assms by (auto simp: decide_entry_def Let_def split: verdict.splits)

lemma own_decide:
  "own (fst (decide_entry c d sent now g e)) = Some o1 \<Longrightarrow>
     (\<exists>o0. own e = Some o0 \<and>
        (o1 = o0 \<and> cid (own_claim o0) \<noteq> cid c \<or>
         cid (own_claim o0) = cid c \<and> \<not> own_held o0 \<and> own_held o1 \<and>
         cid (own_claim o1) = cid c))"
  by (auto simp: decide_entry_def Let_def keep_unless_Some own_held_def split: if_splits verdict.splits
      option.splits)

lemma own_of_update [simp]: "own_of l (update_table f m) = own (get_entry l (f (m_table m)))"
  by simp

lemma own_of_take_own:
  "own_of l (take_own lock i why m) =
     (if l = lock then keep_unless (\<lambda>o1. cid (own_claim o1) = i) (own_of l m) else own_of l m)"
  by (auto simp: take_own_def Let_def split: option.splits)

lemma own_of_serve:
  assumes "\<And>i r w. request = MEnd lock i r w \<Longrightarrow> own_id lock (m_table m) \<noteq> Some i"
  shows "own_of lock (fst (serve_frame a sok now peer request m)) = own_of lock m"
proof (cases request)
  case (MEnd l i r w)
  then show ?thesis using assms
    by (auto simp: fst_serve_frame record_end_def record_end_own_def record_end_other_def Let_def
        own_of_take_own own_id_get_entry keep_unless_def split: sum.splits option.splits)
qed (auto simp: fst_serve_frame m_table_record_claim get_entry_record_table split: sum.splits)

lemma own_of_serve_cases:
  "own_of lock (fst (serve_frame a sok now peer request m)) = own_of lock m \<or>
   own_of lock (fst (serve_frame a sok now peer request m)) = None"
proof (cases request)
  case (MEnd l i r w)
  then show ?thesis
    by (auto simp: fst_serve_frame record_end_def record_end_own_def record_end_other_def Let_def
        own_of_take_own keep_unless_def split: sum.splits option.splits)
qed (auto simp: fst_serve_frame m_table_record_claim get_entry_record_table split: sum.splits)

lemma own_of_release_commit:
  "own_of l (release_commit lock i mark now m) =
     (if l = lock then keep_unless (\<lambda>o1. cid (own_claim o1) = i) (own_of l m) else own_of l m)"
  by (simp add: release_commit_def Let_def own_of_take_own split: option.splits)

lemma m_table_forget [simp]: "m_table (fst (forget_hold sok lock i m)) = m_table m"
  by (simp add: forget_hold_def)

lemma own_of_lose:
  "own_of l (fst (lose sok targets lock i why now m)) =
     (if l = lock then keep_unless (\<lambda>o1. cid (own_claim o1) = i) (own_of l m) else own_of l m)"
  by (auto simp: lose_def Let_def own_of_take_own own_id_get_entry keep_unless_def split: option.splits)

definition same_hold :: "own \<Rightarrow> own \<Rightarrow> bool" where
  "same_hold o1 o2 \<longleftrightarrow> cid (own_claim o1) = cid (own_claim o2) \<and> own_held o1 = own_held o2"

definition same_hold_opt :: "own option \<Rightarrow> own option \<Rightarrow> bool" where
  "same_hold_opt x y \<longleftrightarrow> (case (x, y) of (None, None) \<Rightarrow> True
     | (Some o1, Some o2) \<Rightarrow> same_hold o1 o2 | _ \<Rightarrow> False)"

lemma same_hold_refl [simp]: "same_hold o1 o1"
  by (simp add: same_hold_def)

lemma same_hold_opt_refl [simp]: "same_hold_opt x x"
  by (simp add: same_hold_opt_def same_hold_def split: option.splits)

lemma m_table_persist_hold [simp]: "m_table (fst (persist_hold sok row m)) = m_table m"
  by (simp add: persist_hold_def split: option.splits)

lemma same_hold_renewed [simp]: "same_hold (renewed_own d p now o1) o1"
  by (simp add: renewed_own_def Let_def same_hold_def own_held_def split: option.splits)

lemma renew_cases:
  obtains "fst (renew cd sok lock tok d p now wall m) = m"
  | o1 where "own_of lock m = Some o1"
      "m_table (fst (renew cd sok lock tok d p now wall m)) =
         put_entry lock ((get_entry lock (m_table m))\<lparr>own := Some (renewed_own d p now o1)\<rparr>) (m_table m)"
      "fences (fst (renew cd sok lock tok d p now wall m)) = fences m"
      "m_origin (fst (renew cd sok lock tok d p now wall m)) = m_origin m"
proof (cases "fst (renew cd sok lock tok d p now wall m) = m")
  case False
  then obtain o1 where o1: "own_of lock m = Some o1" "cid (own_claim o1) = tok" "own_held o1"
    and ok: "\<not> (case d of None \<Rightarrow> False | Some d \<Rightarrow> \<not> ttl_in_range d)"
      "\<not> (case p of None \<Rightarrow> False | Some p \<Rightarrow> length p > MAX_LOCK_PAYLOAD_BYTES)"
    by (cases "own_of lock m") (auto simp: renew_def Let_def split: if_splits)
  let ?o = "renewed_own d p now o1"
  let ?m = "update_table (put_entry lock ((get_entry lock (m_table m))\<lparr>own := Some ?o\<rparr>)) m"
  have "fst (renew cd sok lock tok d p now wall m) =
      (case hold_row cd (m_origin ?m) lock ?o wall now of Inl err \<Rightarrow> ?m
       | Inr row \<Rightarrow> fst (persist_hold sok row ?m))"
    using o1 ok by (auto simp: renew_def Let_def split: sum.split prod.split)
  moreover have "fences (fst (persist_hold sok row ?m)) = fences m"
    "m_origin (fst (persist_hold sok row ?m)) = m_origin m" for row
    by (simp_all add: persist_hold_def update_table_def split: option.split)
  ultimately show ?thesis using that(2) [OF o1(1)] by (simp add: update_table_def split: sum.split)
qed (rule that(1))

lemma own_of_renew:
  "same_hold_opt (own_of l (fst (renew cd sok lock tok d p now wall m))) (own_of l m)"
  by (rule renew_cases [of cd sok lock tok d p now wall m])
    (auto simp: same_hold_opt_def split: option.split)

lemma own_renew_settle:
  "same_hold_opt (own (get_entry l (fst (renew_settle lock c sent now g t)))) (own (get_entry l t))"
proof (cases "map_of (locks t) lock")
  case None
  then show ?thesis by (simp add: renew_settle_def Let_def)
next
  case (Some e)
  then have "get_entry lock t = e" by (simp add: get_entry_def)
  with Some show ?thesis
    by (auto simp: renew_settle_def Let_def same_hold_opt_def same_hold_def own_held_def
        split: option.splits)
qed

lemma table_ok_renew_settle: "table_ok t \<Longrightarrow> table_ok (fst (renew_settle lock c sent now g t))"
proof -
  assume ok: "table_ok t"
  have e: "entry_ok e" if "map_of (locks t) lock = Some e" for e
    using get_entry_ok [OF ok, of lock] that by (simp add: get_entry_def)
  show ?thesis
    by (auto simp: renew_settle_def Let_def ok e split: option.split intro!: table_ok_put)
qed

lemma table_ok_renew: "table_ok (m_table m) \<Longrightarrow> table_ok (m_table (fst (renew cd sok lock tok d p now wall m)))"
  by (rule renew_cases [of cd sok lock tok d p now wall m]) (auto simp: get_entry_ok)

section \<open>The node as a state machine\<close>

record node =
  mgr :: manager
  pending :: "lock_name \<Rightarrow> claim option"

abbreviation set_mgr :: "manager \<Rightarrow> node \<Rightarrow> node" where
  "set_mgr m s \<equiv> s\<lparr>mgr := m\<rparr>"

inductive node_step :: "authority \<Rightarrow> codec \<Rightarrow> node \<Rightarrow> node \<Rightarrow> bool" for a cd where
  serve: "(\<And>lock i r w. request = MEnd lock i r w \<Longrightarrow> own_id lock (m_table (mgr s)) = Some i \<Longrightarrow>
             fences (mgr s) lock = 0) \<Longrightarrow>
    node_step a cd s (set_mgr (fst (serve_frame a sok now peer request (mgr s))) s)"
| begins: "pending s lock = None \<Longrightarrow> held_here lock (m_table (mgr s)) = None \<Longrightarrow>
    rq_lock request = lock \<Longrightarrow> attempt_begin request non now wall (mgr s) = (m, c) \<Longrightarrow>
    node_step a cd s (s\<lparr>mgr := m, pending := (pending s)(lock := Some c)\<rparr>)"
| persist_clock: "node_step a cd s (set_mgr (fst (persist_clock sok (mgr s))) s)"
| abort: "pending s lock = Some c \<Longrightarrow>
    node_step a cd s (s\<lparr>mgr := attempt_abort lock c (mgr s), pending := (pending s)(lock := None)\<rparr>)"
| decide: "pending s lock = Some c \<Longrightarrow> rq_lock request = lock \<Longrightarrow>
    node_step a cd s (s\<lparr>mgr := fst (attempt_decide cd request c sent now wall g (mgr s)),
                        pending := (pending s)(lock := None)\<rparr>)"
| persist_hold: "node_step a cd s (set_mgr (fst (persist_hold sok row (mgr s))) s)"
| forget_hold: "node_step a cd s (set_mgr (fst (forget_hold sok lock i (mgr s))) s)"
| renew: "node_step a cd s (set_mgr (fst (renew cd sok lock tok d p now wall (mgr s))) s)"
| release: "fences (mgr s) lock = 0 \<Longrightarrow>
    node_step a cd s (set_mgr (release_commit lock i mark now (mgr s)) s)"
| lose: "fences (mgr s) lock = 0 \<Longrightarrow>
    node_step a cd s (set_mgr (fst (lose sok targets lock i why now (mgr s))) s)"
| break_claims: "node_step a cd s (set_mgr (update_table (modify_entry lock
    (fold (\<lambda>i. entry_end i Broken now) vs)) (mgr s)) s)"
| fence: "node_step a cd s (set_mgr (fst (fence lock tok now (mgr s))) s)"
| unfence: "node_step a cd s (set_mgr (unfence lock (mgr s)) s)"
| tick: "node_step a cd s (set_mgr (update_table (tick_table now) (mgr s)) s)"
| renewal: "node_step a cd s (set_mgr ((mgr s)\<lparr>m_table :=
    fst (renew_settle lock c sent now g (m_table (mgr s)))\<rparr>) s)"

inductive_cases node_stepE: "node_step a cd s s'"

definition node_inv :: "node \<Rightarrow> bool" where
  "node_inv s \<longleftrightarrow> table_ok (m_table (mgr s)) \<and>
     (\<forall>lock o1. own_of lock (mgr s) = Some o1 \<longrightarrow>
        (case pending s lock of None \<Rightarrow> own_held o1
         | Some c \<Rightarrow> cid (own_claim o1) = cid c \<and> \<not> own_held o1))"

text \<open>The two halves of the invariant, as a step keeps them.\<close>

definition phase_ok :: "claim option \<Rightarrow> own option \<Rightarrow> bool" where
  "phase_ok gate x \<longleftrightarrow> (case x of None \<Rightarrow> True | Some o1 \<Rightarrow>
     (case gate of None \<Rightarrow> own_held o1 | Some c \<Rightarrow> cid (own_claim o1) = cid c \<and> \<not> own_held o1))"

lemma node_inv_alt:
  "node_inv s \<longleftrightarrow> table_ok (m_table (mgr s)) \<and> (\<forall>lock. phase_ok (pending s lock) (own_of lock (mgr s)))"
  by (auto simp: node_inv_def phase_ok_def split: option.splits)

lemma phase_ok_None [simp]: "phase_ok gate None"
  by (simp add: phase_ok_def)

lemma phase_ok_keep_unless: "phase_ok gate x \<Longrightarrow> phase_ok gate (keep_unless p x)"
  by (cases x) (auto simp: phase_ok_def)

lemma phase_ok_same: "same_hold_opt x y \<Longrightarrow> phase_ok gate y \<Longrightarrow> phase_ok gate x"
  by (auto simp: phase_ok_def same_hold_opt_def same_hold_def split: option.splits)

lemma own_attempt_begin:
  assumes "attempt_begin request non now wall m = (m', c)"
  shows "own_of l m' = (if l = rq_lock request
      then Some \<lparr>own_claim = c, phase = Contending, mode = rq_mode request, deadline = now + ttl request,
        client_deadline = (if rq_mode request = Lease then Some (now + ttl request) else None),
        last_renew = Some now, renewing = False, acquired_at = wall\<rparr> else own_of l m)"
    and "fences m' = fences m"
    and "table_ok (m_table m) \<Longrightarrow> table_ok (m_table m')"
proof -
  have clock: "get_entry l (t\<lparr>clock := x\<rparr>) = get_entry l t" "table_ok (t\<lparr>clock := x\<rparr>) = table_ok t"
    for l t x by (simp_all add: get_entry_def table_ok_def)
  show "own_of l m' = (if l = rq_lock request
      then Some \<lparr>own_claim = c, phase = Contending, mode = rq_mode request, deadline = now + ttl request,
        client_deadline = (if rq_mode request = Lease then Some (now + ttl request) else None),
        last_renew = Some now, renewing = False, acquired_at = wall\<rparr> else own_of l m)"
    using assms by (auto simp: attempt_begin_def Let_def clock)
  show "fences m' = fences m" using assms by (auto simp: attempt_begin_def Let_def)
  show "table_ok (m_table m) \<Longrightarrow> table_ok (m_table m')"
    using assms by (auto simp: attempt_begin_def Let_def clock intro!: table_ok_modify)
qed

lemma own_attempt_abort:
  "own_of l (attempt_abort lock c m) =
     (if l = lock then keep_unless (\<lambda>o1. cid (own_claim o1) = cid c) (own_of l m) else own_of l m)"
  by (auto simp: attempt_abort_def get_entry_def put_entry_def update_table_def map_simps
      entry_default_def split: option.splits)

lemma table_ok_abort: "table_ok (m_table m) \<Longrightarrow> table_ok (m_table (attempt_abort lock c m))"
proof -
  assume ok: "table_ok (m_table m)"
  have e: "entry_ok e" if "map_of (locks (m_table m)) lock = Some e" for e
    using get_entry_ok [OF ok, of lock] that by (simp add: get_entry_def)
  show ?thesis using ok e by (auto simp: attempt_abort_def split: option.split)
qed

lemma m_table_attempt_decide:
  "m_table (fst (attempt_decide cd request c sent now wall g m)) =
     put_entry (rq_lock request)
       (fst (decide_entry c (ttl request) sent now g (get_entry (rq_lock request) (m_table m))))
       (fold hear (tickets g) (m_table m))"
  by (simp add: attempt_decide_def Let_def split: prod.split option.split verdict.split)

lemma table_ok_attempt_decide:
  "table_ok (m_table m) \<Longrightarrow> table_ok (m_table (fst (attempt_decide cd request c sent now wall g m)))"
  by (simp add: m_table_attempt_decide entry_ok_decide get_entry_ok table_ok_put)

lemma m_table_persist_clock:
  "own_of l (fst (persist_clock sok m)) = own_of l m"
  "table_ok (m_table (fst (persist_clock sok m))) = table_ok (m_table m)"
  by (simp_all add: persist_clock_def Let_def get_entry_def table_ok_def)

lemma m_table_fence [simp]:
  "m_table (fst (fence lock tok now m)) = m_table m" "m_table (unfence lock m) = m_table m"
  by (simp_all add: fence_def unfence_def)

lemma fold_end_own [simp]: "own (fold (\<lambda>i. entry_end i r now) vs e) = own e"
  by (induction vs arbitrary: e) auto

lemma entry_ok_fold_end: "entry_ok e \<Longrightarrow> entry_ok (fold (\<lambda>i. entry_end i r now) vs e)"
  by (rule fold_invariant' [where P = entry_ok]) simp_all

lemma table_ok_release_commit:
  "table_ok (m_table m) \<Longrightarrow> table_ok (m_table (release_commit lock i mark now m))"
  by (auto simp: release_commit_def Let_def table_ok_take_own split: option.splits
      intro!: table_ok_modify)

lemma table_ok_lose:
  "table_ok (m_table m) \<Longrightarrow> table_ok (m_table (fst (lose sok targets lock i why now m)))"
  by (auto simp: lose_def Let_def table_ok_take_own table_ok_end intro!: table_ok_modify)

lemma same_hold_tick: "same_hold_opt (map_option (tick_own now) x) x"
  by (cases x) (auto simp: same_hold_opt_def same_hold_def tick_own_def own_held_def)

lemmas own_effects = own_of_release_commit own_of_lose own_attempt_abort m_table_persist_clock
  own_tick_table

lemmas table_ok_effects = table_ok_serve table_ok_attempt_decide table_ok_abort table_ok_renew
  table_ok_release_commit table_ok_lose table_ok_tick table_ok_renew_settle

lemma phase_ok_decide:
  assumes "phase_ok (Some c) (own e)"
  shows "phase_ok None (own (fst (decide_entry c d sent now g e)))"
  using assms own_decide [of c d sent now g e]
  by (cases "own (fst (decide_entry c d sent now g e))") (auto simp: phase_ok_def)

lemma node_inv_step:
  assumes "node_step a cd s s'" "node_inv s"
  shows "node_inv s'"
  using assms(1)
proof (cases rule: node_step.cases)
  case (serve request sok now peer)
  have "phase_ok (pending s l) (own_of l (fst (serve_frame a sok now peer request (mgr s))))" for l
    using own_of_serve_cases [of l a sok now peer request "mgr s"] assms(2)
    by (auto simp: node_inv_alt)
  with serve assms(2) show ?thesis by (simp add: node_inv_alt table_ok_serve)
next
  case (begins lock request non now wall m c)
  from own_attempt_begin [OF begins(5)] assms(2) begins show ?thesis
    by (auto simp: node_inv_alt phase_ok_def own_held_def)
next
  case (abort lock c)
  have "phase_ok None (keep_unless (\<lambda>o1. cid (own_claim o1) = cid c) (own_of lock (mgr s)))"
    using assms(2) abort(2) by (auto simp: node_inv_alt phase_ok_def keep_unless_def split: option.splits)
  with abort assms(2) show ?thesis
    by (auto simp: node_inv_alt own_attempt_abort table_ok_abort)
next
  case (decide lock c request sent now wall g)
  have "phase_ok (Some c) (own_of lock (mgr s))" using assms(2) decide by (metis node_inv_alt)
  from phase_ok_decide [OF this] decide assms(2) show ?thesis
    by (auto simp: node_inv_alt m_table_attempt_decide entry_ok_decide get_entry_ok table_ok_put)
next
  case (renew sok lock tok d p now wall)
  with assms(2) show ?thesis
    by (auto simp: node_inv_alt table_ok_renew intro: phase_ok_same [OF own_of_renew])
next
  case (release lock i mark now)
  with assms(2) show ?thesis
    by (auto simp: node_inv_alt own_effects table_ok_effects phase_ok_keep_unless)
next
  case (lose lock sok targets i why now)
  with assms(2) show ?thesis
    by (auto simp: node_inv_alt own_effects table_ok_effects phase_ok_keep_unless)
next
  case (break_claims lock now vs)
  with assms(2) show ?thesis
    by (auto simp: node_inv_alt entry_ok_fold_end intro!: table_ok_modify)
next
  case (tick now)
  with assms(2) show ?thesis
    by (auto simp: node_inv_alt own_effects table_ok_effects intro: phase_ok_same [OF same_hold_tick])
next
  case (renewal lock c sent now g)
  with assms(2) show ?thesis
    by (auto simp: node_inv_alt table_ok_effects intro: phase_ok_same [OF own_renew_settle])
qed (use assms(2) in \<open>auto simp: node_inv_alt own_effects\<close>)

section \<open>The fence protects the hold\<close>

lemma fenced_step:
  assumes "node_step a cd s s'" "node_inv s" "own_of lock (mgr s) = Some o1" "own_held o1"
    and guard: "0 < fences (mgr s) lock"
  shows "same_hold_opt (own_of lock (mgr s')) (own_of lock (mgr s))"
  using assms(1)
proof (cases rule: node_step.cases)
  case (serve request sok now peer)
  then have "own_of lock (fst (serve_frame a sok now peer request (mgr s))) = own_of lock (mgr s)"
    using guard by (intro own_of_serve) auto
  with serve show ?thesis by simp
next
  case (begins lock' request non now wall m c)
  then have "lock' \<noteq> lock" using assms(3) by (auto simp: held_here_def own_id_get_entry)
  with begins show ?thesis using own_attempt_begin(1) [OF begins(5), of lock] by simp
next
  case (abort lock' c)
  then have "lock' \<noteq> lock" using assms by (auto simp: node_inv_def split: option.splits)
  with abort show ?thesis by (simp add: own_effects)
next
  case (decide lock' c request sent now wall g)
  then have "lock' \<noteq> lock" using assms by (auto simp: node_inv_def split: option.splits)
  with decide show ?thesis by (simp add: m_table_attempt_decide)
next
  case (renew sok lock' tok d p now wall)
  then show ?thesis using own_of_renew by simp
next
  case (release lock' i mark now)
  then show ?thesis using guard by (auto simp: own_effects)
next
  case (lose lock' sok targets i why now)
  then show ?thesis using guard by (auto simp: own_effects)
next
  case (tick now)
  then show ?thesis using assms(2) by (simp add: own_effects same_hold_tick node_inv_def)
next
  case (renewal lock' c sent now g)
  then show ?thesis using own_renew_settle by simp
qed (auto simp: own_effects)

inductive reach :: "authority \<Rightarrow> codec \<Rightarrow> node \<Rightarrow> node \<Rightarrow> bool" for a cd where
  refl: "reach a cd s s"
| step: "reach a cd s s' \<Longrightarrow> node_step a cd s' s'' \<Longrightarrow> reach a cd s s''"

text \<open>A run during which at least one read guard of the lock's fence is out.\<close>

inductive fenced_run :: "authority \<Rightarrow> codec \<Rightarrow> lock_name \<Rightarrow> node \<Rightarrow> node \<Rightarrow> bool" for a cd lock where
  start: "fenced_run a cd lock s s"
| more: "fenced_run a cd lock s s' \<Longrightarrow> 0 < fences (mgr s') lock \<Longrightarrow> node_step a cd s' s'' \<Longrightarrow>
    fenced_run a cd lock s s''"

lemma node_inv_reach: "reach a cd s s' \<Longrightarrow> node_inv s \<Longrightarrow> node_inv s'"
  by (induction rule: reach.induct) (auto intro: node_inv_step)

definition node_init :: "codec \<Rightarrow> origin_id \<Rightarrow> duration \<Rightarrow> duration \<Rightarrow> lock_store \<Rightarrow> int \<Rightarrow> instant \<Rightarrow> node" where
  "node_init cd org cw hw st wall now =
     \<lparr>mgr = restore cd wall now (manager_new org cw hw st), pending = (\<lambda>_. None)\<rparr>"

lemma restore_row_inv:
  assumes "table_ok (m_table m) \<and> (\<forall>l. phase_ok None (own_of l m))"
  shows "table_ok (m_table (restore_row cd wall now row m)) \<and>
    (\<forall>l. phase_ok None (own_of l (restore_row cd wall now row m)))"
  using assms by (auto simp: restore_row_def Let_def restored_own_def phase_ok_def own_held_def
      split: sum.splits intro!: table_ok_modify)

lemma node_inv_init: "node_inv (node_init cd org cw hw st wall now)"
proof -
  let ?m = "update_table (\<lambda>t. (hear (lock_clock st) t)\<lparr>saved := max (saved t) (lock_clock st)\<rparr>)
      (manager_new org cw hw st)"
  have base: "table_ok (m_table ?m) \<and> (\<forall>l. phase_ok None (own_of l ?m))"
    by (simp add: manager_new_def table_default_def table_ok_def get_entry_def entry_default_def hear_def)
  have "table_ok (m_table (fold (restore_row cd wall now) (lock_holds st) ?m)) \<and>
      (\<forall>l. phase_ok None (own_of l (fold (restore_row cd wall now) (lock_holds st) ?m)))"
    by (rule fold_invariant' [where
          P = "\<lambda>m. table_ok (m_table m) \<and> (\<forall>l. phase_ok None (own_of l m))", OF base])
      (rule restore_row_inv)
  then show ?thesis
    by (simp add: node_inv_alt node_init_def restore_def Let_def) (simp add: manager_new_def)
qed


definition demo_codec :: codec where
  "demo_codec = \<lparr>canonical = (\<lambda>_. []), parse_origin = (\<lambda>_. Some (Key [9])),
     encode_ids = (\<lambda>_. Some []), decode_ids = (\<lambda>_. Some [])\<rparr>"

definition demo_row :: lock_hold_row where
  "demo_row = \<lparr>row_space = str ''s'', row_name = str ''n'', row_origin = [], row_lamport = 4,
     row_nonce = 0, row_ttl_ms = 30000, sticky = True, row_owner = [], row_payload = [],
     row_supersedes = [], row_acquired_at = 1, lease_until = None\<rparr>"

definition demo_node :: node where
  "demo_node = node_init demo_codec (Key [9]) (2 * secs_ns) (10 * secs_ns)
     (put_lock_hold demo_row store_default) 0 0"

lemma demo_lock_new: "lock_name_new (str ''s'') (str ''n'') = Inr demo_lock"
  using demo_checks(1) by (simp add: lock_name_new_def Let_def demo_lock_def)

lemma demo_node_own:
  "own_of demo_lock (mgr demo_node) = Some (restored_own demo_codec (Key [9]) 0 0 demo_row)"
proof -
  have rows: "lock_holds (put_lock_hold demo_row store_default) = [demo_row]"
    by (simp add: lock_holds_def put_lock_hold_def store_default_def)
  have "m_store (manager_new (Key [9]) (2 * secs_ns) (10 * secs_ns)
      (put_lock_hold demo_row store_default)) = put_lock_hold demo_row store_default"
    by (simp add: manager_new_def)
  then show ?thesis
    by (simp add: demo_node_def node_init_def restore_def Let_def rows restore_row_def demo_lock_new
        demo_codec_def update_table_def manager_new_def demo_row_def [THEN arg_cong, of row_space]
        demo_row_def [THEN arg_cong, of row_name] demo_row_def [THEN arg_cong, of row_origin]
        demo_row_def [THEN arg_cong, of sticky])
qed


lemma fenced_run_hold:
  assumes "fenced_run a cd lock s s'" "node_inv s" "own_of lock (mgr s) = Some o1" "own_held o1"
  shows "node_inv s' \<and> (\<exists>o2. own_of lock (mgr s') = Some o2 \<and> same_hold o2 o1)"
  using assms
proof (induction rule: fenced_run.induct)
  case (more s s' s'')
  then obtain o2 where o2: "node_inv s'" "own_of lock (mgr s') = Some o2" "same_hold o2 o1" by blast
  then have "own_held o2" using more.prems by (simp add: same_hold_def)
  from fenced_step [OF more.hyps(3) o2(1,2) this more.hyps(2)]
  obtain o3 where "own_of lock (mgr s'') = Some o3" "same_hold o3 o2"
    using o2(2) by (auto simp: same_hold_opt_def split: option.splits)
  moreover from o2 this have "same_hold o3 o1" by (simp add: same_hold_def)
  ultimately show ?case using node_inv_step [OF more.hyps(3) o2(1)] by auto
qed auto

lemma fence_granted:
  assumes "fence lock tok now m = (m', Inr u)"
  shows "\<exists>o1. own_of lock m' = Some o1 \<and> cid (own_claim o1) = tok \<and> own_held o1"
    and "m_table m' = m_table m"
  using assms by (auto simp: fence_def fence_current_def split: if_splits option.splits)

text \<open>C23. A fenced commit never outlives its hold: once a fence is granted for a token, then for as
  long as a read guard is out, no interleaving of releases, lapsed leases, heals, breaks by peers,
  renewals or further attempts ends or replaces the hold it was granted for.\<close>
theorem fence_protects_hold:
  assumes "reach a cd (node_init cd org cw hw st wall t0) s"
    and "fence lock tok now (mgr s) = (m, Inr ())"
    and "fenced_run a cd lock (set_mgr m s) s'"
  shows "\<exists>o1. own_of lock (mgr s') = Some o1 \<and> cid (own_claim o1) = tok \<and> own_held o1"
proof -
  have "node_inv s" using assms(1) node_inv_reach node_inv_init by blast
  then have "node_inv (set_mgr m s)"
    using fence_granted(2) [OF assms(2)] by (simp add: node_inv_def)
  moreover obtain o1 where "own_of lock m = Some o1" "cid (own_claim o1) = tok" "own_held o1"
    using fence_granted(1) [OF assms(2)] by blast
  ultimately show ?thesis
    using fenced_run_hold [OF assms(3), of o1] by (auto simp: same_hold_def)
qed

theorem fence_protects_hold_witness:
  "let tok = ClaimId (Ticket 4 (Key [9])) 0; m = fst (fence demo_lock tok 6 (mgr demo_node));
       s = set_mgr (update_table (tick_table 7) m) demo_node
   in \<exists>o1. own_of demo_lock (mgr s) = Some o1 \<and> cid (own_claim o1) = tok \<and> own_held o1"
proof -
  let ?tok = "ClaimId (Ticket 4 (Key [9])) 0"
  let ?m = "fst (fence demo_lock ?tok 6 (mgr demo_node))"
  have cur: "fence_current demo_lock ?tok 6 (m_table (mgr demo_node))"
    by (simp add: fence_current_def demo_node_own restored_own_def demo_row_def own_held_def)
  then have f: "fence demo_lock ?tok 6 (mgr demo_node) = (?m, Inr ())" by (simp add: fence_def)
  have "0 < fences ?m demo_lock" using cur by (simp add: fence_def)
  then have "fenced_run demo_authority demo_codec demo_lock (set_mgr ?m demo_node)
      (set_mgr (update_table (tick_table 7) ?m) demo_node)"
    using fenced_run.more [OF fenced_run.start, of "set_mgr ?m demo_node" demo_lock]
      node_step.tick [of demo_authority demo_codec "set_mgr ?m demo_node" 7] by simp
  with reach.refl f show ?thesis
    unfolding Let_def by (intro fence_protects_hold) (auto simp: demo_node_def)
qed

end
