(* ===== verification/Lock_Acquire.thy ===== *)
theory Lock_Acquire
  imports Lock_Node
begin

text \<open>
  What an acquisition promises its caller: the ticket it takes, what an \<open>Acquired\<close> result means,
  the handoff it waited for, how a hold survives a restart, and that a released token is refused.
\<close>

section \<open>Tickets\<close>

lemma fold_max_ge: "(x :: 'a :: linorder) \<in> set xs \<or> x = b \<Longrightarrow> x \<le> fold max xs b"
  unfolding Max.set_eq_fold [symmetric] by (rule Max_ge) auto

lemma heard_ge:
  assumes "i \<in> fst ` set (observed (get_entry lock t)) \<union> fst ` set (ended (get_entry lock t))"
  shows "id_lamport i \<le> heard lock t"
proof (cases "map_of (locks t) lock")
  case None
  with assms show ?thesis by (simp add: get_entry_def entry_default_def)
next
  case (Some e)
  then have "id_lamport i \<in> set (map id_lamport (map fst (observed e) @ map fst (ended e)))"
    using assms by (auto simp: get_entry_def)
  then show ?thesis unfolding heard_def Some option.case by (rule fold_max_ge [OF disjI1])
qed

text \<open>Unless the clock is exhausted, a new claim's ticket lies strictly above the node's clock and
  above every claim it has observed or seen end for the lock, so it orders after all of them, and
  the clock moves up to it.\<close>
theorem attempt_ticket_fresh:
  assumes "attempt_begin request non now wall m = (m', c)"
    and "max (clock (m_table m)) (heard (rq_lock request) (m_table m)) \<noteq> - 1"
  shows "clock (m_table m) < id_lamport (cid c) \<and> clock (m_table m') = id_lamport (cid c) \<and>
    id_origin (cid c) = m_origin m \<and>
    (\<forall>i \<in> fst ` set (observed (get_entry (rq_lock request) (m_table m))) \<union>
           fst ` set (ended (get_entry (rq_lock request) (m_table m))). i < cid c)"
proof -
  let ?M = "max (clock (m_table m)) (heard (rq_lock request) (m_table m))"
  have lam: "id_lamport (cid c) = ?M + 1" "clock (m_table m') = ?M + 1" "id_origin (cid c) = m_origin m"
    using assms(1) by (auto simp: attempt_begin_def Let_def)
  have "?M < ?M + 1" using assms(2) by (rule u64_succ_greater)
  moreover have "clock (m_table m) \<le> ?M" "heard (rq_lock request) (m_table m) \<le> ?M" by simp_all
  ultimately have lt: "clock (m_table m) < id_lamport (cid c)"
    "heard (rq_lock request) (m_table m) < id_lamport (cid c)"
    using lam by (metis le_less_trans)+
  have "i < cid c" if "i \<in> fst ` set (observed (get_entry (rq_lock request) (m_table m))) \<union>
      fst ` set (ended (get_entry (rq_lock request) (m_table m)))" for i
    using heard_ge [OF that] lt(2) by (intro claim_id_less_lamport) (rule le_less_trans)
  with lam lt show ?thesis by simp
qed

definition demo_request :: lock_request where
  "demo_request = \<lparr>rq_lock = demo_lock, ttl = 30 * secs_ns, wait = 0, rq_owner = [], rq_payload = [],
     rq_mode = Sticky, allow_behind = False\<rparr>"

theorem attempt_ticket_fresh_witness:
  "0 < id_lamport (cid (snd (attempt_begin demo_request 7 1 1 demo_manager)))"
  using attempt_ticket_fresh [of demo_request 7 1 1 demo_manager
      "fst (attempt_begin demo_request 7 1 1 demo_manager)"
      "snd (attempt_begin demo_request 7 1 1 demo_manager)"]
  by (simp add: table_default_def heard_def)


section \<open>What an acquired lock means\<close>

lemma note_observed_ok [intro]: "gathered_ok g \<Longrightarrow> gathered_ok (note_observed e g)"
  unfolding note_observed_def
  by (rule fold_invariant' [where P = gathered_ok]) (auto split: prod.split)

lemma state_of_note_mono:
  "state_of g i = Some st \<Longrightarrow> \<exists>st'. state_of (note_claim c s g) i = Some st' \<and> st \<le> st'"
  by (auto simp: state_of_note)

lemma note_observed_mono:
  assumes "state_of g i = Some st"
  shows "\<exists>st'. state_of (note_observed e g) i = Some st' \<and> st \<le> st'"
  unfolding note_observed_def
proof (rule fold_invariant' [where P = "\<lambda>g. \<exists>st'. state_of g i = Some st' \<and> st \<le> st'"])
  fix x g assume "\<exists>st'. state_of g i = Some st' \<and> st \<le> st'"
  then show "\<exists>st'. state_of ((\<lambda>(i, ob). note_claim (obs_claim ob) (obs_state ob)) x g) i = Some st' \<and> st \<le> st'"
    using state_of_note_mono order_trans by (cases x) fastforce
qed (use assms in simp)

lemma get_ended_map:
  assumes "hm_invar (ended e)"
  shows "map_of (ended_map e) i = map_option fst (map_of (ended e) i)"
proof -
  have "ended_map e = fold (\<lambda>(k, v). bt_insert k v) (map (\<lambda>(i, r, at). (i, r)) (ended e)) []"
    by (simp add: ended_map_def fold_map comp_def case_prod_unfold)
  then have "map_of (ended_map e) i = map_of (rev (map (\<lambda>(i, r, at). (i, r)) (ended e))) i"
    by (simp add: bt.get_fold_insert split: option.split)
  also have "\<dots> = map_of (map (\<lambda>(i, r, at). (i, r)) (ended e)) i"
    using assms by (subst map_of_inject_set [THEN iffD2, of "rev (map (\<lambda>(i, r, at). (i, r)) (ended e))"])
      (simp_all add: rev_map comp_def case_prod_unfold flip: rev_map)
  also have "\<dots> = map_option fst (map_of (ended e) i)"
    using hm_map_values [where f = "\<lambda>_ v. fst v"] by (simp add: case_prod_unfold)
  finally show ?thesis .
qed

text \<open>A claim that \<open>decide_entry\<close> lets hold: nothing live that it knows of blocks it.\<close>

lemma decide_entry_holds:
  assumes "entry_ok e" "gathered_ok g"
    and "decide_entry c d sent now g e = (e', Some (Hold sups))"
    and "state_of g i = Some st" "Live \<le> st" "i \<noteq> cid c"
    and "map_of (ended e') i = None"
  shows "st = Live \<and> cid c < i"
proof -
  let ?e = "absorb_marks (g_watermarks g) now (absorb_ended (cid c) (g_ended g) now e)"
  let ?k = "known (note_observed ?e g)"
  have v: "decide (cid c) ?k (ended_map ?e) = Hold sups" and e': "ended e' = ended ?e"
    using assms(3) by (auto simp: decide_entry_def Let_def split: if_splits verdict.splits)
  have ok: "entry_ok ?e" using assms(1) by simp
  then have "map_of (ended_map ?e) i = None"
    using assms(7) e' by (simp add: get_ended_map entry_ok_def)
  then have live: "live_id (cid c) (ended_map ?e) i" using assms(6) by (simp add: live_id_def)
  obtain st' where st': "state_of (note_observed ?e g) i = Some st'" "st \<le> st'"
    using note_observed_mono [OF assms(4)] by blast
  then obtain c' where "(i, c', st') \<in> set ?k"
    by (auto simp: state_of_def dest: map_of_SomeD)
  then have "\<not> blocks (cid c) (i, c', st')" using v live by (auto simp: decide_Hold_iff)
  then have "st' \<noteq> Held" "st' = Live \<Longrightarrow> \<not> i < cid c" by (auto simp: blocks_def)
  moreover have "st' \<noteq> Expired" using st'(2) assms(5) by auto
  ultimately have "st' = Live" "\<not> i < cid c" by (cases st'; simp)+
  with st'(2) assms(5,6) show ?thesis by (cases st) auto
qed

lemma fst_attempt_decide_own:
  assumes "attempt_decide cd request c sent now wall g m = (m', Inr (DHold row))"
  shows "\<exists>e sups. decide_entry c (ttl request) sent now g (get_entry (rq_lock request) (m_table m)) =
      (e, Some (Hold sups)) \<and> get_entry (rq_lock request) (m_table m') = e"
  using assms by (auto simp: attempt_decide_def Let_def split: prod.splits option.splits verdict.splits)

lemma decide_entry_own:
  assumes "decide_entry c d sent now g e = (e', Some (Hold sups))"
  shows "\<exists>o1. own e' = Some o1 \<and> cid (own_claim o1) = cid c \<and> phase o1 = PHeld \<and>
    deadline o1 = sent + d \<and> supersedes (own_claim o1) = sups"
  using assms by (auto simp: decide_entry_def Let_def split: if_splits verdict.splits option.splits)

lemma handoff_loop_reached:
  "handoff_loop t marks looks = Some (Inr ()) \<Longrightarrow>
     \<exists>head now. (Inr head, now) \<in> set looks \<and> missing_marks head marks = []"
  by (induction t marks looks rule: handoff_loop.induct) (auto split: if_splits)

definition handoff_reached ::
  "watermark list \<Rightarrow> ((engine_error + (origin_id \<Rightarrow> u64 option)) \<times> instant) list \<Rightarrow> bool" where
  "handoff_reached marks looks \<longleftrightarrow> marks = [] \<or>
     (\<exists>head now. (Inr head, now) \<in> set looks \<and>
        (\<forall>w \<in> set marks. w_seq w \<le> (case head (w_origin w) of None \<Rightarrow> 0 | Some s \<Rightarrow> s)))"

lemma await_handoff_reached:
  assumes "await_handoff window start marks looks = Some (Inr ())"
  shows "handoff_reached marks looks"
proof (cases "marks = []")
  case False
  then obtain head now where "(Inr head, now) \<in> set looks" "missing_marks head marks = []"
    using assms handoff_loop_reached by (fastforce simp: await_handoff_def)
  then show ?thesis by (auto simp: handoff_reached_def missing_marks_def filter_empty_conv not_less)
qed (simp add: handoff_reached_def)

lemma m_table_persist_clock_fields:
  "m_origin (fst (persist_clock sok m)) = m_origin m"
  "get_entry l (m_table (fst (persist_clock sok m))) = get_entry l (m_table m)"
  by (simp_all add: persist_clock_def Let_def get_entry_def)

text \<open>An attempt that ends in \<open>Acquired\<close>, taken apart.\<close>

lemma attempt_acquiredE:
  assumes "attempt cd env request m = (m', out, Some (Inr (Inr acq)))"
  obtains m1 c m2 m3 row where
    "attempt_begin request (ae_nonce env) (ae_begin env) (ae_wall env) m = (m1, c)"
    "persist_clock (ae_clock_ok env) m1 = (m2, Inr ())"
    "attempt_decide cd request c (ae_sent env) (ae_decided env) (ae_wall env)
       (fst (collect_answers (ae_answers env))) m2 = (m3, Inr (DHold row))"
    "m_table m' = m_table m3" "a_id acq = cid c" "a_lock acq = rq_lock request"
    "allow_behind request \<or> handoff_reached (a_handoff acq) (ae_looks env)"
    "valid_for acq \<le> ttl request - claim_window m'"
proof -
  obtain targets where t: "ae_targets env = Inr targets"
    using assms by (auto simp: attempt_def split: sum.splits)
  obtain m1 c where b: "attempt_begin request (ae_nonce env) (ae_begin env) (ae_wall env) m = (m1, c)"
    by (cases "attempt_begin request (ae_nonce env) (ae_begin env) (ae_wall env) m") auto
  obtain m2 p where p: "persist_clock (ae_clock_ok env) m1 = (m2, p)"
    by (cases "persist_clock (ae_clock_ok env) m1") auto
  obtain g silent where g: "collect_answers (ae_answers env) = (g, silent)"
    by (cases "collect_answers (ae_answers env)") auto
  obtain m3 d where d: "attempt_decide cd request c (ae_sent env) (ae_decided env) (ae_wall env) g m2 = (m3, d)"
    by (cases "attempt_decide cd request c (ae_sent env) (ae_decided env) (ae_wall env) g m2") auto
  have pr: "p = Inr ()" using assms by (auto simp: attempt_def t b p Let_def split: sum.splits)
  obtain row where row: "d = Inr (DHold row)"
    using assms by (auto simp: attempt_def t b p g d pr Let_def split: sum.splits decided.splits prod.splits)
  obtain m4 q where q: "persist_hold (ae_row_ok env) row m3 = (m4, q)"
    by (cases "persist_hold (ae_row_ok env) row m3") auto
  then have m4: "m_table m4 = m_table m3" by (metis fst_conv m_table_persist_hold)
  have "q = Inr ()" using assms
    by (auto simp: attempt_def t b p g d pr row q Let_def split: sum.splits)
  then have res: "m' = m4" "a_id acq = cid c" "a_lock acq = rq_lock request"
    "allow_behind request \<or>
     await_handoff (handoff_window m4) (ae_decided env) (a_handoff acq) (ae_looks env) = Some (Inr ())"
    "valid_for acq \<le> ttl request - claim_window m'"
    using assms
    by (auto simp: attempt_def t b p g d pr row q Let_def split: sum.splits option.splits if_splits prod.splits)
  show ?thesis using that [OF b, of m2 m3 row] p pr d row g m4 res await_handoff_reached by auto
qed

lemma collect_state:
  assumes "st \<in> reported answers i"
  shows "\<exists>st'. state_of (fst (collect_answers answers)) i = Some st' \<and> st \<le> st' \<and>
    st' \<in> reported answers i"
proof -
  have "strongest (reported answers i) (state_of (fst (collect_answers answers)) i)"
    using fold_gather_strongest [of "{}" gathered_default i answers "[]"]
    by (simp add: collect_answers_def strongest_def)
  with assms show ?thesis by (auto simp: strongest_def split: option.splits)
qed


definition demo_env :: attempt_env where
  "demo_env = \<lparr>ae_targets = Inr [[1]], ae_nonce = 7, ae_begin = 1, ae_wall = 1, ae_clock_ok = True,
     ae_sent = 2,
     ae_answers = [([1], Inr (MAnswer [\<lparr>r_claim = demo_claim 8 1, r_state = Live, remaining_ms = 5\<rparr>] [] []))],
     ae_decided = 3, ae_row_ok = True, ae_looks = [], ae_forget_ok = True, ae_head = Inr None,
     ae_end_targets = Inr [], ae_released = 4, ae_done = 5\<rparr>"

lemmas attempt_eval = attempt_def demo_env_def demo_request_def attempt_begin_def persist_clock_def
  collect_answers_def add_answer_def gathered_default_def note_claim_def attempt_decide_def
  decide_entry_def tickets_def absorb_ended_def absorb_marks_def note_observed_def ended_map_def
  decide_def predecessor_above_def live_id_def hold_row_def persist_hold_def await_handoff_def
  modify_entry_def get_entry_def put_entry_def entry_default_def heard_def hear_def
  own_held_def demo_codec_def Let_def demo_manager_def manager_new_def table_default_def
  less_claim_id_def less_ticket_def less_eq_ticket_def word_le_nat_alt word_less_nat_alt


section \<open>A refusal hides the holder\<close>

lemma serve_full:
  assumes "message_check (MClaim lock c) = Inr ()" "id_origin (cid c) \<noteq> m_origin m"
    and "writer_origins a peer (space lock) = Inr writers" "id_origin (cid c) \<in> set writers"
    and "table_full (hear (id_lamport (cid c)) (m_table m)) lock (cid c)"
  shows "serve_frame a sok now peer (MClaim lock c) m =
    (m\<lparr>m_table := hear (id_lamport (cid c)) (m_table m)\<rparr>, MRefused TableFull)"
  using assms by (simp add: serve_frame_def serve_def record_claim_def record_table_def Let_def)

text \<open>A node that holds the lock and whose table already has as many claims of the claimant's
  origin as it takes.\<close>

definition crowd :: "(claim_id, observed) hmap" where
  "crowd = map (\<lambda>k. (ClaimId (Ticket (of_nat k) (Key [9])) 0,
     \<lparr>obs_claim = demo_claim (of_nat k) 9, obs_held = False, until = 100, expired = False\<rparr>)) [0..<1024]"

definition full_holder :: manager where
  "full_holder = (manager_new (Key [1]) (2 * secs_ns) (10 * secs_ns) store_default)\<lparr>m_table :=
     \<lparr>clock = 2000, saved = 0,
      locks = [(demo_lock, entry_default\<lparr>own := Some
                  \<lparr>own_claim = demo_claim 2000 1, phase = PHeld, mode = Sticky, deadline = 100,
                   client_deadline = None, last_renew = None, renewing = False, acquired_at = 0\<rparr>\<rparr>),
               (LockName (str ''s'') (str ''m''), entry_default\<lparr>observed := crowd\<rparr>)]\<rparr>\<rparr>"

lemma full_holder_full: "table_full (hear l (m_table full_holder)) demo_lock (ClaimId (Ticket l (Key [9])) 7)"
proof -
  have "filter (\<lambda>i. id_origin i = Key [9]) (map fst crowd) = map fst crowd"
    by (rule filter_True_id) (auto simp: crowd_def)
  then have "length (filter (\<lambda>i. id_origin i = Key [9]) (map fst crowd)) = 1024"
    by (simp add: crowd_def)
  then show ?thesis
    by (simp add: table_full_def full_holder_def hear_def claims_of_def entry_default_def
        MAX_CLAIMS_PER_ORIGIN_def del: filter_map)
qed


section \<open>Surviving a restart\<close>

lemma own_restore_row:
  "own_of lock (restore_row cd wall now row m) =
     (if lock_name_new (row_space row) (row_name row) = Inr lock \<and>
         parse_origin cd (row_origin row) = Some (m_origin m) \<and>
         (sticky row \<or> (case lease_until row of None \<Rightarrow> True | Some u \<Rightarrow> wall < u))
      then Some (restored_own cd (m_origin m) wall now row) else own_of lock m)"
  by (auto simp: restore_row_def Let_def split: sum.splits option.splits)

lemma m_origin_restore_row [simp]: "m_origin (restore_row cd wall now row m) = m_origin m"
  by (simp add: restore_row_def Let_def update_table_def split: sum.split)

lemma lock_name_new_Inr: "lock_name_new sp nm = Inr lock \<Longrightarrow> space lock = sp \<and> lname lock = nm"
  by (auto simp: lock_name_new_def Let_def)

lemma fold_restore_other:
  assumes "\<forall>row \<in> set rows. (row_space row, row_name row) \<noteq> (space lock, lname lock)"
  shows "own_of lock (fold (restore_row cd wall now) rows m) = own_of lock m \<and>
    m_origin (fold (restore_row cd wall now) rows m) = m_origin m"
  using assms
proof (induction rows arbitrary: m)
  case (Cons row rows)
  have "lock_name_new (row_space row) (row_name row) \<noteq> Inr lock"
    using Cons.prems by (auto dest: lock_name_new_Inr)
  with Cons show ?case by (simp add: own_restore_row)
qed simp

lemma m_origin_fold_restore [simp]: "m_origin (fold (restore_row cd wall now) rows m) = m_origin m"
  by (induction rows arbitrary: m) auto

lemma own_restore:
  assumes "store_ok (m_store m)" "map_of (hold_rows (m_store m)) (space lock, lname lock) = Some row"
    and "row_space row = space lock" "row_name row = lname lock"
    and "lock_name_check lock = Inr ()" "parse_origin cd (row_origin row) = Some (m_origin m)"
    and "sticky row \<or> (case lease_until row of None \<Rightarrow> True | Some u \<Rightarrow> wall < u)"
  shows "own_of lock (restore cd wall now m) = Some (restored_own cd (m_origin m) wall now row)"
proof -
  have inv: "bt_invar (hold_rows (m_store m))" and
    keys: "\<forall>(k, r) \<in> set (hold_rows (m_store m)). k = (row_space r, row_name r)"
    using assms(1) by (simp_all add: store_ok_def)
  from assms(2) obtain xs ys where xy: "hold_rows (m_store m) = xs @ ((space lock, lname lock), row) # ys"
    by (metis map_of_SomeD split_list)
  have "distinct (map fst (hold_rows (m_store m)))" using inv by (rule bt.invar_distinct)
  then have ne: "(space lock, lname lock) \<notin> fst ` set xs" "(space lock, lname lock) \<notin> fst ` set ys"
    by (simp_all add: xy)
  have apart: "\<forall>r \<in> set (map snd zs). (row_space r, row_name r) \<noteq> (space lock, lname lock)"
    if "set zs \<subseteq> set (hold_rows (m_store m))" "(space lock, lname lock) \<notin> fst ` set zs" for zs
  proof (intro ballI notI)
    fix r assume "r \<in> set (map snd zs)" and eq: "(row_space r, row_name r) = (space lock, lname lock)"
    then obtain k where k: "(k, r) \<in> set zs" by auto
    then have "k = (row_space r, row_name r)" using that(1) keys by blast
    with k eq have "((space lock, lname lock), r) \<in> set zs" by simp
    with that(2) show False by (metis fst_conv image_eqI)
  qed
  have "set xs \<subseteq> set (hold_rows (m_store m))" "set ys \<subseteq> set (hold_rows (m_store m))"
    by (auto simp: xy)
  note other = apart [OF this(1) ne(1)] apart [OF this(2) ne(2)]
  have new: "lock_name_new (row_space row) (row_name row) = Inr lock"
    using assms(3-5) by (cases lock) (simp add: lock_name_new_def Let_def)
  let ?m = "update_table (\<lambda>t. (hear (lock_clock (m_store m)) t)\<lparr>saved := max (saved t)
      (lock_clock (m_store m))\<rparr>) m"
  let ?m1 = "fold (restore_row cd wall now) (map snd xs) ?m"
  have "restore cd wall now m = fold (restore_row cd wall now) (map snd ys)
      (restore_row cd wall now row ?m1)"
    by (simp add: restore_def Let_def lock_holds_def xy)
  then have "own_of lock (restore cd wall now m) = own_of lock (restore_row cd wall now row ?m1)"
    using fold_restore_other [OF other(2)] by simp
  moreover have "m_origin ?m1 = m_origin m" by (simp add: update_table_def)
  ultimately show ?thesis using assms(6,7) new by (simp only: own_restore_row) simp
qed

lemma i64_sat_id: "- (2 ^ 63) \<le> x \<Longrightarrow> x < 2 ^ 63 \<Longrightarrow> i64_sat x = x"
  by (simp add: i64_sat_def)

text \<open>A lease or sticky hold written to the store comes back after a restart as the same claim
  with the same token, mode, payload and superseded ids, unconfirmed until its next renewal, and
  a lease-mode client is given exactly the wall-clock time it had left, provided its deadline has
  not passed meanwhile.\<close>
theorem hold_survives_restart:
  assumes "hold_row cd org lock o1 wall now = Inr (Some row)"
    and "store_ok st" "lock_name_check lock = Inr ()" "id_origin (cid (own_claim o1)) = org"
    and "parse_origin cd (canonical cd org) = Some org"
    and "\<And>bs. encode_ids cd (supersedes (own_claim o1)) = Some bs \<Longrightarrow>
      decode_ids cd bs = Some (supersedes (own_claim o1))"
    and "client_deadline o1 = Some d \<Longrightarrow>
      0 \<le> wall \<and> 0 \<le> wall' \<and> wall' < wall + int (d - now) \<and> wall + int (d - now) < 2 ^ 63"
    and "client_deadline o1 = None \<or> client_deadline o1 = Some d"
  shows "\<exists>o2. own_of lock (restore cd wall' now' (manager_new org cw hw (put_lock_hold row st))) = Some o2 \<and>
    own_claim o2 = own_claim o1 \<and> mode o2 = mode o1 \<and> phase o2 = Unconfirmed \<and>
    client_deadline o2 = (if client_deadline o1 = None then None
      else Some (now' + nat (wall + int (d - now) - wall')))"
proof -
  let ?m = "manager_new org cw hw (put_lock_hold row st)"
  have m: "m_store ?m = put_lock_hold row st" "m_origin ?m = org" by (simp_all add: manager_new_def)
  obtain bs where bs: "encode_ids cd (supersedes (own_claim o1)) = Some bs" and mode: "mode o1 \<noteq> Session"
    and row: "row_space row = space lock" "row_name row = lname lock" "row_origin row = canonical cd org"
      "row_lamport row = id_lamport (cid (own_claim o1))" "row_nonce row = nonce (cid (own_claim o1))"
      "row_ttl_ms row = ttl_ms (own_claim o1)" "sticky row = (mode o1 = Sticky)"
      "row_owner row = owner (own_claim o1)" "row_payload row = payload (own_claim o1)"
      "row_supersedes row = bs"
      "lease_until row = map_option (\<lambda>d. i64_sat (wall + min (int (d - now)) (2 ^ 63 - 1))) (client_deadline o1)"
    using assms(1) by (auto simp: hold_row_def split: if_splits)
  have lease: "lease_until row = (if client_deadline o1 = None then None else Some (wall + int (d - now)))"
  proof (cases "client_deadline o1")
    case None
    with row(11) show ?thesis by simp
  next
    case (Some d')
    then have "d' = d" using assms(8) by simp
    with Some assms(7) have "min (int (d - now)) (2 ^ 63 - 1) = int (d - now)" by (intro min_absorb1) auto
    with Some \<open>d' = d\<close> assms(7) row(11) show ?thesis by (simp add: i64_sat_id)
  qed
  have live: "sticky row \<or> (case lease_until row of None \<Rightarrow> True | Some u \<Rightarrow> wall' < u)"
    using assms(7,8) lease by (auto split: if_splits)
  have "own_of lock (restore cd wall' now' ?m) = Some (restored_own cd (m_origin ?m) wall' now' row)"
  proof (rule own_restore)
    show "store_ok (m_store ?m)" using assms(2) by (simp add: m store_ok_put)
    show "map_of (hold_rows (m_store ?m)) (space lock, lname lock) = Some row"
      by (simp add: m get_put_lock_hold row(1,2))
    show "parse_origin cd (row_origin row) = Some (m_origin ?m)" using assms(5) row(3) m(2) by simp
  qed (fact row(1) row(2) assms(3) live)+
  moreover have "own_claim (restored_own cd org wall' now' row) = own_claim o1"
  proof -
    have "ClaimId (Ticket (row_lamport row) org) (row_nonce row) = cid (own_claim o1)"
      using assms(4) row(4,5) by (intro claim_id.expand) (auto intro: ticket.expand)
    then show ?thesis using assms(6) [OF bs] row by (simp add: restored_own_def)
  qed
  moreover have "mode (restored_own cd org wall' now' row) = mode o1"
    using mode row(7) by (cases "mode o1") (auto simp: restored_own_def)
  moreover have "client_deadline (restored_own cd org wall' now' row) =
      (if client_deadline o1 = None then None else Some (now' + nat (wall + int (d - now) - wall')))"
  proof (cases "client_deadline o1")
    case (Some d')
    then have "i64_sat (wall + int (d - now) - wall') = wall + int (d - now) - wall'"
      using assms(7,8) by (intro i64_sat_id) auto
    with Some assms(7,8) lease show ?thesis by (simp add: restored_own_def)
  qed (simp add: restored_own_def lease)
  ultimately show ?thesis using m(2) by (auto simp: restored_own_def)
qed

definition demo_lease :: own where
  "demo_lease = \<lparr>own_claim = demo_claim 4 9, phase = PHeld, mode = Lease, deadline = 40,
     client_deadline = Some 40, last_renew = None, renewing = False, acquired_at = 0\<rparr>"

theorem hold_survives_restart_witness:
  "\<exists>row o2. hold_row demo_codec (Key [9]) demo_lock demo_lease 100 10 = Inr (Some row) \<and>
     own_of demo_lock (restore demo_codec 110 5
       (manager_new (Key [9]) 0 0 (put_lock_hold row store_default))) = Some o2 \<and>
     own_claim o2 = demo_claim 4 9 \<and> client_deadline o2 = Some 25"
proof -
  obtain row where row: "hold_row demo_codec (Key [9]) demo_lock demo_lease 100 10 = Inr (Some row)"
    by (auto simp: hold_row_def demo_lease_def demo_codec_def)
  have "\<exists>o2. own_of demo_lock (restore demo_codec 110 5
      (manager_new (Key [9]) 0 0 (put_lock_hold row store_default))) = Some o2 \<and>
    own_claim o2 = own_claim demo_lease \<and> mode o2 = mode demo_lease \<and> phase o2 = Unconfirmed \<and>
    client_deadline o2 = (if client_deadline demo_lease = None then None
      else Some (5 + nat (100 + int (40 - 10) - 110)))"
    by (rule hold_survives_restart [OF row]) (auto simp: demo_lease_def demo_codec_def)
  with row show ?thesis by (auto simp: demo_lease_def)
qed

section \<open>A released token is dead\<close>

lemma release_done:
  assumes "release sok head targets lock tok now m = (m', out, Inr i)"
  obtains mark peers where
    "own_id lock (m_table m) = Some i" "tok = None \<or> tok = Some i"
    "m_table m' = m_table (release_commit lock i mark now m)"
    "m_store m' = remove_lock_hold (space lock) (lname lock) (id_lamport i) (nonce i) (m_store m)"
    "targets = Inr peers" "out = [(peers, MEnd lock i Released mark)]"
proof -
  have st: "m_store (release_commit lock i mark now m) = m_store m" for i mark
    by (simp add: release_commit_def Let_def update_table_def take_own_def split: option.split)
  show ?thesis
    using assms that
    by (auto simp: release_def release_find_def forget_hold_def Let_def st
        split: sum.splits option.splits if_splits)
qed

text \<open>Releasing ends the hold for good: afterwards the lock is not this node's, its claim is
  recorded as released, the stored row of that claim is gone, every target is told the end, and a
  commit fenced with the old token is refused as lost.\<close>
theorem release_ends_token:
  assumes "release sok head targets lock tok now m = (m', out, Inr i)" "store_ok (m_store m)"
  shows "own_id lock (m_table m') = None \<and>
    ended_at (m_table m') lock i = Some (Released, now) \<and>
    (\<forall>row. map_of (hold_rows (m_store m')) (space lock, lname lock) = Some row \<longrightarrow>
       (row_lamport row, row_nonce row) \<noteq> (id_lamport i, nonce i)) \<and>
    (\<exists>peers mark. targets = Inr peers \<and> out = [(peers, MEnd lock i Released mark)]) \<and>
    fence lock i later m' = (m', Inl (Lock FLost))"
proof -
  obtain mark peers where r: "own_id lock (m_table m) = Some i"
    "m_table m' = m_table (release_commit lock i mark now m)"
    "m_store m' = remove_lock_hold (space lock) (lname lock) (id_lamport i) (nonce i) (m_store m)"
    "targets = Inr peers" "out = [(peers, MEnd lock i Released mark)]"
    using release_done [OF assms(1)] by metis
  have own: "own_of lock m' = None"
    using r(1,2) by (auto simp: own_of_release_commit own_id_get_entry)
  moreover have "ended_at (m_table m') lock i = Some (Released, now)"
    by (simp add: r(2) release_commit_def Let_def split: option.split)
  moreover have "fence lock i later m' = (m', Inl (Lock FLost))"
    using own by (simp add: fence_def fence_current_def)
  ultimately show ?thesis
    using r(3-5) assms(2) by (auto simp: own_id_get_entry get_remove_lock_hold split: option.splits if_splits)
qed

theorem release_ends_token_witness:
  "\<exists>m'. release True (Inr (Some 3)) (Inr [[1]]) demo_lock None 8 full_holder =
      (m', [([[1]], MEnd demo_lock (cid (demo_claim 2000 1)) Released
             (Some \<lparr>w_origin = Key [1], w_seq = 3\<rparr>))], Inr (cid (demo_claim 2000 1))) \<and>
     fence demo_lock (cid (demo_claim 2000 1)) 9 m' = (m', Inl (Lock FLost))"
proof -
  have "\<exists>m'. release True (Inr (Some 3)) (Inr [[1]]) demo_lock None 8 full_holder =
      (m', [([[1]], MEnd demo_lock (cid (demo_claim 2000 1)) Released
             (Some \<lparr>w_origin = Key [1], w_seq = 3\<rparr>))], Inr (cid (demo_claim 2000 1)))"
    by (simp add: release_def release_find_def full_holder_def own_id_def manager_new_def Let_def
        forget_hold_def)
  moreover have "store_ok (m_store full_holder)" by (simp add: full_holder_def manager_new_def)
  ultimately show ?thesis using release_ends_token by blast
qed

end
