(* ===== verification/Lock_Cluster.thy ===== *)
theory Lock_Cluster
  imports Lock_Acquire
begin

text \<open>
  The protocol across nodes. A cluster is a lock manager per origin, the attempts under way with
  the answers they have so far, and the set of claims whose owners have announced their end. Its
  steps run the operations of the managers, for one lock \<open>L\<close> and with everything that happens to
  other locks; deliveries may be late, repeated or lost, and no step looks at a clock.

  The steps cover what the bounded-latency assumption of the protocol allows: an attempt decides
  only when every other node answered its claim with an answer (not with a refusal, and not by
  staying silent), nobody breaks another node's claim, nodes do not restart, and the ticket
  counter is not exhausted. Under these the invariant gives mutual exclusion and increasing
  fencing tokens.
\<close>

section \<open>Operations that leave a lock's claims alone\<close>

definition quiet :: "lock_name \<Rightarrow> manager \<Rightarrow> manager \<Rightarrow> bool" where
  "quiet L m m' \<longleftrightarrow>
     m_origin m' = m_origin m \<and> clock (m_table m) \<le> clock (m_table m') \<and>
     (table_ok (m_table m) \<longrightarrow> table_ok (m_table m')) \<and>
     same_hold_opt (own_of L m') (own_of L m) \<and>
     fst ` set (ended (get_entry L (m_table m'))) \<subseteq> fst ` set (ended (get_entry L (m_table m)))"

inductive local_op :: "codec \<Rightarrow> lock_name \<Rightarrow> manager \<Rightarrow> manager \<Rightarrow> bool" for cd L where
  renew: "local_op cd L m (fst (renew cd sok lock tok d p now wall m))"
| renewal: "local_op cd L m (m\<lparr>m_table := fst (renew_settle lock c sent now g (m_table m))\<rparr>)"
| tick: "table_ok (m_table m) \<Longrightarrow> local_op cd L m (update_table (tick_table now) m)"
| persist_clock: "local_op cd L m (fst (persist_clock sok m))"
| persist_hold: "local_op cd L m (fst (persist_hold sok row m))"
| forget_hold: "local_op cd L m (fst (forget_hold sok lock i m))"
| fence: "local_op cd L m (fst (fence lock tok now m))"
| unfence: "local_op cd L m (unfence lock m)"
| begin_other: "rq_lock request \<noteq> L \<Longrightarrow> clock (m_table m) \<le> clock (m_table m') \<Longrightarrow>
    attempt_begin request non now wall m = (m', c) \<Longrightarrow> local_op cd L m m'"
| abort_other: "lock \<noteq> L \<Longrightarrow> local_op cd L m (attempt_abort lock c m)"
| decide_other: "rq_lock request \<noteq> L \<Longrightarrow>
    local_op cd L m (fst (attempt_decide cd request c sent now wall g m))"
| release_other: "lock \<noteq> L \<Longrightarrow> local_op cd L m (release_commit lock i mark now m)"
| lose_other: "lock \<noteq> L \<Longrightarrow> local_op cd L m (fst (lose sok targets lock i why now m))"
| break_other: "lock \<noteq> L \<Longrightarrow> local_op cd L m (update_table (modify_entry lock
    (fold (\<lambda>i. entry_end i Broken now) vs)) m)"

lemma clock_fold_hear: "clock t \<le> clock (fold hear ls t)"
proof (induction ls arbitrary: t)
  case (Cons l ls)
  have "clock t \<le> clock (hear l t)" by simp
  from order_trans [OF this Cons.IH] show ?case by simp
qed simp

lemma clock_renew_settle: "clock t \<le> clock (fst (renew_settle lock c sent now g t))"
  by (simp add: renew_settle_def Let_def clock_fold_hear split: option.split)

lemma ended_renew_settle:
  "ended (get_entry L (fst (renew_settle lock c sent now g t))) = ended (get_entry L t)"
proof (cases "map_of (locks t) lock")
  case None
  then show ?thesis by (simp add: renew_settle_def Let_def)
next
  case (Some e)
  then have "get_entry lock t = e" by (simp add: get_entry_def)
  with Some show ?thesis by (auto simp: renew_settle_def Let_def split: option.splits)
qed

lemma ended_expire_subset: "fst ` set (ended (tick_entry now e)) \<subseteq> fst ` set (ended e)"
proof -
  have "ended (tick_entry now e) = filter (\<lambda>(i, reason, at). now - at < ENDED_MEMORY) (ended e)"
    by (simp add: tick_entry_def expire_entry_def Let_def split: option.split)
  then show ?thesis by (simp add: image_mono)
qed

lemma ended_trim_subset: "fst ` set (ended (get_entry L (trim_ended t))) \<subseteq> fst ` set (ended (get_entry L t))"
proof -
  have "dom (map_of (ended (get_entry L (trim_ended t)))) \<subseteq> dom (map_of (ended (get_entry L t)))"
    by (auto simp: trim_ended_alt Let_def fold_drop_ended split: if_splits)
  then show ?thesis by (simp add: dom_map_of_conv_image_fst)
qed

lemma ended_tick_subset:
  assumes "table_ok t"
  shows "fst ` set (ended (get_entry L (tick_table now t))) \<subseteq> fst ` set (ended (get_entry L t))"
proof -
  let ?t = "t\<lparr>locks := filter (\<lambda>(l, e). \<not> entry_is_empty e)
      (map (\<lambda>(l, e). (l, tick_entry now e)) (locks t))\<rparr>"
  have "fst ` set (ended (get_entry L ?t)) \<subseteq> fst ` set (ended (get_entry L t))"
  proof (cases "map_of (locks t) L")
    case None
    then have "get_entry L ?t = entry_default" using assms by (simp add: get_entry_retain table_ok_def)
    then show ?thesis by (simp add: entry_default_def)
  next
    case (Some e)
    then have "get_entry L ?t = tick_entry now e" "get_entry L t = e"
      using assms by (simp_all add: get_entry_retain table_ok_def) (simp add: get_entry_def)
    then show ?thesis using ended_expire_subset by simp
  qed
  with ended_trim_subset [of L ?t] show ?thesis unfolding tick_table_def by blast
qed

lemma m_fields:
  "m_origin (fst (persist_clock sok m)) = m_origin m"
  "m_origin (fst (persist_hold sok row m)) = m_origin m"
  "m_origin (fst (forget_hold sok lock i m)) = m_origin m"
  "m_origin (fst (fence lock tok now m)) = m_origin m" "m_origin (unfence lock m) = m_origin m"
  "m_origin (update_table f m) = m_origin m" "m_origin (take_own lock i why m) = m_origin m"
  "m_origin (attempt_abort lock c m) = m_origin m"
  by (simp_all add: persist_clock_def persist_hold_def forget_hold_def fence_def unfence_def
      update_table_def take_own_def attempt_abort_def Let_def split: option.split)

lemma m_origin_begin: "attempt_begin request non now wall m = (m', c) \<Longrightarrow> m_origin m' = m_origin m"
  by (auto simp: attempt_begin_def Let_def)

lemma m_origin_attempt [simp]:
  "m_origin (fst (attempt_decide cd request c sent now wall g m)) = m_origin m"
  "m_origin (release_commit lock i mark now m) = m_origin m"
  "m_origin (fst (lose sok targets lock i why now m)) = m_origin m"
  by (auto simp: attempt_decide_def release_commit_def lose_def Let_def m_fields
      split: prod.split option.split verdict.split)

lemma get_entry_clock: "get_entry l (t\<lparr>clock := x\<rparr>) = get_entry l t"
  by (simp add: get_entry_def)

lemma get_entry_attempt_begin:
  assumes "attempt_begin request non now wall m = (m', c)" "rq_lock request \<noteq> L"
  shows "get_entry L (m_table m') = get_entry L (m_table m)"
  using assms by (auto simp: attempt_begin_def Let_def get_entry_clock)

lemma get_entry_abort: "lock \<noteq> L \<Longrightarrow> get_entry L (m_table (attempt_abort lock c m)) = get_entry L (m_table m)"
  by (simp add: attempt_abort_def split: option.split)

lemma get_entry_take_own_other: "lock \<noteq> L \<Longrightarrow> get_entry L (m_table (take_own lock i why m)) = get_entry L (m_table m)"
  by (simp add: take_own_def Let_def split: option.split)

lemma get_entry_release_other:
  "lock \<noteq> L \<Longrightarrow> get_entry L (m_table (release_commit lock i mark now m)) = get_entry L (m_table m)"
  by (simp add: release_commit_def Let_def get_entry_take_own_other)

lemma get_entry_lose_other:
  "lock \<noteq> L \<Longrightarrow> get_entry L (m_table (fst (lose sok targets lock i why now m))) = get_entry L (m_table m)"
  by (simp add: lose_def Let_def get_entry_take_own_other)

lemma clock_release [simp]:
  "clock (m_table (release_commit lock i mark now m)) = clock (m_table m)"
  "clock (m_table (fst (lose sok targets lock i why now m))) = clock (m_table m)"
  "clock (m_table (attempt_abort lock c m)) = clock (m_table m)"
  by (simp_all add: release_commit_def lose_def attempt_abort_def Let_def split: option.split)

lemma clock_persist [simp]: "clock (m_table (fst (persist_clock sok m))) = clock (m_table m)"
  by (simp add: persist_clock_def Let_def)

lemma clock_attempt_decide: "clock (m_table m) \<le> clock (m_table (fst (attempt_decide cd request c sent now wall g m)))"
  by (simp add: m_table_attempt_decide clock_fold_hear)

lemma quietI:
  assumes "m_origin m' = m_origin m" "clock (m_table m) \<le> clock (m_table m')"
    and "table_ok (m_table m) \<Longrightarrow> table_ok (m_table m')" "get_entry L (m_table m') = get_entry L (m_table m)"
  shows "quiet L m m'"
  using assms by (simp add: quiet_def)

lemma local_op_quiet: "local_op cd L m m' \<Longrightarrow> quiet L m m'"
proof (induction rule: local_op.induct)
  case (renew m sok lock tok d p now wall)
  have "m_origin (fst (renew cd sok lock tok d p now wall m)) = m_origin m \<and>
      clock (m_table (fst (renew cd sok lock tok d p now wall m))) = clock (m_table m) \<and>
      ended (get_entry L (m_table (fst (renew cd sok lock tok d p now wall m)))) =
        ended (get_entry L (m_table m))"
    by (rule renew_cases [of cd sok lock tok d p now wall m]) auto
  then show ?case using own_of_renew [of L cd sok lock tok d p now wall m]
    by (simp add: quiet_def table_ok_renew)
next
  case (renewal m lock c sent now g)
  show ?case using own_renew_settle [of L lock c sent now g "m_table m"]
    by (simp add: quiet_def table_ok_renew_settle clock_renew_settle ended_renew_settle)
next
  case (tick m now)
  have "clock (tick_table now (m_table m)) = clock (m_table m)" by (simp add: tick_table_def)
  with tick show ?case using ended_tick_subset [of "m_table m" L now]
    by (simp add: quiet_def m_fields table_ok_tick own_tick_table same_hold_tick)
next
  case (begin_other request m m' non now wall c)
  show ?case
    by (rule quietI) (use begin_other in \<open>auto intro: m_origin_begin own_attempt_begin(3) get_entry_attempt_begin\<close>)
next
  case (decide_other request m c sent now wall g)
  then have "get_entry L (m_table (fst (attempt_decide cd request c sent now wall g m))) =
      get_entry L (m_table m)"
    by (simp add: m_table_attempt_decide)
  then show ?case by (intro quietI) (simp_all add: table_ok_attempt_decide clock_attempt_decide)
next
  case (break_other lock m now vs)
  then show ?case
    by (intro quietI) (auto simp: m_fields entry_ok_fold_end intro!: table_ok_modify)
qed (rule quietI; simp add: m_fields m_table_persist_clock m_table_persist_clock_fields get_entry_abort
    table_ok_abort get_entry_release_other table_ok_release_commit get_entry_lose_other table_ok_lose)+

lemma serve_effect:
  fixes a sok now peer request m
  defines "m' \<equiv> fst (serve_frame a sok now peer request m)"
  shows "m_origin m' = m_origin m" "clock (m_table m) \<le> clock (m_table m')"
    and "fst ` set (ended (get_entry L (m_table m'))) \<subseteq>
      fst ` set (ended (get_entry L (m_table m))) \<union> {i. \<exists>r w. request = MEnd L i r w}"
proof -
  have claim: "m_origin (fst (record_claim a peer lock c renewal now m)) = m_origin m"
    "clock (m_table m) \<le> clock (m_table (fst (record_claim a peer lock c renewal now m)))"
    "ended (get_entry L (m_table (fst (record_claim a peer lock c renewal now m)))) =
       ended (get_entry L (m_table m))" for lock c renewal
    by (simp add: record_claim_def split: sum.split prod.split)
      (simp_all add: m_table_record_claim get_entry_record_table, simp add: record_table_def Let_def)
  have ends: "m_origin (fst (record_end a sok peer lock i r w now m)) = m_origin m"
    "clock (m_table (fst (record_end a sok peer lock i r w now m))) = clock (m_table m)"
    "fst ` set (ended (get_entry L (m_table (fst (record_end a sok peer lock i r w now m))))) \<subseteq>
       fst ` set (ended (get_entry L (m_table m))) \<union> (if lock = L then {i} else {})" for lock i r w
    by (auto simp: record_end_def record_end_own_def record_end_other_def Let_def m_fields entry_end_def
        keys_hm_insert split: sum.split option.split)
  show "m_origin m' = m_origin m" "clock (m_table m) \<le> clock (m_table m')"
    by (cases request; simp add: m'_def fst_serve_frame claim ends split: sum.split)+
  show "fst ` set (ended (get_entry L (m_table m'))) \<subseteq>
      fst ` set (ended (get_entry L (m_table m))) \<union> {i. \<exists>r w. request = MEnd L i r w}"
  proof (cases request)
    case (MEnd lock i r w)
    then show ?thesis using ends(3) [of lock i r w] by (auto simp: m'_def fst_serve_frame split: if_splits)
  qed (simp_all add: m'_def fst_serve_frame claim split: sum.split)
qed

section \<open>The cluster\<close>

record exchange =
  try_claim :: claim
  try_answers :: "(origin_id \<times> lock_message) list"

record cluster =
  mgrs :: "origin_id \<Rightarrow> manager"
  tries :: "origin_id \<Rightarrow> exchange option"
  announced :: "claim_id set"
  log :: "claim_id list"

abbreviation own_at :: "lock_name \<Rightarrow> cluster \<Rightarrow> origin_id \<Rightarrow> own option" where
  "own_at L s a \<equiv> own_of L (mgrs s a)"

abbreviation clock_at :: "cluster \<Rightarrow> origin_id \<Rightarrow> u64" where
  "clock_at s a \<equiv> clock (m_table (mgrs s a))"

definition gather_try :: "(origin_id \<Rightarrow> node_id) \<Rightarrow> exchange \<Rightarrow> gathered" where
  "gather_try key tr = fst (collect_answers (map (\<lambda>(b, msg). (key b, Inr msg)) (try_answers tr)))"

inductive cluster_step ::
  "origin_id set \<Rightarrow> lock_name \<Rightarrow> authority \<Rightarrow> codec \<Rightarrow> (origin_id \<Rightarrow> node_id) \<Rightarrow> cluster \<Rightarrow> cluster \<Rightarrow> bool"
  for N L auth cd key where
  serve: "b \<in> N \<Longrightarrow> (\<And>i r w. request = MEnd L i r w \<Longrightarrow> i \<in> announced s) \<Longrightarrow>
    cluster_step N L auth cd key s
      (s\<lparr>mgrs := (mgrs s)(b := fst (serve_frame auth sok now peer request (mgrs s b)))\<rparr>)"
| begins: "a \<in> N \<Longrightarrow> tries s a = None \<Longrightarrow> own_at L s a = None \<Longrightarrow> rq_lock request = L \<Longrightarrow>
    max (clock_at s a) (heard L (m_table (mgrs s a))) \<noteq> - 1 \<Longrightarrow>
    attempt_begin request non now wall (mgrs s a) = (m, c) \<Longrightarrow>
    cluster_step N L auth cd key s
      (s\<lparr>mgrs := (mgrs s)(a := m), tries := (tries s)(a := Some \<lparr>try_claim = c, try_answers = []\<rparr>)\<rparr>)"
| ask: "a \<in> N \<Longrightarrow> b \<in> N \<Longrightarrow> a \<noteq> b \<Longrightarrow> tries s a = Some tr \<Longrightarrow>
    serve_frame auth sok now (key a) (MClaim L (try_claim tr)) (mgrs s b) = (m, MAnswer rs es ws) \<Longrightarrow>
    cluster_step N L auth cd key s
      (s\<lparr>mgrs := (mgrs s)(b := m),
         tries := (tries s)(a := Some (tr\<lparr>try_answers := (b, MAnswer rs es ws) # try_answers tr\<rparr>))\<rparr>)"
| decide: "a \<in> N \<Longrightarrow> tries s a = Some tr \<Longrightarrow> (\<And>b. b \<in> N \<Longrightarrow> b \<noteq> a \<Longrightarrow> b \<in> fst ` set (try_answers tr)) \<Longrightarrow>
    rq_lock request = L \<Longrightarrow>
    attempt_decide cd request (try_claim tr) sent now wall (gather_try key tr) (mgrs s a) = (m, d) \<Longrightarrow>
    cluster_step N L auth cd key s
      (s\<lparr>mgrs := (mgrs s)(a := m), tries := (tries s)(a := None),
         announced := announced s \<union>
           (case d of Inr (DWithdraw _) \<Rightarrow> {cid (try_claim tr)} | _ \<Rightarrow> {}),
         log := (if own_of L m \<noteq> None then cid (try_claim tr) # log s else log s)\<rparr>)"
| abort: "a \<in> N \<Longrightarrow> tries s a = Some tr \<Longrightarrow>
    cluster_step N L auth cd key s
      (s\<lparr>mgrs := (mgrs s)(a := attempt_abort L (try_claim tr) (mgrs s a)), tries := (tries s)(a := None)\<rparr>)"
| release: "a \<in> N \<Longrightarrow> own_id L (m_table (mgrs s a)) = Some i \<Longrightarrow>
    cluster_step N L auth cd key s
      (s\<lparr>mgrs := (mgrs s)(a := release_commit L i mark now (mgrs s a)), announced := insert i (announced s)\<rparr>)"
| lose: "a \<in> N \<Longrightarrow> own_id L (m_table (mgrs s a)) = Some i \<Longrightarrow>
    cluster_step N L auth cd key s
      (s\<lparr>mgrs := (mgrs s)(a := fst (lose sok targets L i why now (mgrs s a))),
         announced := insert i (announced s)\<rparr>)"
| local: "a \<in> N \<Longrightarrow> local_op cd L (mgrs s a) m \<Longrightarrow>
    cluster_step N L auth cd key s (s\<lparr>mgrs := (mgrs s)(a := m)\<rparr>)"

inductive cluster_run ::
  "origin_id set \<Rightarrow> lock_name \<Rightarrow> authority \<Rightarrow> codec \<Rightarrow> (origin_id \<Rightarrow> node_id) \<Rightarrow> cluster \<Rightarrow> cluster \<Rightarrow> bool"
  for N L auth cd key where
  start: "cluster_run N L auth cd key s s"
| more: "cluster_run N L auth cd key s s' \<Longrightarrow> cluster_step N L auth cd key s' s'' \<Longrightarrow>
    cluster_run N L auth cd key s s''"

text \<open>A cluster at rest: empty tables, no attempts, nothing announced.\<close>

definition cluster_init :: "duration \<Rightarrow> duration \<Rightarrow> cluster" where
  "cluster_init cw hw =
     \<lparr>mgrs = (\<lambda>a. manager_new a cw hw store_default), tries = (\<lambda>_. None), announced = {}, log = []\<rparr>"

section \<open>The invariant\<close>

definition says :: "lock_message \<Rightarrow> claim_id \<Rightarrow> claim_state \<Rightarrow> bool" where
  "says msg i st \<longleftrightarrow>
     (\<exists>rs es ws. msg = MAnswer rs es ws \<and> (\<exists>r \<in> set rs. cid (r_claim r) = i \<and> r_state r = st))"

definition says_live :: "lock_message \<Rightarrow> claim_id \<Rightarrow> bool" where
  "says_live msg i \<longleftrightarrow> says msg i Live \<or> says msg i Held"

definition says_ended :: "lock_message \<Rightarrow> claim_id \<Rightarrow> bool" where
  "says_ended msg i \<longleftrightarrow> (\<exists>rs es ws. msg = MAnswer rs es ws \<and> i \<in> fst ` set es)"

definition dead :: "origin_id set \<Rightarrow> lock_name \<Rightarrow> cluster \<Rightarrow> claim_id \<Rightarrow> bool" where
  "dead N L s i \<longleftrightarrow> (id_origin i \<in> N \<longrightarrow>
     id_lamport i \<le> clock_at s (id_origin i) \<and>
     (\<forall>o1. own_at L s (id_origin i) = Some o1 \<longrightarrow> cid (own_claim o1) \<noteq> i))"

definition end_known :: "origin_id set \<Rightarrow> lock_name \<Rightarrow> cluster \<Rightarrow> claim_id \<Rightarrow> bool" where
  "end_known N L s i \<longleftrightarrow>
     i \<in> announced s \<or>
     (\<exists>a \<in> N. i \<in> fst ` set (ended (get_entry L (m_table (mgrs s a))))) \<or>
     (\<exists>a \<in> N. \<exists>tr b msg. tries s a = Some tr \<and> (b, msg) \<in> set (try_answers tr) \<and> says_ended msg i)"

definition inv_nodes :: "origin_id set \<Rightarrow> lock_name \<Rightarrow> cluster \<Rightarrow> bool" where
  "inv_nodes N L s \<longleftrightarrow> (\<forall>a \<in> N. m_origin (mgrs s a) = a \<and> table_ok (m_table (mgrs s a)) \<and>
     (\<forall>o1. own_at L s a = Some o1 \<longrightarrow> id_origin (cid (own_claim o1)) = a \<and>
        id_lamport (cid (own_claim o1)) \<le> clock_at s a \<and>
        (case tries s a of None \<Rightarrow> own_held o1
         | Some tr \<Rightarrow> cid (own_claim o1) = cid (try_claim tr) \<and> \<not> own_held o1)) \<and>
     (\<forall>tr. tries s a = Some tr \<longrightarrow> id_origin (cid (try_claim tr)) = a \<and>
        id_lamport (cid (try_claim tr)) \<le> clock_at s a \<and>
        (\<forall>b msg. (b, msg) \<in> set (try_answers tr) \<longrightarrow>
           b \<in> N \<and> b \<noteq> a \<and> id_lamport (cid (try_claim tr)) \<le> clock_at s b)))"

definition inv_dead :: "origin_id set \<Rightarrow> lock_name \<Rightarrow> cluster \<Rightarrow> bool" where
  "inv_dead N L s \<longleftrightarrow> (\<forall>i. end_known N L s i \<longrightarrow> dead N L s i)"

text \<open>What an exchange under way knows of another node's claim: one that contends was reported, or
  came later; one that holds was reported held, or was reported and goes first.\<close>

definition inv_pair :: "origin_id set \<Rightarrow> lock_name \<Rightarrow> cluster \<Rightarrow> bool" where
  "inv_pair N L s \<longleftrightarrow> (\<forall>a \<in> N. \<forall>tr b msg o1.
     tries s a = Some tr \<longrightarrow> (b, msg) \<in> set (try_answers tr) \<longrightarrow> own_at L s b = Some o1 \<longrightarrow>
     (\<not> own_held o1 \<longrightarrow> says_live msg (cid (own_claim o1)) \<or>
        id_lamport (cid (try_claim tr)) < id_lamport (cid (own_claim o1))) \<and>
     (own_held o1 \<longrightarrow> own_at L s a \<noteq> None \<longrightarrow> says msg (cid (own_claim o1)) Held \<or>
        says_live msg (cid (own_claim o1)) \<and> cid (own_claim o1) < cid (try_claim tr)))"

definition inv_excl :: "origin_id set \<Rightarrow> lock_name \<Rightarrow> cluster \<Rightarrow> bool" where
  "inv_excl N L s \<longleftrightarrow> (\<forall>a \<in> N. \<forall>b \<in> N. \<forall>o1 o2.
     own_at L s a = Some o1 \<longrightarrow> own_held o1 \<longrightarrow> own_at L s b = Some o2 \<longrightarrow> own_held o2 \<longrightarrow> a = b)"

definition inv_log :: "origin_id set \<Rightarrow> lock_name \<Rightarrow> cluster \<Rightarrow> bool" where
  "inv_log N L s \<longleftrightarrow> sorted_wrt (>) (log s) \<and>
     (\<forall>y \<in> set (log s). \<forall>a \<in> N. id_lamport y \<le> clock_at s a \<and>
        (\<forall>o1. own_at L s a = Some o1 \<longrightarrow>
           own_held o1 \<and> cid (own_claim o1) = y \<or> y < cid (own_claim o1)))"

definition cluster_inv :: "origin_id set \<Rightarrow> lock_name \<Rightarrow> cluster \<Rightarrow> bool" where
  "cluster_inv N L s \<longleftrightarrow> inv_nodes N L s \<and> inv_dead N L s \<and> inv_pair N L s \<and> inv_excl N L s \<and> inv_log N L s"

text \<open>The shape most steps have: one node's claim stays or goes, its clock does not fall, and only
  known or newly dead ends are added.\<close>

definition shrinks ::
  "origin_id set \<Rightarrow> lock_name \<Rightarrow> cluster \<Rightarrow> origin_id \<Rightarrow> manager \<Rightarrow> claim_id set \<Rightarrow> bool" where
  "shrinks N L s b m D \<longleftrightarrow>
     b \<in> N \<and> m_origin m = b \<and> table_ok (m_table m) \<and> clock_at s b \<le> clock (m_table m) \<and>
     (own_of L m = None \<or> same_hold_opt (own_of L m) (own_at L s b)) \<and>
     (\<forall>i \<in> fst ` set (ended (get_entry L (m_table m))). end_known N L s i \<or> i \<in> D) \<and>
     (\<forall>i \<in> D. id_origin i = b \<and> id_lamport i \<le> clock (m_table m) \<and>
        (\<forall>o1. own_of L m = Some o1 \<longrightarrow> cid (own_claim o1) \<noteq> i))"

abbreviation put_mgr :: "origin_id \<Rightarrow> manager \<Rightarrow> cluster \<Rightarrow> cluster" where
  "put_mgr b m s \<equiv> s\<lparr>mgrs := (mgrs s)(b := m)\<rparr>"

lemma shrinks_own:
  assumes "shrinks N L s b m D" "own_of L m = Some o1"
  obtains o0 where "own_at L s b = Some o0" "same_hold o1 o0"
  using assms by (auto simp: shrinks_def same_hold_opt_def split: option.splits)

lemma own_put_mgr:
  "own_at L (put_mgr b m s) a = (if a = b then own_of L m else own_at L s a)"
  by simp

lemma clock_put_mgr:
  "shrinks N L s b m D \<Longrightarrow> clock_at s a \<le> clock_at (put_mgr b m s) a"
  by (simp add: shrinks_def)

definition shrunk :: "cluster \<Rightarrow> origin_id \<Rightarrow> manager \<Rightarrow> claim_id set \<Rightarrow> (origin_id \<Rightarrow> exchange option) \<Rightarrow> cluster" where
  "shrunk s b m D T = s\<lparr>mgrs := (mgrs s)(b := m), tries := T, announced := announced s \<union> D\<rparr>"

lemma shrunk_simps [simp]:
  "mgrs (shrunk s b m D T) = (mgrs s)(b := m)" "tries (shrunk s b m D T) = T"
  "announced (shrunk s b m D T) = announced s \<union> D" "log (shrunk s b m D T) = log s"
  by (simp_all add: shrunk_def)

definition drops_try :: "lock_name \<Rightarrow> cluster \<Rightarrow> origin_id \<Rightarrow> manager \<Rightarrow> (origin_id \<Rightarrow> exchange option) \<Rightarrow> bool" where
  "drops_try L s b m T \<longleftrightarrow> T = tries s \<or> T = (tries s)(b := None) \<and> own_of L m = None"

lemma drops_try_Some: "drops_try L s b m T \<Longrightarrow> T a = Some tr \<Longrightarrow> tries s a = Some tr"
  by (auto simp: drops_try_def split: if_splits)

lemma shrunk_own:
  assumes "shrinks N L s b m D" "own_at L (shrunk s b m D T) a = Some o1"
  obtains o0 where "own_at L s a = Some o0" "same_hold o1 o0"
  using assms shrinks_own [OF assms(1)] by (cases "a = b") (auto simp: same_hold_def)

lemma shrunk_clock: "shrinks N L s b m D \<Longrightarrow> clock_at s a \<le> clock_at (shrunk s b m D T) a"
  by (simp add: shrinks_def)

lemma inv_nodes_shrunk:
  assumes "inv_nodes N L s" "shrinks N L s b m D" "drops_try L s b m T"
  shows "inv_nodes N L (shrunk s b m D T)"
  unfolding inv_nodes_def
proof (intro ballI conjI allI impI)
  let ?s = "shrunk s b m D T"
  fix a assume a: "a \<in> N"
  show "m_origin (mgrs ?s a) = a" "table_ok (m_table (mgrs ?s a))"
    using assms a by (auto simp: inv_nodes_def shrinks_def)
  {
    fix o1 assume o1: "own_at L ?s a = Some o1"
    from shrunk_own [OF assms(2) o1] obtain o0 where o0: "own_at L s a = Some o0" "same_hold o1 o0" .
    have T: "T a = tries s a" using assms(3) o1 by (auto simp: drops_try_def)
    from assms(1) a o0 have "id_origin (cid (own_claim o0)) = a"
      "id_lamport (cid (own_claim o0)) \<le> clock_at s a"
      "case tries s a of None \<Rightarrow> own_held o0
       | Some tr \<Rightarrow> cid (own_claim o0) = cid (try_claim tr) \<and> \<not> own_held o0"
      by (auto simp: inv_nodes_def)
    with o0(2) shrunk_clock [OF assms(2), of a T] T
    show "id_origin (cid (own_claim o1)) = a" "id_lamport (cid (own_claim o1)) \<le> clock_at ?s a"
      "case tries ?s a of None \<Rightarrow> own_held o1
       | Some tr \<Rightarrow> cid (own_claim o1) = cid (try_claim tr) \<and> \<not> own_held o1"
      by (auto simp: same_hold_def intro: order_trans split: option.splits)
  }
  {
    fix tr assume tr: "tries ?s a = Some tr"
    then have "tries s a = Some tr" using drops_try_Some [OF assms(3)] by simp
    with assms(1) a have old: "id_origin (cid (try_claim tr)) = a"
      "id_lamport (cid (try_claim tr)) \<le> clock_at s a"
      "\<And>b' msg. (b', msg) \<in> set (try_answers tr) \<Longrightarrow>
         b' \<in> N \<and> b' \<noteq> a \<and> id_lamport (cid (try_claim tr)) \<le> clock_at s b'"
      unfolding inv_nodes_def by blast+
    then show "id_origin (cid (try_claim tr)) = a" by simp
    show "id_lamport (cid (try_claim tr)) \<le> clock_at ?s a"
      using old(2) shrunk_clock [OF assms(2), of a T] by (rule order_trans)
    fix b' msg assume "(b', msg) \<in> set (try_answers tr)"
    from old(3) [OF this] shrunk_clock [OF assms(2), of b' T]
    show "b' \<in> N" "b' \<noteq> a" "id_lamport (cid (try_claim tr)) \<le> clock_at ?s b'"
      by (auto intro: order_trans)
  }
qed

lemma dead_shrunk:
  assumes "dead N L s i" "shrinks N L s b m D"
  shows "dead N L (shrunk s b m D T) i"
  unfolding dead_def
proof (intro impI conjI allI)
  assume N: "id_origin i \<in> N"
  with assms(1) have "id_lamport i \<le> clock_at s (id_origin i)" by (simp add: dead_def)
  also note shrunk_clock [OF assms(2)]
  finally show "id_lamport i \<le> clock_at (shrunk s b m D T) (id_origin i)" .
  fix o1 assume "own_at L (shrunk s b m D T) (id_origin i) = Some o1"
  from shrunk_own [OF assms(2) this] obtain o0 where
    "own_at L s (id_origin i) = Some o0" "same_hold o1 o0" .
  with assms(1) N show "cid (own_claim o1) \<noteq> i" by (auto simp: dead_def same_hold_def)
qed

lemma inv_dead_shrunk:
  assumes "inv_dead N L s" "shrinks N L s b m D" "drops_try L s b m T"
  shows "inv_dead N L (shrunk s b m D T)"
  unfolding inv_dead_def
proof (intro allI impI)
  fix i assume k: "end_known N L (shrunk s b m D T) i"
  have "end_known N L s i \<or> i \<in> D"
  proof -
    have "i \<in> fst ` set (ended (get_entry L (m_table m))) \<Longrightarrow> end_known N L s i \<or> i \<in> D"
      using assms(2) by (auto simp: shrinks_def)
    moreover have "tries s a = Some tr" if "T a = Some tr" for a tr
      using drops_try_Some [OF assms(3) that] .
    ultimately show ?thesis using k unfolding end_known_def by (auto split: if_splits) 
  qed
  then show "dead N L (shrunk s b m D T) i"
  proof
    assume "end_known N L s i"
    with assms(1) show ?thesis by (auto simp: inv_dead_def intro: dead_shrunk [OF _ assms(2)])
  next
    assume "i \<in> D"
    with assms(2) show ?thesis by (auto simp: shrinks_def dead_def)
  qed
qed

lemma inv_pair_shrunk:
  assumes "inv_pair N L s" "shrinks N L s b m D" "drops_try L s b m T"
  shows "inv_pair N L (shrunk s b m D T)"
  unfolding inv_pair_def
proof (intro ballI allI impI)
  fix a tr b' msg o1
  assume a: "a \<in> N" "tries (shrunk s b m D T) a = Some tr" "(b', msg) \<in> set (try_answers tr)"
    and o1: "own_at L (shrunk s b m D T) b' = Some o1"
  have tr: "tries s a = Some tr" using drops_try_Some [OF assms(3)] a(2) by simp
  from shrunk_own [OF assms(2) o1] obtain o0 where o0: "own_at L s b' = Some o0" "same_hold o1 o0" .
  have "own_at L (shrunk s b m D T) a \<noteq> None \<Longrightarrow> own_at L s a \<noteq> None"
    using shrunk_own [OF assms(2)] by (metis not_Some_eq)
  with assms(1) a(1,3) tr o0
  show "(\<not> own_held o1 \<longrightarrow> says_live msg (cid (own_claim o1)) \<or>
        id_lamport (cid (try_claim tr)) < id_lamport (cid (own_claim o1))) \<and>
     (own_held o1 \<longrightarrow> own_at L (shrunk s b m D T) a \<noteq> None \<longrightarrow> says msg (cid (own_claim o1)) Held \<or>
        says_live msg (cid (own_claim o1)) \<and> cid (own_claim o1) < cid (try_claim tr))"
    unfolding inv_pair_def same_hold_def by metis
qed

lemma inv_excl_shrunk:
  assumes "inv_excl N L s" "shrinks N L s b m D"
  shows "inv_excl N L (shrunk s b m D T)"
  unfolding inv_excl_def
proof (intro ballI allI impI)
  fix a a' o1 o2
  assume N: "a \<in> N" "a' \<in> N" and o: "own_at L (shrunk s b m D T) a = Some o1" "own_held o1"
    "own_at L (shrunk s b m D T) a' = Some o2" "own_held o2"
  from shrunk_own [OF assms(2) o(1)] shrunk_own [OF assms(2) o(3)] N o(2,4) assms(1)
  show "a = a'" unfolding inv_excl_def same_hold_def by metis
qed

lemma inv_log_shrunk:
  assumes "inv_log N L s" "shrinks N L s b m D"
  shows "inv_log N L (shrunk s b m D T)"
  unfolding inv_log_def
proof (intro conjI ballI allI impI)
  show "sorted_wrt (>) (log (shrunk s b m D T))" using assms(1) by (simp add: inv_log_def)
  fix y a assume y: "y \<in> set (log (shrunk s b m D T))" and a: "a \<in> N"
  then have old: "id_lamport y \<le> clock_at s a" using assms(1) by (simp add: inv_log_def)
  then show "id_lamport y \<le> clock_at (shrunk s b m D T) a"
    using shrunk_clock [OF assms(2)] by (rule order_trans)
  fix o1 assume "own_at L (shrunk s b m D T) a = Some o1"
  from shrunk_own [OF assms(2) this] obtain o0 where "own_at L s a = Some o0" "same_hold o1 o0" .
  with assms(1) y a show "own_held o1 \<and> cid (own_claim o1) = y \<or> y < cid (own_claim o1)"
    by (auto simp: inv_log_def same_hold_def)
qed

lemma cluster_inv_shrunk:
  assumes "cluster_inv N L s" "shrinks N L s b m D" "drops_try L s b m T"
  shows "cluster_inv N L (shrunk s b m D T)"
  using assms by (simp add: cluster_inv_def inv_nodes_shrunk inv_dead_shrunk inv_pair_shrunk
      inv_excl_shrunk inv_log_shrunk)

section \<open>A new claim\<close>

definition begun :: "cluster \<Rightarrow> origin_id \<Rightarrow> manager \<Rightarrow> claim \<Rightarrow> cluster" where
  "begun s a m c = s\<lparr>mgrs := (mgrs s)(a := m), tries := (tries s)(a := Some \<lparr>try_claim = c, try_answers = []\<rparr>)\<rparr>"

lemma begun_simps [simp]:
  "mgrs (begun s a m c) = (mgrs s)(a := m)" "announced (begun s a m c) = announced s"
  "tries (begun s a m c) = (tries s)(a := Some \<lparr>try_claim = c, try_answers = []\<rparr>)"
  "log (begun s a m c) = log s"
  by (simp_all add: begun_def)

text \<open>A manager that has put up the claim \<open>c\<close> on top of what it had.\<close>

definition claims_anew :: "lock_name \<Rightarrow> cluster \<Rightarrow> origin_id \<Rightarrow> manager \<Rightarrow> claim \<Rightarrow> bool" where
  "claims_anew L s a m c \<longleftrightarrow>
     m_origin m = m_origin (mgrs s a) \<and> (table_ok (m_table (mgrs s a)) \<longrightarrow> table_ok (m_table m)) \<and>
     clock_at s a < id_lamport (cid c) \<and> clock (m_table m) = id_lamport (cid c) \<and>
     id_origin (cid c) = m_origin (mgrs s a) \<and>
     (\<exists>o1. own_of L m = Some o1 \<and> own_claim o1 = c \<and> \<not> own_held o1) \<and>
     ended (get_entry L (m_table m)) = ended (get_entry L (m_table (mgrs s a)))"

lemma attempt_begin_anew:
  assumes "attempt_begin request non now wall (mgrs s a) = (m, c)" "rq_lock request = L"
    and "max (clock_at s a) (heard L (m_table (mgrs s a))) \<noteq> - 1"
  shows "claims_anew L s a m c"
proof -
  let ?M = "max (clock_at s a) (heard L (m_table (mgrs s a)))"
  have "clock_at s a \<le> ?M" "?M < ?M + 1" using u64_succ_greater [OF assms(3)] by simp_all
  then have "clock_at s a < ?M + 1" by (rule le_less_trans)
  moreover have "id_lamport (cid c) = ?M + 1" "clock (m_table m) = ?M + 1"
    "id_origin (cid c) = m_origin (mgrs s a)"
    "\<exists>o1. own_of L m = Some o1 \<and> own_claim o1 = c \<and> \<not> own_held o1"
    "ended (get_entry L (m_table m)) = ended (get_entry L (m_table (mgrs s a)))"
    using assms(1,2) by (auto simp: attempt_begin_def Let_def get_entry_clock own_held_def)
  ultimately show ?thesis
    using m_origin_begin [OF assms(1)] own_attempt_begin(3) [OF assms(1)] by (simp add: claims_anew_def)
qed

lemma begun_clock:
  assumes "claims_anew L s a m c"
  shows "clock_at s b \<le> clock_at (begun s a m c) b"
  using assms by (auto simp: claims_anew_def intro: less_imp_le)

lemma inv_nodes_begun:
  assumes inv: "inv_nodes N L s" and a: "a \<in> N" and m: "claims_anew L s a m c"
  shows "inv_nodes N L (begun s a m c)"
proof -
  have mono: "clock_at s b \<le> clock_at (begun s a m c) b" for b by (rule begun_clock [OF m])
  have old: "id_lamport (cid (try_claim tr)) \<le> clock_at (begun s a m c) b'"
    if "b \<in> N" "tries s b = Some tr" "(b', msg) \<in> set (try_answers tr)" for b tr b' msg
  proof -
    have "id_lamport (cid (try_claim tr)) \<le> clock_at s b'"
      using inv that unfolding inv_nodes_def by blast
    also note mono
    finally show ?thesis .
  qed
  show ?thesis
    unfolding inv_nodes_def
  proof
    fix b assume b: "b \<in> N"
    show "m_origin (mgrs (begun s a m c) b) = b \<and> table_ok (m_table (mgrs (begun s a m c) b)) \<and>
     (\<forall>o1. own_at L (begun s a m c) b = Some o1 \<longrightarrow> id_origin (cid (own_claim o1)) = b \<and>
        id_lamport (cid (own_claim o1)) \<le> clock_at (begun s a m c) b \<and>
        (case tries (begun s a m c) b of None \<Rightarrow> own_held o1
         | Some tr \<Rightarrow> cid (own_claim o1) = cid (try_claim tr) \<and> \<not> own_held o1)) \<and>
     (\<forall>tr. tries (begun s a m c) b = Some tr \<longrightarrow> id_origin (cid (try_claim tr)) = b \<and>
        id_lamport (cid (try_claim tr)) \<le> clock_at (begun s a m c) b \<and>
        (\<forall>b' msg. (b', msg) \<in> set (try_answers tr) \<longrightarrow>
           b' \<in> N \<and> b' \<noteq> b \<and> id_lamport (cid (try_claim tr)) \<le> clock_at (begun s a m c) b'))"
    proof (cases "b = a")
      case True
      then show ?thesis using inv a m by (auto simp: inv_nodes_def claims_anew_def)
    next
      case False
      have "\<forall>tr b' msg. tries s b = Some tr \<longrightarrow> (b', msg) \<in> set (try_answers tr) \<longrightarrow>
          b' \<in> N \<and> b' \<noteq> b \<and> id_lamport (cid (try_claim tr)) \<le> clock_at (begun s a m c) b'"
        using inv b old unfolding inv_nodes_def by blast
      with False inv b show ?thesis unfolding inv_nodes_def by simp
    qed
  qed
qed

lemma inv_dead_begun:
  assumes "inv_dead N L s" and a: "a \<in> N" and m: "claims_anew L s a m c" "tries s a = None"
    and "m_origin (mgrs s a) = a"
  shows "inv_dead N L (begun s a m c)"
  unfolding inv_dead_def
proof (intro allI impI)
  fix i assume "end_known N L (begun s a m c) i"
  then have "end_known N L s i"
    using m by (auto simp: end_known_def claims_anew_def split: if_splits)
  with assms(1) have d: "dead N L s i" by (simp add: inv_dead_def)
  show "dead N L (begun s a m c) i"
    unfolding dead_def
  proof (intro impI conjI allI)
    assume N: "id_origin i \<in> N"
    have le: "id_lamport i \<le> clock_at s (id_origin i)" using d N by (simp add: dead_def)
    then show "id_lamport i \<le> clock_at (begun s a m c) (id_origin i)"
      using begun_clock [OF m(1)] by (rule order_trans)
    fix o1 assume o1: "own_at L (begun s a m c) (id_origin i) = Some o1"
    show "cid (own_claim o1) \<noteq> i"
    proof (cases "id_origin i = a")
      case True
      with le m(1) have "id_lamport i < id_lamport (cid c)" by (auto simp: claims_anew_def)
      with o1 True m(1) show ?thesis by (auto simp: claims_anew_def)
    next
      case False
      with o1 d N show ?thesis by (simp add: dead_def)
    qed
  qed
qed

lemma inv_pair_begun:
  assumes "inv_pair N L s" "inv_nodes N L s" "a \<in> N" and m: "claims_anew L s a m c"
  shows "inv_pair N L (begun s a m c)"
  unfolding inv_pair_def
proof (intro ballI allI impI)
  fix a' tr b msg o1
  assume a': "a' \<in> N" "tries (begun s a m c) a' = Some tr" "(b, msg) \<in> set (try_answers tr)"
    and o1: "own_at L (begun s a m c) b = Some o1"
  have ne: "a' \<noteq> a" using a' by auto
  then have tr: "tries s a' = Some tr" using a' by simp
  show "(\<not> own_held o1 \<longrightarrow> says_live msg (cid (own_claim o1)) \<or>
        id_lamport (cid (try_claim tr)) < id_lamport (cid (own_claim o1))) \<and>
     (own_held o1 \<longrightarrow> own_at L (begun s a m c) a' \<noteq> None \<longrightarrow> says msg (cid (own_claim o1)) Held \<or>
        says_live msg (cid (own_claim o1)) \<and> cid (own_claim o1) < cid (try_claim tr))"
  proof (cases "b = a")
    case True
    have "id_lamport (cid (try_claim tr)) \<le> clock_at s a"
      using assms(2) a' tr True unfolding inv_nodes_def by blast
    also have "\<dots> < id_lamport (cid c)" using m by (simp add: claims_anew_def)
    finally show ?thesis using o1 True m by (auto simp: claims_anew_def)
  next
    case False
    with o1 have "own_at L s b = Some o1" by simp
    with assms(1) a'(1,3) tr ne show ?thesis unfolding inv_pair_def by simp
  qed
qed

lemma inv_log_begun:
  assumes "inv_log N L s" "a \<in> N" and m: "claims_anew L s a m c"
  shows "inv_log N L (begun s a m c)"
  unfolding inv_log_def
proof (intro conjI ballI allI impI)
  show "sorted_wrt (>) (log (begun s a m c))" using assms(1) by (simp add: inv_log_def)
  fix y b assume y: "y \<in> set (log (begun s a m c))" and b: "b \<in> N"
  then have le: "id_lamport y \<le> clock_at s b" using assms(1) by (simp add: inv_log_def)
  then show "id_lamport y \<le> clock_at (begun s a m c) b"
    using begun_clock [OF m] by (rule order_trans)
  fix o1 assume o1: "own_at L (begun s a m c) b = Some o1"
  show "own_held o1 \<and> cid (own_claim o1) = y \<or> y < cid (own_claim o1)"
  proof (cases "b = a")
    case True
    with le m have "id_lamport y < id_lamport (cid c)" by (auto simp: claims_anew_def)
    then have "y < cid c" by (rule claim_id_less_lamport)
    with o1 True m show ?thesis by (auto simp: claims_anew_def)
  next
    case False
    with o1 y b assms(1) show ?thesis by (simp add: inv_log_def)
  qed
qed

lemma cluster_inv_begun:
  assumes "cluster_inv N L s" "a \<in> N" "tries s a = None" and m: "claims_anew L s a m c"
  shows "cluster_inv N L (begun s a m c)"
proof -
  have old: "own_at L s b = Some o1" if "own_at L (begun s a m c) b = Some o1" "own_held o1" for b o1
    using that m by (cases "b = a") (auto simp: claims_anew_def)
  have "inv_excl N L (begun s a m c)"
    using assms(1) old unfolding cluster_inv_def inv_excl_def by blast
  moreover have "m_origin (mgrs s a) = a" using assms(1,2) by (simp add: cluster_inv_def inv_nodes_def)
  ultimately show ?thesis using assms
    by (simp add: cluster_inv_def inv_nodes_begun inv_dead_begun inv_pair_begun inv_log_begun)
qed

section \<open>An answer\<close>

definition answered :: "cluster \<Rightarrow> origin_id \<Rightarrow> exchange \<Rightarrow> origin_id \<Rightarrow> lock_message \<Rightarrow> cluster" where
  "answered s a tr b msg = s\<lparr>tries := (tries s)(a := Some (tr\<lparr>try_answers := (b, msg) # try_answers tr\<rparr>))\<rparr>"

lemma answered_simps [simp]:
  "mgrs (answered s a tr b msg) = mgrs s" "announced (answered s a tr b msg) = announced s"
  "tries (answered s a tr b msg) = (tries s)(a := Some (tr\<lparr>try_answers := (b, msg) # try_answers tr\<rparr>))"
  "log (answered s a tr b msg) = log s"
  by (simp_all add: answered_def)

text \<open>An answer that is honest about the node it came from.\<close>

definition honest :: "origin_id set \<Rightarrow> lock_name \<Rightarrow> cluster \<Rightarrow> origin_id \<Rightarrow> lock_message \<Rightarrow> bool" where
  "honest N L s b msg \<longleftrightarrow>
     (\<forall>i. says_ended msg i \<longrightarrow> end_known N L s i) \<and>
     (\<forall>o1. own_at L s b = Some o1 \<longrightarrow> says msg (cid (own_claim o1)) (if own_held o1 then Held else Live))"

lemma answered_try:
  assumes "tries (answered s a tr b msg) a' = Some tr'" "tries s a = Some tr" "(b', msg') \<in> set (try_answers tr')"
  obtains tr0 where "tries s a' = Some tr0" "try_claim tr' = try_claim tr0"
    "(b', msg') \<in> set (try_answers tr0) \<or> a' = a \<and> b' = b \<and> msg' = msg"
  using assms by (auto split: if_splits)

lemma inv_nodes_answered:
  assumes "inv_nodes N L s" "tries s a = Some tr" "a \<in> N" "b \<in> N" "b \<noteq> a"
    and "id_lamport (cid (try_claim tr)) \<le> clock_at s b"
  shows "inv_nodes N L (answered s a tr b msg)"
  unfolding inv_nodes_def
proof (intro ballI conjI allI impI)
  let ?s = "answered s a tr b msg"
  fix c assume c: "c \<in> N"
  show "m_origin (mgrs ?s c) = c" "table_ok (m_table (mgrs ?s c))"
    using assms(1) c by (simp_all add: inv_nodes_def)
  {
    fix o1 assume o1: "own_at L ?s c = Some o1"
    with assms(1) c show "id_origin (cid (own_claim o1)) = c"
      "id_lamport (cid (own_claim o1)) \<le> clock_at ?s c" by (simp_all add: inv_nodes_def)
    have "case tries s c of None \<Rightarrow> own_held o1
       | Some tr \<Rightarrow> cid (own_claim o1) = cid (try_claim tr) \<and> \<not> own_held o1"
      using o1 assms(1) c by (simp add: inv_nodes_def)
    then show "case tries ?s c of None \<Rightarrow> own_held o1
       | Some tr \<Rightarrow> cid (own_claim o1) = cid (try_claim tr) \<and> \<not> own_held o1"
      using assms(2) by (cases "c = a") auto
  }
  {
    fix tr' assume "tries ?s c = Some tr'"
    then obtain tr0 where t: "tries s c = Some tr0" "try_claim tr' = try_claim tr0"
      using assms(2) by (cases "c = a") auto
    with assms(1) c show "id_origin (cid (try_claim tr')) = c"
      "id_lamport (cid (try_claim tr')) \<le> clock_at ?s c" by (simp_all add: inv_nodes_def)
  }
  fix tr' b' msg' assume t: "tries ?s c = Some tr'" "(b', msg') \<in> set (try_answers tr')"
  obtain tr0 where tr0: "tries s c = Some tr0" "try_claim tr' = try_claim tr0"
    "(b', msg') \<in> set (try_answers tr0) \<or> c = a \<and> b' = b \<and> msg' = msg"
    using answered_try [OF t(1) assms(2) t(2)] .
  then have "b' \<in> N \<and> b' \<noteq> c \<and> id_lamport (cid (try_claim tr')) \<le> clock_at s b'"
    using assms c unfolding inv_nodes_def by (metis option.inject)
  then show "b' \<in> N" "b' \<noteq> c" "id_lamport (cid (try_claim tr')) \<le> clock_at ?s b'" by simp_all
qed

lemma inv_pair_answered:
  assumes "inv_pair N L s" "tries s a = Some tr" "honest N L s b msg"
  shows "inv_pair N L (answered s a tr b msg)"
  unfolding inv_pair_def
proof (intro ballI allI impI)
  fix a' tr' b' msg' o1
  assume a': "a' \<in> N" "tries (answered s a tr b msg) a' = Some tr'" "(b', msg') \<in> set (try_answers tr')"
    and o1: "own_at L (answered s a tr b msg) b' = Some o1"
  obtain tr0 where tr0: "tries s a' = Some tr0" "try_claim tr' = try_claim tr0"
    "(b', msg') \<in> set (try_answers tr0) \<or> a' = a \<and> b' = b \<and> msg' = msg"
    using answered_try [OF a'(2) assms(2) a'(3)] .
  from tr0(3) show "(\<not> own_held o1 \<longrightarrow> says_live msg' (cid (own_claim o1)) \<or>
        id_lamport (cid (try_claim tr')) < id_lamport (cid (own_claim o1))) \<and>
     (own_held o1 \<longrightarrow> own_at L (answered s a tr b msg) a' \<noteq> None \<longrightarrow> says msg' (cid (own_claim o1)) Held \<or>
        says_live msg' (cid (own_claim o1)) \<and> cid (own_claim o1) < cid (try_claim tr'))"
  proof
    assume "(b', msg') \<in> set (try_answers tr0)"
    with assms(1) a'(1) tr0 o1 show ?thesis unfolding inv_pair_def by simp
  next
    assume "a' = a \<and> b' = b \<and> msg' = msg"
    with o1 assms(3) have "says msg' (cid (own_claim o1)) (if own_held o1 then Held else Live)"
      by (simp add: honest_def)
    then show ?thesis by (simp add: says_live_def split: if_splits)
  qed
qed

lemma cluster_inv_answered:
  assumes "cluster_inv N L s" "tries s a = Some tr" "a \<in> N" "b \<in> N" "b \<noteq> a"
    and "id_lamport (cid (try_claim tr)) \<le> clock_at s b" and h: "honest N L s b msg"
  shows "cluster_inv N L (answered s a tr b msg)"
proof -
  have known: "end_known N L s i" if k: "end_known N L (answered s a tr b msg) i" for i
  proof -
    consider "i \<in> announced s" | c where "c \<in> N" "i \<in> fst ` set (ended (get_entry L (m_table (mgrs s c))))"
      | c tr' b' msg' where "c \<in> N" "tries (answered s a tr b msg) c = Some tr'"
        "(b', msg') \<in> set (try_answers tr')" "says_ended msg' i"
      using k by (auto simp: end_known_def)
    then show ?thesis
    proof cases
      case (3 c tr' b' msg')
      from answered_try [OF 3(2) assms(2) 3(3)] 3 h show ?thesis
        unfolding honest_def end_known_def by metis
    qed (auto simp: end_known_def)
  qed
  have "inv_dead N L (answered s a tr b msg)"
    using assms(1) known unfolding cluster_inv_def inv_dead_def dead_def by simp
  moreover have "inv_excl N L (answered s a tr b msg)" "inv_log N L (answered s a tr b msg)"
    using assms(1) by (simp_all add: cluster_inv_def inv_excl_def inv_log_def)
  ultimately show ?thesis using assms
    by (simp add: cluster_inv_def inv_nodes_answered inv_pair_answered)
qed

text \<open>What \<open>serve_frame\<close> sends back to a claim is honest, and it has heard the claim's ticket.\<close>

lemma serve_frame_claim_answer:
  assumes "serve_frame auth sok now peer (MClaim L c) m = (m', MAnswer rs es ws)"
    and "id_origin (cid c) \<noteq> m_origin m"
  shows "MAnswer rs es ws = entry_answer now (get_entry L (m_table m'))"
    and "id_lamport (cid c) \<le> clock (m_table m')"
proof -
  obtain writers where w: "writer_origins auth peer (space L) = Inr writers" "id_origin (cid c) \<in> set writers"
    and r: "record_table L c False now (m_table m) = (m_table m', MAnswer rs es ws)"
    using assms by (auto simp: serve_frame_def serve_def record_claim_def
        split: sum.splits prod.splits if_splits)
  from r have t: "m_table m' = put_entry L (observe c False now (get_entry L (m_table m)))
      (hear (id_lamport (cid c)) (m_table m))"
    "MAnswer rs es ws = entry_answer now (observe c False now (get_entry L (m_table m)))"
    by (auto simp: record_table_def Let_def split: if_splits)
  then show "MAnswer rs es ws = entry_answer now (get_entry L (m_table m'))"
    "id_lamport (cid c) \<le> clock (m_table m')"
    by simp_all
qed

lemma answer_ended_keys: "fst ` set (answer_ended e) \<subseteq> fst ` set (ended e)"
proof -
  have "fst ` set (answer_ended e) \<subseteq> fst ` set (sort_key (\<lambda>(i, reason, at). - int at) (ended e))"
    unfolding answer_ended_def by (auto dest!: in_set_takeD intro: rev_image_eqI)
  then show ?thesis by simp
qed

lemma entry_answer_honest:
  assumes "b \<in> N"
  shows "honest N L s b (entry_answer now (get_entry L (m_table (mgrs s b))))"
  unfolding honest_def
proof (intro conjI allI impI)
  let ?e = "get_entry L (m_table (mgrs s b))"
  fix i assume "says_ended (entry_answer now ?e) i"
  then have "i \<in> fst ` set (ended ?e)"
    using answer_ended_keys [of ?e] by (auto simp: says_ended_def entry_answer_def)
  with assms show "end_known N L s i" by (auto simp: end_known_def)
next
  let ?e = "get_entry L (m_table (mgrs s b))"
  fix o1 assume "own_at L s b = Some o1"
  from own_reported [OF this, of now]
  show "says (entry_answer now ?e) (cid (own_claim o1)) (if own_held o1 then Held else Live)"
    unfolding says_def entry_answer_def by (auto simp: own_report_def intro!: bexI)
qed

section \<open>The decision\<close>

lemma reported_try:
  "st \<in> reported (map (\<lambda>(b, msg). (key b, Inr msg)) as) i \<longleftrightarrow> (\<exists>(b, msg) \<in> set as. says msg i st)"
proof (induction as)
  case (Cons x as)
  obtain b msg where "x = (b, msg)" by (cases x)
  with Cons show ?case by (cases msg) (auto simp: says_def)
qed simp

lemma keys_fold_bt_insert:
  "fst ` set (fold (\<lambda>(i, r). bt_insert i r) xs m) \<subseteq> fst ` set m \<union> fst ` set xs"
proof (induction xs arbitrary: m)
  case (Cons x xs)
  obtain i r where x: "x = (i, r)" by (cases x)
  have "fst ` set (fold (\<lambda>(i, r). bt_insert i r) xs (bt_insert i r m)) \<subseteq>
      fst ` set (bt_insert i r m) \<union> fst ` set xs" by (rule Cons.IH)
  moreover have "fst ` set (bt_insert i r m) = insert i (fst ` set m)"
    using bt.get_insert [of i r m] by (simp flip: dom_map_of_conv_image_fst)
  ultimately show ?case by (auto simp: x)
qed simp

lemma fold_gather_ended:
  "fst ` set (g_ended (fst (fold gather_answer (map (\<lambda>(b, msg). (key b, Inr msg)) as) (g, w)))) \<subseteq>
     fst ` set (g_ended g) \<union> {i. \<exists>(b, msg) \<in> set as. says_ended msg i}"
proof (induction as arbitrary: g w)
  case (Cons x as)
  obtain b msg where x: "x = (b, msg)" by (cases x)
  obtain g' w' where g': "gather_answer (key b, Inr msg) (g, w) = (g', w')"
    by (cases "gather_answer (key b, Inr msg) (g, w)")
  have f: "g_ended (fold (\<lambda>r. note_claim (r_claim r) (r_state r)) rs g) = g_ended g" for rs
    by (rule fold_invariant' [where P = "\<lambda>x. g_ended x = g_ended g"])
      (auto simp: note_claim_def split: option.split)
  have "fst ` set (g_ended (add_answer rs es ws g)) \<subseteq> fst ` set (g_ended g) \<union> fst ` set es" for rs es ws
    using keys_fold_bt_insert [of es "g_ended g"] by (simp add: add_answer_def Let_def f)
  then have "fst ` set (g_ended g') \<subseteq> fst ` set (g_ended g) \<union> {i. says_ended msg i}"
    using g' by (cases msg) (simp_all add: says_ended_def, blast+)
  with Cons.IH [of g' w'] show ?case by (auto simp: x g' simp del: gather_answer.simps)
qed simp

lemma gather_try_ended:
  "i \<in> fst ` set (g_ended (gather_try key tr)) \<Longrightarrow> \<exists>(b, msg) \<in> set (try_answers tr). says_ended msg i"
  using fold_gather_ended [where g = gathered_default and w = "[]" and key = key and as = "try_answers tr"]
  by (auto simp: gather_try_def collect_answers_def gathered_default_def)

lemma keys_entry_end: "fst ` set (ended (entry_end i r now e)) = insert i (fst ` set (ended e))"
  by (simp flip: dom_map_of_conv_image_fst)

lemma keys_absorb_ended: "fst ` set (ended (absorb_ended mine ends now e)) \<subseteq> fst ` set (ended e) \<union> fst ` set ends"
  unfolding absorb_ended_def
proof (induction ends arbitrary: e)
  case (Cons x ends)
  obtain i r where x: "x = (i, r)" by (cases x)
  show ?case using Cons.IH [of "if i \<noteq> mine then entry_end i r now e else e"]
    by (auto simp: x keys_entry_end split: if_splits)
qed simp

definition is_yield :: "verdict option \<Rightarrow> bool" where
  "is_yield v \<longleftrightarrow> (\<exists>to reclaim. v = Some (Yield to reclaim))"

lemma ended_decide:
  "fst ` set (ended (fst (decide_entry c d sent now g e))) \<subseteq>
     fst ` set (ended e) \<union> fst ` set (g_ended g) \<union>
     (if is_yield (snd (decide_entry c d sent now g e)) then {cid c} else {})"
  using keys_absorb_ended [of "cid c" "g_ended g" now e]
  by (auto simp: decide_entry_def Let_def keys_entry_end is_yield_def split: verdict.splits)

lemma own_decide_holds:
  assumes "own (fst (decide_entry c d sent now g e)) = Some o1" "cid (own_claim o1) = cid c"
  shows "\<exists>sups. decide_entry c d sent now g e = (fst (decide_entry c d sent now g e), Some (Hold sups))"
  using assms by (auto simp: decide_entry_def Let_def keep_unless_Some split: if_splits verdict.splits)

lemma own_yield: "is_yield (snd (decide_entry c d sent now g e)) \<Longrightarrow> own (fst (decide_entry c d sent now g e)) = None"
  by (auto simp: decide_entry_def Let_def is_yield_def split: if_splits verdict.splits)

lemma attempt_decide_withdraws:
  assumes "attempt_decide cd request c sent now wall g m = (m', d)"
  shows "(\<exists>err. d = Inr (DWithdraw err)) \<longleftrightarrow>
    is_yield (snd (decide_entry c (ttl request) sent now g (get_entry (rq_lock request) (m_table m))))"
  using assms by (auto simp: attempt_decide_def Let_def is_yield_def
      split: prod.splits option.splits verdict.splits sum.splits)

text \<open>The claims an attempt is told of and that are still up do not stand before one that holds.\<close>

lemma hold_goes_first:
  assumes inv: "cluster_inv N L s" and a: "a \<in> N" "tries s a = Some tr"
    and d: "decide_entry (try_claim tr) d sent now (gather_try key tr) (get_entry L (m_table (mgrs s a))) =
      (e', Some (Hold sups))"
    and b: "b \<in> N" "b \<noteq> a" "own_at L s b = Some o1" "(b, msg) \<in> set (try_answers tr)"
    and st: "says msg (cid (own_claim o1)) st" "st \<noteq> Expired"
  shows "st = Live \<and> cid (try_claim tr) < cid (own_claim o1)"
proof -
  let ?Y = "cid (own_claim o1)" and ?e = "get_entry L (m_table (mgrs s a))" and ?g = "gather_try key tr"
  have ids: "id_origin ?Y = b" "id_origin (cid (try_claim tr)) = a" "table_ok (m_table (mgrs s a))"
    using inv a b by (simp_all add: cluster_inv_def inv_nodes_def)
  have "\<not> dead N L s ?Y" using b ids(1) by (simp add: dead_def)
  then have "\<not> end_known N L s ?Y" using inv by (auto simp: cluster_inv_def inv_dead_def)
  then have "?Y \<notin> fst ` set (ended ?e)" "?Y \<notin> fst ` set (g_ended ?g)"
    using a gather_try_ended [of ?Y key tr] unfolding end_known_def by blast+
  then have "?Y \<notin> fst ` set (ended e')"
    using ended_decide [of "try_claim tr" d sent now ?g ?e] by (auto simp: d is_yield_def)
  then have live: "map_of (ended e') ?Y = None" by (simp add: map_of_eq_None_iff)
  have "st \<in> reported (map (\<lambda>(b, msg). (key b, Inr msg)) (try_answers tr)) ?Y"
    using b(4) st(1) unfolding reported_try by blast
  from collect_state [OF this] obtain st' where st': "state_of ?g ?Y = Some st'" "st \<le> st'"
    unfolding gather_try_def by blast
  have "Live \<le> st'" using st' st(2) by (cases st; cases st') auto
  moreover have "?Y \<noteq> cid (try_claim tr)" using ids(1,2) b(2) by metis
  moreover have "gathered_ok ?g" by (simp add: gather_try_def collect_answers_ok)
  ultimately have "st' = Live \<and> cid (try_claim tr) < ?Y"
    using decide_entry_holds [OF get_entry_ok [OF ids(3)] _ d st'(1) _ _ live] by blast
  with st'(2) st(2) show ?thesis by (cases st) auto
qed

text \<open>Every other claim that is up contends and orders after the one that holds.\<close>

lemma others_after:
  assumes inv: "cluster_inv N L s" and a: "a \<in> N" "tries s a = Some tr" "own_at L s a \<noteq> None"
    and all: "\<And>b. b \<in> N \<Longrightarrow> b \<noteq> a \<Longrightarrow> b \<in> fst ` set (try_answers tr)"
    and d: "decide_entry (try_claim tr) d sent now (gather_try key tr) (get_entry L (m_table (mgrs s a))) =
      (e', Some (Hold sups))"
    and b: "b \<in> N" "b \<noteq> a" "own_at L s b = Some o1"
  shows "\<not> own_held o1 \<and> cid (try_claim tr) < cid (own_claim o1)"
proof -
  obtain msg where msg: "(b, msg) \<in> set (try_answers tr)" using all b by fastforce
  note first = hold_goes_first [OF inv a(1,2) d b msg]
  have pair: "(\<not> own_held o1 \<longrightarrow> says_live msg (cid (own_claim o1)) \<or>
        id_lamport (cid (try_claim tr)) < id_lamport (cid (own_claim o1))) \<and>
     (own_held o1 \<longrightarrow> says msg (cid (own_claim o1)) Held \<or>
        says_live msg (cid (own_claim o1)) \<and> cid (own_claim o1) < cid (try_claim tr))"
    using inv a b msg unfolding cluster_inv_def inv_pair_def by blast
  have live: "cid (try_claim tr) < cid (own_claim o1)" if "says_live msg (cid (own_claim o1))"
    using that first [of Live] first [of Held] by (auto simp: says_live_def)
  have "\<not> own_held o1"
    using pair live first [of Held] by (auto dest: less_asym)
  moreover from this have "cid (try_claim tr) < cid (own_claim o1)"
    using pair live claim_id_less_lamport by blast
  ultimately show ?thesis by blast
qed

definition held_now :: "cluster \<Rightarrow> origin_id \<Rightarrow> manager \<Rightarrow> claim_id \<Rightarrow> cluster" where
  "held_now s a m i = s\<lparr>mgrs := (mgrs s)(a := m), tries := (tries s)(a := None), log := i # log s\<rparr>"

lemma held_now_simps [simp]:
  "mgrs (held_now s a m i) = (mgrs s)(a := m)" "tries (held_now s a m i) = (tries s)(a := None)"
  "announced (held_now s a m i) = announced s" "log (held_now s a m i) = i # log s"
  by (simp_all add: held_now_def)

text \<open>The claim of \<open>a\<close> turns from contending to held, in front of every other claim that is up.\<close>

definition wins :: "origin_id set \<Rightarrow> lock_name \<Rightarrow> cluster \<Rightarrow> origin_id \<Rightarrow> exchange \<Rightarrow> manager \<Rightarrow> bool" where
  "wins N L s a tr m \<longleftrightarrow>
     a \<in> N \<and> tries s a = Some tr \<and> m_origin m = a \<and> table_ok (m_table m) \<and>
     clock_at s a \<le> clock (m_table m) \<and>
     (\<exists>o0. own_at L s a = Some o0 \<and> \<not> own_held o0 \<and> cid (own_claim o0) = cid (try_claim tr)) \<and>
     (\<exists>o1. own_of L m = Some o1 \<and> own_held o1 \<and> cid (own_claim o1) = cid (try_claim tr)) \<and>
     (\<forall>i \<in> fst ` set (ended (get_entry L (m_table m))). end_known N L s i) \<and>
     (\<forall>b \<in> N. b \<noteq> a \<longrightarrow> id_lamport (cid (try_claim tr)) \<le> clock_at s b) \<and>
     (\<forall>b \<in> N. \<forall>o1. b \<noteq> a \<longrightarrow> own_at L s b = Some o1 \<longrightarrow>
        \<not> own_held o1 \<and> cid (try_claim tr) < cid (own_claim o1))"

lemma wins_own:
  assumes "wins N L s a tr m" "own_at L (held_now s a m i) b = Some o1"
  obtains o0 where "own_at L s b = Some o0" "cid (own_claim o1) = cid (own_claim o0)"
    "b \<noteq> a \<Longrightarrow> o1 = o0" "b = a \<Longrightarrow> own_held o1 \<and> \<not> own_held o0 \<and> cid (own_claim o1) = cid (try_claim tr)"
  using assms by (cases "b = a") (auto simp: wins_def)

lemma wins_clock: "wins N L s a tr m \<Longrightarrow> clock_at s b \<le> clock_at (held_now s a m i) b"
  by (auto simp: wins_def)

lemma inv_nodes_wins:
  assumes inv: "inv_nodes N L s" and w: "wins N L s a tr m"
  shows "inv_nodes N L (held_now s a m i)"
  unfolding inv_nodes_def
proof (intro ballI conjI allI impI)
  let ?s = "held_now s a m i"
  fix b assume b: "b \<in> N"
  show "m_origin (mgrs ?s b) = b" "table_ok (m_table (mgrs ?s b))"
    using inv w b by (simp_all add: inv_nodes_def wins_def)
  {
    fix o1 assume o1: "own_at L ?s b = Some o1"
    obtain o0 where o0: "own_at L s b = Some o0" "cid (own_claim o1) = cid (own_claim o0)"
      "b \<noteq> a \<Longrightarrow> o1 = o0" "b = a \<Longrightarrow> own_held o1"
      using wins_own [OF w o1] by metis
    have old: "id_origin (cid (own_claim o0)) = b" "id_lamport (cid (own_claim o0)) \<le> clock_at s b"
      "case tries s b of None \<Rightarrow> own_held o0
       | Some tr \<Rightarrow> cid (own_claim o0) = cid (try_claim tr) \<and> \<not> own_held o0"
      using inv b o0(1) by (simp_all add: inv_nodes_def)
    from old(1) o0(2) show "id_origin (cid (own_claim o1)) = b" by simp
    from old(2) wins_clock [OF w, of b i] o0(2)
    show "id_lamport (cid (own_claim o1)) \<le> clock_at ?s b" by (metis order_trans)
    from old(3) o0(3,4) show "case tries ?s b of None \<Rightarrow> own_held o1
       | Some tr \<Rightarrow> cid (own_claim o1) = cid (try_claim tr) \<and> \<not> own_held o1"
      by (cases "b = a") auto
  }
  {
    fix tr' assume "tries ?s b = Some tr'"
    then have t: "tries s b = Some tr'" by (simp split: if_splits)
    with inv b have old: "id_origin (cid (try_claim tr')) = b"
      "id_lamport (cid (try_claim tr')) \<le> clock_at s b" by (simp_all add: inv_nodes_def)
    then show "id_origin (cid (try_claim tr')) = b" by simp
    from old(2) wins_clock [OF w, of b i]
    show "id_lamport (cid (try_claim tr')) \<le> clock_at ?s b" by (rule order_trans)
    fix b' msg assume "(b', msg) \<in> set (try_answers tr')"
    then have "b' \<in> N" "b' \<noteq> b" "id_lamport (cid (try_claim tr')) \<le> clock_at s b'"
      using inv b t unfolding inv_nodes_def by blast+
    then show "b' \<in> N" "b' \<noteq> b" "id_lamport (cid (try_claim tr')) \<le> clock_at ?s b'"
      using wins_clock [OF w, of b' i] order_trans by blast+
  }
qed

lemma inv_dead_wins:
  assumes inv: "inv_dead N L s" and w: "wins N L s a tr m"
  shows "inv_dead N L (held_now s a m x)"
  unfolding inv_dead_def
proof (intro allI impI)
  fix i assume k: "end_known N L (held_now s a m x) i"
  have "i \<in> fst ` set (ended (get_entry L (m_table m))) \<Longrightarrow> end_known N L s i"
    using w unfolding wins_def by blast
  then have "end_known N L s i"
    using k unfolding end_known_def by (auto split: if_splits)
  with inv have d: "dead N L s i" by (simp add: inv_dead_def)
  show "dead N L (held_now s a m x) i"
    unfolding dead_def
  proof (intro impI conjI allI)
    assume N: "id_origin i \<in> N"
    with d have "id_lamport i \<le> clock_at s (id_origin i)" by (simp add: dead_def)
    then show "id_lamport i \<le> clock_at (held_now s a m x) (id_origin i)"
      using wins_clock [OF w] by (rule order_trans)
    fix o1 assume o1: "own_at L (held_now s a m x) (id_origin i) = Some o1"
    from wins_own [OF w o1] d N show "cid (own_claim o1) \<noteq> i" unfolding dead_def by metis
  qed
qed

lemma inv_pair_wins:
  assumes inv: "inv_pair N L s" "inv_nodes N L s" and w: "wins N L s a tr m"
  shows "inv_pair N L (held_now s a m x)"
  unfolding inv_pair_def
proof (intro ballI allI impI)
  fix c tr' b msg o1
  assume c: "c \<in> N" "tries (held_now s a m x) c = Some tr'" "(b, msg) \<in> set (try_answers tr')"
    and o1: "own_at L (held_now s a m x) b = Some o1"
  have ne: "c \<noteq> a" and t: "tries s c = Some tr'" using c(2) by (auto split: if_splits)
  obtain o0 where o0: "own_at L s b = Some o0" "cid (own_claim o1) = cid (own_claim o0)"
    "b \<noteq> a \<Longrightarrow> o1 = o0"
    "b = a \<Longrightarrow> own_held o1 \<and> \<not> own_held o0 \<and> cid (own_claim o1) = cid (try_claim tr)"
    using wins_own [OF w o1] by metis
  have pair: "(\<not> own_held o0 \<longrightarrow> says_live msg (cid (own_claim o0)) \<or>
        id_lamport (cid (try_claim tr')) < id_lamport (cid (own_claim o0))) \<and>
     (own_held o0 \<longrightarrow> own_at L s c \<noteq> None \<longrightarrow> says msg (cid (own_claim o0)) Held \<or>
        says_live msg (cid (own_claim o0)) \<and> cid (own_claim o0) < cid (try_claim tr'))"
    using inv(1) c(1,3) t o0(1) unfolding inv_pair_def by blast
  show "(\<not> own_held o1 \<longrightarrow> says_live msg (cid (own_claim o1)) \<or>
        id_lamport (cid (try_claim tr')) < id_lamport (cid (own_claim o1))) \<and>
     (own_held o1 \<longrightarrow> own_at L (held_now s a m x) c \<noteq> None \<longrightarrow> says msg (cid (own_claim o1)) Held \<or>
        says_live msg (cid (own_claim o1)) \<and> cid (own_claim o1) < cid (try_claim tr'))"
  proof (cases "b = a")
    case True
    have "cid (try_claim tr) < cid (try_claim tr')" if "own_at L s c = Some o2" for o2
    proof -
      have "case tries s c of None \<Rightarrow> own_held o2
         | Some tr \<Rightarrow> cid (own_claim o2) = cid (try_claim tr) \<and> \<not> own_held o2"
        using that inv(2) c(1) unfolding inv_nodes_def by blast
      then have "cid (own_claim o2) = cid (try_claim tr')" by (simp add: t)
      moreover have "cid (try_claim tr) < cid (own_claim o2)"
        using w that c(1) ne unfolding wins_def by blast
      ultimately show ?thesis by simp
    qed
    with True o0 pair ne show ?thesis
      using claim_id_less_lamport [of "cid (try_claim tr')" "cid (try_claim tr)"]
      by (auto dest: less_asym)
  next
    case False
    with o0 pair ne show ?thesis by simp
  qed
qed

lemma inv_log_wins:
  assumes inv: "inv_log N L s" "inv_nodes N L s" and w: "wins N L s a tr m"
  shows "inv_log N L (held_now s a m (cid (try_claim tr)))"
proof -
  let ?s = "held_now s a m (cid (try_claim tr))"
  obtain o0 where o0: "own_at L s a = Some o0" "\<not> own_held o0" "cid (own_claim o0) = cid (try_claim tr)"
    and a: "a \<in> N" using w unfolding wins_def by blast
  have before: "y < cid (try_claim tr)" if "y \<in> set (log s)" for y
    using inv(1) a o0 that unfolding inv_log_def by metis
  then have "sorted_wrt (>) (log ?s)" using inv(1) by (simp add: inv_log_def)
  moreover have "id_lamport y \<le> clock_at ?s b" if "y \<in> set (log ?s)" "b \<in> N" for y b
  proof -
    have "id_lamport (cid (try_claim tr)) \<le> clock_at s b"
    proof (cases "b = a")
      case True
      have "tries s a = Some tr" using w by (simp add: wins_def)
      then show ?thesis using True inv(2) a unfolding inv_nodes_def by blast
    next
      case False
      then show ?thesis using w that(2) unfolding wins_def by blast
    qed
    then have "id_lamport y \<le> clock_at s b" using that inv(1) by (auto simp: inv_log_def)
    then show ?thesis using wins_clock [OF w] by (rule order_trans)
  qed
  moreover have "own_held o1 \<and> cid (own_claim o1) = y \<or> y < cid (own_claim o1)"
    if y: "y \<in> set (log ?s)" and b: "b \<in> N" and o1: "own_at L ?s b = Some o1" for y b o1
  proof (cases "b = a")
    case True
    with o1 w have "own_held o1" "cid (own_claim o1) = cid (try_claim tr)" by (auto simp: wins_def)
    with y before show ?thesis by auto
  next
    case False
    with o1 have o: "own_at L s b = Some o1" by simp
    with False b w have "cid (try_claim tr) < cid (own_claim o1)" unfolding wins_def by blast
    with y before show ?thesis by (auto dest: less_trans)
  qed
  ultimately show ?thesis unfolding inv_log_def by blast
qed

lemma cluster_inv_wins:
  assumes inv: "cluster_inv N L s" and w: "wins N L s a tr m"
  shows "cluster_inv N L (held_now s a m (cid (try_claim tr)))"
proof -
  have "b = a" if "b \<in> N" "own_at L (held_now s a m (cid (try_claim tr))) b = Some o1" "own_held o1" for b o1
    using that w by (cases "b = a") (auto simp: wins_def)
  then have "inv_excl N L (held_now s a m (cid (try_claim tr)))" unfolding inv_excl_def by blast
  then show ?thesis using assms
    by (simp add: cluster_inv_def inv_nodes_wins inv_dead_wins inv_pair_wins inv_log_wins)
qed

section \<open>Every step keeps the invariant\<close>

lemma shrinks_quiet:
  assumes "cluster_inv N L s" "a \<in> N" "quiet L (mgrs s a) m"
  shows "shrinks N L s a m {}"
proof -
  have "end_known N L s i" if "i \<in> fst ` set (ended (get_entry L (m_table m)))" for i
    using assms(2,3) that unfolding quiet_def end_known_def by blast
  moreover have "m_origin (mgrs s a) = a" "table_ok (m_table (mgrs s a))"
    using assms(1,2) by (simp_all add: cluster_inv_def inv_nodes_def)
  ultimately show ?thesis using assms(2,3) by (simp add: shrinks_def quiet_def)
qed

lemma shrinks_serve:
  assumes inv: "cluster_inv N L s" and b: "b \<in> N"
    and known: "\<And>i r w. request = MEnd L i r w \<Longrightarrow> i \<in> announced s"
  shows "shrinks N L s b (fst (serve_frame auth sok now peer request (mgrs s b))) {}"
proof -
  let ?m = "fst (serve_frame auth sok now peer request (mgrs s b))"
  have "m_origin (mgrs s b) = b" "table_ok (m_table (mgrs s b))"
    using inv b by (simp_all add: cluster_inv_def inv_nodes_def)
  moreover have "end_known N L s i" if "i \<in> fst ` set (ended (get_entry L (m_table ?m)))" for i
    using serve_effect(3) [of L auth sok now peer request "mgrs s b"] that b known
    unfolding end_known_def by blast
  moreover have "own_of L ?m = None \<or> same_hold_opt (own_of L ?m) (own_at L s b)"
    using own_of_serve_cases [of L auth sok now peer request "mgrs s b"]
    by (auto simp: same_hold_opt_def same_hold_def split: option.split)
  ultimately show ?thesis using b serve_effect(1,2) table_ok_serve
    unfolding shrinks_def by simp
qed

lemma shrunk_same [simp]: "shrunk s b m {} (tries s) = s\<lparr>mgrs := (mgrs s)(b := m)\<rparr>"
  by (simp add: shrunk_def)

lemma drops_try_same [simp]: "drops_try L s b m (tries s)"
  by (simp add: drops_try_def)

lemma step_ask:
  assumes inv: "cluster_inv N L s" and a: "a \<in> N" "b \<in> N" "a \<noteq> b" "tries s a = Some tr"
    and r: "serve_frame auth sok now (key a) (MClaim L (try_claim tr)) (mgrs s b) = (m, MAnswer rs es ws)"
  shows "cluster_inv N L (s\<lparr>mgrs := (mgrs s)(b := m),
         tries := (tries s)(a := Some (tr\<lparr>try_answers := (b, MAnswer rs es ws) # try_answers tr\<rparr>))\<rparr>)"
proof -
  let ?s = "s\<lparr>mgrs := (mgrs s)(b := m)\<rparr>"
  have "m_origin (mgrs s b) = b" "id_origin (cid (try_claim tr)) = a"
    using inv a by (simp_all add: cluster_inv_def inv_nodes_def)
  note ans = serve_frame_claim_answer [OF r] this
  have "shrinks N L s b m {}"
    using shrinks_serve [OF inv a(2), of "MClaim L (try_claim tr)" auth sok now "key a"] by (simp add: r)
  from cluster_inv_shrunk [OF inv this drops_try_same] have inv': "cluster_inv N L ?s" by simp
  have "honest N L ?s b (MAnswer rs es ws)"
    using ans a(3) entry_answer_honest [OF a(2), of L ?s now] by simp
  moreover have "id_lamport (cid (try_claim tr)) \<le> clock_at ?s b" using ans a(3) by simp
  ultimately have "cluster_inv N L (answered ?s a tr b (MAnswer rs es ws))"
    using inv' a by (intro cluster_inv_answered) auto
  then show ?thesis by (simp add: answered_def)
qed

lemma ended_removed:
  "fst ` set (ended (get_entry L (m_table (release_commit L i mark now m)))) \<subseteq>
     insert i (fst ` set (ended (get_entry L (m_table m))))"
  "fst ` set (ended (get_entry L (m_table (fst (lose sok targets L i why now m))))) \<subseteq>
     insert i (fst ` set (ended (get_entry L (m_table m))))"
  "ended (get_entry L (m_table (attempt_abort L c m))) = ended (get_entry L (m_table m))"
proof -
  have t: "ended (get_entry L (m_table (take_own L i w m))) = ended (get_entry L (m_table m))" for w
    by (simp add: take_own_def Let_def split: option.split)
  show "fst ` set (ended (get_entry L (m_table (release_commit L i mark now m)))) \<subseteq>
     insert i (fst ` set (ended (get_entry L (m_table m))))"
    by (simp add: release_commit_def Let_def keys_entry_end t split: option.split)
  show "fst ` set (ended (get_entry L (m_table (fst (lose sok targets L i why now m))))) \<subseteq>
     insert i (fst ` set (ended (get_entry L (m_table m))))"
    by (auto simp: lose_def Let_def keys_entry_end t)
  show "ended (get_entry L (m_table (attempt_abort L c m))) = ended (get_entry L (m_table m))"
  proof (cases "map_of (locks (m_table m)) L")
    case (Some e)
    then have "get_entry L (m_table m) = e" by (simp add: get_entry_def)
    with Some show ?thesis by (simp add: attempt_abort_def)
  qed (simp add: attempt_abort_def)
qed

lemma shrinks_removed:
  assumes inv: "cluster_inv N L s" and a: "a \<in> N" and i: "own_id L (m_table (mgrs s a)) = Some i"
    and m: "m_origin m = m_origin (mgrs s a)" "table_ok (m_table (mgrs s a)) \<Longrightarrow> table_ok (m_table m)"
      "clock (m_table m) = clock_at s a" "own_of L m = None"
      "fst ` set (ended (get_entry L (m_table m))) \<subseteq> insert i (fst ` set (ended (get_entry L (m_table (mgrs s a)))))"
  shows "shrinks N L s a m {i}"
proof -
  obtain o1 where o1: "own_at L s a = Some o1" "cid (own_claim o1) = i"
    using i by (auto simp: own_id_get_entry)
  have "m_origin (mgrs s a) = a" "table_ok (m_table (mgrs s a))" "id_origin i = a" "id_lamport i \<le> clock_at s a"
    using inv a o1 by (auto simp: cluster_inv_def inv_nodes_def)
  moreover have "end_known N L s j \<or> j \<in> {i}" if "j \<in> fst ` set (ended (get_entry L (m_table m)))" for j
    using m(5) that a unfolding end_known_def by blast
  ultimately show ?thesis using a m unfolding shrinks_def by simp
qed

lemma step_removed:
  assumes inv: "cluster_inv N L s" and "shrinks N L s a m {i}"
  shows "cluster_inv N L (s\<lparr>mgrs := (mgrs s)(a := m), announced := insert i (announced s)\<rparr>)"
  using cluster_inv_shrunk [OF assms drops_try_same] by (simp add: shrunk_def)

lemma step_abort:
  assumes inv: "cluster_inv N L s" and a: "a \<in> N" "tries s a = Some tr"
  shows "cluster_inv N L
      (s\<lparr>mgrs := (mgrs s)(a := attempt_abort L (try_claim tr) (mgrs s a)), tries := (tries s)(a := None)\<rparr>)"
proof -
  let ?m = "attempt_abort L (try_claim tr) (mgrs s a)"
  have n: "m_origin (mgrs s a) = a" "table_ok (m_table (mgrs s a))"
    "\<forall>o1. own_at L s a = Some o1 \<longrightarrow> cid (own_claim o1) = cid (try_claim tr)"
    using inv a by (auto simp: cluster_inv_def inv_nodes_def)
  then have own: "own_of L ?m = None"
    by (cases "own_at L s a") (auto simp: own_attempt_abort keep_unless_def)
  have "shrinks N L s a ?m {}"
    using a n own by (auto simp: shrinks_def ended_removed(3) m_fields table_ok_abort end_known_def)
  from cluster_inv_shrunk [OF inv this, of "(tries s)(a := None)"] own
  show ?thesis by (simp add: drops_try_def) (simp add: shrunk_def)
qed

lemma step_decide:
  assumes inv: "cluster_inv N L s" and a: "a \<in> N" "tries s a = Some tr"
    and all: "\<And>b. b \<in> N \<Longrightarrow> b \<noteq> a \<Longrightarrow> b \<in> fst ` set (try_answers tr)" and L: "rq_lock request = L"
    and r: "attempt_decide cd request (try_claim tr) sent now wall (gather_try key tr) (mgrs s a) = (m, d)"
  shows "cluster_inv N L (s\<lparr>mgrs := (mgrs s)(a := m), tries := (tries s)(a := None),
         announced := announced s \<union> (case d of Inr (DWithdraw _) \<Rightarrow> {cid (try_claim tr)} | _ \<Rightarrow> {}),
         log := (if own_of L m \<noteq> None then cid (try_claim tr) # log s else log s)\<rparr>)"
proof -
  let ?X = "cid (try_claim tr)" and ?e = "get_entry L (m_table (mgrs s a))"
  let ?de = "decide_entry (try_claim tr) (ttl request) sent now (gather_try key tr) ?e"
  let ?D = "case d of Inr (DWithdraw _) \<Rightarrow> {?X} | _ \<Rightarrow> {}"
  have D: "?D = (if is_yield (snd ?de) then {?X} else {})"
    using attempt_decide_withdraws [OF r] unfolding L by (auto split: sum.splits decided.splits)
  have m: "m = fst (attempt_decide cd request (try_claim tr) sent now wall (gather_try key tr) (mgrs s a))"
    by (simp add: r)
  have n: "m_origin (mgrs s a) = a" "table_ok (m_table (mgrs s a))" "id_origin ?X = a" "id_lamport ?X \<le> clock_at s a"
    "\<forall>o1. own_at L s a = Some o1 \<longrightarrow> cid (own_claim o1) = ?X \<and> \<not> own_held o1"
    "\<forall>b msg. (b, msg) \<in> set (try_answers tr) \<longrightarrow> id_lamport ?X \<le> clock_at s b"
    using inv a by (auto simp: cluster_inv_def inv_nodes_def)
  have e: "get_entry L (m_table m) = fst ?de" by (simp add: m m_table_attempt_decide L)
  have f: "m_origin m = a" "table_ok (m_table m)" "clock_at s a \<le> clock (m_table m)"
    unfolding m using n(1,2) by (simp, intro table_ok_attempt_decide, simp, intro clock_attempt_decide)
  have known: "end_known N L s i \<or> i \<in> ?D" if "i \<in> fst ` set (ended (fst ?de))" for i
    using ended_decide [of "try_claim tr" "ttl request" sent now "gather_try key tr" ?e] that
      gather_try_ended [of i key tr] a unfolding D end_known_def by blast
  show ?thesis
  proof (cases "own_of L m")
    case None
    have "shrinks N L s a m ?D"
      using a f n known None order_trans [OF n(4) f(3)] unfolding shrinks_def e D by simp
    from cluster_inv_shrunk [OF inv this, of "(tries s)(a := None)"] None
    show ?thesis by (simp add: drops_try_def) (simp add: shrunk_def)
  next
    case (Some o1)
    then obtain o0 where o0: "own_at L s a = Some o0" "own_held o1" "cid (own_claim o1) = ?X"
      using own_decide [of "try_claim tr" "ttl request" sent now "gather_try key tr" ?e o1] n(5) by (auto simp: e)
    have own: "own (fst ?de) = Some o1" using Some by (simp add: e)
    obtain sups where h: "?de = (fst ?de, Some (Hold sups))"
      using own_decide_holds [OF own o0(3)] by blast
    have D0: "?D = {}" unfolding D using own_yield [of "try_claim tr"] own by (metis option.distinct(1))
    have "\<not> own_held o2 \<and> ?X < cid (own_claim o2)"
      if "b \<in> N" "b \<noteq> a" "own_at L s b = Some o2" for b o2
      using others_after [OF inv a _ all h that] o0(1) by simp
    moreover have "id_lamport ?X \<le> clock_at s b" if "b \<in> N" "b \<noteq> a" for b
      using all [OF that] n(6) by fastforce
    ultimately have "wins N L s a tr m"
      using a f n(5) o0 Some known unfolding wins_def e D0 by simp
    from cluster_inv_wins [OF inv this] D0 Some show ?thesis by (simp add: held_now_def)
  qed
qed

lemma step_keeps_inv:
  assumes "cluster_step N L auth cd key s s'" "cluster_inv N L s"
  shows "cluster_inv N L s'"
  using assms
proof (cases rule: cluster_step.cases)
  case (serve b request sok now peer)
  from cluster_inv_shrunk [OF assms(2) shrinks_serve [OF assms(2) serve(2)] drops_try_same] serve
  show ?thesis by simp
next
  case (begins a request non now wall m c)
  from cluster_inv_begun [OF assms(2) begins(2,3) attempt_begin_anew [OF begins(7,5,6)]]
  show ?thesis by (simp add: begins(1) begun_def)
next
  case (ask a b tr sok now m rs es ws)
  from step_ask [where key = key, OF assms(2) ask(2-6)] ask(1) show ?thesis by simp
next
  case (decide a tr request sent now wall m d)
  from step_decide [OF assms(2) decide(2-6)] decide(1) show ?thesis by simp
next
  case (abort a tr)
  from step_abort [OF assms(2) abort(2,3)] abort(1) show ?thesis by simp
next
  case (release a i mark now)
  have "shrinks N L s a (release_commit L i mark now (mgrs s a)) {i}"
    using release(3) by (intro shrinks_removed [OF assms(2) release(2,3)] ended_removed(1))
      (auto simp: table_ok_release_commit own_of_release_commit own_id_get_entry keep_unless_def)
  from step_removed [OF assms(2) this] release(1) show ?thesis by simp
next
  case (lose a i sok targets why now)
  have "shrinks N L s a (fst (lose sok targets L i why now (mgrs s a))) {i}"
    using lose(3) by (intro shrinks_removed [OF assms(2) lose(2,3)] ended_removed(2))
      (auto simp: table_ok_lose own_of_lose own_id_get_entry keep_unless_def)
  from step_removed [OF assms(2) this] lose(1) show ?thesis by simp
next
  case (local a m)
  from cluster_inv_shrunk [OF assms(2) shrinks_quiet [OF assms(2) local(2) local_op_quiet [OF local(3)]]
      drops_try_same] local(1)
  show ?thesis by simp
qed

lemma cluster_init_inv: "cluster_inv N L (cluster_init cw hw)"
proof -
  have "own_at L (cluster_init cw hw) a = None" "ended (get_entry L (m_table (mgrs (cluster_init cw hw) a))) = []"
    "table_ok (m_table (mgrs (cluster_init cw hw) a))" for a
    by (simp_all add: cluster_init_def manager_new_def table_default_def get_entry_def entry_default_def
        table_ok_def)
  then show ?thesis
    by (simp add: cluster_inv_def inv_nodes_def inv_dead_def inv_pair_def inv_excl_def inv_log_def
        end_known_def) (simp add: cluster_init_def manager_new_def)
qed

lemma cluster_run_inv:
  "cluster_run N L auth cd key s s' \<Longrightarrow> cluster_inv N L s \<Longrightarrow> cluster_inv N L s'"
  by (induction rule: cluster_run.induct) (auto intro: step_keeps_inv)


text \<open>A run in which \<open>Key [1]\<close> asks \<open>Key [9]\<close> and takes the lock.\<close>

definition demo_key :: "origin_id \<Rightarrow> node_id" where
  "demo_key a = (case a of Key k \<Rightarrow> k | _ \<Rightarrow> [])"

definition demo_begun :: "manager \<times> claim" where
  "demo_begun = attempt_begin demo_request 7 1 1 (manager_new (Key [1]) 2 10 store_default)"

definition demo_served :: "manager \<times> lock_message" where
  "demo_served = serve_frame demo_authority True 2 [1] (MClaim demo_lock (snd demo_begun))
     (manager_new (Key [9]) 2 10 store_default)"

definition demo_try :: exchange where
  "demo_try = \<lparr>try_claim = snd demo_begun, try_answers = [(Key [9], snd demo_served)]\<rparr>"

definition demo_decided :: "manager \<times> (engine_error + decided)" where
  "demo_decided = attempt_decide demo_codec demo_request (snd demo_begun) 2 3 1
     (gather_try demo_key demo_try) (fst demo_begun)"

lemma demo_begun_simps:
  "cid (snd demo_begun) = ClaimId (Ticket 1 (Key [1])) 7"
  "message_check (MClaim demo_lock (snd demo_begun)) = Inr ()"
proof -
  have "millis (30 * secs_ns) = (30000 :: u32)" by (simp add: millis_def)
  then show "message_check (MClaim demo_lock (snd demo_begun)) = Inr ()"
    by (simp add: demo_begun_def attempt_begin_def Let_def demo_request_def claim_check_def
        MIN_LOCK_TTL_MS_def MAX_LOCK_TTL_MS_def)
  show "cid (snd demo_begun) = ClaimId (Ticket 1 (Key [1])) 7"
    by (simp add: demo_begun_def attempt_begin_def Let_def manager_new_def table_default_def heard_def)
qed

lemma demo_served_answer:
  "\<exists>r. snd demo_served = MAnswer [\<lparr>r_claim = snd demo_begun, r_state = Live, remaining_ms = r\<rparr>] [] []"
  using demo_begun_simps
  by (simp add: demo_served_def serve_frame_def serve_def record_claim_def record_table_def manager_new_def
      table_default_def hear_def table_full_def claims_def claims_of_def Let_def MAX_TABLE_CLAIMS_def
      MAX_CLAIMS_PER_ORIGIN_def observe_def get_entry_def entry_default_def entry_answer_def
      answer_reports_def answer_ended_def answer_watermarks_def refresh_def sorted_observed_def
      obs_report_def obs_state_def MAX_LOCK_REPORTS_def)

lemma demo_decided_holds:
  "\<exists>o1. own_of demo_lock (fst demo_decided) = Some o1 \<and> own_held o1"
proof -
  obtain r where r: "snd demo_served =
      MAnswer [\<lparr>r_claim = snd demo_begun, r_state = Live, remaining_ms = r\<rparr>] [] []"
    using demo_served_answer by blast
  show ?thesis
    by (simp add: demo_decided_def gather_try_def demo_try_def r demo_begun_def attempt_eval)
qed

definition demo_cluster :: cluster where
  "demo_cluster = (cluster_init 2 10)\<lparr>
     mgrs := (mgrs (cluster_init 2 10))(Key [1] := fst demo_begun, Key [9] := fst demo_served,
       Key [1] := fst demo_decided),
     tries := (\<lambda>_. None),
     announced := (case snd demo_decided of Inr (DWithdraw _) \<Rightarrow> {cid (snd demo_begun)} | _ \<Rightarrow> {}),
     log := [cid (snd demo_begun)]\<rparr>"

lemma demo_run:
  "cluster_run {Key [1], Key [9]} demo_lock demo_authority demo_codec demo_key (cluster_init 2 10) demo_cluster"
proof -
  let ?step = "cluster_step {Key [1], Key [9]} demo_lock demo_authority demo_codec demo_key"
  let ?s0 = "cluster_init 2 10"
  let ?s1 = "?s0\<lparr>mgrs := (mgrs ?s0)(Key [1] := fst demo_begun),
    tries := (tries ?s0)(Key [1] := Some \<lparr>try_claim = snd demo_begun, try_answers = []\<rparr>)\<rparr>"
  let ?s2 = "?s1\<lparr>mgrs := (mgrs ?s1)(Key [9] := fst demo_served), tries := (tries ?s1)(Key [1] := Some demo_try)\<rparr>"
  have own0: "own_at demo_lock ?s0 a = None" for a
    by (simp add: cluster_init_def manager_new_def table_default_def get_entry_def entry_default_def)
  have "?step ?s0 ?s1"
    by (rule cluster_step.begins [where request = demo_request and non = 7 and now = 1 and wall = 1])
      (simp_all add: own0, simp_all add: cluster_init_def demo_begun_def demo_request_def
        manager_new_def table_default_def heard_def)
  moreover have "?step ?s1 ?s2"
  proof -
    obtain rs es ws where "snd demo_served = MAnswer rs es ws" using demo_served_answer by blast
    then show ?thesis
      using cluster_step.ask [of "Key [1]" "{Key [1], Key [9]}" "Key [9]" ?s1
          "\<lparr>try_claim = snd demo_begun, try_answers = []\<rparr>" demo_authority True 2 demo_key demo_lock
          "fst demo_served" rs es ws demo_codec]
      by (simp add: demo_try_def) (simp add: demo_key_def cluster_init_def demo_served_def prod_eq_iff)
  qed
  moreover have "?step ?s2 demo_cluster"
  proof -
    have claim: "try_claim demo_try = snd demo_begun" by (simp add: demo_try_def)
    have "fst ` set (try_answers demo_try) = {Key [9]}" "rq_lock demo_request = demo_lock"
      by (simp_all add: demo_try_def demo_request_def)
    moreover have "attempt_decide demo_codec demo_request (snd demo_begun) 2 3 1 (gather_try demo_key demo_try)
        (mgrs ?s2 (Key [1])) = (fst demo_decided, snd demo_decided)" by (simp add: demo_decided_def)
    ultimately have "?step ?s2 (?s2\<lparr>mgrs := (mgrs ?s2)(Key [1] := fst demo_decided),
        tries := (tries ?s2)(Key [1] := None),
        announced := announced ?s2 \<union>
          (case snd demo_decided of Inr (DWithdraw _) \<Rightarrow> {cid (snd demo_begun)} | _ \<Rightarrow> {}),
        log := (if own_of demo_lock (fst demo_decided) \<noteq> None then cid (snd demo_begun) # log ?s2
          else log ?s2)\<rparr>)"
      using cluster_step.decide [of "Key [1]" "{Key [1], Key [9]}" ?s2 demo_try demo_request demo_lock
        demo_codec 2 3 1 demo_key "fst demo_decided" "snd demo_decided" demo_authority, unfolded claim] by simp
    moreover have "own_of demo_lock (fst demo_decided) \<noteq> None" using demo_decided_holds by auto
    ultimately show ?thesis by (simp add: demo_cluster_def cluster_init_def)
  qed
  ultimately show ?thesis by (meson cluster_run.intros)
qed




end
