(* ===== verification/Lock_Progress.thy ===== *)
theory Lock_Progress
  imports Lock_Acquire
begin

text \<open>
  Progress of an acquisition: the two loops of \<open>acquire\<close>, its retries and the wait for the handoff,
  end at their deadlines. The loops run over lists of observations, and a result of \<open>None\<close> is a loop
  that still waits when they are used up; these lemmas say which observations are enough.
\<close>

section \<open>The wait for the handoff\<close>

lemma handoff_loop_returns:
  "\<exists>l \<in> set looks. deadline_at \<le> snd l \<Longrightarrow> handoff_loop deadline_at marks looks \<noteq> None"
  by (induction deadline_at marks looks rule: handoff_loop.induct) auto

text \<open>The observations of one attempt reach past the deadline of its wait.\<close>

definition looks_out :: "duration \<Rightarrow> attempt_env \<Rightarrow> bool" where
  "looks_out window env \<longleftrightarrow> (\<exists>l \<in> set (ae_looks env). ae_decided env + window \<le> snd l)"

lemma await_handoff_returns:
  "looks_out window env \<Longrightarrow> await_handoff window (ae_decided env) marks (ae_looks env) \<noteq> None"
  using handoff_loop_returns by (auto simp: await_handoff_def looks_out_def)

section \<open>One attempt\<close>

lemma window_update_table [simp]: "handoff_window (update_table f m) = handoff_window m"
  by (simp add: update_table_def)

lemma window_attempt_begin [simp]: "handoff_window (fst (attempt_begin request non now wall m)) = handoff_window m"
  by (simp add: attempt_begin_def Let_def)

lemma window_persist [simp]:
  "handoff_window (fst (persist_clock sok m)) = handoff_window m"
  "handoff_window (fst (persist_hold sok row m)) = handoff_window m"
  "handoff_window (fst (forget_hold sok lock i m)) = handoff_window m"
  by (simp_all add: persist_clock_def persist_hold_def forget_hold_def Let_def split: option.split)

lemma window_attempt_decide [simp]:
  "handoff_window (fst (attempt_decide cd request c sent now wall g m)) = handoff_window m"
  by (simp add: attempt_decide_def Let_def case_prod_unfold split: option.split verdict.split)

lemma window_attempt_abort [simp]: "handoff_window (attempt_abort lock c m) = handoff_window m"
  by (simp add: attempt_abort_def split: option.split)

lemma window_take_own [simp]: "handoff_window (take_own lock i loss m) = handoff_window m"
  by (simp add: take_own_def Let_def split: option.split)

lemma window_release [simp]: "handoff_window (fst (release sok head targets lock tok now m)) = handoff_window m"
proof -
  have "handoff_window (release_commit lock i mark now m) = handoff_window m" for i mark
    by (simp add: release_commit_def Let_def)
  then show ?thesis
    using window_persist(3) [of sok lock _ "release_commit lock _ _ now m"]
    by (auto simp: release_def Let_def case_prod_unfold split: sum.split)
qed

lemma attempt_returns:
  assumes "looks_out (handoff_window m) env"
  shows "snd (snd (attempt cd env request m)) \<noteq> None" "handoff_window (fst (attempt cd env request m)) = handoff_window m"
proof -
  have n: "(await_handoff (handoff_window m) (ae_decided env) marks (ae_looks env) = None) = False" for marks
    using await_handoff_returns [OF assms] by blast
  show "snd (snd (attempt cd env request m)) \<noteq> None" "handoff_window (fst (attempt cd env request m)) = handoff_window m"
    by (simp_all add: attempt_def Let_def case_prod_unfold n split: sum.split option.split decided.split)
qed

section \<open>The retries\<close>

lemma acquire_loop_returns:
  assumes "\<exists>turn \<in> set turns. give_up \<le> snd turn" "\<forall>turn \<in> set turns. looks_out (handoff_window m) (fst turn)"
  shows "snd (snd (acquire_loop cd give_up request turns m)) \<noteq> None"
  using assms
proof (induction turns arbitrary: m)
  case (Cons turn turns)
  obtain env now where t: "turn = (env, now)" by fastforce
  have later: "snd (snd (acquire_loop cd give_up request turns m')) \<noteq> None"
    if "handoff_window m' = handoff_window m" "\<not> give_up \<le> now" for m'
    using Cons that t by auto
  obtain m' out r where a: "attempt cd env request m = (m', out, r)" by (metis prod.exhaust)
  have "r \<noteq> None" "handoff_window m' = handoff_window m" using attempt_returns [of m env cd request] Cons(3) a t by auto
  then show ?case
    using a later [of m'] later [of m] by (auto simp: t case_prod_unfold Let_def split: sum.split option.split)
qed simp



end
