(* ===== verification/Text_Ops.thy ===== *)
theory Text_Ops
  imports Numerals
begin

text \<open>
  Further operations of Rust's \<open>str\<close>: prefixes and suffixes, splitting from the right, lines,
  white space, the ASCII case and digit tests, and lossy UTF-8 decoding.
\<close>

definition starts_with :: "rstr \<Rightarrow> rstr \<Rightarrow> bool" where
  "starts_with p s \<longleftrightarrow> take (length p) s = p"

definition ends_with :: "rstr \<Rightarrow> rstr \<Rightarrow> bool" where
  "ends_with p s \<longleftrightarrow> starts_with (rev p) (rev s)"

definition strip_prefix :: "rstr \<Rightarrow> rstr \<Rightarrow> rstr option" where
  "strip_prefix p s = (if starts_with p s then Some (drop (length p) s) else None)"

definition strip_suffix :: "rstr \<Rightarrow> rstr \<Rightarrow> rstr option" where
  "strip_suffix p s = (if ends_with p s then Some (take (length s - length p) s) else None)"

definition rsplit_once :: "nat \<Rightarrow> rstr \<Rightarrow> (rstr \<times> rstr) option" where
  "rsplit_once d s = map_option (\<lambda>(a, b). (rev b, rev a)) (split_once d (rev s))"

text \<open>\<open>splitn(3, d)\<close>, as the three pieces it may yield.\<close>

definition splitn3 :: "nat \<Rightarrow> rstr \<Rightarrow> rstr list" where
  "splitn3 d s =
     (case split_once d s of None \<Rightarrow> [s]
      | Some (a, r) \<Rightarrow> (case split_once d r of None \<Rightarrow> [a, r] | Some (b, c) \<Rightarrow> [a, b, c]))"

text \<open>\<open>str::lines\<close>: a line ends at a line feed or at a carriage return followed by one, and the
  text after the last line feed is a line only when there is some.\<close>

definition strip_cr :: "rstr \<Rightarrow> rstr" where
  "strip_cr s = (if s \<noteq> [] \<and> last s = 13 then butlast s else s)"

fun line_list :: "rstr list \<Rightarrow> rstr list" where
  "line_list [] = []"
| "line_list [s] = (if s = [] then [] else [s])"
| "line_list (s # s' # ss) = strip_cr s # line_list (s' # ss)"

definition lines :: "rstr \<Rightarrow> rstr list" where
  "lines s = line_list (split_on 10 s)"

definition is_hexdigit :: "nat \<Rightarrow> bool" where
  "is_hexdigit c \<longleftrightarrow> (48 \<le> c \<and> c \<le> 57) \<or> (97 \<le> c \<and> c \<le> 102) \<or> (65 \<le> c \<and> c \<le> 70)"

definition ascii_lower :: "nat \<Rightarrow> nat" where
  "ascii_lower c = (if 65 \<le> c \<and> c \<le> 90 then c + 32 else c)"

definition ascii_upper :: "nat \<Rightarrow> nat" where
  "ascii_upper c = (if 97 \<le> c \<and> c \<le> 122 then c - 32 else c)"

definition eq_ignore_ascii_case :: "rstr \<Rightarrow> rstr \<Rightarrow> bool" where
  "eq_ignore_ascii_case a b \<longleftrightarrow> map ascii_lower a = map ascii_lower b"

lemma starts_with_iff: "starts_with p s \<longleftrightarrow> (\<exists>r. s = p @ r)"
  unfolding starts_with_def by (metis append_eq_conv_conj append_take_drop_id)

lemma starts_with_append [simp]: "starts_with p (p @ s)"
  by (auto simp: starts_with_iff)

lemma ends_with_iff: "ends_with p s \<longleftrightarrow> (\<exists>r. s = r @ p)"
  unfolding ends_with_def starts_with_iff by (metis rev_append rev_rev_ident)

lemma strip_prefix_Some [simp]: "strip_prefix p s = Some r \<longleftrightarrow> s = p @ r"
  by (auto simp: strip_prefix_def starts_with_iff)

lemma strip_prefix_append [simp]: "strip_prefix p (p @ r) = Some r"
  by simp

lemma strip_suffix_Some [simp]: "strip_suffix p s = Some r \<longleftrightarrow> s = r @ p"
  by (auto simp: strip_suffix_def ends_with_iff)

lemma rsplit_once_Some: "rsplit_once d s = Some (a, b) \<longleftrightarrow> s = a @ d # b \<and> d \<notin> set b"
proof -
  have "rsplit_once d s = Some (a, b) \<longleftrightarrow> split_once d (rev s) = Some (rev b, rev a)"
    by (auto simp: rsplit_once_def)
  also have "\<dots> \<longleftrightarrow> rev s = rev b @ d # rev a \<and> d \<notin> set b" by (simp add: split_once_Some)
  also have "\<dots> \<longleftrightarrow> s = a @ d # b \<and> d \<notin> set b"
    by (metis append.assoc append_Cons append_Nil rev_append rev_rev_ident rev_singleton_conv rev.simps(2))
  finally show ?thesis .
qed

lemma utf8_len_ascii: "list_all (\<lambda>c. c < 0x80) s \<Longrightarrow> utf8_len s = length s"
  by (induction s) (auto simp: utf8_width_def)

lemma hexdigit_ascii: "is_hexdigit c \<Longrightarrow> c < 0x80"
  by (auto simp: is_hexdigit_def)

lemma join_with_append:
  "ws \<noteq> [] \<Longrightarrow> vs \<noteq> [] \<Longrightarrow> join_with d (ws @ vs) = join_with d ws @ d # join_with d vs"
proof (induction d ws rule: join_with.induct)
  case (2 d w)
  then show ?case by (cases vs) auto
qed auto

lemma line_list_terminated:
  "line_list (ss @ [[]]) = map strip_cr ss"
  by (induction ss rule: line_list.induct) auto

text \<open>\<open>str::split_whitespace\<close>.\<close>

fun split_by :: "(nat \<Rightarrow> bool) \<Rightarrow> rstr \<Rightarrow> rstr list" where
  "split_by q [] = [[]]"
| "split_by q (c # s) =
     (if q c then [] # split_by q s
      else case split_by q s of [] \<Rightarrow> [[c]] | w # ws \<Rightarrow> (c # w) # ws)"

definition split_whitespace :: "rstr \<Rightarrow> rstr list" where
  "split_whitespace s = filter (\<lambda>w. w \<noteq> []) (split_by is_whitespace s)"

text \<open>\<open>String::from_utf8_lossy\<close>: each maximal invalid part becomes one replacement character.\<close>

definition bad_len :: "nat list \<Rightarrow> nat" where
  "bad_len bs = (case bs of
      b # b1 # r \<Rightarrow>
        if 0xE0 \<le> b \<and> b < 0xF0 then
          (if is_cont b1 \<and> (b = 0xE0 \<longrightarrow> 0xA0 \<le> b1) \<and> (b = 0xED \<longrightarrow> b1 < 0xA0) then 2 else 1)
        else if 0xF0 \<le> b \<and> b < 0xF5 then
          (if is_cont b1 \<and> (b = 0xF0 \<longrightarrow> 0x90 \<le> b1) \<and> (b = 0xF4 \<longrightarrow> b1 < 0x90)
           then (case r of b2 # _ \<Rightarrow> if is_cont b2 then 3 else 2 | [] \<Rightarrow> 2) else 1)
        else 1
    | _ \<Rightarrow> 1)"

lemma bad_len_pos: "0 < bad_len bs"
  by (auto simp: bad_len_def split: list.split)

function utf8_lossy :: "nat list \<Rightarrow> rstr" where
  "utf8_lossy bs =
     (if bs = [] then []
      else case utf8_step bs of
          None \<Rightarrow> 0xFFFD # utf8_lossy (drop (bad_len bs) bs)
        | Some (c, n) \<Rightarrow> c # utf8_lossy (drop n bs))"
  by pat_completeness auto
termination
  by (relation "measure length") (auto dest: utf8_step_pos simp: bad_len_pos diff_less)

declare utf8_lossy.simps [simp del]

definition from_utf8_lossy :: "bytes \<Rightarrow> rstr" where
  "from_utf8_lossy bs = utf8_lossy (map unat bs)"

lemma utf8_lossy_encode: "valid_str s \<Longrightarrow> utf8_lossy (concat (map utf8_char s)) = s"
proof (induction s)
  case (Cons c s)
  then show ?case by (subst utf8_lossy.simps) (simp add: utf8_step_char)
qed (simp add: utf8_lossy.simps)

lemma from_utf8_lossy_as_bytes: "valid_str s \<Longrightarrow> from_utf8_lossy (as_bytes s) = s"
  by (simp add: from_utf8_lossy_def map_unat_as_bytes utf8_lossy_encode)

end
