(* ===== verification/Git_Paths.thy ===== *)
theory Git_Paths
  imports Text_Ops Keyspace
begin

text \<open>
  The classification of paths inside git directories (\<^verbatim>\<open>synch-core/src/git.rs\<close>): where the
  innermost git directory of a path ends, what the path is to the sync engine, the order a consumer
  writes it in, and the three text shapes of git the engine reads. The source keeps byte offsets of
  the components; here a position is the number of components before it.
\<close>

section \<open>Classes and ranks\<close>

datatype git_class = Transient | MachineLocal | Pointer | Object | ObjectCache | Ref | WorktreeState
  | Repository

fun class_rank :: "git_class \<Rightarrow> nat" where
  "class_rank Repository = 0"
| "class_rank Pointer = 0"
| "class_rank Object = 1"
| "class_rank ObjectCache = 2"
| "class_rank Ref = 3"
| "class_rank WorktreeState = 4"
| "class_rank Transient = 5"
| "class_rank MachineLocal = 5"

definition is_excluded :: "git_class \<Rightarrow> bool" where
  "is_excluded c \<longleftrightarrow> c = Transient \<or> c = MachineLocal"

record git_path =
  g_root :: rstr
  g_inner :: rstr
  g_class :: git_class

definition materialize_rank :: "git_path \<Rightarrow> nat \<times> nat" where
  "materialize_rank g =
     (class_rank (g_class g),
      case g_class g of
        Object \<Rightarrow> if ends_with (str ''.pack'') (g_inner g) then 0 else 1
      | Ref \<Rightarrow> if g_inner g = str ''HEAD'' then 2
               else if g_inner g = str ''packed-refs'' \<or> g_inner g = str ''shallow'' then 0 else 1
      | WorktreeState \<Rightarrow> if g_inner g = str ''index'' then 1 else 0
      | _ \<Rightarrow> 0)"

definition names_objects :: "git_path \<Rightarrow> nat \<Rightarrow> bool" where
  "names_objects g sz \<longleftrightarrow>
     g_class g = Ref \<and>
     (let loose = g_inner g = str ''HEAD'' \<or> starts_with (str ''refs/'') (g_inner g)
      in \<not> loose \<or> sz = 41 \<or> sz = 65)"

definition in_worktree_private_dir :: "git_path \<Rightarrow> bool" where
  "in_worktree_private_dir g \<longleftrightarrow>
     (case rsplit_once slash (g_root g) of
        None \<Rightarrow> False
      | Some (parent, _) \<Rightarrow>
          (case rsplit_once slash parent of None \<Rightarrow> False | Some (_, dir) \<Rightarrow> dir = str ''worktrees''))
     \<or> starts_with (str ''worktrees/'') (g_root g)"

definition loose_ref :: "git_path \<Rightarrow> rstr option" where
  "loose_ref g = (if g_class g = Ref then strip_prefix (str ''refs/'') (g_inner g) else None)"

section \<open>The class of a path inside a git directory\<close>

definition under :: "rstr \<Rightarrow> rstr \<Rightarrow> bool" where
  "under inner prefix =
     (case strip_prefix prefix inner of None \<Rightarrow> False
      | Some rest \<Rightarrow> rest = [] \<or> hd rest = slash)"

definition is_hex_dir :: "rstr \<Rightarrow> bool" where
  "is_hex_dir name \<longleftrightarrow> utf8_len name = 2 \<and> list_all is_hexdigit name"

definition is_loose_object_name :: "rstr \<Rightarrow> bool" where
  "is_loose_object_name name \<longleftrightarrow> (utf8_len name = 38 \<or> utf8_len name = 62) \<and> list_all is_hexdigit name"

definition is_pack_file :: "rstr \<Rightarrow> bool" where
  "is_pack_file name =
     (case strip_prefix (str ''pack-'') name of None \<Rightarrow> False
      | Some rest \<Rightarrow>
          (case rsplit_once 46 rest of None \<Rightarrow> False
           | Some (hash, ext) \<Rightarrow>
               hash \<noteq> [] \<and> list_all is_hexdigit hash \<and>
               ext \<in> set (map str [''pack'', ''idx'', ''rev'', ''bitmap'', ''keep'', ''promisor'', ''mtimes''])))"

definition is_transient :: "rstr \<Rightarrow> bool" where
  "is_transient inner \<longleftrightarrow>
     ends_with (str ''.lock'') (last (split_on slash inner)) \<or>
     inner = str ''gc.pid'' \<or> inner = str ''gc.log'' \<or> inner = str ''fsmonitor--daemon.ipc'' \<or>
     under inner (str ''fsmonitor--daemon'') \<or> under inner (str ''lfs/tmp'') \<or>
     under inner (str ''lfs/incomplete'') \<or> under inner (str ''refs/synch'')"

definition object_class :: "rstr \<Rightarrow> git_class option" where
  "object_class rest =
     (case splitn3 slash rest of
        [a] \<Rightarrow> if starts_with (str ''tmp_'') a then Some Transient else None
      | [a, b] \<Rightarrow>
          if a = str ''pack'' \<and> (starts_with (str ''tmp_'') b \<or> starts_with (str ''.tmp-'') b)
          then Some Transient
          else if is_hex_dir a \<and> starts_with (str ''tmp_obj_'') b then Some Transient
          else if is_hex_dir a \<and> is_loose_object_name b then Some Object
          else if a = str ''pack'' \<and> is_pack_file b then Some Object
          else if a = str ''pack'' \<and> starts_with (str ''multi-pack-index'') b then Some ObjectCache
          else if a = str ''info'' \<and> (b = str ''alternates'' \<or> b = str ''http-alternates'')
          then Some MachineLocal
          else if a = str ''info'' then Some ObjectCache else None
      | [a, b, c] \<Rightarrow> if a = str ''info'' then Some ObjectCache else None
      | _ \<Rightarrow> None)"

definition is_ref :: "rstr \<Rightarrow> bool" where
  "is_ref inner \<longleftrightarrow>
     inner = str ''HEAD'' \<or> inner = str ''packed-refs'' \<or> inner = str ''shallow'' \<or>
     under inner (str ''refs'') \<or> under inner (str ''reftable'')"

definition is_worktree_state :: "rstr \<Rightarrow> bool" where
  "is_worktree_state inner \<longleftrightarrow>
     inner = str ''index'' \<or> starts_with (str ''sharedindex.'') inner \<or>
     inner \<in> set (map str [''ORIG_HEAD'', ''FETCH_HEAD'', ''MERGE_HEAD'', ''MERGE_MSG'', ''MERGE_MODE'',
       ''MERGE_RR'', ''MERGE_AUTOSTASH'', ''REBASE_HEAD'', ''CHERRY_PICK_HEAD'', ''REVERT_HEAD'',
       ''COMMIT_EDITMSG'', ''SQUASH_MSG'', ''AUTO_MERGE'', ''NOTES_MERGE_PARTIAL'', ''NOTES_MERGE_REF'']) \<or>
     starts_with (str ''BISECT_'') inner \<or> under inner (str ''rebase-merge'') \<or>
     under inner (str ''rebase-apply'') \<or> under inner (str ''sequencer'') \<or>
     under inner (str ''logs'') \<or> under inner (str ''rr-cache'')"

definition class_of :: "rstr \<Rightarrow> git_class" where
  "class_of inner =
     (if is_transient inner then Transient
      else case Option.bind (strip_prefix (str ''objects/'') inner) object_class of
        Some c \<Rightarrow> c
      | None \<Rightarrow>
          if under inner (str ''objects'') \<or> under inner (str ''lfs/objects'') then Object
          else if inner = str ''gitdir'' then MachineLocal
          else if is_ref inner then Ref
          else if is_worktree_state inner then WorktreeState
          else Repository)"

section \<open>The innermost git directory\<close>

definition TOP_LEVEL_NAMES :: "rstr list" where
  "TOP_LEVEL_NAMES = map str [''HEAD'', ''ORIG_HEAD'', ''FETCH_HEAD'', ''MERGE_HEAD'', ''REBASE_HEAD'',
     ''CHERRY_PICK_HEAD'', ''REVERT_HEAD'', ''COMMIT_EDITMSG'', ''config'', ''index'', ''packed-refs'',
     ''shallow'', ''description'', ''objects'', ''refs'', ''logs'', ''info'', ''hooks'', ''worktrees'',
     ''modules'', ''branches'', ''remotes'', ''lfs'', ''rr-cache'', ''sequencer'', ''rebase-merge'',
     ''rebase-apply'', ''reftable'', ''gc.pid'', ''gc.log'']"

text \<open>How far the name of a submodule runs.\<close>

function name_end :: "rstr list \<Rightarrow> nat \<Rightarrow> nat" where
  "name_end cs e =
     (if e + 1 < length cs - 1 \<and> cs ! (e + 1) \<notin> set TOP_LEVEL_NAMES then name_end cs (e + 1) else e)"
  by pat_completeness auto
termination
  by (relation "measure (\<lambda>(cs, e). length cs - e)") auto

declare name_end.simps [simp del]

lemma name_end_ge: "e \<le> name_end cs e"
proof (induction cs e rule: name_end.induct)
  case (1 cs e)
  then show ?case by (subst name_end.simps) (auto dest: Suc_leD)
qed

text \<open>A bare repository's directory, by its name.\<close>

definition is_bare_name :: "rstr \<Rightarrow> bool" where
  "is_bare_name c \<longleftrightarrow> 4 < utf8_len c \<and> ends_with (str ''.git'') c"

text \<open>The loop over the components. \<open>Inl ()\<close> is the early return for a pointer file; the root is
  the number of components it takes up.\<close>

function find_root :: "rstr list \<Rightarrow> nat \<Rightarrow> nat option \<Rightarrow> unit + nat option" where
  "find_root cs i root_end =
     (if length cs \<le> i then Inr root_end
      else case root_end of
        None \<Rightarrow>
          if cs ! i = str ''.git'' then
            (if i = length cs - 1 then Inl () else find_root cs (i + 1) (Some (i + 1)))
          else if i < length cs - 1 \<and> is_bare_name (cs ! i) then find_root cs (i + 1) (Some (i + 1))
          else find_root cs (i + 1) None
      | Some k \<Rightarrow>
          if i = k \<and> cs ! i = str ''worktrees'' \<and> i + 2 \<le> length cs - 1
          then find_root cs (i + 2) (Some (i + 2))
          else if i = k \<and> cs ! i = str ''modules'' \<and> i + 2 \<le> length cs - 1
          then find_root cs (name_end cs (i + 1) + 1) (Some (name_end cs (i + 1) + 1))
          else find_root cs (i + 1) (Some k))"
  by pat_completeness auto
termination
proof (relation "measure (\<lambda>(cs, i, _). length cs - i)", goal_cases)
  case (6 cs i root_end k)
  then show ?case using name_end_ge [of "i + 1" cs] by simp
qed auto

declare find_root.simps [simp del]

definition classify :: "rstr \<Rightarrow> git_path option" where
  "classify path =
     (let cs = split_on slash path in
      case find_root cs 0 None of
        Inl _ \<Rightarrow> Some \<lparr>g_root = path, g_inner = [], g_class = Pointer\<rparr>
      | Inr None \<Rightarrow> None
      | Inr (Some k) \<Rightarrow>
          let inner = join_with slash (drop k cs)
          in Some \<lparr>g_root = join_with slash (take k cs), g_inner = inner, g_class = class_of inner\<rparr>)"

section \<open>Text shapes\<close>

datatype ref_value = RObject rstr | RSymbolic rstr

definition is_object_name :: "rstr \<Rightarrow> bool" where
  "is_object_name hex \<longleftrightarrow> (utf8_len hex = 40 \<or> utf8_len hex = 64) \<and> list_all is_hexdigit hex"

definition parse_ref :: "bytes \<Rightarrow> ref_value option" where
  "parse_ref bs =
     Option.bind (from_utf8 bs) (\<lambda>text.
     case lines text of [] \<Rightarrow> None
     | l # _ \<Rightarrow>
        let l = trim_end is_whitespace l in
        case strip_prefix (str ''ref: '') l of
          Some target \<Rightarrow> if target \<noteq> [] then Some (RSymbolic target) else None
        | None \<Rightarrow> let hex = trim l in if is_object_name hex then Some (RObject hex) else None)"

definition packed_line :: "rstr \<Rightarrow> (rstr \<times> rstr) option" where
  "packed_line l =
     Option.bind (split_once 32 (trim_end is_whitespace l)) (\<lambda>(hex, name).
     if is_object_name hex then
       let name = trim name
       in if starts_with (str ''refs/'') name \<and> 32 \<notin> set name then Some (hex, name) else None
     else None)"

definition parse_packed_refs :: "bytes \<Rightarrow> (rstr \<times> rstr) list" where
  "parse_packed_refs bs =
     (case from_utf8 bs of None \<Rightarrow> [] | Some text \<Rightarrow> List.map_filter packed_line (lines text))"

definition parse_gitdir :: "bytes \<Rightarrow> rstr option" where
  "parse_gitdir bs =
     Option.bind (from_utf8 bs) (\<lambda>text.
     case lines text of [] \<Rightarrow> None
     | l # _ \<Rightarrow>
        Option.bind (strip_prefix (str ''gitdir:'') l) (\<lambda>target.
        let target = trim target in if target \<noteq> [] then Some target else None))"

definition mirror_ref_path :: "rstr \<Rightarrow> rstr \<Rightarrow> rstr" where
  "mirror_ref_path origin_short ref_name =
     str ''refs/synch/'' @ map (\<lambda>c. if c = 58 then 45 else c) origin_short @ slash # ref_name"

section \<open>Where the root of a path is\<close>

lemma name_end_le: "e + 1 \<le> length cs - 1 \<Longrightarrow> name_end cs e + 1 \<le> length cs - 1"
proof (induction cs e rule: name_end.induct)
  case (1 cs e)
  then show ?case by (subst name_end.simps) auto
qed

lemma find_root_bound:
  "find_root cs i re = Inr (Some k) \<Longrightarrow> (\<And>j. re = Some j \<Longrightarrow> 0 < j \<and> j \<le> length cs - 1) \<Longrightarrow>
   0 < k \<and> k \<le> length cs - 1"
proof (induction cs i re rule: find_root.induct)
  case (1 cs i re)
  show ?case
  proof (cases "length cs \<le> i")
    case True
    with "1.prems" show ?thesis by (simp add: find_root.simps)
  next
    case False
    show ?thesis
    proof (cases re)
      case None
      with "1.prems" False "1.IH"(1,2,3) [OF False None] show ?thesis
        by (subst (asm) find_root.simps) (auto split: if_splits)
    next
      case (Some j)
      with "1.prems" False "1.IH"(4,5,6) [OF False Some] name_end_le [of "i + 1" cs] show ?thesis
        by (subst (asm) find_root.simps) (auto split: if_splits)
    qed
  qed
qed

text \<open>A component that opens a git directory: \<open>.git\<close>, or a bare repository's name that is not last.\<close>

definition opens :: "rstr list \<Rightarrow> nat \<Rightarrow> bool" where
  "opens cs i \<longleftrightarrow> i < length cs \<and>
     (cs ! i = str ''.git'' \<or> i < length cs - 1 \<and> is_bare_name (cs ! i))"

lemma find_root_Some: "find_root cs i (Some k) \<noteq> Inr None \<and> find_root cs i (Some k) \<noteq> Inl ()"
proof (induction cs i "Some k" arbitrary: k rule: find_root.induct)
  case (1 cs i)
  then show ?case by (subst (1 2) find_root.simps) auto
qed

lemma find_root_None: "find_root cs i None = Inr None \<longleftrightarrow> (\<forall>j. i \<le> j \<longrightarrow> \<not> opens cs j)"
proof (induction "length cs - i" arbitrary: i)
  case 0
  then show ?case by (subst find_root.simps) (auto simp: opens_def)
next
  case (Suc n)
  have IH: "find_root cs (i + 1) None = Inr None \<longleftrightarrow> (\<forall>j. i + 1 \<le> j \<longrightarrow> \<not> opens cs j)"
    using Suc by simp
  have "find_root cs i None = Inr None \<longleftrightarrow> \<not> opens cs i \<and> find_root cs (i + 1) None = Inr None"
    using Suc.hyps(2) find_root_Some by (subst find_root.simps) (auto simp: opens_def)
  with IH show ?case by (metis Suc_eq_plus1 le_antisym not_less_eq_eq Suc_leD)
qed

lemma find_root_pointer:
  "find_root cs i None = Inl () \<Longrightarrow> cs \<noteq> [] \<and> last cs = str ''.git'' \<and> (\<forall>j. i \<le> j \<and> j < length cs - 1 \<longrightarrow> \<not> opens cs j)"
proof (induction "length cs - i" arbitrary: i)
  case 0
  then show ?case by (subst (asm) find_root.simps) auto
next
  case (Suc n)
  have "find_root cs i None = Inl () \<longleftrightarrow>
      (i = length cs - 1 \<and> cs ! i = str ''.git'' \<or> \<not> opens cs i \<and> find_root cs (i + 1) None = Inl ())"
    using Suc.hyps(2) find_root_Some by (subst find_root.simps) (auto simp: opens_def)
  with Suc.prems Suc.hyps(2) consider "i < length cs" "i = length cs - 1" "cs ! i = str ''.git''"
    | "\<not> opens cs i" "find_root cs (i + 1) None = Inl ()" by fastforce
  then show ?case
  proof cases
    case 1
    then have "cs \<noteq> []" by auto
    with 1 show ?thesis by (auto simp: last_conv_nth)
  next
    case 2
    with Suc.hyps(1) [of "i + 1"] Suc.hyps(2) have
      "cs \<noteq> [] \<and> last cs = str ''.git'' \<and> (\<forall>j. i + 1 \<le> j \<and> j < length cs - 1 \<longrightarrow> \<not> opens cs j)" by simp
    moreover have "\<not> opens cs j" if "i \<le> j" "j < length cs - 1" for j
      using calculation 2(1) that by (cases "j = i") auto
    ultimately show ?thesis by blast
  qed
qed

lemma class_of_cases:
  "class_of inner = Transient \<or>
   (\<exists>rest c. inner = str ''objects/'' @ rest \<and> object_class rest = Some c \<and> class_of inner = c) \<or>
   class_of inner \<in> {Object, MachineLocal, Ref, WorktreeState, Repository}"
  unfolding class_of_def by (auto simp: Option.bind_eq_Some_conv split: option.splits)

lemma object_class_range: "object_class rest = Some c \<Longrightarrow> c \<in> {Transient, Object, ObjectCache, MachineLocal}"
  by (auto simp: object_class_def split: list.splits if_splits)

lemma class_of_not_pointer: "class_of inner \<noteq> Pointer"
  using class_of_cases [of inner] object_class_range by fastforce

text \<open>Classifying a path takes it apart without loss. A path is outside every git directory
  exactly when no component is named \<open>.git\<close> and none but the last names a bare repository; the
  path of a pointer file is a root with nothing inside and ends in \<open>.git\<close>; and every other path
  is its root, a slash, and a nonempty list of components inside, whose class alone decides it.\<close>
theorem classify_splits:
  "(classify path = None \<longleftrightarrow> (\<forall>i. \<not> opens (split_on slash path) i)) \<and>
   (classify path = Some g \<longrightarrow>
      (if g_class g = Pointer
       then g_root g = path \<and> g_inner g = [] \<and> last (split_on slash path) = str ''.git''
       else path = g_root g @ slash # g_inner g \<and> g_class g = class_of (g_inner g)))"
proof
  let ?cs = "split_on slash path"
  show "classify path = None \<longleftrightarrow> (\<forall>i. \<not> opens ?cs i)"
    using find_root_None [of ?cs 0] by (auto simp: classify_def Let_def split: sum.splits option.splits)
  show "classify path = Some g \<longrightarrow>
      (if g_class g = Pointer
       then g_root g = path \<and> g_inner g = [] \<and> last (split_on slash path) = str ''.git''
       else path = g_root g @ slash # g_inner g \<and> g_class g = class_of (g_inner g))"
  proof
    assume g: "classify path = Some g"
    consider "find_root ?cs 0 None = Inl ()" | k where "find_root ?cs 0 None = Inr (Some k)"
      using g by (auto simp: classify_def Let_def split: sum.splits option.splits)
    then show "if g_class g = Pointer
       then g_root g = path \<and> g_inner g = [] \<and> last (split_on slash path) = str ''.git''
       else path = g_root g @ slash # g_inner g \<and> g_class g = class_of (g_inner g)"
    proof cases
      case 1
      with g find_root_pointer [OF 1] show ?thesis by (auto simp: classify_def Let_def)
    next
      case (2 k)
      then have k: "0 < k" "k \<le> length ?cs - 1" using find_root_bound by blast+
      then have "take k ?cs \<noteq> []" "drop k ?cs \<noteq> []" by auto
      then have "path = join_with slash (take k ?cs) @ slash # join_with slash (drop k ?cs)"
        using join_with_append [of "take k ?cs" "drop k ?cs" slash] join_split [of slash path] by simp
      with g 2 class_of_not_pointer show ?thesis by (auto simp: classify_def Let_def)
    qed
  qed
qed

theorem classify_splits_witness:
  "classify (str ''a/.git/modules/lib/x/refs/heads/m'') =
     Some \<lparr>g_root = str ''a/.git/modules/lib/x'', g_inner = str ''refs/heads/m'', g_class = Ref\<rparr> \<and>
   str ''a/.git/modules/lib/x/refs/heads/m'' = str ''a/.git/modules/lib/x'' @ slash # str ''refs/heads/m''"
proof -
  have c: "classify (str ''a/.git/modules/lib/x/refs/heads/m'') =
     Some \<lparr>g_root = str ''a/.git/modules/lib/x'', g_inner = str ''refs/heads/m'', g_class = Ref\<rparr>"
    by (simp add: classify_def str_def slash_def find_root.simps name_end.simps is_bare_name_def
        ends_with_def starts_with_def TOP_LEVEL_NAMES_def class_of_def is_transient_def under_def
        strip_prefix_def is_ref_def)
  with classify_splits [of "str ''a/.git/modules/lib/x/refs/heads/m''"] show ?thesis by auto
qed

section \<open>The order of writing\<close>

lemma underE:
  assumes "under inner p"
  obtains rest where "inner = p @ rest" "rest = [] \<or> hd rest = slash"
  using assms by (auto simp: under_def split: option.splits)

lemma class_of_objects:
  assumes "under inner (str ''objects'')" "\<not> is_excluded (class_of inner)"
  shows "class_of inner \<in> {Object, ObjectCache}"
proof (cases "Option.bind (strip_prefix (str ''objects/'') inner) object_class")
  case None
  with assms show ?thesis by (auto simp: class_of_def is_excluded_def split: if_splits)
next
  case (Some c)
  then have "c \<in> {Transient, Object, ObjectCache, MachineLocal}"
    using object_class_range by (auto simp: Option.bind_eq_Some_conv)
  with Some assms(2) show ?thesis by (auto simp: class_of_def is_excluded_def split: if_splits)
qed

lemma class_of_refs:
  assumes "under inner (str ''refs'')" "\<not> is_excluded (class_of inner)"
  shows "class_of inner = Ref"
proof -
  obtain rest where inner: "inner = str ''refs'' @ rest" using assms(1) by (rule underE)
  have "strip_prefix (str ''objects/'') inner = None" "\<not> under inner (str ''objects'')"
    "\<not> under inner (str ''lfs/objects'')" "inner \<noteq> str ''gitdir''"
    by (simp_all add: inner str_def strip_prefix_def starts_with_def under_def)
  moreover have "is_ref inner" using assms(1) by (simp add: is_ref_def)
  ultimately show ?thesis using assms(2) by (auto simp: class_of_def is_excluded_def split: if_splits)
qed

lemma class_of_index: "class_of (str ''index'') = WorktreeState"
  by (simp add: class_of_def is_transient_def str_def slash_def ends_with_def starts_with_def under_def
      strip_prefix_def is_ref_def is_worktree_state_def)

lemma fst_rank: "fst (materialize_rank g) = class_rank (g_class g)"
  by (simp add: materialize_rank_def)

text \<open>Objects are written before the refs that name them, and the index last: of two published
  paths inside git directories, one under \<open>objects/\<close> ranks strictly before one under \<open>refs/\<close>, and
  no published path ranks after an \<open>index\<close>.\<close>
theorem objects_before_refs:
  assumes "g_class g1 = class_of (g_inner g1)" "under (g_inner g1) (str ''objects'')"
    and "\<not> is_excluded (g_class g1)"
    and "g_class g2 = class_of (g_inner g2)" "under (g_inner g2) (str ''refs'')"
    and "\<not> is_excluded (g_class g2)"
    and "g_class g3 = class_of (g_inner g3)" "g_inner g3 = str ''index''"
    and "\<not> is_excluded (g_class g)"
  shows "materialize_rank g1 < materialize_rank g2 \<and> materialize_rank g \<le> materialize_rank g3"
proof -
  have c1: "g_class g1 \<in> {Object, ObjectCache}" using class_of_objects [of "g_inner g1"] assms(1-3) by simp
  have c2: "g_class g2 = Ref" using class_of_refs [of "g_inner g2"] assms(4-6) by simp
  have c3: "g_class g3 = WorktreeState" using class_of_index assms(7,8) by simp
  have "fst (materialize_rank g1) < fst (materialize_rank g2)" using c1 c2 by (auto simp: fst_rank)
  moreover have "materialize_rank g \<le> materialize_rank g3"
  proof (cases "g_class g = WorktreeState")
    case True
    have "snd (materialize_rank g3) = 1" using c3 assms(8) by (simp add: materialize_rank_def)
    moreover have "snd (materialize_rank g) \<le> 1" using True by (simp add: materialize_rank_def)
    ultimately show ?thesis using True c3 by (simp add: less_eq_prod_def fst_rank)
  next
    case False
    then have "class_rank (g_class g) < 4" using assms(9) by (cases "g_class g") (auto simp: is_excluded_def)
    then show ?thesis using c3 by (simp add: less_eq_prod_def fst_rank)
  qed
  ultimately show ?thesis by (simp add: less_prod_def)
qed

theorem objects_before_refs_witness:
  "let g1 = \<lparr>g_root = [], g_inner = str ''objects/pack'', g_class = class_of (str ''objects/pack'')\<rparr>;
       g2 = \<lparr>g_root = [], g_inner = str ''refs/heads/m'', g_class = class_of (str ''refs/heads/m'')\<rparr>;
       g3 = \<lparr>g_root = [], g_inner = str ''index'', g_class = class_of (str ''index'')\<rparr>
   in materialize_rank g1 < materialize_rank g2 \<and> materialize_rank g2 \<le> materialize_rank g3"
  unfolding Let_def by (rule objects_before_refs)
    (simp_all add: is_excluded_def class_of_def is_transient_def str_def slash_def ends_with_def
      starts_with_def under_def strip_prefix_def is_ref_def is_worktree_state_def object_class_def
      splitn3_def)

text \<open>The refs a checkout mirrors for other origins stay local: whatever the origin and the ref
  name, the path they are written to classifies as transient, so no scan publishes it.\<close>
theorem mirror_never_published:
  "class_of (mirror_ref_path origin_short ref_name) = Transient"
proof -
  have "under (mirror_ref_path origin_short ref_name) (str ''refs/synch'')"
    by (simp add: mirror_ref_path_def under_def strip_prefix_def starts_with_def str_def slash_def)
  then show ?thesis by (simp add: class_of_def is_transient_def)
qed

text \<open>A symbolic \<open>HEAD\<close> can have the size of an object name: on a branch with a 24-letter name
  the file is 41 bytes long, it parses as a symbolic ref, and yet \<open>names_objects\<close>, which goes by
  the size alone, reports that it names an object.\<close>
theorem symbolic_head_names_objects:
  "let head = as_bytes (str ''ref: refs/heads/feature-payments-rewrite'' @ [10]) in
   parse_ref head = Some (RSymbolic (str ''refs/heads/feature-payments-rewrite'')) \<and>
   length head = 41 \<and>
   (\<exists>g. classify (str ''.git/HEAD'') = Some g \<and> names_objects g (length head))"
proof -
  let ?text = "str ''ref: refs/heads/feature-payments-rewrite'' @ [10]"
  have "valid_str ?text" by (simp add: str_def)
  then have t: "from_utf8 (as_bytes ?text) = Some ?text" by (rule from_utf8_as_bytes)
  have "parse_ref (as_bytes ?text) = Some (RSymbolic (str ''refs/heads/feature-payments-rewrite''))"
    unfolding parse_ref_def t
    by (simp add: lines_def str_def strip_cr_def trim_end_def is_whitespace_def strip_prefix_def
        starts_with_def)
  moreover have "length (as_bytes ?text) = 41" by (simp add: str_def utf8_width_def)
  moreover have "classify (str ''.git/HEAD'') =
      Some \<lparr>g_root = str ''.git'', g_inner = str ''HEAD'', g_class = Ref\<rparr>"
    by (simp add: classify_def str_def slash_def find_root.simps class_of_def is_transient_def under_def
        ends_with_def starts_with_def strip_prefix_def is_ref_def)
  ultimately show ?thesis by (simp add: Let_def names_objects_def)
qed

section \<open>Packed refs\<close>

definition packed_entry :: "rstr \<times> rstr \<times> rstr option \<Rightarrow> rstr list" where
  "packed_entry = (\<lambda>(hex, name, peeled).
     (hex @ 32 # name) # (case peeled of None \<Rightarrow> [] | Some h \<Rightarrow> [94 # h]))"

text \<open>A \<open>packed-refs\<close> file as git writes it: a header, then each ref with, for an annotated tag, the
  object it peels to.\<close>

definition packed_text :: "(rstr \<times> rstr \<times> rstr option) list \<Rightarrow> rstr" where
  "packed_text refs = join_with 10
     (str ''# pack-refs with: peeled fully-peeled sorted '' # concat (map packed_entry refs) @ [[]])"

definition packed_ok :: "rstr \<times> rstr \<times> rstr option \<Rightarrow> bool" where
  "packed_ok = (\<lambda>(hex, name, peeled).
     is_object_name hex \<and> starts_with (str ''refs/'') name \<and> valid_str name \<and>
     (\<forall>c \<in> set name. \<not> is_whitespace c) \<and>
     (case peeled of None \<Rightarrow> True | Some h \<Rightarrow> is_object_name h))"

lemma hex_not_space: "is_hexdigit c \<Longrightarrow> \<not> is_whitespace c"
  by (auto simp: is_hexdigit_def is_whitespace_def)

lemma object_name_chars: "is_object_name h \<Longrightarrow> c \<in> set h \<Longrightarrow> is_hexdigit c"
  by (auto simp: is_object_name_def list_all_iff)

lemma trim_end_id: "s = [] \<or> \<not> is_whitespace (last s) \<Longrightarrow> trim_end is_whitespace s = s"
  by (cases s rule: rev_cases) (auto simp: trim_end_def)

lemma packed_line_ref:
  assumes "packed_ok (hex, name, peeled)"
  shows "packed_line (hex @ 32 # name) = Some (hex, name)"
proof -
  have name: "name \<noteq> []" "\<forall>c \<in> set name. \<not> is_whitespace c" "starts_with (str ''refs/'') name"
    and hex: "is_object_name hex"
    using assms by (auto simp: packed_ok_def starts_with_iff str_def)
  have "32 \<notin> set hex" using object_name_chars [OF hex, of 32] by (auto simp: is_hexdigit_def)
  then have "split_once 32 (hex @ 32 # name) = Some (hex, name)" by (simp add: split_once_Some)
  moreover have "trim_end is_whitespace (hex @ 32 # name) = hex @ 32 # name"
    using name by (intro trim_end_id) auto
  moreover have "trim name = name" using name by (intro trim_id) auto
  moreover have "32 \<notin> set name" using name(2) by (auto simp: is_whitespace_def)
  ultimately show ?thesis using hex name(3) by (simp add: packed_line_def)
qed

lemma packed_line_peeled:
  assumes "is_object_name h"
  shows "packed_line (94 # h) = None"
proof -
  have h: "is_hexdigit c" if "c \<in> set h" for c using assms that by (rule object_name_chars)
  have "trim_end is_whitespace (94 # h) = 94 # h"
    using h hex_not_space by (intro trim_end_id) (auto simp: is_whitespace_def)
  moreover have "split_once 32 (94 # h) = None"
  proof (rule ccontr)
    assume "split_once 32 (94 # h) \<noteq> None"
    then obtain a b where "94 # h = a @ 32 # b" by (auto simp: split_once_Some simp del: split_once.simps)
    then have "32 \<in> set (94 # h)" by simp
    with h [of 32] show False by (auto simp: is_hexdigit_def)
  qed
  ultimately show ?thesis by (simp add: packed_line_def)
qed

lemma packed_line_header: "packed_line (str ''# pack-refs with: peeled fully-peeled sorted '') = None"
  by (simp add: packed_line_def str_def trim_end_def is_whitespace_def is_object_name_def is_hexdigit_def)

lemma map_filter_append: "List.map_filter f (xs @ ys) = List.map_filter f xs @ List.map_filter f ys"
  by (induction xs) (auto simp: List.map_filter_simps split: option.split)

lemma packed_entries:
  "list_all packed_ok refs \<Longrightarrow>
   List.map_filter packed_line (concat (map packed_entry refs)) = map (\<lambda>(hex, name, _). (hex, name)) refs"
proof (induction refs)
  case (Cons r refs)
  obtain hex name peeled where r: "r = (hex, name, peeled)" by (cases r)
  with Cons.prems have ok: "packed_ok (hex, name, peeled)" by simp
  have "List.map_filter packed_line (packed_entry r) = [(hex, name)]"
    using packed_line_ref [OF ok] ok packed_line_peeled
    by (auto simp: r packed_entry_def packed_ok_def List.map_filter_simps split: option.split)
  with Cons show ?case by (simp add: r map_filter_append)
qed (simp add: List.map_filter_simps)

lemma packed_entry_chars:
  assumes "packed_ok r" "l \<in> set (packed_entry r)"
  shows "10 \<notin> set l" "13 \<notin> set l" "valid_str l"
proof -
  obtain hex name peeled where r: "r = (hex, name, peeled)" by (cases r)
  have "\<not> is_hexdigit 10" "\<not> is_hexdigit 13" by (simp_all add: is_hexdigit_def)
  moreover have "\<And>c. is_hexdigit c \<Longrightarrow> scalar c" using hexdigit_ascii scalar_ascii by blast
  ultimately have hexs: "10 \<notin> set h \<and> 13 \<notin> set h \<and> valid_str h" if "is_object_name h" for h
    using object_name_chars [OF that] unfolding valid_str_def list_all_iff by blast
  have ws: "is_whitespace 10" "is_whitespace 13" by (simp_all add: is_whitespace_def)
  have ok: "is_object_name hex" "valid_str name" "\<forall>c \<in> set name. \<not> is_whitespace c"
    "\<And>h. peeled = Some h \<Longrightarrow> is_object_name h"
    using assms(1) by (auto simp: r packed_ok_def)
  consider "l = hex @ 32 # name" | h where "peeled = Some h" "l = 94 # h"
    using assms(2) by (auto simp: r packed_entry_def split: option.splits)
  then show "10 \<notin> set l" "13 \<notin> set l" "valid_str l"
    using hexs ok ws by (cases; auto)+
qed

lemma strip_cr_id: "13 \<notin> set s \<Longrightarrow> strip_cr s = s"
  by (cases s rule: rev_cases) (auto simp: strip_cr_def)

lemma valid_str_join: "scalar d \<Longrightarrow> (\<And>w. w \<in> set ws \<Longrightarrow> valid_str w) \<Longrightarrow> valid_str (join_with d ws)"
  by (induction d ws rule: join_with.induct) auto

text \<open>Reading \<open>packed-refs\<close> recovers what git wrote: for every list of refs with object names of
  either hash length, the parser returns exactly those pairs in file order, and the header and the
  peeled lines contribute nothing.\<close>
theorem packed_refs_roundtrip:
  assumes "list_all packed_ok refs"
  shows "parse_packed_refs (as_bytes (packed_text refs)) = map (\<lambda>(hex, name, _). (hex, name)) refs"
proof -
  let ?header = "str ''# pack-refs with: peeled fully-peeled sorted ''"
  let ?ls = "?header # concat (map packed_entry refs)"
  have header: "10 \<notin> set ?header" "13 \<notin> set ?header" "valid_str ?header" by (simp_all add: str_def)
  have ls: "10 \<notin> set l \<and> 13 \<notin> set l \<and> valid_str l" if "l \<in> set ?ls" for l
    using that header assms packed_entry_chars by (auto simp: list_all_iff)
  have "valid_str (packed_text refs)"
    unfolding packed_text_def using ls by (intro valid_str_join) auto
  then have t: "from_utf8 (as_bytes (packed_text refs)) = Some (packed_text refs)"
    by (rule from_utf8_as_bytes)
  have "split_on 10 (packed_text refs) = ?ls @ [[]]"
    unfolding packed_text_def using ls by (subst split_join) auto
  then have "lines (packed_text refs) = map strip_cr ?ls" by (simp only: lines_def line_list_terminated)
  also have "\<dots> = ?ls" using ls strip_cr_id by (intro map_idI) blast
  finally show ?thesis
    using packed_line_header packed_entries [OF assms]
    by (simp add: parse_packed_refs_def t List.map_filter_simps)
qed

theorem packed_refs_roundtrip_witness:
  "let refs = [(replicate 40 97, str ''refs/tags/v1'', Some (replicate 40 98)),
               (replicate 64 99, str ''refs/heads/m'', None)]
   in parse_packed_refs (as_bytes (packed_text refs)) =
      [(replicate 40 97, str ''refs/tags/v1''), (replicate 64 99, str ''refs/heads/m'')]"
proof -
  have "is_object_name (replicate 40 97)" "is_object_name (replicate 40 98)" "is_object_name (replicate 64 99)"
    by (auto simp: is_object_name_def utf8_len_def utf8_width_def sum_list_replicate is_hexdigit_def
        list_all_iff)
  moreover have "starts_with (str ''refs/'') (str ''refs/tags/v1'')" "starts_with (str ''refs/'') (str ''refs/heads/m'')"
    "valid_str (str ''refs/tags/v1'')" "valid_str (str ''refs/heads/m'')"
    "\<forall>c \<in> set (str ''refs/tags/v1''). \<not> is_whitespace c" "\<forall>c \<in> set (str ''refs/heads/m''). \<not> is_whitespace c"
    by (simp_all add: starts_with_def str_def is_whitespace_def)
  ultimately show ?thesis
    unfolding Let_def by (subst packed_refs_roundtrip) (simp_all add: packed_ok_def)
qed

end
