(* ===== verification/Ignore.thy ===== *)
theory Ignore
  imports Git_Paths
begin

text \<open>
  The ignore rules of a filesystem source (\<^verbatim>\<open>synch-engine/src/ignore.rs\<close>): parsing
  \<^verbatim>\<open>.syncignore\<close>, the glob matcher and the two questions asked of a rule set. A pattern and a text are
  the suffixes the source reaches by its two indices. The backtracking matcher is proved equal to
  a declarative reading of the pattern language.
\<close>

section \<open>Globs\<close>

definition star :: nat where "star = 42"
definition quest :: nat where "quest = 63"

lemma glob_chars [simp]:
  "quest \<noteq> star" "star \<noteq> quest" "slash \<noteq> star" "star \<noteq> slash" "slash \<noteq> quest" "quest \<noteq> slash"
  by (simp_all add: star_def quest_def slash_def)

text \<open>\<open>matches_from\<close> and its inner loop over how much text a star skips.\<close>

function (sequential) matches_from :: "rstr \<Rightarrow> rstr \<Rightarrow> bool"
  and skip_from :: "bool \<Rightarrow> rstr \<Rightarrow> rstr \<Rightarrow> bool" where
  "matches_from [] t = (t = [])"
| "matches_from (c # p) t =
     (if c = star then
        (let double = (p \<noteq> [] \<and> hd p = star);
             after = (if double then tl p else p)
         in if double \<and> after \<noteq> [] \<and> hd after = slash \<and> matches_from (tl after) t then True
            else skip_from double after t)
      else if c = quest then t \<noteq> [] \<and> hd t \<noteq> slash \<and> matches_from p (tl t)
      else t \<noteq> [] \<and> hd t = c \<and> matches_from p (tl t))"
| "skip_from double after t =
     (if matches_from after t then True
      else case t of [] \<Rightarrow> False
        | x # r \<Rightarrow> if \<not> double \<and> x = slash then False else skip_from double after r)"
  by pat_completeness auto
termination
  by (relation "measures [\<lambda>x. case x of Inl (p, t) \<Rightarrow> 2 * length p | Inr (_, p, t) \<Rightarrow> 2 * length p + 1,
      \<lambda>x. case x of Inl (p, t) \<Rightarrow> length t | Inr (_, p, t) \<Rightarrow> length t]") auto

declare matches_from.simps(2) [simp del]
declare skip_from.simps [simp del]

definition glob_match :: "rstr \<Rightarrow> rstr \<Rightarrow> bool" where
  "glob_match pattern s = matches_from pattern s"

section \<open>Rules\<close>

record rule =
  r_pattern :: rstr
  negated :: bool
  anchored :: bool
  dir_only :: bool

definition rule_matches :: "rule \<Rightarrow> rstr \<Rightarrow> bool" where
  "rule_matches r path =
     (if anchored r \<or> slash \<in> set (r_pattern r) then glob_match (r_pattern r) path
      else if glob_match (r_pattern r) path then True
      else list_ex (glob_match (r_pattern r)) (split_on slash path))"

definition parse_rule :: "rstr \<Rightarrow> rule option" where
  "parse_rule l =
     (let l = trim l in
      if l = [] \<or> starts_with (str ''#'') l then None
      else
        let (neg, rest) = (case strip_prefix (str ''!'') l of Some rest \<Rightarrow> (True, rest) | None \<Rightarrow> (False, l));
            (dir, rest) = (case strip_suffix [slash] rest of Some rest \<Rightarrow> (True, rest) | None \<Rightarrow> (False, rest));
            (anch, rest) = (case strip_prefix [slash] rest of Some rest \<Rightarrow> (True, rest) | None \<Rightarrow> (False, rest))
        in if rest = [] then None
           else Some \<lparr>r_pattern = rest, negated = neg, anchored = anch, dir_only = dir\<rparr>)"

definition extend :: "rstr list \<Rightarrow> rule list \<Rightarrow> rule list" where
  "extend ls rules = rules @ List.map_filter parse_rule ls"

definition BUILTIN_DEFAULTS :: "rstr list" where
  "BUILTIN_DEFAULTS = map str [''.DS_Store'', ''Thumbs.db'', ''desktop.ini'', ''*.swp'', ''*.tmp'', ''*~'',
     ''.#*'', ''#*#'', ''.syncignore'', ''*.synch-part'', ''*.synch-materialize'']"

definition builtin :: "rule list" where
  "builtin = extend BUILTIN_DEFAULTS []"

text \<open>What reading \<^verbatim>\<open>.syncignore\<close> may give.\<close>

datatype read_error = NotFound | Unreadable

definition for_space :: "read_error + rstr \<Rightarrow> unit + rule list" where
  "for_space file =
     (case file of
        Inr contents \<Rightarrow> Inr (extend (lines contents) builtin)
      | Inl NotFound \<Rightarrow> Inr builtin
      | Inl Unreadable \<Rightarrow> Inl ())"

definition consult :: "rstr \<Rightarrow> bool \<Rightarrow> rule \<Rightarrow> bool \<Rightarrow> bool" where
  "consult path is_dir r ignored =
     (if dir_only r \<and> \<not> is_dir then ignored
      else if rule_matches r path then \<not> negated r else ignored)"

definition is_ignored :: "rule list \<Rightarrow> rstr \<Rightarrow> bool \<Rightarrow> bool" where
  "is_ignored rules path is_dir = fold (consult path is_dir) rules False"

fun excludes_from :: "rule list \<Rightarrow> rstr \<Rightarrow> rstr list \<Rightarrow> bool" where
  "excludes_from rules pre [] = False"
| "excludes_from rules pre (part # parts) =
     (let pre = (if pre = [] then [] else pre @ [slash]) @ part
      in if is_ignored rules pre (parts \<noteq> []) then True else excludes_from rules pre parts)"

definition excludes_path :: "rule list \<Rightarrow> rstr \<Rightarrow> bool" where
  "excludes_path rules path = excludes_from rules [] (split_on slash path)"

section \<open>The matcher and the pattern language\<close>

text \<open>The pattern language as the documentation reads it: a star stands for a run without slashes,
  two stars for any run, and two stars and a slash also for nothing.\<close>

inductive globs :: "rstr \<Rightarrow> rstr \<Rightarrow> bool" where
  finish: "globs [] []"
| lit: "c \<noteq> star \<Longrightarrow> c \<noteq> quest \<Longrightarrow> globs p t \<Longrightarrow> globs (c # p) (c # t)"
| one: "x \<noteq> slash \<Longrightarrow> globs p t \<Longrightarrow> globs (quest # p) (x # t)"
| run: "p = [] \<or> hd p \<noteq> star \<Longrightarrow> slash \<notin> set s \<Longrightarrow> globs p t \<Longrightarrow> globs (star # p) (s @ t)"
| deep: "globs p t \<Longrightarrow> globs (star # star # p) (s @ t)"
| none: "globs p t \<Longrightarrow> globs (star # star # slash # p) t"

inductive_cases globs_NilE: "globs [] t"

lemma skip_from_iff:
  "skip_from double after t \<longleftrightarrow> (\<exists>s r. t = s @ r \<and> (double \<or> slash \<notin> set s) \<and> matches_from after r)"
proof (induction t)
  case Nil
  then show ?case by (simp add: skip_from.simps)
next
  case (Cons x t)
  have "skip_from double after (x # t) \<longleftrightarrow>
      matches_from after (x # t) \<or> (double \<or> x \<noteq> slash) \<and> skip_from double after t"
    by (subst skip_from.simps) auto
  also have "\<dots> \<longleftrightarrow> (\<exists>s r. x # t = s @ r \<and> (double \<or> slash \<notin> set s) \<and> matches_from after r)" (is "?l \<longleftrightarrow> ?r")
  proof
    assume ?l
    then show ?r
    proof
      assume "matches_from after (x # t)"
      then have "x # t = [] @ x # t \<and> (double \<or> slash \<notin> set []) \<and> matches_from after (x # t)" by simp
      then show ?r by blast
    next
      assume "(double \<or> x \<noteq> slash) \<and> skip_from double after t"
      then obtain s r where "t = s @ r" "double \<or> x \<noteq> slash" "double \<or> slash \<notin> set s" "matches_from after r"
        using Cons.IH by blast
      then have "x # t = (x # s) @ r \<and> (double \<or> slash \<notin> set (x # s)) \<and> matches_from after r" by auto
      then show ?r by blast
    qed
  next
    assume ?r
    then obtain s r where "x # t = s @ r" "double \<or> slash \<notin> set s" "matches_from after r" by blast
    then show ?l using Cons.IH by (cases s) auto
  qed
  finally show ?case .
qed

lemma matches_globs: "matches_from p t \<Longrightarrow> globs p t"
proof (induction "length p" arbitrary: p t rule: less_induct)
  case less
  show ?case
  proof (cases p)
    case Nil
    then show ?thesis using less.prems by (simp add: globs.finish)
  next
    case (Cons c q)
    consider "c = star" "q \<noteq> []" "hd q = star" | "c = star" "q = [] \<or> hd q \<noteq> star"
      | "c = quest" | "c \<noteq> star" "c \<noteq> quest" by blast
    then show ?thesis
    proof cases
      case 1
      then obtain q' where q': "q = star # q'" by (cases q) auto
      with less.prems 1 Cons have
        "q' \<noteq> [] \<and> hd q' = slash \<and> matches_from (tl q') t \<or> skip_from True q' t"
        by (auto simp: matches_from.simps(2) Let_def split: if_splits)
      then show ?thesis
      proof
        assume *: "q' \<noteq> [] \<and> hd q' = slash \<and> matches_from (tl q') t"
        then have "q' = slash # tl q'" by (cases q') auto
        with * Cons q' 1 less.hyps [of "tl q'" t] show ?thesis
          by (metis globs.none length_Cons lessI less_SucI)
      next
        assume "skip_from True q' t"
        then obtain s r where "t = s @ r" "matches_from q' r" by (auto simp: skip_from_iff)
        with less.hyps [of q' r] Cons q' 1 show ?thesis by (auto intro: globs.deep)
      qed
    next
      case 2
      with less.prems Cons have "skip_from False q t"
        by (auto simp: matches_from.simps(2) Let_def split: if_splits)
      then obtain s r where "t = s @ r" "slash \<notin> set s" "matches_from q r" by (auto simp: skip_from_iff)
      with less.hyps [of q r] Cons 2 show ?thesis by (auto intro: globs.run)
    next
      case 3
      with less.prems Cons less.hyps [of q "tl t"] show ?thesis
        by (cases t) (auto simp: matches_from.simps(2) globs.one split: if_splits)
    next
      case 4
      with less.prems Cons less.hyps [of q "tl t"] show ?thesis
        by (cases t) (auto simp: matches_from.simps(2) intro: globs.lit)
    qed
  qed
qed

lemma globs_matches: "globs p t \<Longrightarrow> matches_from p t"
proof (induction rule: globs.induct)
  case (run p s t)
  then show ?case using skip_from_iff [of False p "s @ t"] by (auto simp: matches_from.simps(2) Let_def)
next
  case (deep p t s)
  then show ?case using skip_from_iff [of True p "s @ t"] by (auto simp: matches_from.simps(2) Let_def)
qed (auto simp: matches_from.simps(2) star_def quest_def)

lemma glob_match_globs: "glob_match pattern s = globs pattern s"
  unfolding glob_match_def using matches_globs globs_matches by blast

text \<open>The backtracking matcher decides the pattern language: it always returns, and it accepts
  exactly the texts the declarative reading of the pattern accepts.\<close>
theorem glob_match_iff: "glob_match pattern s \<longleftrightarrow> globs pattern s"
  by (rule glob_match_globs)

section \<open>Paths\<close>

lemma excludes_from_iff:
  "pre \<noteq> [] \<Longrightarrow> excludes_from rules pre parts \<longleftrightarrow>
     (\<exists>k. 0 < k \<and> k \<le> length parts \<and>
        is_ignored rules (join_with slash (pre # take k parts)) (k < length parts))"
proof (induction parts arbitrary: pre)
  case Nil
  then show ?case by simp
next
  case (Cons part parts)
  let ?pre = "pre @ slash # part"
  have shift: "join_with slash (pre # take (Suc k) (part # parts)) = join_with slash (?pre # take k parts)" for k
    by (cases "take k parts") auto
  have "excludes_from rules pre (part # parts) \<longleftrightarrow>
      is_ignored rules ?pre (parts \<noteq> []) \<or> excludes_from rules ?pre parts"
    using Cons.prems by (simp add: Let_def)
  also have "\<dots> \<longleftrightarrow> is_ignored rules (join_with slash (pre # take 1 (part # parts))) (1 < length (part # parts)) \<or>
      (\<exists>k. 0 < k \<and> k \<le> length parts \<and>
        is_ignored rules (join_with slash (pre # take (Suc k) (part # parts))) (Suc k < length (part # parts)))"
    unfolding shift using Cons.IH [of ?pre] by (cases parts) simp_all
  also have "\<dots> \<longleftrightarrow> (\<exists>k. 0 < k \<and> k \<le> length (part # parts) \<and>
        is_ignored rules (join_with slash (pre # take k (part # parts))) (k < length (part # parts)))" (is "?l \<longleftrightarrow> ?r")
  proof
    assume ?l
    then show ?r by (metis One_nat_def Suc_le_mono le_SucI length_Cons zero_less_Suc zero_le)
  next
    assume ?r
    then obtain k where k: "0 < k" "k \<le> length (part # parts)"
      "is_ignored rules (join_with slash (pre # take k (part # parts))) (k < length (part # parts))" by blast
    then obtain j where "k = Suc j" by (cases k) auto
    with k show ?l by (cases j) auto
  qed
  finally show ?case .
qed

text \<open>A path is excluded exactly when the walk would not reach it: some ancestor directory,
  judged as a directory, or the entry itself, judged as a file, is ignored. So nothing below an
  ignored directory is published, whatever later rules say of it.\<close>
theorem excludes_path_iff:
  assumes "hd (split_on slash path) \<noteq> []"
  shows "excludes_path rules path \<longleftrightarrow>
    (let cs = split_on slash path in
     \<exists>k. 0 < k \<and> k \<le> length cs \<and> is_ignored rules (join_with slash (take k cs)) (k < length cs))"
proof -
  obtain c cs where cs: "split_on slash path = c # cs" by (cases "split_on slash path") auto
  with assms have c: "c \<noteq> []" by simp
  have "excludes_path rules path \<longleftrightarrow> is_ignored rules c (cs \<noteq> []) \<or> excludes_from rules c cs"
    by (simp add: excludes_path_def cs)
  also have "\<dots> \<longleftrightarrow> (\<exists>k \<le> length cs. is_ignored rules (join_with slash (c # take k cs)) (k < length cs))"
    unfolding excludes_from_iff [OF c] using neq0_conv by (cases cs) fastforce+
  also have "\<dots> \<longleftrightarrow> (\<exists>k. 0 < k \<and> k \<le> length (c # cs) \<and>
      is_ignored rules (join_with slash (take k (c # cs))) (k < length (c # cs)))" (is "?l \<longleftrightarrow> ?r")
  proof
    assume ?l
    then obtain k where "k \<le> length cs" "is_ignored rules (join_with slash (c # take k cs)) (k < length cs)" by blast
    then show ?r by (intro exI [of _ "Suc k"]) simp
  next
    assume ?r
    then obtain k where "0 < k" "k \<le> length (c # cs)"
      "is_ignored rules (join_with slash (take k (c # cs))) (k < length (c # cs))" by blast
    then show ?l by (cases k) auto
  qed
  finally show ?thesis by (simp add: cs)
qed

theorem excludes_path_iff_witness:
  "hd (split_on slash (str ''raw/a'')) \<noteq> [] \<and>
   excludes_path [\<lparr>r_pattern = str ''raw'', negated = False, anchored = False, dir_only = True\<rparr>] (str ''raw/a'')"
proof -
  let ?r = "\<lparr>r_pattern = str ''raw'', negated = False, anchored = False, dir_only = True\<rparr>"
  have cs: "split_on slash (str ''raw/a'') = [str ''raw'', str ''a'']" by (simp add: str_def slash_def)
  have "glob_match (str ''raw'') (str ''raw'')"
    by (simp add: glob_match_def str_def matches_from.simps(2) star_def quest_def)
  then have "is_ignored [?r] (str ''raw'') True"
    by (simp add: is_ignored_def consult_def rule_matches_def)
  then have "\<exists>k. 0 < k \<and> k \<le> length [str ''raw'', str ''a''] \<and>
      is_ignored [?r] (join_with slash (take k [str ''raw'', str ''a''])) (k < length [str ''raw'', str ''a''])"
    by (intro exI [of _ 1]) simp
  with excludes_path_iff [of "str ''raw/a''" "[?r]"] cs show ?thesis by (simp add: str_def)
qed

section \<open>Files still being written\<close>

lemma matches_literal: "list_all (\<lambda>c. c \<noteq> star \<and> c \<noteq> quest) p \<Longrightarrow> globs p p"
  by (induction p) (auto intro: globs.intros)

lemma star_suffix:
  assumes "list_all (\<lambda>c. c \<noteq> star \<and> c \<noteq> quest) p" "p \<noteq> []" "slash \<notin> set s"
  shows "globs (star # p) (s @ p)"
  using assms matches_literal [OF assms(1)] by (intro globs.run) (auto simp: neq_Nil_conv)

lemma split_on_snoc: "d \<notin> set w \<Longrightarrow> \<exists>v ws. split_on d (s @ d # w) = (v # ws) @ [w]"
proof (induction s)
  case (Cons c s)
  then obtain v ws where "split_on d (s @ d # w) = (v # ws) @ [w]" by blast
  then show ?case by (cases "c = d") (auto intro: exI [of _ "[]"])
qed (simp add: split_on_single)

lemma split_on_last: "d \<notin> set w \<Longrightarrow> w \<in> set (split_on d (s @ d # w))"
  using split_on_snoc [of d w s] by auto

lemma is_ignored_last:
  assumes "r \<in> set rules" "\<not> dir_only r" "rule_matches r path" "\<forall>r \<in> set rules. \<not> negated r"
  shows "is_ignored rules path is_dir"
proof -
  have mono: "fold (consult path is_dir) rs True" if "\<forall>r \<in> set rs. \<not> negated r" for rs
    using that by (induction rs) (auto simp: consult_def)
  obtain xs ys where rules: "rules = xs @ r # ys" using assms(1) by (auto dest: split_list)
  have "consult path is_dir r x" for x using assms by (simp add: consult_def)
  then show ?thesis using mono [of ys] assms(4) by (simp add: is_ignored_def rules)
qed

text \<open>The rules the built-in patterns compile to. There is none for \<open>#*#\<close>: its line reads as a
  comment.\<close>

lemma builtin_rules:
  "builtin = map (\<lambda>p. \<lparr>r_pattern = p, negated = False, anchored = False, dir_only = False\<rparr>)
     (map str [''.DS_Store'', ''Thumbs.db'', ''desktop.ini'', ''*.swp'', ''*.tmp'', ''*~'', ''.#*'',
       ''.syncignore'', ''*.synch-part'', ''*.synch-materialize''])"
  by (simp add: builtin_def extend_def BUILTIN_DEFAULTS_def List.map_filter_simps parse_rule_def trim_def
      trim_start_def trim_end_def is_whitespace_def str_def strip_prefix_def starts_with_def
      strip_suffix_def ends_with_def slash_def)

text \<open>A file that is still being written is never published: at any depth, a name ending in
  \<^verbatim>\<open>.synch-part\<close> or \<^verbatim>\<open>.synch-materialize\<close> is ignored by the built-in rules.\<close>
theorem staging_ignored:
  assumes "sfx = str ''.synch-part'' \<or> sfx = str ''.synch-materialize''" "slash \<notin> set name"
    and "path = name @ sfx \<or> path = dir @ slash # name @ sfx"
  shows "is_ignored builtin path is_dir"
proof -
  let ?r = "\<lparr>r_pattern = star # sfx, negated = False, anchored = False, dir_only = False\<rparr>"
  have sfx: "list_all (\<lambda>c. c \<noteq> star \<and> c \<noteq> quest) sfx" "sfx \<noteq> []" "slash \<notin> set sfx"
    using assms(1) by (auto simp: str_def star_def quest_def slash_def)
  have "star # str ''.synch-part'' = str ''*.synch-part''"
    "star # str ''.synch-materialize'' = str ''*.synch-materialize''" by (simp_all add: str_def star_def)
  then have r: "?r \<in> set builtin" using assms(1) unfolding builtin_rules by auto
  have "globs (star # sfx) (name @ sfx)" using sfx assms(2) by (intro star_suffix)
  then have g: "glob_match (star # sfx) (name @ sfx)" by (simp add: glob_match_globs)
  have "slash \<notin> set (name @ sfx)" using sfx assms(2) by simp
  then have "name @ sfx \<in> set (split_on slash path)"
    using assms(3) split_on_single split_on_last by auto
  then have "rule_matches ?r path" using g sfx(3) by (auto simp: rule_matches_def list_ex_iff)
  then show ?thesis using r by (intro is_ignored_last [of ?r]) (auto simp: builtin_rules)
qed

theorem staging_ignored_witness: "is_ignored builtin (str ''a/b.synch-part'') False"
  by (rule staging_ignored [of "str ''.synch-part''" "str ''b''" _ "str ''a''"])
    (simp_all add: str_def slash_def)

text \<open>One built-in default has no effect: \<open>#*#\<close> is listed among the defaults and its pattern
  matches an editor's autosave file, but adding it to a rule set takes its line for a comment, and
  the built-in rules publish such a file.\<close>
theorem autosave_not_ignored:
  "str ''#*#'' \<in> set BUILTIN_DEFAULTS \<and> glob_match (str ''#*#'') (str ''#notes#'') \<and>
   \<not> is_ignored builtin (str ''#notes#'') False"
proof -
  have "globs (str ''#*#'') (str ''#notes#'')"
    using globs.lit [of 35 "[star, 35]" "str ''notes#''"] globs.run [of "[35]" "str ''notes''" "[35]"]
      globs.lit [of 35 "[]" "[]"] globs.finish
    by (simp add: str_def star_def quest_def slash_def)
  moreover have "\<not> is_ignored builtin (str ''#notes#'') False"
    unfolding builtin_rules
    by (simp add: is_ignored_def consult_def rule_matches_def glob_match_def str_def slash_def star_def
        quest_def matches_from.simps(2) skip_from.simps)
  ultimately show ?thesis by (simp add: glob_match_globs BUILTIN_DEFAULTS_def)
qed

end
