(* ===== verification/Socket_Map.thy ===== *)
theory Socket_Map
  imports Text_Ops
begin

text \<open>
  The socket map (\<^verbatim>\<open>synch-sock/src/runtime/map.rs\<close>): the byte-accounted key/value store the
  invocations of one socket share, its counters and its rate limiter. Counts of bytes and keys are
  naturals (\<open>usize\<close> values below the limits); counters are 64-bit words in little-endian bytes.
\<close>

section \<open>Little-endian words\<close>

fun le_bytes :: "nat \<Rightarrow> nat \<Rightarrow> bytes" where
  "le_bytes 0 n = []"
| "le_bytes (Suc k) n = of_nat (n mod 256) # le_bytes k (n div 256)"

fun le_value :: "bytes \<Rightarrow> nat" where
  "le_value [] = 0"
| "le_value (b # bs) = unat b + 256 * le_value bs"

definition to_le_bytes :: "u64 \<Rightarrow> bytes" where
  "to_le_bytes w = le_bytes 8 (unat w)"

text \<open>\<open>v.try_into().ok().map(u64::from_le_bytes)\<close>.\<close>

definition from_le_bytes :: "bytes \<Rightarrow> u64 option" where
  "from_le_bytes bs = (if length bs = 8 then Some (of_nat (le_value bs)) else None)"

text \<open>\<open>i64::saturating_add\<close>; an \<open>i64\<close> is its word, read by \<open>sint\<close>.\<close>

definition saturating_add :: "u64 \<Rightarrow> u64 \<Rightarrow> u64" where
  "saturating_add a b = word_of_int (max (- (2 ^ 63)) (min (2 ^ 63 - 1) (sint a + sint b)))"

section \<open>The store of one socket\<close>

record map_limits =
  map_max_keys :: nat
  map_max_bytes :: nat

record map_entry =
  me_value :: bytes
  expires :: "instant option"

record sock_store =
  entries :: "(bytes, map_entry) hmap"
  s_bytes :: nat

definition sock_store_default :: sock_store where
  "sock_store_default = \<lparr>entries = [], s_bytes = 0\<rparr>"

definition entry_size :: "bytes \<Rightarrow> map_entry \<Rightarrow> nat" where
  "entry_size k e = length k + length (me_value e)"

definition is_live :: "instant \<Rightarrow> map_entry \<Rightarrow> bool" where
  "is_live now e \<longleftrightarrow> (case expires e of None \<Rightarrow> True | Some at \<Rightarrow> now < at)"

definition store_get :: "bytes \<Rightarrow> sock_store \<Rightarrow> bytes option" where
  "store_get k s = map_option me_value (map_of (entries s) k)"

definition store_set ::
  "bytes \<Rightarrow> bytes \<Rightarrow> duration option \<Rightarrow> instant \<Rightarrow> map_limits \<Rightarrow> sock_store \<Rightarrow> sock_store \<times> (unit + unit)" where
  "store_set k v ttl now lim s =
     (let incoming = length k + length v in
      if map_max_bytes lim < incoming then (s, Inl ())
      else
        let existing = map_option (entry_size k) (map_of (entries s) k);
            projected = s_bytes s - (case existing of None \<Rightarrow> 0 | Some n \<Rightarrow> n) + incoming;
            count = length (entries s) + (if existing = None then 1 else 0)
        in if map_max_bytes lim < projected \<or> map_max_keys lim < count then (s, Inl ())
           else (s\<lparr>s_bytes := projected,
                   entries := hm_insert k \<lparr>me_value = v, expires = map_option (\<lambda>d. now + d) ttl\<rparr> (entries s)\<rparr>,
                 Inr ()))"

definition expire :: "instant \<Rightarrow> sock_store \<Rightarrow> sock_store" where
  "expire now s =
     (let dead = filter (\<lambda>(k, e). \<not> is_live now e) (entries s);
          freed = sum_list (map (\<lambda>(k, e). entry_size k e) dead)
      in s\<lparr>entries := filter (\<lambda>(k, e). is_live now e) (entries s), s_bytes := s_bytes s - freed\<rparr>)"

section \<open>The maps of all sockets\<close>

record socket_maps =
  inner :: "(rstr, sock_store) hmap"
  epoch :: instant

definition maps_new :: "instant \<Rightarrow> socket_maps" where
  "maps_new now = \<lparr>inner = [], epoch = now\<rparr>"

definition the_store :: "rstr \<Rightarrow> socket_maps \<Rightarrow> sock_store" where
  "the_store socket m = (case map_of (inner m) socket of None \<Rightarrow> sock_store_default | Some s \<Rightarrow> s)"

definition put_store :: "rstr \<Rightarrow> sock_store \<Rightarrow> socket_maps \<Rightarrow> socket_maps" where
  "put_store socket s m = m\<lparr>inner := hm_insert socket s (inner m)\<rparr>"

definition map_clear :: "rstr \<Rightarrow> socket_maps \<Rightarrow> socket_maps" where
  "map_clear socket m =
     m\<lparr>inner := filter (\<lambda>(name, _). \<not> starts_with (socket @ [0]) name) (inner m)\<rparr>"

definition map_get :: "rstr \<Rightarrow> bytes \<Rightarrow> instant \<Rightarrow> socket_maps \<Rightarrow> socket_maps \<times> bytes option" where
  "map_get socket k now m =
     (case map_of (inner m) socket of None \<Rightarrow> (m, None)
      | Some s \<Rightarrow>
          (case map_of (entries s) k of None \<Rightarrow> (m, None)
           | Some e \<Rightarrow>
               if \<not> is_live now e
               then (put_store socket (s\<lparr>entries := hm_remove k (entries s),
                       s_bytes := s_bytes s - entry_size k e\<rparr>) m, None)
               else (m, Some (me_value e))))"

definition map_set ::
  "rstr \<Rightarrow> bytes \<Rightarrow> bytes \<Rightarrow> duration option \<Rightarrow> instant \<Rightarrow> map_limits \<Rightarrow> socket_maps
     \<Rightarrow> socket_maps \<times> (unit + unit)" where
  "map_set socket k v ttl now lim m =
     (let (s, r) = store_set k v ttl now lim (expire now (the_store socket m))
      in (put_store socket s m, r))"

definition map_delete :: "rstr \<Rightarrow> bytes \<Rightarrow> socket_maps \<Rightarrow> socket_maps \<times> bool" where
  "map_delete socket k m =
     (case map_of (inner m) socket of None \<Rightarrow> (m, False)
      | Some s \<Rightarrow>
          (case map_of (entries s) k of None \<Rightarrow> (m, False)
           | Some e \<Rightarrow> (put_store socket (s\<lparr>entries := hm_remove k (entries s),
                          s_bytes := s_bytes s - entry_size k e\<rparr>) m, True)))"

definition map_incr ::
  "rstr \<Rightarrow> bytes \<Rightarrow> u64 \<Rightarrow> duration option \<Rightarrow> instant \<Rightarrow> map_limits \<Rightarrow> socket_maps
     \<Rightarrow> socket_maps \<times> (unit + u64)" where
  "map_incr socket k delta ttl now lim m =
     (let s = expire now (the_store socket m);
          current = (case Option.bind (store_get k s) from_le_bytes of None \<Rightarrow> 0 | Some w \<Rightarrow> w);
          succ = saturating_add current delta;
          (s, r) = store_set k (to_le_bytes succ) ttl now lim s
      in (put_store socket s m, result_bind r (\<lambda>_. Inr succ)))"

definition slot :: "bytes \<Rightarrow> u64 \<Rightarrow> bytes" where
  "slot k i = 114 # k @ to_le_bytes i"

definition count_of :: "bytes \<Rightarrow> sock_store \<Rightarrow> u64" where
  "count_of k s = (case Option.bind (store_get k s) from_le_bytes of None \<Rightarrow> 0 | Some w \<Rightarrow> w)"

text \<open>\<open>u64::saturating_mul\<close>, on the values.\<close>

definition saturating_mul :: "u64 \<Rightarrow> u64 \<Rightarrow> u64" where
  "saturating_mul a b = of_nat (min (2 ^ 64 - 1) (unat a * unat b))"

text \<open>\<open>Duration::saturating_mul(2)\<close>: a \<open>Duration\<close> is at most \<open>u64::MAX\<close> seconds and a nanosecond
  short of one more.\<close>

definition MAX_DURATION :: nat where
  "MAX_DURATION = 2 ^ 64 * secs_ns - 1"

definition carried :: "u64 \<Rightarrow> u64 \<Rightarrow> u64 \<Rightarrow> u64" where
  "carried previous width into = saturating_mul previous (width - into) div width"

definition rate_limit ::
  "rstr \<Rightarrow> bytes \<Rightarrow> u64 \<Rightarrow> duration \<Rightarrow> instant \<Rightarrow> map_limits \<Rightarrow> socket_maps
     \<Rightarrow> socket_maps \<times> (unit + unit)" where
  "rate_limit socket k limit window now lim m =
     (if limit = 0 \<or> window = 0 then (m, Inl ())
      else
        let elapsed = (of_nat (now - epoch m) :: u64);
            width = (of_nat (max 1 (min window (2 ^ 64 - 1))) :: u64);
            index = elapsed div width;
            into = elapsed mod width;
            s = expire now (the_store socket m);
            current = count_of (slot k index) s;
            previous = (if index = 0 then 0 else count_of (slot k (index - 1)) s)
        in if limit \<le> current + carried previous width into then (put_store socket s m, Inl ())
           else
             let (s, r) = store_set (slot k index) (to_le_bytes (current + 1))
                   (Some (min MAX_DURATION (window * 2))) now lim s
             in (put_store socket s m, r))"

section \<open>The accounting is exact\<close>

lemma le_value_bytes: "n < 256 ^ k \<Longrightarrow> le_value (le_bytes k n) = n"
proof (induction k arbitrary: n)
  case (Suc k)
  have "n div 256 < 256 ^ k" using Suc.prems by (simp add: less_mult_imp_div_less mult.commute)
  moreover have "unat (of_nat (n mod 256) :: u8) = n mod 256" by (rule unat_of_nat_u8) simp
  ultimately show ?case using Suc.IH by simp
qed simp

lemma length_le_bytes [simp]: "length (le_bytes k n) = k"
  by (induction k arbitrary: n) auto

lemma from_to_le_bytes [simp]: "from_le_bytes (to_le_bytes w) = Some w"
proof -
  have "unat w < 256 ^ 8" using unsigned_less [of w] by simp
  then show ?thesis by (simp add: from_le_bytes_def to_le_bytes_def le_value_bytes)
qed

lemma length_to_le_bytes [simp]: "length (to_le_bytes w) = 8"
  by (simp add: to_le_bytes_def)

lemma to_le_bytes_inject [simp]: "to_le_bytes v = to_le_bytes w \<longleftrightarrow> v = w"
  by (metis from_to_le_bytes option.inject)

definition size_of :: "(bytes, map_entry) hmap \<Rightarrow> nat" where
  "size_of es = sum_list (map (\<lambda>(k, e). entry_size k e) es)"

definition store_exact :: "sock_store \<Rightarrow> bool" where
  "store_exact s \<longleftrightarrow> hm_invar (entries s) \<and> s_bytes s = size_of (entries s)"

definition store_within :: "map_limits \<Rightarrow> sock_store \<Rightarrow> bool" where
  "store_within lim s \<longleftrightarrow> s_bytes s \<le> map_max_bytes lim \<and> length (entries s) \<le> map_max_keys lim"

definition maps_ok :: "map_limits \<Rightarrow> socket_maps \<Rightarrow> bool" where
  "maps_ok lim m \<longleftrightarrow> hm_invar (inner m) \<and>
     (\<forall>(name, s) \<in> set (inner m). store_exact s \<and> store_within lim s)"

lemma size_of_filter: "size_of es = size_of (filter P es) + size_of (filter (\<lambda>x. \<not> P x) es)"
  by (induction es) (auto simp: size_of_def)

lemma size_of_insert:
  "hm_invar es \<Longrightarrow> size_of (hm_insert k e es) + (case map_of es k of None \<Rightarrow> 0 | Some e' \<Rightarrow> entry_size k e') =
     size_of es + entry_size k e"
  using sum_hm_insert [of es "\<lambda>(k, e). entry_size k e" k e]
  by (cases "map_of es k") (simp_all add: size_of_def)

lemma size_of_remove:
  "hm_invar es \<Longrightarrow> map_of es k = Some e \<Longrightarrow> size_of (hm_remove k es) + entry_size k e = size_of es"
proof (induction es)
  case (Cons x es)
  then show ?case by (cases x) (auto simp: size_of_def hm_remove_def filter_True_id rev_image_eqI)
qed simp

lemma size_of_member: "map_of es k = Some e \<Longrightarrow> entry_size k e \<le> size_of es"
  by (induction es) (auto simp: size_of_def split: if_splits)

lemma expire_ok:
  assumes "store_exact s"
  shows "store_exact (expire now s)" "store_within lim s \<Longrightarrow> store_within lim (expire now s)"
proof -
  let ?P = "\<lambda>(k, e). is_live now e"
  have "size_of (entries s) = size_of (filter ?P (entries s)) + size_of (filter (\<lambda>x. \<not> ?P x) (entries s))"
    by (rule size_of_filter)
  then show "store_exact (expire now s)"
    using assms by (simp add: store_exact_def expire_def size_of_def case_prod_unfold
        distinct_map_filter)
  show "store_within lim s \<Longrightarrow> store_within lim (expire now s)"
    by (auto simp: store_within_def expire_def Let_def intro: le_trans [OF length_filter_le])
qed

lemma store_set_cases:
  assumes "store_set k v ttl now lim s = (s', r)" "store_exact s" "store_within lim s"
  shows "store_exact s' \<and> store_within lim s'"
    and "r = Inl () \<Longrightarrow> s' = s"
    and "r = Inr () \<Longrightarrow> entries s' = hm_insert k \<lparr>me_value = v, expires = map_option (\<lambda>d. now + d) ttl\<rparr> (entries s)"
proof -
  let ?e = "\<lparr>me_value = v, expires = map_option (\<lambda>d. now + d) ttl\<rparr>"
  let ?old = "case map_of (entries s) k of None \<Rightarrow> 0 | Some e \<Rightarrow> entry_size k e"
  have old: "(case map_option (entry_size k) (map_of (entries s) k) of None \<Rightarrow> 0 | Some n \<Rightarrow> n) = ?old"
    by (cases "map_of (entries s) k") auto
  have le: "?old \<le> size_of (entries s)" by (auto split: option.splits dest: size_of_member)
  have size: "size_of (hm_insert k ?e (entries s)) = size_of (entries s) - ?old + (length k + length v)"
    using size_of_insert [of "entries s" k ?e] le assms(2) by (simp add: store_exact_def entry_size_def)
  have count: "length (hm_insert k ?e (entries s)) = length (entries s) + (if map_of (entries s) k = None then 1 else 0)"
    using length_hm_insert [of k ?e "entries s"] assms(2) by (auto simp: store_exact_def map_of_eq_None_iff)
  show "r = Inl () \<Longrightarrow> s' = s" "r = Inr () \<Longrightarrow> entries s' = hm_insert k ?e (entries s)"
    using assms(1) by (auto simp: store_set_def Let_def split: if_splits)
  show "store_exact s' \<and> store_within lim s'"
  proof (cases "s' = s")
    case False
    then have "s' = s\<lparr>s_bytes := s_bytes s - ?old + (length k + length v), entries := hm_insert k ?e (entries s)\<rparr>"
      and "s_bytes s - ?old + (length k + length v) \<le> map_max_bytes lim"
      and "length (hm_insert k ?e (entries s)) \<le> map_max_keys lim"
      using assms(1) unfolding count by (auto simp: store_set_def Let_def old split: if_splits)
    with assms(2) size show ?thesis
      by (simp add: store_exact_def store_within_def hm.invar_insert)
  qed (use assms in simp)
qed

lemma remove_ok:
  assumes "store_exact s" "map_of (entries s) k = Some e"
  defines "s' \<equiv> s\<lparr>entries := hm_remove k (entries s), s_bytes := s_bytes s - entry_size k e\<rparr>"
  shows "store_exact s'" "store_within lim s \<Longrightarrow> store_within lim s'"
proof -
  have "size_of (hm_remove k (entries s)) + entry_size k e = size_of (entries s)"
    using assms(1,2) by (intro size_of_remove) (auto simp: store_exact_def)
  then show "store_exact s'" using assms(1) by (simp add: s'_def store_exact_def hm.invar_remove)
  show "store_within lim s \<Longrightarrow> store_within lim s'"
    using length_hm_remove_le [of k "entries s"] by (auto simp: s'_def store_within_def)
qed

lemma the_store_ok: "maps_ok lim m \<Longrightarrow> store_exact (the_store socket m) \<and> store_within lim (the_store socket m)"
  by (auto simp: maps_ok_def the_store_def sock_store_default_def store_exact_def store_within_def
      size_of_def split: option.split dest!: map_of_SomeD)

lemma put_store_ok:
  assumes "maps_ok lim m" "store_exact s" "store_within lim s"
  shows "maps_ok lim (put_store socket s m)"
  using assms set_hm_insert_subset [of socket s "inner m"]
  by (auto simp: maps_ok_def put_store_def hm.invar_insert)

lemma map_get_ok: "maps_ok lim m \<Longrightarrow> maps_ok lim (fst (map_get socket k now m))"
proof -
  assume ok: "maps_ok lim m"
  have "store_exact s \<and> store_within lim s" if "map_of (inner m) socket = Some s" for s
    using the_store_ok [OF ok, of socket] that by (simp add: the_store_def)
  with ok show ?thesis by (auto simp: map_get_def remove_ok intro!: put_store_ok split: option.split)
qed

lemma map_delete_ok: "maps_ok lim m \<Longrightarrow> maps_ok lim (fst (map_delete socket k m))"
proof -
  assume ok: "maps_ok lim m"
  have "store_exact s \<and> store_within lim s" if "map_of (inner m) socket = Some s" for s
    using the_store_ok [OF ok, of socket] that by (simp add: the_store_def)
  with ok show ?thesis by (auto simp: map_delete_def remove_ok intro!: put_store_ok split: option.split)
qed

lemma store_set_ok:
  assumes "store_exact s" "store_within lim s"
  shows "store_exact (fst (store_set k v ttl now lim s))" "store_within lim (fst (store_set k v ttl now lim s))"
  using store_set_cases(1) [of k v ttl now lim s "fst (store_set k v ttl now lim s)" "snd (store_set k v ttl now lim s)"]
    assms by auto

datatype map_op =
  OpClear rstr
| OpGet rstr bytes instant
| OpSet rstr bytes bytes "duration option" instant
| OpDelete rstr bytes
| OpIncr rstr bytes u64 "duration option" instant
| OpRate rstr bytes u64 duration instant

fun map_step :: "map_limits \<Rightarrow> map_op \<Rightarrow> socket_maps \<Rightarrow> socket_maps" where
  "map_step lim (OpClear socket) m = map_clear socket m"
| "map_step lim (OpGet socket k now) m = fst (map_get socket k now m)"
| "map_step lim (OpSet socket k v ttl now) m = fst (map_set socket k v ttl now lim m)"
| "map_step lim (OpDelete socket k) m = fst (map_delete socket k m)"
| "map_step lim (OpIncr socket k delta ttl now) m = fst (map_incr socket k delta ttl now lim m)"
| "map_step lim (OpRate socket k limit window now) m = fst (rate_limit socket k limit window now lim m)"

lemma map_step_ok: "maps_ok lim m \<Longrightarrow> maps_ok lim (map_step lim op m)"
proof (cases op)
  case (OpClear socket)
  assume "maps_ok lim m"
  then show ?thesis using OpClear by (auto simp: maps_ok_def map_clear_def distinct_map_filter)
qed (auto simp: map_get_ok map_delete_ok map_set_def map_incr_def rate_limit_def Let_def case_prod_unfold
    the_store_ok expire_ok store_set_ok intro!: put_store_ok)

lemma maps_ok_new: "maps_ok lim (maps_new now)"
  by (simp add: maps_ok_def maps_new_def)

text \<open>The accounting of the socket maps never drifts: after any sequence of operations, for
  every socket the recorded byte count is exactly the size of its keys and values, and neither the
  byte limit nor the key limit is ever exceeded.\<close>
theorem map_accounting:
  "maps_ok lim (fold (map_step lim) ops (maps_new now))"
proof -
  have "maps_ok lim m \<Longrightarrow> maps_ok lim (fold (map_step lim) ops m)" for m
    by (induction ops arbitrary: m) (auto simp: map_step_ok)
  then show ?thesis using maps_ok_new by blast
qed

section \<open>What a write does\<close>

definition map_read :: "rstr \<Rightarrow> bytes \<Rightarrow> instant \<Rightarrow> socket_maps \<Rightarrow> bytes option" where
  "map_read socket k now m = snd (map_get socket k now m)"

definition live_value :: "instant \<Rightarrow> map_entry option \<Rightarrow> bytes option" where
  "live_value now x = (case x of None \<Rightarrow> None | Some e \<Rightarrow> if is_live now e then Some (me_value e) else None)"

lemma map_read_alt: "map_read socket k now m = live_value now (map_of (entries (the_store socket m)) k)"
  by (auto simp: map_read_def map_get_def the_store_def live_value_def sock_store_default_def split: option.split)

lemma the_store_put: "the_store socket' (put_store socket s m) = (if socket' = socket then s else the_store socket' m)"
  by (simp add: the_store_def put_store_def map_simps)

lemma get_expire:
  assumes "store_exact s"
  shows "map_of (entries (expire now s)) k =
    (case map_of (entries s) k of None \<Rightarrow> None | Some e \<Rightarrow> if is_live now e then Some e else None)"
  using hm.get_filter [of "entries s" "\<lambda>(k, e). is_live now e" k] assms
  by (auto simp: store_exact_def expire_def Let_def split: option.splits)

lemma live_value_expire:
  "store_exact s \<Longrightarrow> live_value now (map_of (entries (expire now s)) k) = live_value now (map_of (entries s) k)"
  by (simp add: get_expire live_value_def split: option.split)

text \<open>A write that succeeds is read back until its time to live is over, and a write, whether it
  succeeds or is refused because the map is full, changes what is read under no other key and of no
  other socket; a refused one changes nothing that is read. Nothing live is evicted.\<close>
theorem map_set_frame:
  assumes "maps_ok lim m" "map_set socket k v ttl now lim m = (m', r)"
  shows "(r = Inr () \<longrightarrow> (case ttl of None \<Rightarrow> True | Some d \<Rightarrow> now' < now + d) \<longrightarrow>
       map_read socket k now' m' = Some v) \<and>
    ((socket', k') \<noteq> (socket, k) \<or> r = Inl () \<longrightarrow> map_read socket' k' now m' = map_read socket' k' now m)"
proof -
  let ?s = "expire now (the_store socket m)"
  have ok: "store_exact (the_store socket m)" "store_exact ?s" "store_within lim ?s"
    using the_store_ok [OF assms(1)] expire_ok by blast+
  obtain s' where s': "store_set k v ttl now lim ?s = (s', r)" "m' = put_store socket s' m"
    using assms(2) by (auto simp: map_set_def Let_def split: prod.splits)
  note c = store_set_cases(2,3) [OF s'(1) ok(2,3)]
  have r: "r = Inl () \<or> r = Inr ()" by (cases r) auto
  have "map_read socket k now' m' = Some v"
    if "r = Inr ()" "case ttl of None \<Rightarrow> True | Some d \<Rightarrow> now' < now + d"
    using that c(2) s'(2)
    by (auto simp: map_read_alt the_store_put map_simps live_value_def is_live_def split: option.splits)
  moreover have "map_read socket' k' now m' = map_read socket' k' now m"
    if "(socket', k') \<noteq> (socket, k) \<or> r = Inl ()"
  proof (cases "socket' = socket")
    case True
    have "map_of (entries s') k' = map_of (entries ?s) k'"
      using that c r True by (auto simp: map_simps)
    then show ?thesis
      using True live_value_expire [OF ok(1)] by (simp add: map_read_alt s'(2) the_store_put)
  qed (simp add: map_read_alt s'(2) the_store_put)
  ultimately show ?thesis by blast
qed

definition demo_limits :: map_limits where
  "demo_limits = \<lparr>map_max_keys = 4, map_max_bytes = 100\<rparr>"

theorem map_set_frame_witness:
  "map_read [] [1] 3 (fst (map_set [] [1] [7] (Some 5) 0 demo_limits (maps_new 0))) = Some [7]"
proof -
  have s: "map_set [] [1] [7] (Some 5) 0 demo_limits (maps_new 0) =
      (fst (map_set [] [1] [7] (Some 5) 0 demo_limits (maps_new 0)), Inr ())"
    by (simp add: map_set_def store_set_def expire_def the_store_def maps_new_def sock_store_default_def
        demo_limits_def Let_def)
  show ?thesis
    using map_set_frame [OF maps_ok_new s, where now' = 3] by simp
qed

text \<open>The rate limiter admits bursts a true sliding window would refuse: with a limit of two per
  ten nanoseconds, two events at nine and a third at fifteen are all admitted, three within seven
  nanoseconds.\<close>
theorem rate_limit_over_admits:
  "let m0 = maps_new 0;
       (m1, r1) = rate_limit [] [] 2 10 9 demo_limits m0;
       (m2, r2) = rate_limit [] [] 2 10 9 demo_limits m1;
       (m3, r3) = rate_limit [] [] 2 10 15 demo_limits m2
   in r1 = Inr () \<and> r2 = Inr () \<and> r3 = Inr ()"
  by (simp add: rate_limit_def maps_new_def Let_def the_store_def put_store_def expire_def store_set_def
      sock_store_default_def demo_limits_def count_of_def store_get_def slot_def is_live_def
      carried_def saturating_mul_def entry_size_def MAX_DURATION_def word_le_nat_alt)

section \<open>What the rate limiter promises\<close>

text \<open>The times of the events that are admitted, out of a sequence of events.\<close>

fun admits ::
  "rstr \<Rightarrow> bytes \<Rightarrow> u64 \<Rightarrow> duration \<Rightarrow> map_limits \<Rightarrow> instant list \<Rightarrow> socket_maps \<Rightarrow> instant list" where
  "admits socket k limit window lim [] m = []"
| "admits socket k limit window lim (t # ts) m =
     (let (m', r) = rate_limit socket k limit window t lim m
      in (if r = Inr () then [t] else []) @ admits socket k limit window lim ts m')"

definition expiry :: "map_entry \<Rightarrow> nat" where
  "expiry e = (case expires e of None \<Rightarrow> 0 | Some x \<Rightarrow> x)"

text \<open>The state of a limiter whose windows of \<open>w\<close> nanoseconds start at \<open>e\<close>, when \<open>A i\<close> events of the
  \<open>i\<close>-th window have been admitted and the next event comes at \<open>T\<close> or later.\<close>

definition limiter_inv ::
  "rstr \<Rightarrow> bytes \<Rightarrow> map_limits \<Rightarrow> nat \<Rightarrow> nat \<Rightarrow> nat \<Rightarrow> (nat \<Rightarrow> nat) \<Rightarrow> instant \<Rightarrow> socket_maps \<Rightarrow> bool" where
  "limiter_inv socket k lim e w limit A T m \<longleftrightarrow>
     epoch m = e \<and> maps_ok lim m \<and> (\<forall>i. A i \<le> limit) \<and>
     (\<forall>j. unat (count_of (slot k j) (the_store socket m)) \<le> limit) \<and>
     (\<forall>j. (T - e) div w \<le> unat j \<longrightarrow> 0 < A (unat j) \<longrightarrow>
        (\<exists>en. map_of (entries (the_store socket m)) (slot k j) = Some en \<and>
           (expires en \<noteq> None) \<and> e + (unat j + 1) * w \<le> expiry en \<and>
           A (unat j) \<le> unat (count_of (slot k j) (the_store socket m))))"

lemma slot_inject [simp]: "slot k i = slot k j \<longleftrightarrow> i = j"
  by (simp add: slot_def)

lemma count_of_expire:
  assumes "store_exact s"
  shows "count_of k (expire now s) = 0 \<or> count_of k (expire now s) = count_of k s"
    and "map_of (entries s) k = Some en \<Longrightarrow> is_live now en \<Longrightarrow> count_of k (expire now s) = count_of k s"
  using get_expire [OF assms, of now k]
  by (auto simp: count_of_def store_get_def split: option.splits if_splits)

lemma unat_of_nat_u64: "n < 2 ^ 64 \<Longrightarrow> unat (of_nat n :: u64) = n"
  by (simp add: unat_of_nat take_bit_eq_mod)

lemma carried_le: "into < width \<Longrightarrow> carried previous width into \<le> previous"
proof -
  assume "into < width"
  then have w: "0 < unat width" by (metis gr_zeroI unat_0 word_less_nat_alt less_nat_zero_code)
  have "unat (width - into) \<le> unat width"
    using \<open>into < width\<close> by (simp add: unat_sub word_less_nat_alt order.strict_implies_order word_le_nat_alt)
  then have "unat previous * unat (width - into) div unat width \<le> unat previous * unat width div unat width"
    by (intro div_le_mono mult_le_mono2)
  then have le: "unat previous * unat (width - into) div unat width \<le> unat previous" using w by simp
  have eq: "unat (of_nat (min (2 ^ 64 - 1) (unat previous * unat (width - into))) :: u64) =
      min (2 ^ 64 - 1) (unat previous * unat (width - into))"
    by (rule unat_of_nat_u64) simp
  have "min (2 ^ 64 - 1) (unat previous * unat (width - into)) div unat width \<le>
      unat previous * unat (width - into) div unat width" by (intro div_le_mono) simp
  from order_trans [OF this le] show ?thesis
    unfolding carried_def saturating_mul_def word_le_nat_alt unat_div eq .
qed

text \<open>An admitted event, seen from the window it falls in.\<close>

lemma rate_limit_step:
  assumes "0 < window" "window < 2 ^ 64" "t - epoch m < 2 ^ 64"
    and "rate_limit socket k limit window t lim m = (m', r)"
  defines "i \<equiv> of_nat ((t - epoch m) div window) :: u64" and "s \<equiv> expire t (the_store socket m)"
  shows "unat i = (t - epoch m) div window"
    and "r = Inl () \<Longrightarrow> m' = m \<or> m' = put_store socket s m \<or>
      (\<exists>v ttl s'. store_set (slot k i) v ttl t lim s = (s', r) \<and> m' = put_store socket s' m)"
    and "r = Inr () \<Longrightarrow> \<exists>p s'. (p = 0 \<or> (\<exists>j. p = count_of (slot k j) s)) \<and>
      (\<exists>x \<le> p. count_of (slot k i) s + x < limit) \<and>
      store_set (slot k i) (to_le_bytes (count_of (slot k i) s + 1)) (Some (window * 2)) t lim s = (s', Inr ()) \<and>
      m' = put_store socket s' m"
proof -
  let ?w = "of_nat window :: u64" and ?el = "of_nat (t - epoch m) :: u64"
  have w: "unat ?w = window" "unat ?el = t - epoch m" using assms(2,3) by (simp_all add: unat_of_nat_u64)
  show "unat i = (t - epoch m) div window"
    unfolding i_def using assms(3) by (intro unat_of_nat_u64) (meson div_le_dividend le_less_trans)
  then have i: "?el div ?w = i" using w by (simp add: word_unat_eq_iff unat_div)
  have "0 < ?w" using assms(1) w by (simp add: word_less_nat_alt)
  then have into: "?el mod ?w < ?w" using w by (simp add: word_less_nat_alt unat_mod)
  have width: "of_nat (max 1 (min window (2 ^ 64 - 1))) = ?w" "min MAX_DURATION (window * 2) = window * 2"
    using assms(1,2) by (simp_all add: MAX_DURATION_def min_def max_def)
  let ?p = "if i = 0 then 0 else count_of (slot k (i - 1)) s"
  let ?c = "count_of (slot k i) s + carried ?p ?w (?el mod ?w)"
  have rl: "rate_limit socket k limit window t lim m =
      (if limit = 0 then (m, Inl ())
       else if limit \<le> ?c then (put_store socket s m, Inl ())
       else let (s', r) = store_set (slot k i) (to_le_bytes (count_of (slot k i) s + 1)) (Some (window * 2)) t lim s
            in (put_store socket s' m, r))"
    using assms(1) unfolding rate_limit_def Let_def width i s_def [symmetric] by simp
  show "r = Inl () \<Longrightarrow> m' = m \<or> m' = put_store socket s m \<or>
      (\<exists>v ttl s'. store_set (slot k i) v ttl t lim s = (s', r) \<and> m' = put_store socket s' m)"
    using assms(4) unfolding rl by (auto split: if_splits prod.splits)
  assume "r = Inr ()"
  then obtain s' where "\<not> limit \<le> ?c" "m' = put_store socket s' m"
    "store_set (slot k i) (to_le_bytes (count_of (slot k i) s + 1)) (Some (window * 2)) t lim s = (s', Inr ())"
    using assms(4) unfolding rl by (auto split: if_splits prod.splits)
  moreover have "carried ?p ?w (?el mod ?w) \<le> ?p" by (rule carried_le [OF into])
  ultimately show "\<exists>p s'. (p = 0 \<or> (\<exists>j. p = count_of (slot k j) s)) \<and>
      (\<exists>x \<le> p. count_of (slot k i) s + x < limit) \<and>
      store_set (slot k i) (to_le_bytes (count_of (slot k i) s + 1)) (Some (window * 2)) t lim s = (s', Inr ()) \<and>
      m' = put_store socket s' m"
    by (intro exI [of _ ?p] exI [of _ s']) (auto simp: not_le)
qed

lemma limiter_inv_expired:
  assumes inv: "limiter_inv socket k lim e w limit A T m" and t: "T \<le> t" and w: "0 < w"
  defines "s \<equiv> expire t (the_store socket m)"
  shows "limiter_inv socket k lim e w limit A t (put_store socket s m)"
    and "A ((t - e) div w) \<le> unat (count_of (slot k (of_nat ((t - e) div w))) s) \<or> 2 ^ 64 \<le> (t - e) div w"
proof -
  have ex: "store_exact (the_store socket m)" "store_exact s" "store_within lim s"
    using inv the_store_ok expire_ok unfolding limiter_inv_def s_def by blast+
  have kept: "map_of (entries s) (slot k j) = map_of (entries (the_store socket m)) (slot k j) \<and>
      count_of (slot k j) s = count_of (slot k j) (the_store socket m) \<and>
      (\<exists>en. map_of (entries (the_store socket m)) (slot k j) = Some en \<and> expires en \<noteq> None \<and>
         e + (unat j + 1) * w \<le> expiry en \<and> A (unat j) \<le> unat (count_of (slot k j) (the_store socket m)))"
    if j: "(t - e) div w \<le> unat j" "0 < A (unat j)" for j
  proof -
    have "(T - e) div w \<le> unat j" using j(1) t by (meson diff_le_mono div_le_mono le_trans)
    then obtain en where en: "map_of (entries (the_store socket m)) (slot k j) = Some en" "expires en \<noteq> None"
      "e + (unat j + 1) * w \<le> expiry en" "A (unat j) \<le> unat (count_of (slot k j) (the_store socket m))"
      using inv j(2) unfolding limiter_inv_def by blast
    have "t - e < (unat j + 1) * w"
      using j(1) w by (metis Suc_eq_plus1 div_less_iff_less_mult le_imp_less_Suc)
    then have "t < expiry en" using en(3) by linarith
    then have "is_live t en" using en(2) by (auto simp: is_live_def expiry_def split: option.splits)
    with en ex show ?thesis
      using count_of_expire(2) [OF ex(1) en(1)] by (simp add: s_def get_expire)
  qed
  have "unat (count_of (slot k j) s) \<le> limit" for j
    using count_of_expire(1) [OF ex(1), of "slot k j" t] inv unfolding limiter_inv_def s_def by auto
  moreover have "maps_ok lim (put_store socket s m)"
    using inv ex by (intro put_store_ok) (auto simp: limiter_inv_def)
  moreover have "\<exists>en. map_of (entries s) (slot k j) = Some en \<and> expires en \<noteq> None \<and>
      e + (unat j + 1) * w \<le> expiry en \<and> A (unat j) \<le> unat (count_of (slot k j) s)"
    if "(t - e) div w \<le> unat j" "0 < A (unat j)" for j
    using kept [OF that] by metis
  ultimately show "limiter_inv socket k lim e w limit A t (put_store socket s m)"
    using inv by (simp add: limiter_inv_def the_store_put) (simp add: put_store_def)
  show "A ((t - e) div w) \<le> unat (count_of (slot k (of_nat ((t - e) div w))) s) \<or> 2 ^ 64 \<le> (t - e) div w"
    using kept [of "of_nat ((t - e) div w)"] unat_of_nat_u64 [of "(t - e) div w"] by (cases "A ((t - e) div w)") auto
qed

lemma limiter_inv_later:
  "limiter_inv socket k lim e w limit A T m \<Longrightarrow> T \<le> t \<Longrightarrow> limiter_inv socket k lim e w limit A t m"
  unfolding limiter_inv_def by (meson diff_le_mono div_le_mono le_trans)

lemma limiter_admit:
  assumes inv: "limiter_inv socket k lim e w limit A t (put_store socket s m)" and m: "maps_ok lim m"
    and i: "unat i = (t - e) div w" "e \<le> t"
    and c: "unat (count_of (slot k i) s) < limit" "A (unat i) \<le> unat (count_of (slot k i) s)" "limit < 2 ^ 63"
    and s': "store_set (slot k i) (to_le_bytes (count_of (slot k i) s + 1)) (Some (w * 2)) t lim s = (s', Inr ())"
  shows "limiter_inv socket k lim e w limit (A(unat i := A (unat i) + 1)) t (put_store socket s' m)"
proof -
  let ?c = "count_of (slot k i) s"
  have ok: "store_exact s" "store_within lim s" "epoch m = e" "\<forall>i. A i \<le> limit"
    and counts: "\<And>j. unat (count_of (slot k j) s) \<le> limit"
    using inv the_store_ok [of lim "put_store socket s m" socket]
    by (auto simp: limiter_inv_def the_store_put) (simp add: put_store_def)
  note set = store_set_cases(1,3) [OF s' ok(1,2)]
  have es: "entries s' = hm_insert (slot k i) \<lparr>me_value = to_le_bytes (?c + 1), expires = Some (t + w * 2)\<rparr> (entries s)"
    using set(2) by simp
  have "unat (?c + 1) = unat ?c + 1" using c(1,3) by (intro unat_add_lem [THEN iffD1, THEN trans]) simp_all
  then have cnt: "unat (count_of (slot k j) s') = (if j = i then unat ?c + 1 else unat (count_of (slot k j) s))" for j
    by (simp add: count_of_def [of _ s'] store_get_def es map_simps) (simp add: count_of_def store_get_def)
  have "w * ((t - e) div w) \<le> t - e" by simp
  then have "e + w * ((t - e) div w) \<le> t" using i(2) by linarith
  then have "e + (unat i + 1) * w \<le> t + w * 2" using i by (simp add: algebra_simps)
  moreover have "\<exists>en. map_of (entries s') (slot k j) = Some en \<and> expires en \<noteq> None \<and>
      e + (unat j + 1) * w \<le> expiry en \<and> (A(unat i := A (unat i) + 1)) (unat j) \<le> unat (count_of (slot k j) s')"
    if j: "(t - e) div w \<le> unat j" "0 < (A(unat i := A (unat i) + 1)) (unat j)" for j
  proof (cases "j = i")
    case True
    with calculation c(2) show ?thesis by (simp add: es map_simps cnt expiry_def)
  next
    case False
    then have ne: "unat j \<noteq> unat i" by (simp add: word_unat_eq_iff)
    with j inv obtain en where "map_of (entries s) (slot k j) = Some en" "expires en \<noteq> None"
      "e + (unat j + 1) * w \<le> expiry en" "A (unat j) \<le> unat (count_of (slot k j) s)"
      by (auto simp: limiter_inv_def the_store_put)
    with False ne show ?thesis by (simp add: es map_simps cnt)
  qed
  moreover have "maps_ok lim (put_store socket s' m)" using m set(1) by (intro put_store_ok) auto
  ultimately show ?thesis
    using ok c counts unfolding limiter_inv_def
    by (auto simp: the_store_put cnt) (auto simp: put_store_def)
qed

lemma limiter_step:
  assumes inv: "limiter_inv socket k lim e w (unat limit) A T m"
    and t: "T \<le> t" "e \<le> t" "t - e < 2 ^ 64" and w: "0 < w" "w < 2 ^ 64" and l: "unat limit < 2 ^ 63"
    and r: "rate_limit socket k limit w t lim m = (m', r)"
  shows "limiter_inv socket k lim e w (unat limit)
    (if r = Inr () then A((t - e) div w := A ((t - e) div w) + 1) else A) t m'"
proof -
  let ?i = "of_nat ((t - e) div w) :: u64" and ?s = "expire t (the_store socket m)"
  have e: "epoch m = e" and m: "maps_ok lim m" using inv by (simp_all add: limiter_inv_def)
  note step = rate_limit_step [OF w(1,2) _ r, unfolded e, OF t(3)]
  note ex = limiter_inv_expired [OF inv t(1) w(1)]
  have ok: "store_exact ?s" "store_within lim ?s" using the_store_ok [OF m] expire_ok by blast+
  show ?thesis
  proof (cases "r = Inr ()")
    case False
    then have "r = Inl ()" by (cases r) auto
    with step(2) store_set_cases(2) [OF _ ok] consider "m' = m" | "m' = put_store socket ?s m" by blast
    then show ?thesis using False limiter_inv_later [OF inv t(1)] ex(1) by cases simp_all
  next
    case True
    obtain p s' x where p: "p = 0 \<or> (\<exists>j. p = count_of (slot k j) ?s)" "x \<le> p" "count_of (slot k ?i) ?s + x < limit"
      and s': "store_set (slot k ?i) (to_le_bytes (count_of (slot k ?i) ?s + 1)) (Some (w * 2)) t lim ?s = (s', Inr ())"
        "m' = put_store socket s' m"
      using step(3) [OF True] by blast
    have counts: "unat (count_of (slot k j) ?s) \<le> unat limit" for j
      using ex(1) by (simp add: limiter_inv_def the_store_put)
    have "unat p \<le> unat limit" using p(1) counts by auto
    then have "unat x \<le> unat limit" using p(2) by (simp add: word_le_nat_alt)
    then have "unat (count_of (slot k ?i) ?s) + unat x < 2 ^ 64" using counts [of ?i] l by simp
    then have "unat (count_of (slot k ?i) ?s + x) = unat (count_of (slot k ?i) ?s) + unat x"
      by (intro unat_add_lem [THEN iffD1]) simp
    then have "unat (count_of (slot k ?i) ?s) < unat limit" using p(3) by (simp add: word_less_nat_alt)
    moreover have "(t - e) div w < 2 ^ 64" using t(3) by (meson div_le_dividend le_less_trans)
    then have "A (unat ?i) \<le> unat (count_of (slot k ?i) ?s)" using ex(2) step(1) by simp
    ultimately show ?thesis
      using limiter_admit [OF ex(1) m step(1) t(2) _ _ l s'(1)] True s'(2) step(1) by simp
  qed
qed

lemma admits_bound:
  assumes "limiter_inv socket k lim e w (unat limit) A T m" "sorted ts"
    and "\<forall>t \<in> set ts. T \<le> t \<and> e \<le> t \<and> t - e < 2 ^ 64" and "0 < w" "w < 2 ^ 64" "unat limit < 2 ^ 63"
  shows "A i + length (filter (\<lambda>t. (t - e) div w = i) (admits socket k limit w lim ts m)) \<le> unat limit"
  using assms(1-3)
proof (induction ts arbitrary: A T m)
  case Nil
  then show ?case by (simp add: limiter_inv_def)
next
  case (Cons t ts)
  obtain m' r where r: "rate_limit socket k limit w t lim m = (m', r)"
    by (cases "rate_limit socket k limit w t lim m")
  let ?A = "if r = Inr () then A((t - e) div w := A ((t - e) div w) + 1) else A"
  have "limiter_inv socket k lim e w (unat limit) ?A t m'"
    using Cons.prems assms(4-6) by (intro limiter_step [OF Cons.prems(1) _ _ _ _ _ _ r]) auto
  from Cons.IH [OF this] Cons.prems
  have "?A i + length (filter (\<lambda>t. (t - e) div w = i) (admits socket k limit w lim ts m')) \<le> unat limit" by simp
  then show ?case using r by (auto split: if_splits)
qed



end
