(* ===== verification/Socket_Spec.thy ===== *)
theory Socket_Spec
  imports Socket_Map
begin

text \<open>
  What a socket map promises: a specification of \<^verbatim>\<open>synch-sock/src/runtime/map.rs\<close> over partial functions,
  with no stored byte count and no entry past its time, and the proof that every sequence of operations
  of \<open>Socket_Map\<close> behaves as the specification allows. The one answer the specification leaves open
  is that of \<open>delete\<close> for a key whose time is over, which depends on whether a sweep came first.
\<close>

section \<open>Specification\<close>

type_synonym ttl_map = "bytes \<rightharpoonup> bytes \<times> instant option"

definition prune :: "instant \<Rightarrow> ttl_map \<Rightarrow> ttl_map" where
  "prune t M k = (case M k of
     Some (v, ex) \<Rightarrow> if (case ex of None \<Rightarrow> True | Some at \<Rightarrow> t < at) then Some (v, ex) else None
   | None \<Rightarrow> None)"

definition cost :: "ttl_map \<Rightarrow> nat" where
  "cost M = (\<Sum>k \<in> dom M. length k + length (fst (the (M k))))"

definition fits :: "map_limits \<Rightarrow> ttl_map \<Rightarrow> bool" where
  "fits lim M \<longleftrightarrow> cost M \<le> map_max_bytes lim \<and> card (dom M) \<le> map_max_keys lim"

definition ttl_write ::
  "bytes \<Rightarrow> bytes \<Rightarrow> duration option \<Rightarrow> instant \<Rightarrow> map_limits \<Rightarrow> ttl_map \<Rightarrow> ttl_map \<times> (unit + unit)" where
  "ttl_write k v ttl t lim M =
     (let M' = M(k \<mapsto> (v, map_option (\<lambda>d. t + d) ttl)) in if fits lim M' then (M', Inr ()) else (M, Inl ()))"

definition ttl_count :: "bytes \<Rightarrow> ttl_map \<Rightarrow> u64" where
  "ttl_count k M = (case Option.bind (map_option fst (M k)) from_le_bytes of None \<Rightarrow> 0 | Some w \<Rightarrow> w)"

definition ttl_rate ::
  "bytes \<Rightarrow> u64 \<Rightarrow> duration \<Rightarrow> instant \<Rightarrow> instant \<Rightarrow> map_limits \<Rightarrow> ttl_map \<Rightarrow> ttl_map \<times> (unit + unit)" where
  "ttl_rate k limit window start t lim M =
     (if limit = 0 \<or> window = 0 then (M, Inl ())
      else
        let elapsed = (of_nat (t - start) :: u64);
            width = (of_nat (max 1 (min window (2 ^ 64 - 1))) :: u64);
            index = elapsed div width;
            current = ttl_count (slot k index) M;
            previous = (if index = 0 then 0 else ttl_count (slot k (index - 1)) M)
        in if limit \<le> current + carried previous width (elapsed mod width) then (M, Inl ())
           else ttl_write (slot k index) (to_le_bytes (current + 1)) (Some (min MAX_DURATION (window * 2))) t lim M)"

datatype map_out = ODone | OGot "bytes option" | OWrote "unit + unit" | ODeleted bool | OCounted "unit + u64"

type_synonym ttl_maps = "rstr \<Rightarrow> ttl_map"

text \<open>What one operation at the instant \<open>t\<close> may do to the live entries, and answer.\<close>

fun spec_step :: "map_limits \<Rightarrow> instant \<Rightarrow> instant \<Rightarrow> map_op \<Rightarrow> ttl_maps \<Rightarrow> ttl_maps \<Rightarrow> map_out \<Rightarrow> bool" where
  "spec_step lim start t (OpClear socket) V V' out \<longleftrightarrow>
     V' = (\<lambda>name. if starts_with (socket @ [0]) name then Map.empty else V name) \<and> out = ODone"
| "spec_step lim start t (OpGet socket k now) V V' out \<longleftrightarrow> V' = V \<and> out = OGot (map_option fst (V socket k))"
| "spec_step lim start t (OpSet socket k v ttl now) V V' out \<longleftrightarrow>
     (let (M, r) = ttl_write k v ttl t lim (V socket) in V' = V(socket := prune t M) \<and> out = OWrote r)"
| "spec_step lim start t (OpDelete socket k) V V' out \<longleftrightarrow>
     V' = V(socket := (V socket)(k := None)) \<and> (\<exists>b. out = ODeleted b \<and> (V socket k \<noteq> None \<longrightarrow> b))"
| "spec_step lim start t (OpIncr socket k delta ttl now) V V' out \<longleftrightarrow>
     (let succ = saturating_add (ttl_count k (V socket)) delta;
          (M, r) = ttl_write k (to_le_bytes succ) ttl t lim (V socket)
      in V' = V(socket := prune t M) \<and> out = OCounted (result_bind r (\<lambda>_. Inr succ)))"
| "spec_step lim start t (OpRate socket k limit window now) V V' out \<longleftrightarrow>
     (let (M, r) = ttl_rate k limit window start t lim (V socket) in V' = V(socket := prune t M) \<and> out = OWrote r)"

text \<open>A run: between two operations time passes and entries go out of date.\<close>

inductive spec_run :: "map_limits \<Rightarrow> instant \<Rightarrow> instant \<Rightarrow> ttl_maps \<Rightarrow> (instant \<times> map_op) list \<Rightarrow> map_out list \<Rightarrow> bool"
  for lim start where
  spec_nil: "spec_run lim start t V [] []"
| spec_cons: "t \<le> t' \<Longrightarrow> spec_step lim start t' op (\<lambda>name. prune t' (V name)) V' out \<Longrightarrow> spec_run lim start t' V' rest outs \<Longrightarrow>
    spec_run lim start t V ((t', op) # rest) (out # outs)"

section \<open>Implementation\<close>

fun map_exec :: "map_limits \<Rightarrow> map_op \<Rightarrow> socket_maps \<Rightarrow> socket_maps \<times> map_out" where
  "map_exec lim (OpClear socket) m = (map_clear socket m, ODone)"
| "map_exec lim (OpGet socket k now) m = (let (m, r) = map_get socket k now m in (m, OGot r))"
| "map_exec lim (OpSet socket k v ttl now) m = (let (m, r) = map_set socket k v ttl now lim m in (m, OWrote r))"
| "map_exec lim (OpDelete socket k) m = (let (m, r) = map_delete socket k m in (m, ODeleted r))"
| "map_exec lim (OpIncr socket k delta ttl now) m = (let (m, r) = map_incr socket k delta ttl now lim m in (m, OCounted r))"
| "map_exec lim (OpRate socket k limit window now) m = (let (m, r) = rate_limit socket k limit window now lim m in (m, OWrote r))"

fun exec_run :: "map_limits \<Rightarrow> (instant \<times> map_op) list \<Rightarrow> socket_maps \<Rightarrow> map_out list" where
  "exec_run lim [] m = []"
| "exec_run lim ((t, op) # rest) m = (let (m, out) = map_exec lim op m in out # exec_run lim rest m)"

text \<open>The operations of a run carry their instants, and those do not decrease.\<close>

fun op_at :: "instant \<Rightarrow> map_op \<Rightarrow> bool" where
  "op_at t (OpGet _ _ now) \<longleftrightarrow> now = t"
| "op_at t (OpSet _ _ _ _ now) \<longleftrightarrow> now = t"
| "op_at t (OpIncr _ _ _ _ now) \<longleftrightarrow> now = t"
| "op_at t (OpRate _ _ _ _ now) \<longleftrightarrow> now = t"
| "op_at t _ \<longleftrightarrow> True"

fun timed :: "instant \<Rightarrow> (instant \<times> map_op) list \<Rightarrow> bool" where
  "timed t [] \<longleftrightarrow> True"
| "timed t ((t', op) # rest) \<longleftrightarrow> t \<le> t' \<and> op_at t' op \<and> timed t' rest"

section \<open>Abstraction\<close>

definition sees :: "sock_store \<Rightarrow> ttl_map" where
  "sees s k = map_option (\<lambda>e. (me_value e, expires e)) (map_of (entries s) k)"

definition view :: "instant \<Rightarrow> socket_maps \<Rightarrow> ttl_maps" where
  "view t m socket = prune t (sees (the_store socket m))"

lemma prune_prune: "t \<le> t' \<Longrightarrow> prune t' (prune t M) = prune t' M"
  by (auto simp: prune_def fun_eq_iff split: option.split)

lemma view_later: "t \<le> t' \<Longrightarrow> (\<lambda>name. prune t' (view t m name)) = view t' m"
  by (simp add: view_def prune_prune fun_eq_iff)

lemma sees_expire: "store_exact s \<Longrightarrow> sees (expire t s) = prune t (sees s)"
  by (auto simp: sees_def prune_def get_expire is_live_def fun_eq_iff split: option.split)

lemma dom_sees: "dom (sees s) = fst ` set (entries s)"
  by (auto simp: sees_def dom_map_of_conv_image_fst [symmetric])

lemma sees_measures:
  assumes "store_exact s"
  shows "cost (sees s) = s_bytes s" "card (dom (sees s)) = length (entries s)"
proof -
  have d: "distinct (map fst (entries s))" using assms by (simp add: store_exact_def)
  have "cost (sees s) = (\<Sum>k \<in> fst ` set (entries s). entry_size k (the (map_of (entries s) k)))"
    unfolding cost_def dom_sees by (rule sum.cong) (auto simp: sees_def entry_size_def dest: weak_map_of_SomeI)
  also have "\<dots> = (\<Sum>(k, e) \<in> set (entries s). entry_size k e)"
    using d by (subst sum.reindex) (auto simp: distinct_map intro!: sum.cong)
  also have "\<dots> = size_of (entries s)"
    using d by (simp add: size_of_def sum_list_distinct_conv_sum_set distinct_map)
  finally show "cost (sees s) = s_bytes s" using assms by (simp add: store_exact_def)
  show "card (dom (sees s)) = length (entries s)" unfolding dom_sees using d by (metis distinct_card length_map set_map)
qed

section \<open>Refinement\<close>

lemma store_set_refines:
  assumes "store_exact s"
  shows "(sees (fst (store_set k v ttl t lim s)), snd (store_set k v ttl t lim s)) = ttl_write k v ttl t lim (sees s)"
proof -
  let ?e = "\<lparr>me_value = v, expires = map_option (\<lambda>d. t + d) ttl\<rparr>"
  let ?old = "case map_of (entries s) k of None \<Rightarrow> 0 | Some e \<Rightarrow> entry_size k e"
  let ?s' = "s\<lparr>s_bytes := s_bytes s - ?old + (length k + length v), entries := hm_insert k ?e (entries s)\<rparr>"
  let ?M' = "(sees s)(k \<mapsto> (v, map_option (\<lambda>d. t + d) ttl))"
  have old: "(case map_option (entry_size k) (map_of (entries s) k) of None \<Rightarrow> 0 | Some n \<Rightarrow> n) = ?old"
    by (cases "map_of (entries s) k") auto
  have "?old \<le> size_of (entries s)" by (auto split: option.splits dest: size_of_member)
  then have "size_of (hm_insert k ?e (entries s)) = size_of (entries s) - ?old + (length k + length v)"
    using size_of_insert [of "entries s" k ?e] assms by (simp add: store_exact_def entry_size_def)
  then have e': "store_exact ?s'" using assms by (simp add: store_exact_def hm.invar_insert)
  have M': "sees ?s' = ?M'" by (auto simp: sees_def map_simps fun_eq_iff)
  have "length (hm_insert k ?e (entries s)) = length (entries s) + (if map_of (entries s) k = None then 1 else 0)"
    using length_hm_insert [of k ?e "entries s"] assms by (auto simp: store_exact_def map_of_eq_None_iff)
  then have "fits lim ?M' \<longleftrightarrow> s_bytes s - ?old + (length k + length v) \<le> map_max_bytes lim \<and>
      length (entries s) + (if map_of (entries s) k = None then 1 else 0) \<le> map_max_keys lim"
    using sees_measures [OF e'] unfolding M' by (simp add: fits_def)
  then show ?thesis
    using M' by (auto simp: store_set_def ttl_write_def Let_def old)
qed

lemma view_put:
  "view t (put_store socket s m) = (view t m)(socket := prune t (sees s))"
  by (auto simp: view_def the_store_put fun_eq_iff)

lemma count_of_refines: "count_of k s = ttl_count k (sees s)"
  by (simp add: count_of_def ttl_count_def store_get_def sees_def option.map_comp comp_def)

lemma sees_swept: "maps_ok lim m \<Longrightarrow> sees (expire t (the_store socket m)) = view t m socket"
  using the_store_ok by (simp add: view_def sees_expire)

lemma write_swept:
  assumes "maps_ok lim m" "store_set k v ttl t lim (expire t (the_store socket m)) = (s, r)"
  shows "ttl_write k v ttl t lim (view t m socket) = (sees s, r)"
  using store_set_refines [of "expire t (the_store socket m)" k v ttl t lim] assms the_store_ok [OF assms(1), of socket]
  by (simp add: expire_ok sees_swept [OF assms(1)])

lemma view_remove:
  assumes "map_of (inner m) socket = Some s"
  shows "view t (put_store socket (s\<lparr>entries := hm_remove k (entries s), s_bytes := b\<rparr>) m) =
    (view t m)(socket := (view t m socket)(k := None))"
  using assms by (auto simp: view_put view_def the_store_def sees_def prune_def map_simps fun_eq_iff)

lemma view_None:
  "map_of (inner m) socket = None \<Longrightarrow> view t m socket = Map.empty"
  "map_of (inner m) socket = Some s \<Longrightarrow> view t m socket k =
     (case map_of (entries s) k of None \<Rightarrow> None | Some e \<Rightarrow> if is_live t e then Some (me_value e, expires e) else None)"
  by (auto simp: view_def the_store_def sock_store_default_def sees_def prune_def is_live_def fun_eq_iff split: option.split)

lemma view_same: "V socket k = None \<Longrightarrow> V(socket := (V socket)(k := None)) = V" for V :: ttl_maps
  by (auto simp: fun_eq_iff)

lemma get_refines:
  "map_get socket k t m = (m', r) \<Longrightarrow> view t m' = view t m \<and> r = map_option fst (view t m socket k)"
  by (auto simp: map_get_def view_None view_remove view_same split: option.splits if_splits)

lemma delete_refines:
  "map_delete socket k m = (m', b) \<Longrightarrow>
   view t m' = (view t m)(socket := (view t m socket)(k := None)) \<and> (view t m socket k \<noteq> None \<longrightarrow> b)"
  by (auto simp: map_delete_def view_None view_remove view_same split: option.splits if_splits)

lemma clear_refines:
  assumes "maps_ok lim m"
  shows "view t (map_clear socket m) = (\<lambda>name. if starts_with (socket @ [0]) name then Map.empty else view t m name)"
proof
  fix name
  have "map_of (inner (map_clear socket m)) name =
      (if starts_with (socket @ [0]) name then None else map_of (inner m) name)"
    using hm.get_filter [of "inner m" "\<lambda>(name, _). \<not> starts_with (socket @ [0]) name" name] assms
    by (auto simp: map_clear_def maps_ok_def split: option.splits)
  then show "view t (map_clear socket m) name = (if starts_with (socket @ [0]) name then Map.empty else view t m name)"
    by (auto simp: view_def the_store_def sees_def prune_def sock_store_default_def fun_eq_iff)
qed

lemma prune_view: "prune t (view t m socket) = view t m socket"
  by (simp add: view_def prune_prune)

lemma rate_refines:
  assumes "maps_ok lim m" "rate_limit socket k limit window t lim m = (m', r)"
  shows "\<exists>M. ttl_rate k limit window (epoch m) t lim (view t m socket) = (M, r) \<and> view t m' = (view t m)(socket := prune t M)"
  using assms(2)
  by (auto simp: rate_limit_def ttl_rate_def Let_def count_of_refines sees_swept [OF assms(1)] view_put prune_view write_swept [OF assms(1)]
      split: if_splits prod.splits)

lemma set_refines:
  assumes "maps_ok lim m" "map_set socket k v ttl t lim m = (m', r)"
  shows "\<exists>M. ttl_write k v ttl t lim (view t m socket) = (M, r) \<and> view t m' = (view t m)(socket := prune t M)"
  using assms(2) by (auto simp: map_set_def Let_def view_put write_swept [OF assms(1)] split: prod.splits)

lemma incr_refines:
  assumes "maps_ok lim m" "map_incr socket k delta ttl t lim m = (m', r)"
  shows "\<exists>M w. ttl_write k (to_le_bytes (saturating_add (ttl_count k (view t m socket)) delta)) ttl t lim (view t m socket) = (M, w) \<and>
    r = result_bind w (\<lambda>_. Inr (saturating_add (ttl_count k (view t m socket)) delta)) \<and>
    view t m' = (view t m)(socket := prune t M)"
proof -
  have "map_incr socket k delta ttl t lim m =
      (let s = expire t (the_store socket m); succ = saturating_add (count_of k s) delta;
           (s, r) = store_set k (to_le_bytes succ) ttl t lim s
       in (put_store socket s m, result_bind r (\<lambda>_. Inr succ)))"
    by (simp add: map_incr_def count_of_def)
  then show ?thesis
    using assms(2) by (auto simp: Let_def count_of_refines sees_swept [OF assms(1)] view_put write_swept [OF assms(1)] split: prod.splits)
qed

lemma exec_step: "fst (map_exec lim op m) = map_step lim op m" "epoch (map_step lim op m) = epoch m"
  by (cases op; simp add: case_prod_unfold map_clear_def map_get_def map_set_def map_delete_def map_incr_def rate_limit_def
      put_store_def Let_def split: option.split)+

lemma map_exec_refines:
  assumes "maps_ok lim m" "op_at t op" "map_exec lim op m = (m', out)"
  shows "spec_step lim (epoch m) t op (view t m) (view t m') out"
proof (cases op)
  case (OpClear socket)
  then show ?thesis using assms clear_refines [OF assms(1)] by auto
next
  case (OpGet socket k now)
  then show ?thesis using assms by (auto dest: get_refines split: prod.splits)
next
  case (OpSet socket k v ttl now)
  then show ?thesis using assms by (auto dest: set_refines [OF assms(1)] split: prod.splits)
next
  case (OpDelete socket k)
  then show ?thesis using assms delete_refines [of socket k m _ _ t] by (auto split: prod.splits)
next
  case (OpIncr socket k delta ttl now)
  then show ?thesis using assms by (auto simp: Let_def dest: incr_refines [OF assms(1)] split: prod.splits)
next
  case (OpRate socket k limit window now)
  then show ?thesis using assms by (auto dest: rate_refines [OF assms(1)] split: prod.splits)
qed

lemma exec_run_refines:
  "maps_ok lim m \<Longrightarrow> timed t run \<Longrightarrow> spec_run lim (epoch m) t (view t m) run (exec_run lim run m)"
proof (induction lim run m arbitrary: t rule: exec_run.induct)
  case (2 lim t' op rest m)
  obtain m' out where e: "map_exec lim op m = (m', out)" by fastforce
  have m': "maps_ok lim m'" "epoch m' = epoch m"
    using map_step_ok [OF 2(2), of op] exec_step [of lim op m] e by simp_all
  have "spec_step lim (epoch m) t' op (\<lambda>name. prune t' (view t m name)) (view t' m') out"
    using map_exec_refines [OF 2(2) _ e, of t'] 2(3) view_later by simp
  moreover have "spec_run lim (epoch m) t' (view t' m') rest (exec_run lim rest m')"
    using 2(1) [OF e [symmetric] refl] 2(3) m' e by simp
  ultimately show ?case using 2(3) e by (auto intro: spec_cons)
qed (simp add: spec_nil)



end
