(* ===== verification/Chunked.thy ===== *)
theory Chunked
  imports Text_Ops
begin

text \<open>
  The decoder of \<^verbatim>\<open>aws-chunked\<close> request bodies (\<^verbatim>\<open>synch-s3/src/chunked.rs\<close>): which framing a
  request declares, the incremental decoder with its line and trailer bounds, and the verdict at
  the end of the body. Lengths are naturals. The checksum crates enter as a function \<open>hashes\<close> from
  an algorithm and the bytes hashed to the digest, and the base64 crate as \<open>b64\<close>; the running
  digest state is the bytes it was fed. Errors keep their S3 code.
\<close>

section \<open>Framing\<close>

datatype s3_error = InvalidArgument | NotImplemented | BadDigest | StoreFailure

datatype framing_kind = Plain | ChunkedBody

definition framing :: "rstr \<Rightarrow> rstr option \<Rightarrow> s3_error + framing_kind" where
  "framing payload_hash content_encoding =
     (let declared = map ascii_upper (trim payload_hash) in
      if starts_with (str ''STREAMING-'') declared then
        (if declared = str ''STREAMING-UNSIGNED-PAYLOAD-TRAILER'' then Inr ChunkedBody
         else Inl NotImplemented)
      else
        let chunked_encoding = (case content_encoding of None \<Rightarrow> False
              | Some encoding \<Rightarrow>
                  list_ex (\<lambda>part. map ascii_lower (trim part) = str ''aws-chunked'') (split_on 44 encoding))
        in if chunked_encoding then Inr ChunkedBody else Inr Plain)"

definition check_declared_length :: "framing_kind \<Rightarrow> bool \<Rightarrow> s3_error + unit" where
  "check_declared_length f declared_length =
     (if declared_length \<and> f = Plain then Inl InvalidArgument else Inr ())"

section \<open>The decoder\<close>

datatype algorithm = Crc32 | Crc32c | Crc64Nvme | Sha256

definition algorithm_parse :: "rstr \<Rightarrow> algorithm option" where
  "algorithm_parse name =
     (if name = str ''crc32'' then Some Crc32
      else if name = str ''crc32c'' then Some Crc32c
      else if name = str ''crc64nvme'' then Some Crc64Nvme
      else if name = str ''sha256'' then Some Sha256
      else None)"

definition MAX_LINE :: nat where "MAX_LINE = 8 * 1024"
definition MAX_TRAILER :: nat where "MAX_TRAILER = 16 * 1024"

datatype dstate = Size | Data nat | DataEnd | Trailer | Done

record decoder =
  d_state :: dstate
  d_line :: bytes
  trailer_bytes :: nat
  trailers :: "(rstr, rstr) btmap"
  decoded :: nat
  d_expected :: "nat option"
  digests :: "bytes option"

definition decoder_new :: "nat option \<Rightarrow> decoder" where
  "decoder_new expected =
     \<lparr>d_state = Size, d_line = [], trailer_bytes = 0, trailers = [], decoded = 0, d_expected = expected,
      digests = Some []\<rparr>"

definition parse_size :: "bytes \<Rightarrow> s3_error + nat" where
  "parse_size l =
     result_bind (ok_or InvalidArgument (from_utf8 l)) (\<lambda>s.
     let hex = trim (hd (split_on 59 s)) in
     if hex = [] then Inl InvalidArgument
     else map_err (\<lambda>_. InvalidArgument) (ok_or () (map_option unat (from_str_radix 16 hex))))"

definition chop_cr :: "bytes \<Rightarrow> bytes" where
  "chop_cr l = (if l \<noteq> [] \<and> last l = 13 then butlast l else l)"

text \<open>The decoder with its partial line updated, what is left of the input, and the line, if its
  end was there.\<close>

definition take_line :: "decoder \<Rightarrow> bytes \<Rightarrow> s3_error + (decoder \<times> bytes \<times> bytes option)" where
  "take_line d input =
     (let before = takeWhile (\<lambda>b. b \<noteq> 10) input; rest = dropWhile (\<lambda>b. b \<noteq> 10) input in
      if rest \<noteq> [] then
        if MAX_LINE < length (d_line d) + length before then Inl InvalidArgument
        else Inr (d\<lparr>d_line := []\<rparr>, tl rest, Some (chop_cr (d_line d @ before)))
      else
        if MAX_LINE < length (d_line d @ input) then Inl InvalidArgument
        else Inr (d\<lparr>d_line := d_line d @ input\<rparr>, [], None))"

lemma take_line_shorter:
  "take_line d input = Inr (d', rest, Some l) \<Longrightarrow> length rest < length input \<and> d_state d' = d_state d"
proof -
  assume r: "take_line d input = Inr (d', rest, Some l)"
  then have "dropWhile (\<lambda>b. b \<noteq> 10) input \<noteq> []" "rest = tl (dropWhile (\<lambda>b. b \<noteq> 10) input)" "d_state d' = d_state d"
    by (auto simp: take_line_def Let_def split: if_splits)
  then show ?thesis using length_dropWhile_le [of "\<lambda>b. b \<noteq> 10" input] by (cases "dropWhile (\<lambda>b. b \<noteq> 10) input") auto
qed

definition add_trailer :: "bytes \<Rightarrow> decoder \<Rightarrow> s3_error + decoder" where
  "add_trailer l d =
     (let total = trailer_bytes d + length l in
      if MAX_TRAILER < total then Inl InvalidArgument
      else
        let d = d\<lparr>trailer_bytes := total\<rparr> in
        case split_once 58 (from_utf8_lossy l) of
          None \<Rightarrow> Inr d
        | Some (name, v) \<Rightarrow> Inr (d\<lparr>trailers := bt_insert (map ascii_lower (trim name)) (trim v) (trailers d)\<rparr>))"

text \<open>What is done with a payload piece of a chunk: it is hashed and counted, and the count is held
  against the declared length at once.\<close>

definition add_payload :: "bytes \<Rightarrow> decoder \<Rightarrow> s3_error + decoder" where
  "add_payload piece d =
     (let d = d\<lparr>digests := map_option (\<lambda>h. h @ piece) (digests d), decoded := decoded d + length piece\<rparr>
      in case d_expected d of
           Some expected \<Rightarrow> if expected < decoded d then Inl InvalidArgument else Inr d
         | None \<Rightarrow> Inr d)"

text \<open>One turn of the loop of \<open>push\<close> on a nonempty input: the decoder, what is left and what came
  out, or \<open>None\<close> for a \<open>break\<close>.\<close>

definition after_line ::
  "decoder \<Rightarrow> bytes \<Rightarrow> (bytes \<Rightarrow> decoder \<Rightarrow> s3_error + decoder)
     \<Rightarrow> s3_error + (decoder \<times> (bytes \<times> bytes) option)" where
  "after_line d input f =
     result_bind (take_line d input) (\<lambda>(d, rest, l).
     case l of None \<Rightarrow> Inr (d, None)
     | Some l \<Rightarrow> result_bind (f l d) (\<lambda>d. Inr (d, Some (rest, []))))"

definition size_line :: "bytes \<Rightarrow> decoder \<Rightarrow> s3_error + decoder" where
  "size_line l d = result_bind (parse_size l) (\<lambda>size. Inr (d\<lparr>d_state := (if size = 0 then Trailer else Data size)\<rparr>))"

definition end_line :: "bytes \<Rightarrow> decoder \<Rightarrow> s3_error + decoder" where
  "end_line l d = (if l = [] then Inr (d\<lparr>d_state := Size\<rparr>) else Inl InvalidArgument)"

definition trailer_line :: "bytes \<Rightarrow> decoder \<Rightarrow> s3_error + decoder" where
  "trailer_line l d = (if l = [] then Inr (d\<lparr>d_state := Done\<rparr>) else add_trailer l d)"

definition turn :: "decoder \<Rightarrow> bytes \<Rightarrow> s3_error + (decoder \<times> (bytes \<times> bytes) option)" where
  "turn d input =
     (case d_state d of
        Size \<Rightarrow> after_line d input size_line
      | Data remaining \<Rightarrow>
          let n = min remaining (length input); piece = take n input in
          result_bind (add_payload piece d) (\<lambda>d.
          Inr (d\<lparr>d_state := (if remaining - n = 0 then DataEnd else Data (remaining - n))\<rparr>,
               Some (drop n input, piece)))
      | DataEnd \<Rightarrow> after_line d input end_line
      | Trailer \<Rightarrow> after_line d input trailer_line
      | Done \<Rightarrow> Inl InvalidArgument)"

definition turn_rank :: "decoder \<Rightarrow> bytes \<Rightarrow> nat" where
  "turn_rank d input = 2 * length input + (case d_state d of Data _ \<Rightarrow> 1 | _ \<Rightarrow> 0)"

lemma after_line_shorter:
  "after_line d input f = Inr (d', Some (rest, out)) \<Longrightarrow> length rest < length input"
  by (auto simp: after_line_def dest!: take_line_shorter split: option.splits)

lemma turn_rank_less:
  assumes "turn d input = Inr (d', Some (rest, out))" "input \<noteq> []"
  shows "turn_rank d' rest < turn_rank d input"
proof (cases "d_state d")
  case (Data remaining)
  then show ?thesis
    using assms by (auto simp: turn_def Let_def turn_rank_def split: if_splits)
next
  case Done
  then show ?thesis using assms by (simp add: turn_def)
qed (use assms after_line_shorter in \<open>fastforce simp: turn_def turn_rank_def split: dstate.splits\<close>)+

function push :: "decoder \<Rightarrow> bytes \<Rightarrow> s3_error + (decoder \<times> bytes)" where
  "push d input =
     (if input = [] then Inr (d, [])
      else case turn d input of
          Inl e \<Rightarrow> Inl e
        | Inr (d, None) \<Rightarrow> Inr (d, [])
        | Inr (d, Some (rest, out)) \<Rightarrow>
            result_bind (push d rest) (\<lambda>(d, more). Inr (d, out @ more)))"
  by pat_completeness auto
termination
  by (relation "measure (\<lambda>(d, input). turn_rank d input)") (auto simp: turn_rank_less)

declare push.simps [simp del]

definition checksum_trailer :: "decoder \<Rightarrow> (rstr \<times> rstr) option" where
  "checksum_trailer d =
     (case List.map_filter (\<lambda>(k, v). map_option (\<lambda>name. (name, v)) (strip_prefix (str ''x-amz-checksum-'') k))
             (trailers d) of
        [] \<Rightarrow> None | x # _ \<Rightarrow> Some x)"

definition finish :: "(algorithm \<Rightarrow> bytes \<Rightarrow> bytes) \<Rightarrow> (rstr \<Rightarrow> bytes option) \<Rightarrow> decoder \<Rightarrow> s3_error + unit" where
  "finish hashes b64 d =
     (if d_state d \<noteq> Done then Inl InvalidArgument
      else if (case d_expected d of None \<Rightarrow> False | Some expected \<Rightarrow> decoded d \<noteq> expected)
      then Inl InvalidArgument
      else case checksum_trailer d of
          None \<Rightarrow> Inr ()
        | Some (name, declared) \<Rightarrow>
            result_bind (ok_or NotImplemented (algorithm_parse name)) (\<lambda>alg.
            result_bind (ok_or StoreFailure (digests d)) (\<lambda>fed.
            let computed = hashes alg fed in
            result_bind (ok_or InvalidArgument (b64 declared)) (\<lambda>expected.
            if computed \<noteq> expected then Inl BadDigest else Inr ()))))"

section \<open>Decoding a body\<close>

text \<open>How a decoded stream ends: whole, broken by its transport, or by the decoder's own fault, which
  is left for the caller to read.\<close>

datatype outcome = Whole | Broken | Faulted s3_error

fun decode_pieces ::
  "(algorithm \<Rightarrow> bytes \<Rightarrow> bytes) \<Rightarrow> (rstr \<Rightarrow> bytes option) \<Rightarrow> decoder \<Rightarrow> (unit + bytes) list \<Rightarrow> bytes \<times> outcome" where
  "decode_pieces hashes b64 d [] =
     ([], case finish hashes b64 d of Inr () \<Rightarrow> Whole | Inl e \<Rightarrow> Faulted e)"
| "decode_pieces hashes b64 d (Inl _ # ps) = ([], Broken)"
| "decode_pieces hashes b64 d (Inr piece # ps) =
     (case push d piece of
        Inl e \<Rightarrow> ([], Faulted e)
      | Inr (d, payload) \<Rightarrow>
          let (more, out) = decode_pieces hashes b64 d ps in (payload @ more, out))"

fun plain_pieces :: "(unit + bytes) list \<Rightarrow> bytes \<times> outcome" where
  "plain_pieces [] = ([], Whole)"
| "plain_pieces (Inl _ # ps) = ([], Broken)"
| "plain_pieces (Inr piece # ps) = (let (more, out) = plain_pieces ps in (piece @ more, out))"

definition decode_body ::
  "(algorithm \<Rightarrow> bytes \<Rightarrow> bytes) \<Rightarrow> (rstr \<Rightarrow> bytes option) \<Rightarrow> framing_kind \<Rightarrow> nat option \<Rightarrow> (unit + bytes) list
     \<Rightarrow> bytes \<times> outcome" where
  "decode_body hashes b64 f declared pieces =
     (if f = Plain then plain_pieces pieces
      else decode_pieces hashes b64 (decoder_new declared) pieces)"

definition explain :: "outcome \<Rightarrow> s3_error \<Rightarrow> s3_error" where
  "explain out fallback = (case out of Faulted e \<Rightarrow> e | _ \<Rightarrow> fallback)"

section \<open>How a body is cut into pieces does not matter\<close>

declare result_bind_Inl_iff [simp]

lemma result_bind_assoc: "result_bind (result_bind r f) g = result_bind r (\<lambda>x. result_bind (f x) g)"
  by (cases r) auto

lemma result_bind_pair [simp]:
  "result_bind (case x of (a, b) \<Rightarrow> Inr (f a b)) g = (case x of (a, b) \<Rightarrow> g (f a b))"
  by (cases x) auto

lemma take_line_append:
  "take_line d a = Inl e \<Longrightarrow> take_line d (a @ b) = Inl e"
  "take_line d a = Inr (d', rest, Some l) \<Longrightarrow> take_line d (a @ b) = Inr (d', rest @ b, Some l)"
  "take_line d a = Inr (d', rest, None) \<Longrightarrow> take_line d (a @ b) = take_line d' b \<and> rest = [] \<and> d_state d' = d_state d"
proof -
  let ?P = "\<lambda>b :: u8. b \<noteq> 10"
  have cut: "takeWhile ?P (a @ b) = (if dropWhile ?P a \<noteq> [] then takeWhile ?P a else a @ takeWhile ?P b)"
    "dropWhile ?P (a @ b) = (if dropWhile ?P a \<noteq> [] then dropWhile ?P a @ b else dropWhile ?P b)"
    by (induction a) auto
  have none: "takeWhile ?P a = a" if "dropWhile ?P a = []"
    using takeWhile_dropWhile_id [of ?P a] that by simp
  show "take_line d a = Inl e \<Longrightarrow> take_line d (a @ b) = Inl e"
    by (auto simp: take_line_def Let_def cut split: if_splits)
  show "take_line d a = Inr (d', rest, Some l) \<Longrightarrow> take_line d (a @ b) = Inr (d', rest @ b, Some l)"
    by (auto simp: take_line_def Let_def cut split: if_splits)
  show "take_line d a = Inr (d', rest, None) \<Longrightarrow> take_line d (a @ b) = take_line d' b \<and> rest = [] \<and> d_state d' = d_state d"
    by (auto simp: take_line_def Let_def cut split: if_splits)
qed

lemma after_line_append:
  "after_line d a f = Inl e \<Longrightarrow> after_line d (a @ b) f = Inl e"
  "after_line d a f = Inr (d', Some (rest, out)) \<Longrightarrow> after_line d (a @ b) f = Inr (d', Some (rest @ b, out))"
  "after_line d a f = Inr (d', None) \<Longrightarrow> after_line d (a @ b) f = after_line d' b f \<and> d_state d' = d_state d"
proof -
  consider x where "take_line d a = Inl x" | d1 r l where "take_line d a = Inr (d1, r, Some l)"
    | d1 r where "take_line d a = Inr (d1, r, None)" by (metis not_None_eq obj_sumE surj_pair)
  note cs = this
  show "after_line d a f = Inl e \<Longrightarrow> after_line d (a @ b) f = Inl e"
    using cs by cases (auto simp: after_line_def take_line_append)
  show "after_line d a f = Inr (d', Some (rest, out)) \<Longrightarrow> after_line d (a @ b) f = Inr (d', Some (rest @ b, out))"
    using cs by cases (auto simp: after_line_def take_line_append)
  show "after_line d a f = Inr (d', None) \<Longrightarrow> after_line d (a @ b) f = after_line d' b f \<and> d_state d' = d_state d"
    using cs by cases (auto simp: after_line_def take_line_append)
qed

lemma add_payload_append:
  "add_payload (p @ q) d = result_bind (add_payload p d) (add_payload q)"
  by (auto simp: add_payload_def Let_def option.map_comp comp_def split: option.splits)

lemma add_payload_state: "add_payload p d = Inr d' \<Longrightarrow> d_state d' = d_state d"
  by (auto simp: add_payload_def Let_def split: option.splits if_splits)

lemma add_payload_set: "add_payload p (d\<lparr>d_state := st\<rparr>) = result_bind (add_payload p d) (\<lambda>d'. Inr (d'\<lparr>d_state := st\<rparr>))"
  by (auto simp: add_payload_def Let_def split: option.splits)

lemma turn_append:
  assumes "\<forall>r. d_state d \<noteq> Data r"
  shows "turn d a = Inl e \<Longrightarrow> turn d (a @ b) = Inl e"
    and "turn d a = Inr (d', Some (rest, out)) \<Longrightarrow> turn d (a @ b) = Inr (d', Some (rest @ b, out))"
    and "turn d a = Inr (d', None) \<Longrightarrow> turn d (a @ b) = turn d' b"
  using assms by (cases "d_state d"; simp add: turn_def after_line_append)+

lemma push_data:
  assumes "d_state d = Data r" "input \<noteq> []"
  shows "push d input = result_bind (add_payload (take r input) d) (\<lambda>d.
    result_bind (push (d\<lparr>d_state := (if r \<le> length input then DataEnd else Data (r - length input))\<rparr>) (drop r input))
      (\<lambda>(d, more). Inr (d, take r input @ more)))"
  using assms by (subst push.simps)
    (cases "add_payload (take r input) d"; auto simp: turn_def Let_def min_def not_le split: if_splits)

text \<open>Cutting inside the payload of a chunk.\<close>

lemma push_data_cut:
  assumes "d_state d = Data r" "length a < r" "a \<noteq> []" "b \<noteq> []"
  shows "push d (a @ b) = result_bind (add_payload a d) (\<lambda>d.
    result_bind (push (d\<lparr>d_state := Data (r - length a)\<rparr>) b) (\<lambda>(d, more). Inr (d, a @ more)))"
proof (cases "add_payload a d")
  case (Inl e)
  then show ?thesis using assms push_data [of d r "a @ b"] by (simp add: add_payload_append)
next
  case (Inr d')
  have "d_state (d'\<lparr>d_state := Data (r - length a)\<rparr>) = Data (r - length a)" by simp
  note q = push_data [OF this assms(4)]
  have p: "push d (a @ b) = result_bind (add_payload (a @ take (r - length a) b) d) (\<lambda>d.
    result_bind (push (d\<lparr>d_state := (if r \<le> length a + length b then DataEnd else Data (r - (length a + length b)))\<rparr>)
        (drop (r - length a) b)) (\<lambda>(d, more). Inr (d, (a @ take (r - length a) b) @ more)))"
    using push_data [of d r "a @ b"] assms by simp
  have st: "(if r \<le> length a + length b then DataEnd else Data (r - (length a + length b))) =
      (if r - length a \<le> length b then DataEnd else Data (r - length a - length b))"
    using assms(2) by auto
  show ?thesis
    unfolding p st using Inr
    by (cases "add_payload (take (r - length a) b) d'")
      (simp_all add: add_payload_append add_payload_set q result_bind_assoc case_prod_unfold)
qed

lemma push_Nil [simp]: "push d [] = Inr (d, [])"
  by (simp add: push.simps)

lemma push_turn:
  assumes "input \<noteq> []"
  shows "turn d input = Inl e \<Longrightarrow> push d input = Inl e"
    and "turn d input = Inr (d', None) \<Longrightarrow> push d input = Inr (d', [])"
    and "turn d input = Inr (d', Some (rest, out)) \<Longrightarrow>
      push d input = result_bind (push d' rest) (\<lambda>(d, more). Inr (d, out @ more))"
  using assms by (subst push.simps, simp)+

lemma push_same_turn: "a \<noteq> [] \<Longrightarrow> b \<noteq> [] \<Longrightarrow> turn d a = turn d' b \<Longrightarrow> push d a = push d' b"
  by (simp add: push.simps [of d a] push.simps [of d' b])

lemma turn_data_append:
  assumes "d_state d = Data r" "r \<le> length a"
  shows "turn d a = Inl e \<Longrightarrow> turn d (a @ b) = Inl e"
    and "turn d a = Inr (d', Some (rest, out)) \<Longrightarrow> turn d (a @ b) = Inr (d', Some (rest @ b, out))"
    and "turn d a \<noteq> Inr (d', None)"
  using assms by (auto simp: turn_def Let_def min_def)

lemma push_append:
  "push d (a @ b) = result_bind (push d a) (\<lambda>(d1, o1). result_bind (push d1 b) (\<lambda>(d2, o2). Inr (d2, o1 @ o2)))"
proof (induction d a rule: push.induct)
  case (1 d a)
  consider "a = []" | "b = []" | r where "d_state d = Data r" "length a < r" "a \<noteq> []" "b \<noteq> []"
    | "a \<noteq> []" "b \<noteq> []" "\<forall>r. d_state d = Data r \<longrightarrow> r \<le> length a" by force
  then show ?case
  proof cases
    case 1
    then show ?thesis by (cases "push d b") auto
  next
    case 2
    then show ?thesis by (cases "push d a") auto
  next
    case (3 r)
    then show ?thesis using push_data_cut [OF 3] push_data [OF 3(1,3)]
      by (cases "add_payload a d") (simp_all add: case_prod_unfold)
  next
    case 4
    have app1: "turn d a = Inl e \<Longrightarrow> turn d (a @ b) = Inl e" for e
      using 4(3) turn_append(1) [of d a e b] turn_data_append(1) [of d _ a e b] by blast
    have app2: "turn d a = Inr (d', Some (rest, out)) \<Longrightarrow> turn d (a @ b) = Inr (d', Some (rest @ b, out))" for d' rest out
      using 4(3) turn_append(2) [of d a d' rest out b] turn_data_append(2) [of d _ a d' rest out b] by blast
    have app3: "turn d a = Inr (d', None) \<Longrightarrow> turn d (a @ b) = turn d' b" for d'
      using 4(3) turn_append(3) [of d a d' b] turn_data_append(3) [of d _ a d'] by blast
    consider e where "turn d a = Inl e" | d' where "turn d a = Inr (d', None)"
      | d' rest out where "turn d a = Inr (d', Some (rest, out))"
      by (metis not_None_eq obj_sumE surj_pair)
    then show ?thesis
    proof cases
      case t: (1 e)
      show ?thesis using 4(1) push_turn(1) [OF _ t] push_turn(1) [OF _ app1 [OF t]] by simp
    next
      case t: (2 d')
      have "push d (a @ b) = push d' b" using 4 app3 [OF t] by (intro push_same_turn) auto
      then show ?thesis using push_turn(2) [OF 4(1) t] by (cases "push d' b") auto
    next
      case t: (3 d' rest out)
      have "push d (a @ b) = result_bind (push d' (rest @ b)) (\<lambda>(d, more). Inr (d, out @ more))"
        using 4(1) app2 [OF t] by (intro push_turn(3)) simp
      moreover have "push d a = result_bind (push d' rest) (\<lambda>(d, more). Inr (d, out @ more))"
        by (rule push_turn(3) [OF 4(1) t])
      ultimately show ?thesis using "1.IH" [OF 4(1) t refl refl refl]
        by (simp add: result_bind_assoc case_prod_unfold)
    qed
  qed
qed

definition verdict_of :: "(algorithm \<Rightarrow> bytes \<Rightarrow> bytes) \<Rightarrow> (rstr \<Rightarrow> bytes option) \<Rightarrow> decoder \<Rightarrow> outcome" where
  "verdict_of hashes b64 d = (case finish hashes b64 d of Inr () \<Rightarrow> Whole | Inl e \<Rightarrow> Faulted e)"

lemma decode_one:
  "decode_pieces hashes b64 d [Inr c] =
     (case push d c of Inl e \<Rightarrow> ([], Faulted e) | Inr (d', out) \<Rightarrow> (out, verdict_of hashes b64 d'))"
  by (simp add: verdict_of_def split: sum.split prod.split)

text \<open>Decoding does not depend on how the network cut the body: whatever the pieces, the payload
  and the verdict are those of the body decoded in one piece, up to the payload already handed on
  when the decoder faults.\<close>
lemma decode_pieces_cut:
  "snd (decode_pieces hashes b64 d (map Inr ps)) = snd (decode_pieces hashes b64 d [Inr (concat ps)]) \<and>
   (snd (decode_pieces hashes b64 d (map Inr ps)) = Whole \<longrightarrow>
      decode_pieces hashes b64 d (map Inr ps) = decode_pieces hashes b64 d [Inr (concat ps)])"
proof (induction ps arbitrary: d)
  case Nil
  then show ?case by (simp add: decode_one verdict_of_def)
next
  case (Cons p ps)
  show ?case
  proof (cases "push d p")
    case (Inl e)
    then show ?thesis using push_append [of d p "concat ps"] by (simp add: decode_one)
  next
    case (Inr x)
    obtain d' o1 where x: "x = (d', o1)" by (cases x)
    have whole: "push d (concat (p # ps)) = result_bind (push d' (concat ps)) (\<lambda>(d2, o2). Inr (d2, o1 @ o2))"
      using Inr x push_append [of d p "concat ps"] by simp
    obtain out v where rest: "decode_pieces hashes b64 d' (map Inr ps) = (out, v)" by (cases "decode_pieces hashes b64 d' (map Inr ps)")
    have pieces: "decode_pieces hashes b64 d (map Inr (p # ps)) = (o1 @ out, v)" using Inr x rest by simp
    show ?thesis
    proof (cases "push d' (concat ps)")
      case (Inl e)
      then have "v = Faulted e" using Cons.IH [of d'] rest by (simp add: decode_one)
      then show ?thesis using Inl by (simp add: decode_one whole pieces del: decode_pieces.simps concat.simps list.map)
    next
      case (Inr y)
      obtain d2 o2 where y: "y = (d2, o2)" by (cases y)
      then have "v = verdict_of hashes b64 d2" "v = Whole \<Longrightarrow> out = o2"
        using Cons.IH [of d'] rest Inr by (auto simp: verdict_of_def)
      then show ?thesis using Inr y by (simp add: decode_one whole pieces del: decode_pieces.simps concat.simps list.map)
    qed
  qed
qed

section \<open>Decoding what a client encodes\<close>

fun alg_name :: "algorithm \<Rightarrow> rstr" where
  "alg_name Crc32 = str ''crc32''"
| "alg_name Crc32c = str ''crc32c''"
| "alg_name Crc64Nvme = str ''crc64nvme''"
| "alg_name Sha256 = str ''sha256''"

text \<open>The framing as an SDK writes it: each piece after its length in hex, an empty piece, and the
  checksum in the trailer.\<close>

definition crlf :: bytes where "crlf = [13, 10]"

definition encode_chunk :: "bytes \<Rightarrow> bytes" where
  "encode_chunk c = as_bytes (fmt_nat 16 (length c)) @ crlf @ c @ crlf"

definition checksum_line :: "algorithm \<Rightarrow> rstr \<Rightarrow> rstr" where
  "checksum_line alg v = str ''x-amz-checksum-'' @ alg_name alg @ 58 # v"

definition encode_body :: "bytes list \<Rightarrow> algorithm \<Rightarrow> rstr \<Rightarrow> bytes" where
  "encode_body cs alg v =
     concat (map encode_chunk cs) @ (as_bytes (str ''0'') @ crlf) @ (as_bytes (checksum_line alg v) @ crlf) @ crlf"

abbreviation decoder_at :: "dstate \<Rightarrow> bytes \<Rightarrow> nat option \<Rightarrow> nat \<Rightarrow> (rstr, rstr) btmap \<Rightarrow> decoder" where
  "decoder_at st fed e tb trs \<equiv>
     \<lparr>d_state = st, d_line = [], trailer_bytes = tb, trailers = trs, decoded = length fed, d_expected = e,
      digests = Some fed\<rparr>"

lemma hex_fmt: "c \<in> set (fmt_nat 16 n) \<Longrightarrow> is_hexdigit c"
proof (induction n rule: less_induct)
  case (less n)
  have d: "is_hexdigit (digit_char k)" if "k < 16" for k using that by (auto simp: digit_char_def is_hexdigit_def)
  show ?case
  proof (cases "n < 16")
    case True
    with less.prems d show ?thesis by (subst (asm) fmt_nat.simps) simp
  next
    case False
    then have "c \<in> set (fmt_nat 16 (n div 16)) \<or> c = digit_char (n mod 16)"
      using less.prems by (subst (asm) fmt_nat.simps) auto
    then show ?thesis using less.IH [of "n div 16"] False d [of "n mod 16"] by auto
  qed
qed

lemma length_fmt_nat: "n < 16 ^ Suc k \<Longrightarrow> length (fmt_nat 16 n) \<le> Suc k"
proof (induction k arbitrary: n)
  case 0
  then show ?case by (subst fmt_nat.simps) simp
next
  case (Suc k)
  have "n div 16 < 16 ^ Suc k" using Suc.prems by (simp add: less_mult_imp_div_less mult.commute)
  then show ?case using Suc.IH [of "n div 16"] by (subst fmt_nat.simps) simp
qed

lemma ascii_bytes: "list_all (\<lambda>c. c < 0x80) s \<Longrightarrow> as_bytes s = map of_nat s"
  by (induction s) (auto simp: as_bytes_ascii)

lemma hexdigit_facts:
  assumes "is_hexdigit c"
  shows "c < 0x80" "c \<noteq> 59" "\<not> is_whitespace c" "(of_nat c :: u8) \<noteq> 10"
proof -
  show lt: "c < 0x80" "c \<noteq> 59" "\<not> is_whitespace c"
    using assms by (auto simp: is_hexdigit_def is_whitespace_def)
  have "unat (of_nat c :: u8) = c" using lt by (intro unat_of_nat_u8) simp
  moreover have "c \<noteq> 10" using assms by (auto simp: is_hexdigit_def)
  ultimately show "(of_nat c :: u8) \<noteq> 10" by force
qed

lemma parse_size_fmt:
  assumes "n < 2 ^ 64"
  shows "parse_size (as_bytes (fmt_nat 16 n)) = Inr n"
proof -
  let ?h = "fmt_nat 16 n"
  have h: "is_hexdigit c" if "c \<in> set ?h" for c using that by (rule hex_fmt)
  have valid: "valid_str ?h" using h hexdigit_facts(1) by (auto simp: valid_str_def list_all_iff)
  have "split_on 59 ?h = [?h]" using h hexdigit_facts(2) by (intro split_on_single) blast
  moreover have "trim ?h = ?h" using h hexdigit_facts(3) by (intro trim_id) (auto intro: hd_in_set last_in_set)
  moreover have "from_str_radix 16 ?h = Some (of_nat n)"
    using assms set_fmt_nat [of 16 _ n] by (intro from_str_radix_digits) (auto simp: digits_value_fmt_nat)
  moreover have "unat (of_nat n :: u64) = n" using assms by (simp add: unat_of_nat take_bit_eq_mod)
  ultimately show ?thesis using valid by (simp add: parse_size_def from_utf8_as_bytes Let_def)
qed

lemma take_line_crlf:
  assumes "d_line d = []" "10 \<notin> set l" "length l < MAX_LINE"
  shows "take_line d (l @ crlf) = Inr (d, [], Some l)"
proof -
  have "takeWhile (\<lambda>b. b \<noteq> 10) (l @ crlf) = l @ [13]" "dropWhile (\<lambda>b. b \<noteq> 10) (l @ crlf) = [10]"
    using assms(2) by (induction l) (auto simp: crlf_def)
  then show ?thesis using assms(1,3) by (simp add: take_line_def chop_cr_def)
qed

lemma push_line:
  assumes "d_line d = []" "10 \<notin> set l" "length l < MAX_LINE"
    and "turn d (l @ crlf) = after_line d (l @ crlf) f" "f l d = Inr d'"
  shows "push d (l @ crlf) = Inr (d', [])"
proof -
  have "after_line d (l @ crlf) f = Inr (d', Some ([], []))"
    using take_line_crlf [OF assms(1-3)] assms(5) by (simp add: after_line_def)
  moreover have "l @ crlf \<noteq> []" by (simp add: crlf_def)
  ultimately show ?thesis using push_turn(3) [of "l @ crlf" d d' "[]" "[]"] assms(4) by simp
qed

lemma size_bytes:
  assumes "n < 2 ^ 64"
  shows "10 \<notin> set (as_bytes (fmt_nat 16 n))" "length (as_bytes (fmt_nat 16 n)) < MAX_LINE"
proof -
  have hex: "list_all (\<lambda>c. c < 0x80) (fmt_nat 16 n)"
    using hex_fmt hexdigit_facts(1) by (auto simp: list_all_iff)
  have "as_bytes (fmt_nat 16 n) = map of_nat (fmt_nat 16 n)" using hex by (rule ascii_bytes)
  then show "10 \<notin> set (as_bytes (fmt_nat 16 n))" using hex_fmt hexdigit_facts(4) by fastforce
  have "n < 16 ^ Suc 15" using assms by simp
  then have "length (fmt_nat 16 n) \<le> 16" using length_fmt_nat by fastforce
  then show "length (as_bytes (fmt_nat 16 n)) < MAX_LINE"
    using utf8_len_ascii [OF hex] by (simp add: MAX_LINE_def)
qed

lemma push_chunk:
  assumes "c \<noteq> []" "length c < 2 ^ 64" "\<And>n. e = Some n \<Longrightarrow> length fed + length c \<le> n"
  shows "push (decoder_at Size fed e 0 []) (encode_chunk c) = Inr (decoder_at Size (fed @ c) e 0 [], c)"
proof -
  let ?h = "as_bytes (fmt_nat 16 (length c))"
  have 1: "push (decoder_at Size fed e 0 []) (?h @ crlf) = Inr (decoder_at (Data (length c)) fed e 0 [], [])"
    using size_bytes [OF assms(2)] assms(1)
    by (intro push_line [where f = size_line]) (simp_all add: turn_def size_line_def parse_size_fmt [OF assms(2)])
  have "turn (decoder_at (Data (length c)) fed e 0 []) c = Inr (decoder_at DataEnd (fed @ c) e 0 [], Some ([], c))"
    using assms(3) by (auto simp: turn_def add_payload_def Let_def not_less split: option.split)
  from push_turn(3) [OF assms(1) this]
  have 2: "push (decoder_at (Data (length c)) fed e 0 []) c = Inr (decoder_at DataEnd (fed @ c) e 0 [], c)" by simp
  have 3: "push (decoder_at DataEnd (fed @ c) e 0 []) ([] @ crlf) = Inr (decoder_at Size (fed @ c) e 0 [], [])"
    by (intro push_line [where f = end_line]) (simp_all add: turn_def end_line_def MAX_LINE_def)
  have "encode_chunk c = (?h @ crlf) @ c @ [] @ crlf" by (simp add: encode_chunk_def)
  then show ?thesis using 1 2 3 by (simp only: push_append) simp
qed

lemma push_chunks:
  assumes "\<forall>c \<in> set cs. c \<noteq> [] \<and> length c < 2 ^ 64" "\<And>n. e = Some n \<Longrightarrow> length fed + length (concat cs) \<le> n"
  shows "push (decoder_at Size fed e 0 []) (concat (map encode_chunk cs)) =
    Inr (decoder_at Size (fed @ concat cs) e 0 [], concat cs)"
  using assms
proof (induction cs arbitrary: fed)
  case (Cons c cs)
  have "push (decoder_at Size fed e 0 []) (encode_chunk c) = Inr (decoder_at Size (fed @ c) e 0 [], c)"
    using Cons.prems by (intro push_chunk) fastforce+
  moreover have "push (decoder_at Size (fed @ c) e 0 []) (concat (map encode_chunk cs)) =
      Inr (decoder_at Size ((fed @ c) @ concat cs) e 0 [], concat cs)"
    using Cons.prems by (intro Cons.IH) auto
  ultimately show ?case by (simp add: push_append)
qed simp

text \<open>A checksum as base64 renders it: text without blanks, short enough for a line.\<close>

definition checksum_ok :: "rstr \<Rightarrow> bool" where
  "checksum_ok v \<longleftrightarrow> v \<noteq> [] \<and> length v \<le> 100 \<and> list_all (\<lambda>c. 33 \<le> c \<and> c < 127) v"

lemma checksum_line_facts:
  assumes "checksum_ok v"
  shows "valid_str (checksum_line alg v)" "10 \<notin> set (as_bytes (checksum_line alg v))"
    "length (as_bytes (checksum_line alg v)) < 1000" "trim v = v"
    "split_once 58 (checksum_line alg v) = Some (str ''x-amz-checksum-'' @ alg_name alg, v)"
proof -
  let ?n = "str ''x-amz-checksum-'' @ alg_name alg"
  have name: "list_all (\<lambda>c. 33 \<le> c \<and> c < 127 \<and> c \<noteq> 58) ?n" "length ?n \<le> 30"
    by (cases alg; simp add: str_def)+
  have "list_all (\<lambda>c. 33 \<le> c \<and> c < 127) (checksum_line alg v)"
    using name(1) assms by (auto simp: checksum_line_def checksum_ok_def list_all_iff)
  then have chars: "33 \<le> c \<and> c < 127" if "c \<in> set (checksum_line alg v)" for c
    using that by (auto simp: list_all_iff)
  then show "valid_str (checksum_line alg v)" by (fastforce simp: valid_str_def list_all_iff)
  have ascii: "list_all (\<lambda>c. c < 0x80) (checksum_line alg v)" using chars by (fastforce simp: list_all_iff)
  have "(of_nat c :: u8) \<noteq> 10" if "33 \<le> c" "c < 127" for c
    using that unat_of_nat_u8 [of c] by force
  then show "10 \<notin> set (as_bytes (checksum_line alg v))"
    using chars unfolding ascii_bytes [OF ascii] by fastforce
  have "length (checksum_line alg v) < 1000" using name(2) assms by (simp add: checksum_line_def checksum_ok_def)
  then show "length (as_bytes (checksum_line alg v)) < 1000" using utf8_len_ascii [OF ascii] by simp
  have "\<not> is_whitespace c" if "33 \<le> c" "c < 127" for c using that by (auto simp: is_whitespace_def)
  then show "trim v = v" using assms by (intro trim_id) (auto simp: checksum_ok_def list_all_iff)
  show "split_once 58 (checksum_line alg v) = Some (?n, v)"
    using name(1) by (auto simp: checksum_line_def split_once_Some list_all_iff)
qed

lemma algorithm_parse_name [simp]: "algorithm_parse (alg_name alg) = Some alg"
  by (cases alg) (simp_all add: algorithm_parse_def str_def)

lemma trim_name: "map ascii_lower (trim (str ''x-amz-checksum-'' @ alg_name alg)) = str ''x-amz-checksum-'' @ alg_name alg"
  by (cases alg) (simp_all add: str_def trim_def trim_start_def trim_end_def is_whitespace_def ascii_lower_def)

lemma push_trailer:
  assumes "checksum_ok v"
  shows "push (decoder_at Size fed e 0 []) ((as_bytes (str ''0'') @ crlf) @ (as_bytes (checksum_line alg v) @ crlf) @ crlf) =
    Inr (decoder_at Done fed e (length (as_bytes (checksum_line alg v)))
      [(str ''x-amz-checksum-'' @ alg_name alg, v)], [])"
proof -
  let ?l = "as_bytes (checksum_line alg v)" and ?n = "str ''x-amz-checksum-'' @ alg_name alg"
  note f = checksum_line_facts(1,2,3) [OF assms, of alg] checksum_line_facts(4) [OF assms]
    checksum_line_facts(5) [OF assms, of alg]
  have zero: "as_bytes (str ''0'') = as_bytes (fmt_nat 16 0)" by (simp add: fmt_nat.simps str_def digit_char_def)
  have 1: "push (decoder_at Size fed e 0 []) (as_bytes (str ''0'') @ crlf) = Inr (decoder_at Trailer fed e 0 [], [])"
    unfolding zero using size_bytes [of 0]
    by (intro push_line [where f = size_line]) (simp_all add: turn_def size_line_def parse_size_fmt)
  have "trailer_line ?l (decoder_at Trailer fed e 0 []) = Inr (decoder_at Trailer fed e (length ?l) [(?n, v)])"
  proof -
    have "0 < length (checksum_line alg v)" by (simp add: checksum_line_def)
    also have "\<dots> \<le> length ?l" using length_le_utf8_len [of "checksum_line alg v"] by simp
    finally have "0 < length ?l" .
    then have "?l \<noteq> []" by force
    moreover have "add_trailer ?l (decoder_at Trailer fed e 0 []) = Inr (decoder_at Trailer fed e (length ?l) [(?n, v)])"
      using f(3) unfolding add_trailer_def from_utf8_lossy_as_bytes [OF f(1)] f(5)
      by (simp add: Let_def MAX_TRAILER_def f(4) trim_name)
    ultimately show ?thesis by (simp add: trailer_line_def)
  qed
  then have 2: "push (decoder_at Trailer fed e 0 []) (?l @ crlf) = Inr (decoder_at Trailer fed e (length ?l) [(?n, v)], [])"
    using f(2,3) by (intro push_line [where f = trailer_line]) (simp_all add: turn_def MAX_LINE_def)
  have 3: "push (decoder_at Trailer fed e (length ?l) [(?n, v)]) ([] @ crlf) =
      Inr (decoder_at Done fed e (length ?l) [(?n, v)], [])"
    by (intro push_line [where f = trailer_line]) (simp_all add: turn_def trailer_line_def MAX_LINE_def)
  show ?thesis using 1 2 3 by (simp only: push_append [of _ "as_bytes (str ''0'') @ crlf"] push_append [of _ "?l @ crlf"]) simp
qed

text \<open>C30. What a client encodes is what is stored: for every payload cut into nonempty chunks, with the
  checksum of any supported algorithm in the trailer and the right declared length or none, and
  for every way the network cuts the body, the decoder yields the payload and accepts it.\<close>
theorem decode_roundtrip:
  assumes "\<forall>c \<in> set cs. c \<noteq> [] \<and> length c < 2 ^ 64" "checksum_ok v"
    and "b64 v = Some (hashes alg (concat cs))" "e = None \<or> e = Some (length (concat cs))"
    and "concat ps = encode_body cs alg v"
  shows "decode_body hashes b64 ChunkedBody e (map Inr ps) = (concat cs, Whole)"
proof -
  let ?d = "decoder_at Done (concat cs) e (length (as_bytes (checksum_line alg v)))
      [(str ''x-amz-checksum-'' @ alg_name alg, v)]"
  have new: "decoder_new e = decoder_at Size [] e 0 []" by (simp add: decoder_new_def)
  have "push (decoder_new e) (concat (map encode_chunk cs)) = Inr (decoder_at Size (concat cs) e 0 [], concat cs)"
    unfolding new using assms(1,4) push_chunks [of cs e "[]"] by auto
  then have p: "push (decoder_new e) (concat ps) = Inr (?d, concat cs)"
    unfolding assms(5) encode_body_def push_append [of _ "concat (map encode_chunk cs)"]
    using push_trailer [OF assms(2)] by simp
  have "checksum_trailer ?d = Some (alg_name alg, v)"
    by (simp add: checksum_trailer_def List.map_filter_simps)
  then have fin: "finish hashes b64 ?d = Inr ()"
    using assms(3,4) by (auto simp: finish_def)
  have "decode_pieces hashes b64 (decoder_new e) [Inr (concat ps)] = (concat cs, Whole)"
    unfolding decode_one p by (simp only: sum.case prod.case verdict_of_def fin unit.case)
  then show ?thesis
    using decode_pieces_cut [of hashes b64 "decoder_new e" ps] by (simp add: decode_body_def)
qed

theorem decode_roundtrip_witness:
  "decode_body (\<lambda>alg bs. bs) (\<lambda>v. Some [1, 2, 3]) ChunkedBody (Some 3)
     (map Inr [encode_body [[1], [2, 3]] Crc32c (str ''AQID'')]) = ([1, 2, 3], Whole)"
  using decode_roundtrip [of "[[1], [2, 3]]" "str ''AQID''" "\<lambda>v. Some [1, 2, 3]" "\<lambda>alg bs. bs" Crc32c "Some 3"
      "[encode_body [[1], [2, 3]] Crc32c (str ''AQID'')]"]
  by (simp add: checksum_ok_def str_def)

section \<open>What an accepted body is\<close>

lemma turn_fed:
  assumes "turn d input = Inr (d', x)" "digests d = Some fed"
  shows "digests d' = Some (fed @ (case x of None \<Rightarrow> [] | Some (rest, out) \<Rightarrow> out)) \<and>
    decoded d' = decoded d + length (case x of None \<Rightarrow> [] | Some (rest, out) \<Rightarrow> out) \<and>
    d_expected d' = d_expected d"
proof -
  have lines: "digests d2 = digests d1 \<and> decoded d2 = decoded d1 \<and> d_expected d2 = d_expected d1"
    if "take_line d1 i = Inr (d2, r, l)" for d1 d2 i r l
    using that by (auto simp: take_line_def Let_def split: if_splits)
  have after: "digests d2 = digests d \<and> decoded d2 = decoded d \<and> d_expected d2 = d_expected d \<and>
      (case y of None \<Rightarrow> [] | Some (rest, out) \<Rightarrow> out) = []"
    if "after_line d input f = Inr (d2, y)"
      "\<And>l d1 d2. f l d1 = Inr d2 \<Longrightarrow> digests d2 = digests d1 \<and> decoded d2 = decoded d1 \<and> d_expected d2 = d_expected d1"
    for f d2 y
    using that by (auto simp: after_line_def dest!: lines split: option.splits)
  have fs: "size_line l d1 = Inr d2 \<Longrightarrow> digests d2 = digests d1 \<and> decoded d2 = decoded d1 \<and> d_expected d2 = d_expected d1"
    "end_line l d1 = Inr d2 \<Longrightarrow> digests d2 = digests d1 \<and> decoded d2 = decoded d1 \<and> d_expected d2 = d_expected d1"
    "trailer_line l d1 = Inr d2 \<Longrightarrow> digests d2 = digests d1 \<and> decoded d2 = decoded d1 \<and> d_expected d2 = d_expected d1"
    for l d1 d2
    by (auto simp: size_line_def end_line_def trailer_line_def add_trailer_def Let_def split: if_splits option.splits)
  show ?thesis
  proof (cases "d_state d")
    case (Data r)
    then show ?thesis using assms by (auto simp: turn_def add_payload_def Let_def split: option.splits if_splits)
  next
    case Size
    then show ?thesis using assms after [of size_line d' x] fs(1) by (simp add: turn_def)
  next
    case DataEnd
    then show ?thesis using assms after [of end_line d' x] fs(2) by (simp add: turn_def)
  next
    case Trailer
    then show ?thesis using assms after [of trailer_line d' x] fs(3) by (simp add: turn_def)
  next
    case Done
    then show ?thesis using assms by (simp add: turn_def)
  qed
qed

lemma push_fed:
  "push d input = Inr (d', out) \<Longrightarrow> digests d = Some fed \<Longrightarrow>
   digests d' = Some (fed @ out) \<and> decoded d' = decoded d + length out \<and> d_expected d' = d_expected d"
proof (induction d input arbitrary: fed d' out rule: push.induct)
  case (1 d input)
  show ?case
  proof (cases "input = []")
    case False
    consider d1 where "turn d input = Inr (d1, None)" | d1 rest o1 where "turn d input = Inr (d1, Some (rest, o1))"
      using "1.prems"(1) push_turn(1) [OF False, of d]
      by (metis Inl_Inr_False not_None_eq obj_sumE surj_pair)
    then show ?thesis
    proof cases
      case (1 d1)
      with push_turn(2) [OF False 1] "1.prems" turn_fed [OF 1] show ?thesis by simp
    next
      case t: (2 d1 rest o1)
      then obtain o2 where "push d1 rest = Inr (d', o2)" "out = o1 @ o2"
        using push_turn(3) [OF False t] "1.prems"(1) by (cases "push d1 rest") auto
      with "1.IH" [OF False t refl refl refl, of d' o2 "fed @ o1"] turn_fed [OF t "1.prems"(2)]
      show ?thesis by simp
    qed
  qed (use "1.prems" in simp)
qed

lemma whole_pieces: "snd (decode_pieces hashes b64 d pieces) = Whole \<Longrightarrow> \<exists>ps. pieces = map Inr ps"
proof (induction hashes b64 d pieces rule: decode_pieces.induct)
  case (3 hashes b64 d piece ps)
  then obtain x where x: "push d piece = Inr x" "snd (decode_pieces hashes b64 (fst x) ps) = Whole"
    by (auto simp: case_prod_unfold Let_def split: sum.splits)
  have "\<exists>qs. ps = map Inr qs" by (rule "3.IH" [OF x(1) prod.collapse x(2)])
  then obtain qs where "ps = map Inr qs" by blast
  then have "Inr piece # ps = map Inr (piece # qs)" by simp
  then show ?case by (rule exI)
qed auto

text \<open>C24. A body that is accepted is sound: it was received whole, its payload has exactly the declared
  length when one was declared, and when the trailer carried a checksum, it is of a supported
  algorithm and matches the digest of the very payload that was handed on.\<close>
theorem decode_sound:
  assumes "decode_body hashes b64 ChunkedBody e pieces = (out, Whole)"
  shows "\<exists>ps d. pieces = map Inr ps \<and> push (decoder_new e) (concat ps) = Inr (d, out) \<and> d_state d = Done \<and>
    (\<forall>n. e = Some n \<longrightarrow> length out = n) \<and>
    (\<forall>name v. checksum_trailer d = Some (name, v) \<longrightarrow>
       (\<exists>alg. algorithm_parse name = Some alg \<and> b64 v = Some (hashes alg out)))"
proof -
  have "snd (decode_pieces hashes b64 (decoder_new e) pieces) = Whole" using assms by (simp add: decode_body_def)
  then obtain ps where ps: "pieces = map Inr ps" using whole_pieces by blast
  then have one: "decode_pieces hashes b64 (decoder_new e) [Inr (concat ps)] = (out, Whole)"
    using assms decode_pieces_cut [of hashes b64 "decoder_new e" ps] by (simp add: decode_body_def)
  then obtain d where p: "push (decoder_new e) (concat ps) = Inr (d, out)" and v: "verdict_of hashes b64 d = Whole"
    unfolding decode_one by (auto split: sum.splits)
  have fed: "digests d = Some out" "decoded d = length out" "d_expected d = e"
    using push_fed [OF p, of "[]"] by (simp_all add: decoder_new_def)
  have fin: "finish hashes b64 d = Inr ()" using v by (auto simp: verdict_of_def split: sum.splits)
  then have "d_state d = Done" "\<forall>n. e = Some n \<longrightarrow> length out = n"
    using fed by (auto simp: finish_def split: if_splits option.splits)
  moreover have "\<exists>alg. algorithm_parse name = Some alg \<and> b64 v = Some (hashes alg out)"
    if "checksum_trailer d = Some (name, v)" for name v
    using fin fed that by (auto simp: finish_def Let_def split: if_splits option.splits)
  ultimately show ?thesis using ps p by blast
qed

theorem decode_sound_witness:
  "\<exists>d. push (decoder_new (Some 3)) (encode_body [[1], [2, 3]] Crc32c (str ''AQID'')) = Inr (d, [1, 2, 3]) \<and> d_state d = Done"
proof -
  let ?b = "encode_body [[1], [2, 3]] Crc32c (str ''AQID'')"
  have v: "checksum_ok (str ''AQID'')" by (simp add: checksum_ok_def str_def)
  define d where "d = decoder_at Done [1, 2, 3] (Some 3) (length (as_bytes (checksum_line Crc32c (str ''AQID''))))
      [(str ''x-amz-checksum-'' @ alg_name Crc32c, str ''AQID'')]"
  have chunks: "push (decoder_new (Some 3)) (concat (map encode_chunk [[1], [2, 3]])) =
      Inr (decoder_at Size [1, 2, 3] (Some 3) 0 [], [1, 2, 3])"
    using push_chunks [of "[[1], [2, 3]]" "Some 3" "[]"] by (simp add: decoder_new_def)
  have p: "push (decoder_new (Some 3)) ?b = Inr (d, [1, 2, 3])"
    unfolding encode_body_def push_append [of _ "concat (map encode_chunk [[1], [2, 3]])"] chunks d_def
    using push_trailer [OF v, of "[1, 2, 3]" "Some 3" Crc32c] by simp
  have "checksum_trailer d = Some (alg_name Crc32c, str ''AQID'')"
    by (simp add: d_def checksum_trailer_def List.map_filter_simps del: alg_name.simps)
  then have fin: "finish (\<lambda>_ bs. bs) (\<lambda>_. Some [1, 2, 3]) d = Inr ()"
    by (simp add: finish_def d_def del: alg_name.simps)
  have "decode_body (\<lambda>_ bs. bs) (\<lambda>_. Some [1, 2, 3]) ChunkedBody (Some 3) [Inr ?b] = ([1, 2, 3], Whole)"
    unfolding decode_body_def decode_one p
    by (simp only: sum.case prod.case verdict_of_def fin unit.case framing_kind.distinct if_False)
  from decode_sound [OF this] show ?thesis
  proof (elim exE conjE)
    fix ps d' assume "[Inr ?b :: unit + bytes] = map Inr ps" "push (decoder_new (Some 3)) (concat ps) = Inr (d', [1, 2, 3])"
      "d_state d' = Done"
    moreover from calculation(1) have "ps = [?b]" by (cases ps) auto
    ultimately show ?thesis by auto
  qed
qed

end
