(* ===== verification/Inclusion.thy ===== *)
theory Inclusion
  imports Prelude
begin

text \<open>
  Audit paths of the transparency log (\<^verbatim>\<open>synch-net/src/rekor.rs\<close>, \<open>verify_inclusion\<close> and the two
  domain-separated hashes under it), and the Merkle tree of RFC 6962 they are held against. Indices
  and sizes are naturals: the loop only halves them, so a \<open>u64\<close> cannot leave its range. The digest
  crate's SHA-256 is the parameter \<open>sha256\<close>.
\<close>

section \<open>The verifier\<close>

datatype proof_error = Malformed | Attribution | Binding | InclusionFailed | CheckpointBad | UnknownLog | ChainBad

type_synonym digest = bytes

definition node_hash :: "(bytes \<Rightarrow> digest) \<Rightarrow> digest \<Rightarrow> digest \<Rightarrow> digest" where
  "node_hash sha256 l r = sha256 (1 # l @ r)"

definition leaf_hash :: "(bytes \<Rightarrow> digest) \<Rightarrow> bytes \<Rightarrow> digest" where
  "leaf_hash sha256 entry = sha256 (0 # entry)"

text \<open>The inner loop: both indices are halved while the node is even and not zero.\<close>

fun skip_even :: "nat \<Rightarrow> nat \<Rightarrow> nat \<times> nat" where
  "skip_even node last_node =
     (if node \<noteq> 0 \<and> node mod 2 = 0 then skip_even (node div 2) (last_node div 2) else (node, last_node))"

declare skip_even.simps [simp del]

fun walk_path ::
  "(bytes \<Rightarrow> digest) \<Rightarrow> nat \<Rightarrow> nat \<Rightarrow> digest \<Rightarrow> digest list \<Rightarrow> proof_error + (nat \<times> digest)"
where
  "walk_path sha256 node last_node hash [] = Inr (last_node, hash)"
| "walk_path sha256 node last_node hash (sibling # path) =
     (if last_node = 0 then Inl InclusionFailed
      else if node mod 2 = 1 \<or> node = last_node then
        let hash = node_hash sha256 sibling hash; (node, last_node) = skip_even node last_node
        in walk_path sha256 (node div 2) (last_node div 2) hash path
      else walk_path sha256 (node div 2) (last_node div 2) (node_hash sha256 hash sibling) path)"

definition verify_inclusion ::
  "(bytes \<Rightarrow> digest) \<Rightarrow> nat \<Rightarrow> nat \<Rightarrow> digest \<Rightarrow> digest list \<Rightarrow> digest \<Rightarrow> proof_error + unit"
where
  "verify_inclusion sha256 index tree_size leaf path root =
     (if tree_size \<le> index then Inl InclusionFailed
      else result_bind (walk_path sha256 index (tree_size - 1) leaf path) (\<lambda>(last_node, hash).
        if last_node \<noteq> 0 then Inl InclusionFailed
        else if hash \<noteq> root then Inl InclusionFailed
        else Inr ()))"

section \<open>The tree of RFC 6962\<close>

text \<open>The split point: the largest power of two below the number of leaves.\<close>

fun split_pow :: "nat \<Rightarrow> nat" where
  "split_pow n = (if n \<le> 2 then 1 else 2 * split_pow ((n + 1) div 2))"

declare split_pow.simps [simp del]

lemma split_pow_bounds: "2 \<le> n \<Longrightarrow> split_pow n < n \<and> n \<le> 2 * split_pow n"
proof (induction n rule: split_pow.induct)
  case (1 n)
  show ?case
  proof (cases "n \<le> 2")
    case True
    then have "n = 2" using 1(2) by simp
    then show ?thesis by (simp add: split_pow.simps [of 2])
  next
    case False
    then have "split_pow ((n + 1) div 2) < (n + 1) div 2" "(n + 1) div 2 \<le> 2 * split_pow ((n + 1) div 2)"
      using 1(1) by auto
    then show ?thesis using False by (simp add: split_pow.simps [of n]) linarith
  qed
qed

lemma split_pow_power: "\<exists>j. split_pow n = 2 ^ j"
proof (induction n rule: split_pow.induct)
  case (1 n)
  show ?case
  proof (cases "n \<le> 2")
    case True
    then show ?thesis by (simp add: split_pow.simps [of n]) (rule exI [of _ 0], simp)
  next
    case False
    then obtain j where "split_pow ((n + 1) div 2) = 2 ^ j" using 1 by auto
    then show ?thesis using False by (simp add: split_pow.simps [of n]) (rule exI [of _ "Suc j"], simp)
  qed
qed

function tree_root :: "(bytes \<Rightarrow> digest) \<Rightarrow> bytes list \<Rightarrow> digest" where
  "tree_root sha256 D =
     (if D = [] then sha256 []
      else if length D = 1 then leaf_hash sha256 (hd D)
      else let k = split_pow (length D)
           in node_hash sha256 (tree_root sha256 (take k D)) (tree_root sha256 (drop k D)))"
  by pat_completeness auto

lemma split_pow_pos: "0 < split_pow n"
  using split_pow_power [of n] by (metis zero_less_numeral zero_less_power)

lemma length_two: "D \<noteq> [] \<Longrightarrow> length D \<noteq> 1 \<Longrightarrow> 2 \<le> length D"
  by (cases D) (auto simp: Suc_le_eq)

termination tree_root
proof (relation "measure (\<lambda>(_, D). length D)", goal_cases)
  case 1
  then show ?case by simp
next
  case (2 sha256 D k)
  then show ?case using split_pow_bounds [OF length_two [of D]] by simp
next
  case (3 sha256 D k)
  then show ?case using split_pow_pos [of "length D"] by simp
qed

declare tree_root.simps [simp del]

function audit_path :: "(bytes \<Rightarrow> digest) \<Rightarrow> nat \<Rightarrow> bytes list \<Rightarrow> digest list" where
  "audit_path sha256 m D =
     (if length D \<le> 1 then []
      else let k = split_pow (length D)
           in if m < k then audit_path sha256 m (take k D) @ [tree_root sha256 (drop k D)]
              else audit_path sha256 (m - k) (drop k D) @ [tree_root sha256 (take k D)])"
  by pat_completeness auto

termination audit_path
proof (relation "measure (\<lambda>(_, _, D). length D)", goal_cases)
  case 1
  then show ?case by simp
next
  case (2 sha256 m D k)
  then show ?case using split_pow_bounds [of "length D"] by simp
next
  case (3 sha256 m D k)
  then show ?case using split_pow_pos [of "length D"] by simp
qed

declare audit_path.simps [simp del]

section \<open>The shape of a walk\<close>

text \<open>On which side of the path each sibling sits (\<open>True\<close>: on the left): it depends on the index
  and the size only.\<close>

lemma skip_even_le: "snd (skip_even node last_node) \<le> last_node"
proof (induction node last_node rule: skip_even.induct)
  case (1 node last_node)
  then show ?case by (subst skip_even.simps) (auto intro: order_trans [OF _ div_le_dividend])
qed

definition walk_step :: "nat \<Rightarrow> nat \<Rightarrow> bool \<times> nat \<times> nat" where
  "walk_step node last_node =
     (if node mod 2 = 1 \<or> node = last_node
      then (True, fst (skip_even node last_node) div 2, snd (skip_even node last_node) div 2)
      else (False, node div 2, last_node div 2))"

lemma walk_step_less: "0 < last_node \<Longrightarrow> snd (snd (walk_step node last_node)) < last_node"
  using skip_even_le [of node last_node] by (auto simp: walk_step_def)

function sides :: "nat \<Rightarrow> nat \<Rightarrow> bool list" where
  "sides node last_node =
     (if last_node = 0 then []
      else fst (walk_step node last_node) # sides (fst (snd (walk_step node last_node))) (snd (snd (walk_step node last_node))))"
  by pat_completeness auto
termination
  by (relation "measure snd") (auto simp: walk_step_less)

declare sides.simps [simp del]

fun climb :: "(bytes \<Rightarrow> digest) \<Rightarrow> digest \<Rightarrow> bool list \<Rightarrow> digest list \<Rightarrow> digest" where
  "climb sha256 h (b # bs) (s # path) =
     climb sha256 (if b then node_hash sha256 s h else node_hash sha256 h s) bs path"
| "climb sha256 h _ _ = h"

lemma walk_path_climb:
  "walk_path sha256 node last_node h path = Inr (l, h') \<and> l = 0 \<longleftrightarrow>
     length path = length (sides node last_node) \<and> h' = climb sha256 h (sides node last_node) path \<and> l = 0"
proof (induction path arbitrary: node last_node h)
  case Nil
  then show ?case by (auto simp: sides.simps [of node last_node])
next
  case (Cons s path)
  then show ?case
    by (simp add: sides.simps [of node last_node] walk_step_def Let_def case_prod_unfold)
qed

lemma verify_inclusion_iff:
  "verify_inclusion sha256 i n h path root = Inr () \<longleftrightarrow>
     i < n \<and> length path = length (sides i (n - 1)) \<and> climb sha256 h (sides i (n - 1)) path = root"
proof -
  have "verify_inclusion sha256 i n h path root = Inr () \<longleftrightarrow>
      i < n \<and> (\<exists>l h'. (walk_path sha256 i (n - 1) h path = Inr (l, h') \<and> l = 0) \<and> h' = root)"
    by (auto simp: verify_inclusion_def not_le)
  then show ?thesis unfolding walk_path_climb by auto
qed

section \<open>The walk follows the tree\<close>

lemma skip_even_odd: "node mod 2 = 1 \<Longrightarrow> skip_even node l = (node, l)"
  by (simp add: skip_even.simps)

lemma walk_step_odd: "node mod 2 = 1 \<Longrightarrow> walk_step node l = (True, node div 2, l div 2)"
  by (simp add: walk_step_def skip_even_odd)

lemma walk_step_even: "node mod 2 = 0 \<Longrightarrow> node \<noteq> l \<Longrightarrow> walk_step node l = (False, node div 2, l div 2)"
  by (simp add: walk_step_def)

lemma sides_0 [simp]: "sides node 0 = []"
  by (simp add: sides.simps)

text \<open>Below a full left subtree the walk does not see the rest of the tree.\<close>

lemma sides_left:
  "m < 2 ^ j \<Longrightarrow> 2 ^ j \<le> l \<Longrightarrow> l < 2 ^ Suc j \<Longrightarrow> sides m l = sides m (2 ^ j - 1) @ [False]"
proof (induction j arbitrary: m l)
  case 0
  then have "m = 0" "l = 1" by auto
  then show ?case by (simp add: sides.simps [of 0 "Suc 0"] walk_step_def)
next
  case (Suc j)
  have half: "(2 ^ Suc j - 1) div 2 = (2 ^ j - 1 :: nat)" by (cases "2 ^ j :: nat") auto
  have IH: "sides (m div 2) (l div 2) = sides (m div 2) (2 ^ j - 1) @ [False]"
    using Suc.prems by (intro Suc.IH) auto
  have odd_full: "(2 ^ Suc j - 1 :: nat) mod 2 = 1" by (cases "2 ^ j :: nat") auto
  have "walk_step m l = (m mod 2 = 1, m div 2, l div 2)"
    using Suc.prems by (cases "m mod 2 = 1") (auto simp: walk_step_odd walk_step_even)
  moreover have "walk_step m (2 ^ Suc j - 1) = (m mod 2 = 1, m div 2, 2 ^ j - 1)"
  proof (cases "m mod 2 = 1")
    case True
    then show ?thesis using half by (simp add: walk_step_odd)
  next
    case False
    then have "m mod 2 = 0" "m \<noteq> 2 ^ Suc j - 1" using odd_full by auto
    then show ?thesis using walk_step_even [of m "2 ^ Suc j - 1"] half False by simp
  qed
  moreover have "0 < l" "0 < (2 ^ Suc j - 1 :: nat)" using Suc.prems odd_full by auto
  ultimately have "sides m l = (m mod 2 = 1) # sides (m div 2) (l div 2)"
    "sides m (2 ^ Suc j - 1) = (m mod 2 = 1) # sides (m div 2) (2 ^ j - 1)"
    by (subst sides.simps; simp)+
  then show ?case using IH by simp
qed

lemma skip_even_power: "skip_even (2 ^ t) (2 ^ t) = (1, 1)"
  by (induction t) (simp_all add: skip_even.simps)

lemma skip_even_same:
  "0 < x \<Longrightarrow> x < 2 ^ t \<Longrightarrow>
     \<exists>y t'. skip_even x x = (y, y) \<and> skip_even (x + 2 ^ t) (x + 2 ^ t) = (y + 2 ^ t', y + 2 ^ t') \<and>
       y mod 2 = 1 \<and> y < 2 ^ t'"
proof (induction x arbitrary: t rule: less_induct)
  case (less x)
  then obtain u where t: "t = Suc u" by (cases t) auto
  show ?case
  proof (cases "x mod 2 = 1")
    case True
    then have "(x + 2 ^ t) mod 2 = 1" using t by simp
    then show ?thesis using True less.prems by (auto simp: skip_even_odd intro!: exI [of _ x] exI [of _ t])
  next
    case False
    then have e: "x mod 2 = 0" "(x + 2 ^ t) mod 2 = 0" "(x + 2 ^ t) div 2 = x div 2 + 2 ^ u" using t by auto
    have "0 < x div 2" "x div 2 < 2 ^ u" "x div 2 < x" using less.prems t e by auto
    then show ?thesis
      using less.IH [of "x div 2" u] less.prems e by (simp add: skip_even.simps [of x] skip_even.simps [of "x + 2 ^ t"])
  qed
qed

text \<open>In a right subtree the walk takes the steps of the subtree and then one to the left.\<close>

lemma walk_step_right:
  assumes "node \<le> l" "0 < l" "l < 2 ^ t"
  shows "\<exists>t'. walk_step (node + 2 ^ t) (l + 2 ^ t) =
      (fst (walk_step node l), fst (snd (walk_step node l)) + 2 ^ t', snd (snd (walk_step node l)) + 2 ^ t') \<and>
    fst (snd (walk_step node l)) \<le> snd (snd (walk_step node l)) \<and> snd (snd (walk_step node l)) < 2 ^ t'"
proof -
  obtain u where t: "t = Suc u" using assms by (cases t) auto
  have par: "(node + 2 ^ t) mod 2 = node mod 2" "(node + 2 ^ t) div 2 = node div 2 + 2 ^ u"
    "(l + 2 ^ t) div 2 = l div 2 + 2 ^ u" "l div 2 < 2 ^ u" "node div 2 \<le> l div 2"
    using t assms by (auto intro: div_le_mono)
  consider "node mod 2 = 1" | "node mod 2 = 0" "node \<noteq> l" | "node mod 2 = 0" "node = l" by fastforce
  then show ?thesis
  proof cases
    case 1
    then show ?thesis using par by (auto simp: walk_step_odd intro!: exI [of _ u])
  next
    case 2
    then show ?thesis using par by (auto simp: walk_step_even intro!: exI [of _ u])
  next
    case 3
    then obtain y t' where y: "skip_even l l = (y, y)" "skip_even (l + 2 ^ t) (l + 2 ^ t) = (y + 2 ^ t', y + 2 ^ t')"
      "y mod 2 = 1" "y < 2 ^ t'" using skip_even_same assms by blast
    then obtain v where "t' = Suc v" by (cases t') auto
    then show ?thesis using 3 y by (auto simp: walk_step_def intro!: exI [of _ v])
  qed
qed

lemma sides_right: "node \<le> l \<Longrightarrow> l < 2 ^ t \<Longrightarrow> sides (node + 2 ^ t) (l + 2 ^ t) = sides node l @ [True]"
proof (induction l arbitrary: node t rule: less_induct)
  case (less l)
  show ?case
  proof (cases "l = 0")
    case True
    then show ?thesis using less.prems by (simp add: sides.simps [of "2 ^ t"] walk_step_def skip_even_power)
  next
    case False
    then obtain t' where t': "walk_step (node + 2 ^ t) (l + 2 ^ t) =
        (fst (walk_step node l), fst (snd (walk_step node l)) + 2 ^ t', snd (snd (walk_step node l)) + 2 ^ t')"
      "fst (snd (walk_step node l)) \<le> snd (snd (walk_step node l))" "snd (snd (walk_step node l)) < 2 ^ t'"
      using walk_step_right [of node l t] less.prems by auto
    then show ?thesis
      using less.IH [OF walk_step_less t'(2,3)] False by (simp add: sides.simps [of node l] sides.simps [of "node + 2 ^ t"])
  qed
qed

lemma sides_split:
  assumes "m < n" "2 \<le> n"
  shows "sides m (n - 1) =
    (if m < split_pow n then sides m (split_pow n - 1) @ [False]
     else sides (m - split_pow n) (n - split_pow n - 1) @ [True])"
proof -
  obtain j where j: "split_pow n = 2 ^ j" using split_pow_power by blast
  have b: "2 ^ j < n" "n \<le> 2 * 2 ^ j" using split_pow_bounds [OF assms(2)] j by auto
  show ?thesis
  proof (cases "m < split_pow n")
    case True
    then show ?thesis using sides_left [of m j "n - 1"] b j by simp
  next
    case False
    then show ?thesis using sides_right [of "m - 2 ^ j" "n - 2 ^ j - 1" j] b j assms by simp
  qed
qed

section \<open>Completeness\<close>

lemma climb_snoc:
  "length bs = length path \<Longrightarrow>
     climb sha256 h (bs @ [b]) (path @ [s]) =
       (if b then node_hash sha256 s (climb sha256 h bs path) else node_hash sha256 (climb sha256 h bs path) s)"
  by (induction bs path arbitrary: h rule: list_induct2) auto

lemma audit_path_climb:
  "m < length D \<Longrightarrow> length (audit_path sha256 m D) = length (sides m (length D - 1)) \<and>
     climb sha256 (leaf_hash sha256 (D ! m)) (sides m (length D - 1)) (audit_path sha256 m D) = tree_root sha256 D"
proof (induction sha256 m D rule: audit_path.induct)
  case (1 sha256 m D)
  show ?case
  proof (cases "length D \<le> 1")
    case True
    then obtain e where "D = [e]" using 1(3) by (cases D) auto
    then show ?thesis using 1(3) by (simp add: audit_path.simps tree_root.simps)
  next
    case False
    define k where "k = split_pow (length D)"
    have k: "0 < k" "k < length D" using split_pow_bounds [of "length D"] split_pow_pos False k_def by auto
    have root: "tree_root sha256 D = node_hash sha256 (tree_root sha256 (take k D)) (tree_root sha256 (drop k D))"
      using False k_def by (subst tree_root.simps) (auto simp: Let_def)
    have split: "sides m (length D - 1) =
        (if m < k then sides m (k - 1) @ [False] else sides (m - k) (length D - k - 1) @ [True])"
      using sides_split [of m "length D"] 1(3) False k_def by simp
    show ?thesis
    proof (cases "m < k")
      case True
      have "audit_path sha256 m D = audit_path sha256 m (take k D) @ [tree_root sha256 (drop k D)]"
        using False True k_def by (subst audit_path.simps) (simp add: Let_def)
      then show ?thesis using 1(1) [OF False k_def True] True k split root by (simp add: climb_snoc)
    next
      case ge: False
      have "audit_path sha256 m D = audit_path sha256 (m - k) (drop k D) @ [tree_root sha256 (take k D)]"
        using False ge k_def by (subst audit_path.simps) (simp add: Let_def)
      then show ?thesis using 1(2) [OF False k_def ge] 1(3) ge k split root by (simp add: climb_snoc)
    qed
  qed
qed

text \<open>The verifier accepts every honest audit path: for a log of any size, the RFC 6962 path of
  entry \<open>i\<close> is accepted for the leaf hash of that entry under the root of the tree.\<close>
theorem inclusion_complete:
  assumes "i < length D"
  shows "verify_inclusion sha256 i (length D) (leaf_hash sha256 (D ! i)) (audit_path sha256 i D) (tree_root sha256 D) = Inr ()"
  using audit_path_climb [OF assms] assms by (simp add: verify_inclusion_iff)

section \<open>Soundness\<close>

text \<open>The byte strings hashed on the way up.\<close>

fun climb_inputs :: "(bytes \<Rightarrow> digest) \<Rightarrow> digest \<Rightarrow> bool list \<Rightarrow> digest list \<Rightarrow> bytes set" where
  "climb_inputs sha256 h (b # bs) (s # path) =
     insert (if b then 1 # s @ h else 1 # h @ s)
       (climb_inputs sha256 (if b then node_hash sha256 s h else node_hash sha256 h s) bs path)"
| "climb_inputs sha256 h _ _ = {}"

definition inclusion_inputs :: "(bytes \<Rightarrow> digest) \<Rightarrow> nat \<Rightarrow> bytes list \<Rightarrow> bytes \<Rightarrow> digest list \<Rightarrow> bytes set" where
  "inclusion_inputs sha256 i D entry path =
     {0 # entry, 0 # D ! i}
     \<union> climb_inputs sha256 (leaf_hash sha256 entry) (sides i (length D - 1)) path
     \<union> climb_inputs sha256 (leaf_hash sha256 (D ! i)) (sides i (length D - 1)) (audit_path sha256 i D)"

lemma climb_inj:
  assumes len: "\<forall>x. length (sha256 x) = 32"
  shows "length path = length bs \<Longrightarrow> length path' = length bs \<Longrightarrow>
    \<forall>s \<in> set path \<union> set path'. length s = 32 \<Longrightarrow> length h = 32 \<Longrightarrow> length h' = 32 \<Longrightarrow>
    inj_on sha256 (climb_inputs sha256 h bs path \<union> climb_inputs sha256 h' bs path') \<Longrightarrow>
    climb sha256 h bs path = climb sha256 h' bs path' \<Longrightarrow> h = h' \<and> path = path'"
proof (induction bs arbitrary: h h' path path')
  case Nil
  then show ?case by simp
next
  case (Cons b bs)
  obtain s p where p: "path = s # p" "length p = length bs" using Cons.prems(1) by (cases path) auto
  obtain s' p' where p': "path' = s' # p'" "length p' = length bs" using Cons.prems(2) by (cases path') auto
  let ?x = "if b then 1 # s @ h else 1 # h @ s" and ?x' = "if b then 1 # s' @ h' else 1 # h' @ s'"
  have hash: "(if b then node_hash sha256 s h else node_hash sha256 h s) = sha256 ?x"
    "(if b then node_hash sha256 s' h' else node_hash sha256 h' s') = sha256 ?x'" by (auto simp: node_hash_def)
  have "sha256 ?x = sha256 ?x' \<and> p = p'"
  proof (rule Cons.IH)
    show "inj_on sha256 (climb_inputs sha256 (sha256 ?x) bs p \<union> climb_inputs sha256 (sha256 ?x') bs p')"
      using Cons.prems(6) unfolding p p' climb_inputs.simps hash by (rule inj_on_subset) blast
    show "climb sha256 (sha256 ?x) bs p = climb sha256 (sha256 ?x') bs p'"
      using Cons.prems(7) unfolding p p' climb.simps hash .
  qed (use Cons.prems p p' len in auto)
  moreover from this have "?x = ?x'"
    by - (rule inj_onD [OF Cons.prems(6) [unfolded p p' climb_inputs.simps hash]], auto)
  ultimately show ?case using Cons.prems(3-5) p p' by (auto split: if_splits)
qed

lemma tree_root_length: "\<forall>x. length (sha256 x) = 32 \<Longrightarrow> length (tree_root sha256 D) = 32"
  by (subst tree_root.simps) (simp add: leaf_hash_def node_hash_def Let_def)

lemma audit_path_lengths: "\<forall>x. length (sha256 x) = 32 \<Longrightarrow> s \<in> set (audit_path sha256 m D) \<Longrightarrow> length s = 32"
proof (induction sha256 m D rule: audit_path.induct)
  case (1 sha256 m D)
  show ?case
  proof (cases "length D \<le> 1 \<or> m < split_pow (length D)")
    case True
    then show ?thesis using 1 tree_root_length [OF 1(3)]
      by (cases "length D \<le> 1") (auto simp: audit_path.simps [of sha256 m D] Let_def)
  next
    case False
    then show ?thesis using 1 tree_root_length [OF 1(3)]
      by (auto simp: audit_path.simps [of sha256 m D] Let_def)
  qed
qed

lemma accepted_entry:
  assumes "\<forall>x. length (sha256 x) = 32"
    and "verify_inclusion sha256 i (length D) (leaf_hash sha256 entry) path (tree_root sha256 D) = Inr ()"
    and "\<forall>s \<in> set path. length s = 32"
    and "inj_on sha256 (inclusion_inputs sha256 i D entry path)"
  shows "entry = D ! i \<and> path = audit_path sha256 i D"
proof -
  let ?b = "sides i (length D - 1)"
  have i: "i < length D" "length path = length ?b" "climb sha256 (leaf_hash sha256 entry) ?b path = tree_root sha256 D"
    using assms(2) by (auto simp: verify_inclusion_iff)
  have "leaf_hash sha256 entry = leaf_hash sha256 (D ! i) \<and> path = audit_path sha256 i D"
  proof (rule climb_inj [OF assms(1)])
    show "inj_on sha256 (climb_inputs sha256 (leaf_hash sha256 entry) ?b path
        \<union> climb_inputs sha256 (leaf_hash sha256 (D ! i)) ?b (audit_path sha256 i D))"
      using assms(4) unfolding inclusion_inputs_def by (rule inj_on_subset) blast
  qed (use i audit_path_climb [OF i(1)] assms(1,3) audit_path_lengths [OF assms(1)] in \<open>auto simp: leaf_hash_def\<close>)
  then show ?thesis using assms(4) by (auto simp: leaf_hash_def inclusion_inputs_def dest!: inj_onD)
qed

text \<open>C8. The verifier accepts nothing else: if a path is accepted for an entry under the root of a
  log, and SHA-256 has no collision among the strings hashed along that path and along the honest
  one, then the entry is the log's entry at that index and the path is its audit path.\<close>
theorem inclusion_sound:
  assumes "\<forall>x. length (sha256 x) = 32"
    and "verify_inclusion sha256 i (length D) (leaf_hash sha256 entry) path (tree_root sha256 D) = Inr ()"
    and "\<forall>s \<in> set path. length s = 32"
    and "inj_on sha256 (inclusion_inputs sha256 i D entry path)"
  shows "entry = D ! i \<and> path = audit_path sha256 i D"
  using assms by (rule accepted_entry)

definition demo_sha :: "bytes \<Rightarrow> digest" where
  "demo_sha x = take 32 (x @ replicate 32 0)"

theorem inclusion_complete_witness:
  "verify_inclusion demo_sha 2 3 (leaf_hash demo_sha [9]) (audit_path demo_sha 2 [[7], [8], [9]])
     (tree_root demo_sha [[7], [8], [9]]) = Inr ()"
  using inclusion_complete [of 2 "[[7], [8], [9]]" demo_sha] by (simp add: numeral_3_eq_3)

lemma two_leaves:
  "tree_root sha256 [a, b] = node_hash sha256 (leaf_hash sha256 a) (leaf_hash sha256 b)"
  "audit_path sha256 1 [a, b] = [leaf_hash sha256 a]"
  "sides 1 1 = [True]"
proof -
  have one: "tree_root sha256 [e] = leaf_hash sha256 e" "audit_path sha256 m [e] = []" for e m
    by (subst tree_root.simps audit_path.simps; simp)+
  have "split_pow 2 = 1" by (simp add: split_pow.simps)
  then show "tree_root sha256 [a, b] = node_hash sha256 (leaf_hash sha256 a) (leaf_hash sha256 b)"
    "audit_path sha256 1 [a, b] = [leaf_hash sha256 a]"
    using one by (subst tree_root.simps audit_path.simps; simp add: Let_def numeral_2_eq_2)+
  show "sides 1 1 = [True]" by (subst sides.simps) (simp add: walk_step_odd)
qed

theorem inclusion_sound_witness:
  "[8] = [[7], [8 :: u8]] ! 1 \<and> [leaf_hash demo_sha [7]] = audit_path demo_sha 1 [[7], [8]]"
proof (rule inclusion_sound)
  show "verify_inclusion demo_sha 1 (length [[7], [8 :: u8]]) (leaf_hash demo_sha [8]) [leaf_hash demo_sha [7]]
      (tree_root demo_sha [[7], [8]]) = Inr ()"
    using two_leaves(3) by (simp add: verify_inclusion_iff two_leaves)
  have "inclusion_inputs demo_sha 1 [[7], [8]] [8] [leaf_hash demo_sha [7]] =
      {[0, 8], 1 # leaf_hash demo_sha [7] @ leaf_hash demo_sha [8]}"
    using two_leaves(2) [of demo_sha "[7]" "[8]"] two_leaves(3) by (simp add: inclusion_inputs_def insert_commute)
  moreover have "hd (demo_sha [0, 8]) = 0" "hd (demo_sha (1 # x)) = 1" for x
    by (simp_all add: demo_sha_def numeral_eq_Suc)
  ultimately show "inj_on demo_sha (inclusion_inputs demo_sha 1 [[7], [8]] [8] [leaf_hash demo_sha [7]])"
    by (auto simp: inj_on_def) (metis zero_neq_one)+
qed (auto simp: demo_sha_def leaf_hash_def)

end
