(* ===== verification/Bytes.thy ===== *)
theory Bytes
  imports Prelude
begin

text \<open>
  Big-endian integers over byte lists, as \<open>to_be_bytes\<close> and \<open>from_be_bytes\<close> read and write them, and
  the shortest such form, which DER lengths use.
\<close>

section \<open>Big-endian integers\<close>

fun be_bytes :: "nat \<Rightarrow> nat \<Rightarrow> bytes" where
  "be_bytes 0 n = []"
| "be_bytes (Suc k) n = be_bytes k (n div 256) @ [of_nat (n mod 256)]"

definition be_value :: "bytes \<Rightarrow> nat" where
  "be_value bs = foldl (\<lambda>a b. a * 256 + unat b) 0 bs"

lemma length_be_bytes [simp]: "length (be_bytes k n) = k"
  by (induction k arbitrary: n) auto

lemma be_value_simps [simp]: "be_value [] = 0" "be_value (bs @ [b]) = be_value bs * 256 + unat b"
  by (simp_all add: be_value_def)

lemma unat_lt_256: "unat (b :: u8) < 256"
  using unsigned_less [of b] by simp

lemma be_value_be_bytes: "n < 256 ^ k \<Longrightarrow> be_value (be_bytes k n) = n"
proof (induction k arbitrary: n)
  case (Suc k)
  then have "n div 256 < 256 ^ k" by (simp add: less_mult_imp_div_less mult.commute)
  then show ?case using Suc.IH [of "n div 256"] by (simp add: unat_of_nat)
qed simp

lemma be_bytes_be_value: "be_bytes (length bs) (be_value bs) = bs"
proof (induction bs rule: rev_induct)
  case (snoc b bs)
  then show ?case using unat_lt_256 [of b] by simp
qed simp

lemma be_value_less: "be_value bs < 256 ^ length bs"
proof (induction bs rule: rev_induct)
  case (snoc b bs)
  then show ?case using unat_lt_256 [of b] by simp
qed simp

section \<open>The shortest form\<close>

definition min_bytes :: "nat \<Rightarrow> bytes" where
  "min_bytes n =
     (let bs = be_bytes 8 n in
      case dropWhile (\<lambda>b. b = 0) bs of [] \<Rightarrow> [last bs] | ds \<Rightarrow> ds)"

lemma be_value_append: "be_value (xs @ ys) = be_value xs * 256 ^ length ys + be_value ys"
  by (induction ys rule: rev_induct) (simp_all add: algebra_simps flip: append_assoc)

lemma be_value_zeros [simp]: "be_value (replicate k 0) = 0"
  by (induction k) (simp_all add: replicate_append_same [symmetric])

lemma be_value_ge: "ds \<noteq> [] \<Longrightarrow> hd ds \<noteq> 0 \<Longrightarrow> 256 ^ (length ds - 1) \<le> be_value ds"
proof -
  assume a: "ds \<noteq> []" "hd ds \<noteq> 0"
  then obtain d r where d: "ds = d # r" by (cases ds) auto
  have "be_value (d # r) = unat d * 256 ^ length r + be_value r"
    using be_value_append [of "[d]" r] be_value_simps(2) [of "[]" d] by simp
  moreover have "1 \<le> unat d" using a d by (simp add: Suc_le_eq unat_gt_0)
  ultimately show ?thesis using d by (simp add: trans_le_add1)
qed

lemma dropWhile_zeros: "ds \<noteq> [] \<Longrightarrow> hd ds \<noteq> 0 \<Longrightarrow> dropWhile (\<lambda>b. b = 0) (replicate k (0 :: u8) @ ds) = ds"
  by (induction k) (cases ds, auto)

lemma min_bytes_be_value:
  assumes "ds \<noteq> []" "hd ds \<noteq> 0" "length ds \<le> 8"
  shows "min_bytes (be_value ds) = ds"
proof -
  let ?pad = "replicate (8 - length ds) (0 :: u8)"
  have "be_bytes 8 (be_value ds) = ?pad @ ds"
    using be_bytes_be_value [of "?pad @ ds"] assms(3) by (simp add: be_value_append)
  moreover have "dropWhile (\<lambda>b. b = 0) (?pad @ ds) = ds"
    using assms(1,2) by (rule dropWhile_zeros)
  ultimately show ?thesis using assms(1) by (simp add: min_bytes_def Let_def split: list.split)
qed

lemma min_bytes_shape:
  assumes "0 < n" "n < 2 ^ 64"
  shows "min_bytes n \<noteq> []" "hd (min_bytes n) \<noteq> 0" "be_value (min_bytes n) = n" "length (min_bytes n) \<le> 8"
proof -
  let ?bs = "be_bytes 8 n"
  let ?ds = "dropWhile (\<lambda>b. b = 0) ?bs"
  have v: "be_value ?bs = n" using assms(2) by (intro be_value_be_bytes) simp
  have split: "?bs = takeWhile (\<lambda>b. b = 0) ?bs @ ?ds" by simp
  have z: "be_value (takeWhile (\<lambda>b. b = 0) ?bs) = 0"
    using be_value_zeros [of "length (takeWhile (\<lambda>b. b = 0) ?bs)"]
    by (metis (mono_tags, lifting) replicate_eqI set_takeWhileD)
  have d: "be_value ?ds = n" using v z be_value_append [of "takeWhile (\<lambda>b. b = 0) ?bs" ?ds] by simp
  then have ne: "?ds \<noteq> []" using assms(1) by (metis be_value_simps(1) less_irrefl)
  then have m: "min_bytes n = ?ds" unfolding min_bytes_def Let_def by (cases ?ds) simp_all
  show "min_bytes n \<noteq> []" "hd (min_bytes n) \<noteq> 0" "be_value (min_bytes n) = n" "length (min_bytes n) \<le> 8"
    using m ne d hd_dropWhile [OF ne] length_dropWhile_le [of "\<lambda>b. b = 0" ?bs] by auto
qed

lemma min_bytes_length:
  assumes "0 < n" "n < 256 ^ k" "k \<le> 8"
  shows "length (min_bytes n) \<le> k"
proof (rule ccontr)
  assume "\<not> length (min_bytes n) \<le> k"
  moreover have "n < 2 ^ 64"
    using assms(2,3) power_increasing [of k 8 "256 :: nat"] by (simp add: less_le_trans)
  ultimately have "256 ^ (length (min_bytes n) - 1) \<le> n" "k \<le> length (min_bytes n) - 1"
    using min_bytes_shape [of n] be_value_ge [of "min_bytes n"] assms(1) by auto
  then have "256 ^ k \<le> n" using power_increasing [of k "length (min_bytes n) - 1" "256 :: nat"] by linarith
  then show False using assms(2) by simp
qed

end
