(* ===== verification/Rekor_Codec.thy ===== *)
theory Rekor_Codec
  imports Inclusion Bytes
begin

text \<open>
  The binary form of a zone-key transparency record (\<^verbatim>\<open>synch-net/src/rekor.rs\<close>: \<open>RekorProof\<close>, its
  encoder and decoder, and the bounds-checked \<open>Reader\<close>). A \<open>usize\<close> is a natural, with the overflow
  check of \<open>take\<close> written out; a fixed-size array is a list whose length \<open>proof_ok\<close> records. The
  messages of the errors are dropped.
\<close>

section \<open>The reader\<close>

record reader =
  r_bytes :: bytes
  r_at :: nat

definition reader_new :: "bytes \<Rightarrow> reader" where
  "reader_new bytes = \<lparr>r_bytes = bytes, r_at = 0\<rparr>"

definition r_take :: "nat \<Rightarrow> reader \<Rightarrow> proof_error + (bytes \<times> reader)" where
  "r_take len r =
     (let end_at = r_at r + len in
      if 2 ^ 64 \<le> end_at then Inl Malformed
      else if length (r_bytes r) < end_at then Inl Malformed
      else Inr (take len (drop (r_at r) (r_bytes r)), r\<lparr>r_at := end_at\<rparr>))"

definition r_u8 :: "reader \<Rightarrow> proof_error + (u8 \<times> reader)" where
  "r_u8 r = result_bind (r_take 1 r) (\<lambda>(bs, r). Inr (bs ! 0, r))"

definition r_u16 :: "reader \<Rightarrow> proof_error + (nat \<times> reader)" where
  "r_u16 r = result_bind (r_take 2 r) (\<lambda>(bs, r). Inr (be_value [bs ! 0, bs ! 1], r))"

definition r_u64 :: "reader \<Rightarrow> proof_error + (u64 \<times> reader)" where
  "r_u64 r = result_bind (r_take 8 r) (\<lambda>(bs, r). Inr (of_nat (be_value bs), r))"

definition array32 :: "reader \<Rightarrow> proof_error + (digest \<times> reader)" where
  "array32 r = result_bind (r_take 32 r) (\<lambda>(bs, r). Inr (bs, r))"

definition blob16 :: "reader \<Rightarrow> proof_error + (bytes \<times> reader)" where
  "blob16 r = result_bind (r_u16 r) (\<lambda>(len, r). r_take len r)"

definition r_finish :: "reader \<Rightarrow> proof_error + unit" where
  "r_finish r = (if length (r_bytes r) - r_at r = 0 then Inr () else Inl Malformed)"

section \<open>The record\<close>

record rekor_proof =
  log_id :: digest
  log_index :: u64
  p_statement :: bytes
  canonicalized_body :: bytes
  p_checkpoint :: bytes
  inclusion_path :: "digest list"

definition proof_ok :: "rekor_proof \<Rightarrow> bool" where
  "proof_ok p \<longleftrightarrow> length (log_id p) = 32 \<and> (\<forall>h \<in> set (inclusion_path p). length h = 32)"

definition PROOF_VERSION :: u8 where "PROOF_VERSION = 4"

definition encode_blob :: "bytes \<Rightarrow> bytes" where
  "encode_blob blob = be_bytes 2 (length blob) @ blob"

definition encode_unchecked :: "rekor_proof \<Rightarrow> bytes" where
  "encode_unchecked p =
     PROOF_VERSION # log_id p @ be_bytes 8 (unat (log_index p)) @
     encode_blob (p_statement p) @ encode_blob (canonicalized_body p) @ encode_blob (p_checkpoint p) @
     of_nat (length (inclusion_path p)) # concat (inclusion_path p)"

definition encode_proof :: "rekor_proof \<Rightarrow> bytes option" where
  "encode_proof p =
     (if list_ex (\<lambda>blob. 2 ^ 16 \<le> length blob) [p_statement p, canonicalized_body p, p_checkpoint p] then None
      else if 2 ^ 8 \<le> length (inclusion_path p) then None
      else Some (encode_unchecked p))"

fun read_hops :: "nat \<Rightarrow> reader \<Rightarrow> proof_error + (digest list \<times> reader)" where
  "read_hops 0 r = Inr ([], r)"
| "read_hops (Suc n) r = result_bind (array32 r) (\<lambda>(h, r).
     result_bind (read_hops n r) (\<lambda>(hs, r). Inr (h # hs, r)))"

definition decode_proof :: "bytes \<Rightarrow> proof_error + rekor_proof" where
  "decode_proof bytes =
     result_bind (r_u8 (reader_new bytes)) (\<lambda>(version, r).
     if version \<noteq> PROOF_VERSION then Inl Malformed
     else result_bind (array32 r) (\<lambda>(log_id, r).
     result_bind (r_u64 r) (\<lambda>(log_index, r).
     result_bind (blob16 r) (\<lambda>(statement, r).
     result_bind (blob16 r) (\<lambda>(canonicalized_body, r).
     result_bind (blob16 r) (\<lambda>(checkpoint, r).
     result_bind (r_u8 r) (\<lambda>(hops, r).
     result_bind (read_hops (unat hops) r) (\<lambda>(inclusion_path, r).
     result_bind (r_finish r) (\<lambda>_.
     Inr \<lparr>log_id = log_id, log_index = log_index, p_statement = statement,
          canonicalized_body = canonicalized_body, p_checkpoint = checkpoint,
          inclusion_path = inclusion_path\<rparr>)))))))))"

definition proof_leaf_hash :: "(bytes \<Rightarrow> digest) \<Rightarrow> rekor_proof \<Rightarrow> digest" where
  "proof_leaf_hash sha256 p = leaf_hash sha256 (canonicalized_body p)"

section \<open>What the reader returns\<close>

text \<open>A reader between what it has read and what is left.\<close>

definition reader_at :: "bytes \<Rightarrow> bytes \<Rightarrow> reader" where
  "reader_at pre rest = \<lparr>r_bytes = pre @ rest, r_at = length pre\<rparr>"

lemma reader_new_at: "reader_new bs = reader_at [] bs"
  by (simp add: reader_new_def reader_at_def)

lemma r_take_iff:
  "r_take n (reader_at pre rest) = Inr (x, r) \<longleftrightarrow>
     (\<exists>rest'. rest = x @ rest' \<and> length x = n \<and> r = reader_at (pre @ x) rest' \<and> length pre + n < 2 ^ 64)"
proof
  assume "r_take n (reader_at pre rest) = Inr (x, r)"
  then have "x = take n rest" "n \<le> length rest" "length pre + n < 2 ^ 64"
    "r = \<lparr>r_bytes = pre @ rest, r_at = length pre + n\<rparr>"
    by (auto simp: r_take_def reader_at_def Let_def split: if_splits)
  then show "\<exists>rest'. rest = x @ rest' \<and> length x = n \<and> r = reader_at (pre @ x) rest' \<and> length pre + n < 2 ^ 64"
    by (intro exI [of _ "drop n rest"]) (simp add: reader_at_def)
qed (auto simp: r_take_def reader_at_def Let_def)

lemma r_u8_iff:
  "r_u8 (reader_at pre rest) = Inr (b, r) \<longleftrightarrow>
     (\<exists>rest'. rest = b # rest' \<and> r = reader_at (pre @ [b]) rest' \<and> length pre + 1 < 2 ^ 64)"
proof
  assume "r_u8 (reader_at pre rest) = Inr (b, r)"
  then show "\<exists>rest'. rest = b # rest' \<and> r = reader_at (pre @ [b]) rest' \<and> length pre + 1 < 2 ^ 64"
    by (auto simp: r_u8_def r_take_iff length_Suc_conv)
next
  assume "\<exists>rest'. rest = b # rest' \<and> r = reader_at (pre @ [b]) rest' \<and> length pre + 1 < 2 ^ 64"
  then have "r_take 1 (reader_at pre rest) = Inr ([b], r)" by (auto simp: r_take_iff)
  then show "r_u8 (reader_at pre rest) = Inr (b, r)" by (simp add: r_u8_def)
qed

lemma array32_iff:
  "array32 (reader_at pre rest) = Inr (x, r) \<longleftrightarrow>
     (\<exists>rest'. rest = x @ rest' \<and> length x = 32 \<and> r = reader_at (pre @ x) rest' \<and> length pre + 32 < 2 ^ 64)"
  by (auto simp: array32_def r_take_iff)

lemma r_u64_iff:
  "r_u64 (reader_at pre rest) = Inr (w, r) \<longleftrightarrow>
     (\<exists>rest'. rest = be_bytes 8 (unat w) @ rest' \<and> r = reader_at (pre @ be_bytes 8 (unat w)) rest' \<and>
        length pre + 8 < 2 ^ 64)"
proof -
  have eq: "length x = 8 \<and> w = of_nat (be_value x) \<longleftrightarrow> x = be_bytes 8 (unat w)" for x
  proof
    assume x: "length x = 8 \<and> w = of_nat (be_value x)"
    then have "unat w = be_value x" using be_value_less [of x] by (simp add: unat_of_nat)
    then show "x = be_bytes 8 (unat w)" using x be_bytes_be_value [of x] by simp
  next
    assume "x = be_bytes 8 (unat w)"
    moreover have "unat w < 256 ^ 8" using unsigned_less [of w] by simp
    ultimately show "length x = 8 \<and> w = of_nat (be_value x)" by (simp add: be_value_be_bytes)
  qed
  have "r_u64 (reader_at pre rest) = Inr (w, r) \<longleftrightarrow>
      (\<exists>x rest'. (length x = 8 \<and> w = of_nat (be_value x)) \<and> rest = x @ rest' \<and> r = reader_at (pre @ x) rest' \<and>
         length pre + 8 < 2 ^ 64)"
    by (auto simp: r_u64_def r_take_iff)
  then show ?thesis unfolding eq by simp
qed

lemma two_bytes: "length x = 2 \<Longrightarrow> [x ! 0, x ! Suc 0] = x"
  by (cases x; cases "tl x") auto

lemma blob16_iff:
  "blob16 (reader_at pre rest) = Inr (x, r) \<longleftrightarrow>
     (\<exists>rest'. rest = encode_blob x @ rest' \<and> length x < 2 ^ 16 \<and> r = reader_at (pre @ encode_blob x) rest' \<and>
        length pre + 2 + length x < 2 ^ 64)"
proof
  assume "blob16 (reader_at pre rest) = Inr (x, r)"
  then obtain l rest' where l: "length l = 2" "rest = l @ x @ rest'" "length x = be_value l"
      "r = reader_at (pre @ l @ x) rest'" "length pre + 2 + length x < 2 ^ 64"
    by (auto simp: blob16_def r_u16_def r_take_iff two_bytes)
  moreover from l(1) have "be_bytes 2 (be_value l) = l" "be_value l < 2 ^ 16"
    using be_bytes_be_value [of l] be_value_less [of l] by auto
  ultimately show "\<exists>rest'. rest = encode_blob x @ rest' \<and> length x < 2 ^ 16 \<and>
      r = reader_at (pre @ encode_blob x) rest' \<and> length pre + 2 + length x < 2 ^ 64"
    by (auto simp: encode_blob_def)
next
  assume "\<exists>rest'. rest = encode_blob x @ rest' \<and> length x < 2 ^ 16 \<and>
      r = reader_at (pre @ encode_blob x) rest' \<and> length pre + 2 + length x < 2 ^ 64"
  then obtain rest' where r: "rest = be_bytes 2 (length x) @ x @ rest'" "length x < 2 ^ 16"
      "r = reader_at ((pre @ be_bytes 2 (length x)) @ x) rest'" "length pre + 2 + length x < 2 ^ 64"
    by (auto simp: encode_blob_def)
  have "r_take 2 (reader_at pre rest) = Inr (be_bytes 2 (length x), reader_at (pre @ be_bytes 2 (length x)) (x @ rest'))"
    using r by (auto simp: r_take_iff)
  moreover have "be_value (be_bytes 2 (length x)) = length x"
    by (rule be_value_be_bytes) (use r in simp)
  moreover have "r_take (length x) (reader_at (pre @ be_bytes 2 (length x)) (x @ rest')) = Inr (x, r)"
    using r by (auto simp: r_take_iff)
  ultimately show "blob16 (reader_at pre rest) = Inr (x, r)"
    by (simp add: blob16_def r_u16_def two_bytes)
qed

lemma read_hops_iff:
  "length pre + length rest < 2 ^ 64 \<Longrightarrow> read_hops n (reader_at pre rest) = Inr (hs, r) \<longleftrightarrow>
     (\<exists>rest'. rest = concat hs @ rest' \<and> length hs = n \<and> (\<forall>h \<in> set hs. length h = 32) \<and>
        r = reader_at (pre @ concat hs) rest')"
proof (induction n arbitrary: pre rest hs)
  case (Suc n)
  show ?case
  proof (cases hs)
    case Nil
    then show ?thesis by auto
  next
    case (Cons h hs')
    have "read_hops (Suc n) (reader_at pre rest) = Inr (hs, r) \<longleftrightarrow>
      (\<exists>rest'. rest = h @ rest' \<and> length h = 32 \<and> length pre + 32 < 2 ^ 64 \<and>
         read_hops n (reader_at (pre @ h) rest') = Inr (hs', r))"
      using Cons by (auto simp: array32_iff)
    also have "\<dots> \<longleftrightarrow> (\<exists>rest'. rest = h @ rest' \<and> length h = 32 \<and>
         read_hops n (reader_at (pre @ h) rest') = Inr (hs', r))" using Suc.prems by auto
    also have "\<dots> \<longleftrightarrow> (\<exists>rest'. rest = h @ rest' \<and> length h = 32 \<and> (\<exists>r2. rest' = concat hs' @ r2 \<and>
        length hs' = n \<and> (\<forall>h \<in> set hs'. length h = 32) \<and> r = reader_at ((pre @ h) @ concat hs') r2))"
      using Suc.IH Suc.prems by (intro ex_cong1 conj_cong refl) (simp add: Suc.IH)
    finally show ?thesis using Cons by auto
  qed
qed (auto simp: reader_at_def)

lemma read_hops_Inr:
  "read_hops n (reader_at pre rest) = Inr (hs, r) \<Longrightarrow>
     \<exists>rest'. rest = concat hs @ rest' \<and> length hs = n \<and> (\<forall>h \<in> set hs. length h = 32) \<and>
        r = reader_at (pre @ concat hs) rest'"
proof (induction n arbitrary: pre rest hs)
  case (Suc n)
  then obtain h hs' rest' where h: "hs = h # hs'" "rest = h @ rest'" "length h = 32"
      "read_hops n (reader_at (pre @ h) rest') = Inr (hs', r)"
    by (auto simp: array32_iff)
  then show ?case using Suc.IH [OF h(4)] by auto
qed (auto simp: reader_at_def)

lemma r_finish_iff: "r_finish (reader_at pre rest) = Inr () \<longleftrightarrow> rest = []"
  by (auto simp: r_finish_def reader_at_def)

text \<open>The same, read forwards.\<close>

lemma reads_forward:
  "length pre + 1 < 2 ^ 64 \<Longrightarrow> r_u8 (reader_at pre (b # rest)) = Inr (b, reader_at (pre @ [b]) rest)"
  "length x = 32 \<Longrightarrow> length pre + 32 < 2 ^ 64 \<Longrightarrow>
     array32 (reader_at pre (x @ rest)) = Inr (x, reader_at (pre @ x) rest)"
  "length pre + 8 < 2 ^ 64 \<Longrightarrow> r_u64 (reader_at pre (be_bytes 8 (unat w) @ rest)) =
     Inr (w, reader_at (pre @ be_bytes 8 (unat w)) rest)"
  "length x < 2 ^ 16 \<Longrightarrow> length pre + 2 + length x < 2 ^ 64 \<Longrightarrow>
     blob16 (reader_at pre (encode_blob x @ rest)) = Inr (x, reader_at (pre @ encode_blob x) rest)"
  "\<forall>h \<in> set hs. length h = 32 \<Longrightarrow> length pre + length (concat hs) < 2 ^ 64 \<Longrightarrow>
     read_hops (length hs) (reader_at pre (concat hs)) = Inr (hs, reader_at (pre @ concat hs) [])"
  using read_hops_iff [of pre "concat hs"] by (auto simp: r_u8_iff array32_iff r_u64_iff blob16_iff)

section \<open>The two directions\<close>

lemma length_concat_32: "\<forall>h \<in> set hs. length h = 32 \<Longrightarrow> length (concat hs) = 32 * length hs"
  by (induction hs) auto

lemma encode_unchecked_short:
  assumes "encode_proof p = Some bs" "proof_ok p"
  shows "length bs < 2 ^ 64"
proof -
  have "length (p_statement p) < 2 ^ 16" "length (canonicalized_body p) < 2 ^ 16" "length (p_checkpoint p) < 2 ^ 16"
    "length (inclusion_path p) < 2 ^ 8" "bs = encode_unchecked p"
    using assms(1) by (auto simp: encode_proof_def not_le split: if_splits)
  then show ?thesis
    using assms(2) length_concat_32 [of "inclusion_path p"] by (simp add: encode_unchecked_def encode_blob_def proof_ok_def)
qed

lemma decode_encode:
  assumes "proof_ok p" "encode_proof p = Some bs"
  shows "decode_proof bs = Inr p"
proof -
  have fits: "length (p_statement p) < 2 ^ 16" "length (canonicalized_body p) < 2 ^ 16"
    "length (p_checkpoint p) < 2 ^ 16" "length (inclusion_path p) < 2 ^ 8" and bs: "bs = encode_unchecked p"
    using assms(2) by (auto simp: encode_proof_def not_le split: if_splits)
  have short: "length (encode_unchecked p) < 2 ^ 64" using encode_unchecked_short [OF assms(2,1)] bs by simp
  have ok: "length (log_id p) = 32" "\<forall>h \<in> set (inclusion_path p). length h = 32"
    using assms(1) by (auto simp: proof_ok_def)
  have hops: "unat (of_nat (length (inclusion_path p)) :: u8) = length (inclusion_path p)"
    using fits(4) by (simp add: unat_of_nat)
  have len: "length (encode_blob x) = 2 + length x" for x by (simp add: encode_blob_def)
  have lens: "length (p_statement p) < 2 ^ 60" "length (canonicalized_body p) < 2 ^ 60" "length (p_checkpoint p) < 2 ^ 60"
    using fits by auto
  have "length (concat (inclusion_path p)) < 2 ^ 60" using length_concat_32 [OF ok(2)] fits by simp
  then show ?thesis
    unfolding bs decode_proof_def reader_new_at encode_unchecked_def
    using fits ok lens by (simp add: reads_forward hops r_finish_iff len)
qed

lemma encode_decode:
  assumes "decode_proof bs = Inr p"
  shows "proof_ok p \<and> encode_proof p = Some bs"
proof -
  have n: "unat (b :: u8) < 256" "of_nat (unat b) = (b :: u8)" for b using unat_lt_256 by auto
  obtain hops id ix st bd ck where p: "bs = PROOF_VERSION # id @ be_bytes 8 (unat ix) @ encode_blob st @ encode_blob bd
      @ encode_blob ck @ hops # concat (inclusion_path p)" "length id = 32"
      "length st < 2 ^ 16" "length bd < 2 ^ 16" "length ck < 2 ^ 16" "length (inclusion_path p) = unat (hops :: u8)"
      "\<forall>h \<in> set (inclusion_path p). length h = 32"
      "p = \<lparr>log_id = id, log_index = ix, p_statement = st, canonicalized_body = bd, p_checkpoint = ck,
          inclusion_path = inclusion_path p\<rparr>"
    using assms unfolding decode_proof_def reader_new_at
    by (auto simp: r_u8_iff array32_iff r_u64_iff blob16_iff r_finish_iff dest!: read_hops_Inr split: if_splits)
  show ?thesis
    using p(2-7) n(1) [of hops] n(2) by (subst (1 2) p(8)) (simp add: proof_ok_def encode_proof_def encode_unchecked_def p(1))
qed

text \<open>C25. The wire format is read one way only: a byte string decodes to a record exactly when it is the
  encoding of that record, so every encoded record decodes to itself and no two byte strings decode
  to the same record.\<close>
theorem decode_iff_encode:
  "decode_proof bs = Inr p \<longleftrightarrow> proof_ok p \<and> encode_proof p = Some bs"
  using decode_encode encode_decode by blast

end
