(* ===== verification/Rekor_Txt.thy ===== *)
theory Rekor_Txt
  imports Rekor_Codec Text_Ops "HOL-Library.Multiset"
begin

text \<open>
  How a transparency record travels in DNS (\<^verbatim>\<open>synch-net/src/rekor.rs\<close>): \<open>to_txt\<close> cuts the base64url
  form into numbered TXT records, \<open>proofs_from_txt\<close> puts together whatever a zone serves. The crates
  for SHA-256, hex and base64 are the fields of \<open>crates\<close>; \<open>crates_ok\<close> is what they document. Text is
  a list of scalar values, an index a natural.
\<close>

section \<open>The crates\<close>

record crates =
  sha :: "bytes \<Rightarrow> digest"
  hex :: "bytes \<Rightarrow> rstr"
  enc64url :: "bytes \<Rightarrow> rstr"
  dec64url :: "rstr \<Rightarrow> bytes option"
  dec64 :: "rstr \<Rightarrow> bytes option"

definition is_lower_hex :: "nat \<Rightarrow> bool" where
  "is_lower_hex c \<longleftrightarrow> (48 \<le> c \<and> c \<le> 57) \<or> (97 \<le> c \<and> c \<le> 102)"

definition is_url64 :: "nat \<Rightarrow> bool" where
  "is_url64 c \<longleftrightarrow> (48 \<le> c \<and> c \<le> 57) \<or> (65 \<le> c \<and> c \<le> 90) \<or> (97 \<le> c \<and> c \<le> 122) \<or> c = 45 \<or> c = 95"

definition crates_ok :: "crates \<Rightarrow> bool" where
  "crates_ok x \<longleftrightarrow>
     (\<forall>bs. length (sha x bs) = 32) \<and>
     (\<forall>bs. length (hex x bs) = 2 * length bs \<and> list_all is_lower_hex (hex x bs)) \<and>
     (\<forall>bs. list_all is_url64 (enc64url x bs) \<and> dec64url x (enc64url x bs) = Some bs) \<and>
     enc64url x [] = []"

section \<open>Writing the records\<close>

definition PROOF_TXT_PREFIX :: rstr where "PROOF_TXT_PREFIX = str ''sync1p''"

definition PROOF_CHUNK_CHARS :: nat where "PROOF_CHUNK_CHARS = 2000"

text \<open>\<open>slice::chunks\<close>.\<close>

function chunks_of :: "nat \<Rightarrow> 'a list \<Rightarrow> 'a list list" where
  "chunks_of n xs = (if xs = [] \<or> n = 0 then [] else take n xs # chunks_of n (drop n xs))"
  by pat_completeness auto
termination
  by (relation "measure (\<lambda>(_, xs). length xs)") auto

declare chunks_of.simps [simp del]

definition txt_record :: "rstr \<Rightarrow> nat \<Rightarrow> nat \<Rightarrow> rstr \<Rightarrow> rstr" where
  "txt_record grp index tot chunk =
     PROOF_TXT_PREFIX @ 32 # grp @ 32 # fmt_nat 10 index @ 47 # fmt_nat 10 tot @ 32 # chunk"

definition to_txt :: "crates \<Rightarrow> rekor_proof \<Rightarrow> rstr list option" where
  "to_txt x p =
     (case encode_proof p of
        None \<Rightarrow> None
      | Some encoded \<Rightarrow>
          let grp = hex x (take 4 (sha x encoded));
              chunks = chunks_of PROOF_CHUNK_CHARS (enc64url x encoded);
              tot = length chunks
          in if 2 ^ 8 \<le> tot then None
             else Some (map (\<lambda>(i, chunk). txt_record grp (i + 1) tot chunk) (enumerate 0 chunks)))"

section \<open>Reading one record\<close>

definition parse_usize :: "rstr \<Rightarrow> proof_error + nat" where
  "parse_usize s = ok_or Malformed (map_option unat (from_str_radix 10 s))"

definition parse_chunk :: "rstr \<Rightarrow> proof_error + (rstr \<times> nat \<times> nat \<times> rstr)" where
  "parse_chunk record =
     (case split_whitespace record of
        [] \<Rightarrow> Inl Malformed
      | tag # fs \<Rightarrow>
     if tag \<noteq> PROOF_TXT_PREFIX then Inl Malformed else
     (case fs of [] \<Rightarrow> Inl Malformed | grp # fs \<Rightarrow>
     if utf8_len grp \<noteq> 8 \<or> \<not> list_all is_hexdigit grp then Inl Malformed else
     (case fs of [] \<Rightarrow> Inl Malformed | counter # fs \<Rightarrow>
     result_bind (ok_or Malformed (split_once 47 counter)) (\<lambda>(index, tot).
     result_bind (parse_usize index) (\<lambda>index.
     result_bind (parse_usize tot) (\<lambda>tot.
     if index = 0 \<or> tot = 0 \<or> tot < index \<or> 255 < tot then Inl Malformed else
     (case fs of [] \<Rightarrow> Inl Malformed | chunk # fs \<Rightarrow>
     if fs \<noteq> [] then Inl Malformed
     else Inr (map ascii_lower grp, index, tot, chunk))))))))"

definition part_index_of :: "rstr \<Rightarrow> nat option" where
  "part_index_of record = (case parse_chunk record of Inl _ \<Rightarrow> None | Inr (_, index, _, _) \<Rightarrow> Some index)"

definition MAX_PROOF_PARTS :: nat where "MAX_PROOF_PARTS = 16"

definition parts_claimed :: "rstr list \<Rightarrow> nat" where
  "parts_claimed records =
     (let totals = concat (map (\<lambda>record. case parse_chunk record of Inl _ \<Rightarrow> [] | Inr (_, _, tot, _) \<Rightarrow> [tot]) records)
      in min (if totals = [] then 1 else Max (set totals)) MAX_PROOF_PARTS)"

section \<open>Putting a group together\<close>

definition decode_padless :: "(rstr \<Rightarrow> bytes option) \<Rightarrow> rstr \<Rightarrow> bytes option" where
  "decode_padless engine s = engine (filter (\<lambda>c. \<not> is_whitespace c \<and> c \<noteq> 61) s)"

definition base64url_decode :: "crates \<Rightarrow> rstr \<Rightarrow> proof_error + bytes" where
  "base64url_decode x s = ok_or Malformed (decode_padless (dec64url x) s)"

definition decode_group :: "crates \<Rightarrow> rstr \<Rightarrow> rstr \<Rightarrow> proof_error + rekor_proof" where
  "decode_group x grp payload =
     result_bind (base64url_decode x payload) (\<lambda>bytes.
     if hex x (take 4 (sha x bytes)) \<noteq> grp then Inl Malformed
     else decode_proof bytes)"

type_synonym part = "nat \<times> nat \<times> rstr"

definition add_part ::
  "part \<Rightarrow> (nat, (nat, rstr) btmap) btmap \<times> (nat, nat) btmap \<Rightarrow> (nat, (nat, rstr) btmap) btmap \<times> (nat, nat) btmap"
where
  "add_part = (\<lambda>(index, tot, chunk) (by_total, duplicated).
     let m = (case map_of by_total tot of None \<Rightarrow> [] | Some m \<Rightarrow> m);
         duplicated = (if map_of m index \<noteq> None \<and> map_of duplicated tot = None
           then bt_insert tot index duplicated else duplicated)
     in (bt_insert tot (bt_insert index chunk m) by_total, duplicated))"

fun read_parts :: "nat option \<Rightarrow> (nat, rstr) btmap \<Rightarrow> rstr \<Rightarrow> nat list \<Rightarrow> proof_error + rstr" where
  "read_parts first chunks payload [] = Inr payload"
| "read_parts first chunks payload (index # indices) =
     (if first = Some index then Inl Malformed
      else case map_of chunks index of
          Some chunk \<Rightarrow> read_parts first chunks (payload @ chunk) indices
        | None \<Rightarrow> Inl Malformed)"

fun try_totals ::
  "crates \<Rightarrow> rstr \<Rightarrow> (nat, nat) btmap \<Rightarrow> proof_error option \<Rightarrow> (nat, (nat, rstr) btmap) btmap \<Rightarrow> proof_error + rekor_proof"
where
  "try_totals x grp duplicated e [] = Inl (case e of None \<Rightarrow> Malformed | Some e \<Rightarrow> e)"
| "try_totals x grp duplicated e ((tot, chunks) # rest) =
     (case read_parts (map_of duplicated tot) chunks [] [1..<Suc tot] of
        Inl broken \<Rightarrow> try_totals x grp duplicated (Some broken) rest
      | Inr payload \<Rightarrow> (case decode_group x grp payload of
            Inr p \<Rightarrow> Inr p
          | Inl e \<Rightarrow> try_totals x grp duplicated (Some e) rest))"

definition assemble_group :: "crates \<Rightarrow> rstr \<Rightarrow> part list \<Rightarrow> proof_error + rekor_proof" where
  "assemble_group x grp parts =
     (let (by_total, duplicated) = fold add_part parts ([], [])
      in try_totals x grp duplicated None by_total)"

definition add_record ::
  "rstr \<Rightarrow> (rstr, part list) btmap \<times> proof_error list \<Rightarrow> (rstr, part list) btmap \<times> proof_error list"
where
  "add_record record = (\<lambda>(groups, junk).
     case parse_chunk record of
       Inr (grp, index, tot, chunk) \<Rightarrow>
         (bt_insert grp ((case map_of groups grp of None \<Rightarrow> [] | Some ps \<Rightarrow> ps) @ [(index, tot, chunk)]) groups, junk)
     | Inl e \<Rightarrow> (groups, junk @ [e]))"

definition proofs_from_txt :: "crates \<Rightarrow> rstr list \<Rightarrow> (proof_error + rekor_proof) list" where
  "proofs_from_txt x records =
     (let (groups, junk) = fold add_record records ([], []);
          out = map (\<lambda>(grp, parts). assemble_group x grp parts) groups
      in if out = [] then map Inl junk else out)"

section \<open>A written record is read back\<close>

lemma split_by_word: "list_all (\<lambda>c. \<not> q c) w \<Longrightarrow> split_by q w = [w]"
  by (induction w) auto

lemma split_by_append: "list_all (\<lambda>c. \<not> q c) w \<Longrightarrow> q d \<Longrightarrow> split_by q (w @ d # s) = w # split_by q s"
  by (induction w) auto

lemma split_whitespace_words:
  "list_all (\<lambda>c. \<not> is_whitespace c) w \<Longrightarrow> w \<noteq> [] \<Longrightarrow> split_whitespace w = [w]"
  "list_all (\<lambda>c. \<not> is_whitespace c) w \<Longrightarrow> w \<noteq> [] \<Longrightarrow> split_whitespace (w @ 32 # s) = w # split_whitespace s"
proof -
  have "is_whitespace 32" by (simp add: is_whitespace_def)
  then show "list_all (\<lambda>c. \<not> is_whitespace c) w \<Longrightarrow> w \<noteq> [] \<Longrightarrow> split_whitespace w = [w]"
    "list_all (\<lambda>c. \<not> is_whitespace c) w \<Longrightarrow> w \<noteq> [] \<Longrightarrow> split_whitespace (w @ 32 # s) = w # split_whitespace s"
    by (simp_all add: split_whitespace_def split_by_word split_by_append)
qed

lemma parse_usize_fmt: "n < 2 ^ 64 \<Longrightarrow> parse_usize (fmt_nat 10 n) = Inr n"
  using from_str_radix_fmt_u64 [of "of_nat n"] by (simp add: parse_usize_def fmt_u64_def unat_of_nat)

lemma graphic_not_white: "33 \<le> c \<Longrightarrow> c < 127 \<Longrightarrow> \<not> is_whitespace c"
  by (auto simp: is_whitespace_def)

lemma alphabets_not_white: "is_lower_hex c \<Longrightarrow> \<not> is_whitespace c" "is_url64 c \<Longrightarrow> \<not> is_whitespace c"
  by (auto simp: is_lower_hex_def is_url64_def is_whitespace_def)

lemma fmt_nat_graphic: "c \<in> set (fmt_nat 10 n) \<Longrightarrow> 48 \<le> c \<and> c < 103"
  by (rule set_fmt_nat [of 10]) simp_all

lemma parse_txt_record:
  assumes "length grp = 8" "list_all is_lower_hex grp" "0 < index" "index \<le> tot" "tot < 256"
    and "chunk \<noteq> []" "list_all is_url64 chunk"
  shows "parse_chunk (txt_record grp index tot chunk) = Inr (grp, index, tot, chunk)"
proof -
  let ?counter = "fmt_nat 10 index @ 47 # fmt_nat 10 tot"
  have tag: "PROOF_TXT_PREFIX = [115, 121, 110, 99, 49, 112]" by (simp add: PROOF_TXT_PREFIX_def str_def)
  have w1: "list_all (\<lambda>c. \<not> is_whitespace c) PROOF_TXT_PREFIX" by (simp add: tag is_whitespace_def)
  have w2: "list_all (\<lambda>c. \<not> is_whitespace c) grp"
    using assms(2) by (auto simp: list_all_iff alphabets_not_white)
  have w3: "list_all (\<lambda>c. \<not> is_whitespace c) ?counter"
    using fmt_nat_graphic graphic_not_white by (fastforce simp: list_all_iff)
  have w4: "list_all (\<lambda>c. \<not> is_whitespace c) chunk"
    using assms(7) by (auto simp: list_all_iff alphabets_not_white)
  have "txt_record grp index tot chunk = PROOF_TXT_PREFIX @ 32 # (grp @ 32 # (?counter @ 32 # chunk))"
    by (simp add: txt_record_def)
  also have "split_whitespace \<dots> = PROOF_TXT_PREFIX # split_whitespace (grp @ 32 # (?counter @ 32 # chunk))"
    by (rule split_whitespace_words(2) [OF w1]) (simp add: tag)
  also have "split_whitespace (grp @ 32 # (?counter @ 32 # chunk)) = grp # split_whitespace (?counter @ 32 # chunk)"
    by (rule split_whitespace_words(2) [OF w2]) (use assms(1) in auto)
  also have "split_whitespace (?counter @ 32 # chunk) = ?counter # split_whitespace chunk"
    by (rule split_whitespace_words(2) [OF w3]) simp
  also have "split_whitespace chunk = [chunk]" by (rule split_whitespace_words(1) [OF w4 assms(6)])
  finally have "split_whitespace (txt_record grp index tot chunk) = [PROOF_TXT_PREFIX, grp, ?counter, chunk]" .
  moreover have "split_once 47 ?counter = Some (fmt_nat 10 index, fmt_nat 10 tot)"
    using fmt_nat_graphic [of 47 index] by (auto simp: split_once_Some)
  moreover have "list_all (\<lambda>c. c < 0x80) grp" "list_all is_hexdigit grp" "map ascii_lower grp = grp"
    using assms(2) by (fastforce simp: list_all_iff is_lower_hex_def is_hexdigit_def ascii_lower_def intro!: map_idI)+
  then have "utf8_len grp = 8" "list_all is_hexdigit grp" "map ascii_lower grp = grp"
    using utf8_len_ascii assms(1) by auto
  ultimately show ?thesis using assms by (simp add: parse_chunk_def parse_usize_fmt)
qed

section \<open>What is collected\<close>

text \<open>The index and chunk of the parts that claim a given total, in the order they arrived.\<close>

definition parts_of :: "nat \<Rightarrow> part list \<Rightarrow> (nat \<times> rstr) list" where
  "parts_of tot parts = concat (map (\<lambda>(i, t, c). if t = tot then [(i, c)] else []) parts)"

lemma parts_of_snoc: "parts_of tot (parts @ [(i, t, c)]) = parts_of tot parts @ (if t = tot then [(i, c)] else [])"
  by (simp add: parts_of_def)

definition collected :: "part list \<Rightarrow> (nat, (nat, rstr) btmap) btmap \<times> (nat, nat) btmap \<Rightarrow> bool" where
  "collected parts st \<longleftrightarrow> bt_invar (fst st) \<and> bt_invar (snd st) \<and>
     (\<forall>t. map_of (fst st) t = None \<longrightarrow> parts_of t parts = []) \<and>
     (\<forall>t m. map_of (fst st) t = Some m \<longrightarrow>
        parts_of t parts \<noteq> [] \<and> bt_invar m \<and> map_of m = map_of (rev (parts_of t parts))) \<and>
     (\<forall>t. map_of (snd st) t = None \<longrightarrow> distinct (map fst (parts_of t parts))) \<and>
     (\<forall>t i. map_of (snd st) t = Some i \<longrightarrow>
        i \<in> fst ` set (parts_of t parts) \<and> \<not> distinct (map fst (parts_of t parts)))"

lemma collectedD:
  assumes "collected parts (bt, dup)"
  shows "bt_invar bt" "bt_invar dup" "map_of bt t = None \<Longrightarrow> parts_of t parts = []"
    and "map_of bt t = Some m \<Longrightarrow> parts_of t parts \<noteq> [] \<and> bt_invar m \<and> map_of m = map_of (rev (parts_of t parts))"
    and "map_of dup t = None \<Longrightarrow> distinct (map fst (parts_of t parts))"
    and "map_of dup t = Some i \<Longrightarrow> i \<in> fst ` set (parts_of t parts) \<and> \<not> distinct (map fst (parts_of t parts))"
  using assms unfolding collected_def by auto

lemma collected_add:
  assumes c: "collected parts (bt, dup)"
  shows "collected (parts @ [(i, t, c)]) (add_part (i, t, c) (bt, dup))"
proof -
  define m where "m = (case map_of bt t of None \<Rightarrow> [] | Some m \<Rightarrow> m)"
  have m: "bt_invar m" "map_of m = map_of (rev (parts_of t parts))"
    using collectedD(3,4) [OF c, of t] by (auto simp: m_def split: option.splits)
  have dup: "map_of m i = None \<longleftrightarrow> i \<notin> fst ` set (parts_of t parts)"
    unfolding m(2) by (simp add: map_of_eq_None_iff)
  let ?bt = "bt_insert t (bt_insert i c m) bt"
  let ?dup = "if map_of m i \<noteq> None \<and> map_of dup t = None then bt_insert t i dup else dup"
  have add: "add_part (i, t, c) (bt, dup) = (?bt, ?dup)" by (simp add: add_part_def m_def Let_def)
  have "parts_of t' (parts @ [(i, t, c)]) = []" if "map_of ?bt t' = None" for t'
    using that collectedD(3) [OF c, of t'] by (auto simp: bt.get_insert parts_of_snoc split: if_splits)
  moreover have "parts_of t' (parts @ [(i, t, c)]) \<noteq> [] \<and> bt_invar m' \<and>
      map_of m' = map_of (rev (parts_of t' (parts @ [(i, t, c)])))" if "map_of ?bt t' = Some m'" for t' m'
    using that collectedD(4) [OF c, of t' m'] m
    by (auto simp: bt.get_insert parts_of_snoc bt_invar_insert split: if_splits)
  moreover have "distinct (map fst (parts_of t' (parts @ [(i, t, c)])))" if "map_of ?dup t' = None" for t'
    using that collectedD(5) [OF c, of t'] dup by (auto simp: bt.get_insert parts_of_snoc split: if_splits)
  moreover have "i' \<in> fst ` set (parts_of t' (parts @ [(i, t, c)])) \<and>
      \<not> distinct (map fst (parts_of t' (parts @ [(i, t, c)])))" if "map_of ?dup t' = Some i'" for t' i'
    using that collectedD(6) [OF c, of t' i'] dup by (auto simp: bt.get_insert parts_of_snoc split: if_splits)
  ultimately show ?thesis
    using collectedD(1,2) [OF c] unfolding add collected_def by (simp add: bt_invar_insert)
qed

lemma collected_fold: "collected parts (fold add_part parts ([], []))"
proof (induction parts rule: rev_induct)
  case Nil
  then show ?case by (simp add: collected_def parts_of_def)
next
  case (snoc p parts)
  then show ?case
    using collected_add [of parts "fst (fold add_part parts ([], []))" "snd (fold add_part parts ([], []))"
        "fst p" "fst (snd p)" "snd (snd p)"] by simp
qed

section \<open>What is accepted\<close>

lemma read_parts_Inr:
  "read_parts first chunks payload indices = Inr r \<longleftrightarrow>
     (\<forall>i \<in> set indices. first \<noteq> Some i \<and> i \<in> dom (map_of chunks)) \<and>
     r = payload @ concat (map (the \<circ> map_of chunks) indices)"
proof (induction indices arbitrary: payload)
  case Nil
  then show ?case by auto
next
  case (Cons i indices)
  then show ?case by (cases "map_of chunks i") (auto simp: domIff)
qed

lemma try_totals_Inr:
  "try_totals x grp duplicated e ts = Inr p \<Longrightarrow>
     \<exists>tot chunks payload. (tot, chunks) \<in> set ts \<and>
       read_parts (map_of duplicated tot) chunks [] [1..<Suc tot] = Inr payload \<and> decode_group x grp payload = Inr p"
proof (induction ts arbitrary: e)
  case Nil
  then show ?case by simp
next
  case (Cons t ts)
  obtain tot chunks where t: "t = (tot, chunks)" by (cases t)
  let ?r = "read_parts (map_of duplicated tot) chunks [] [1..<Suc tot]"
  show ?case
  proof (cases ?r)
    case (Inl b)
    then have "try_totals x grp duplicated (Some b) ts = Inr p" using Cons.prems t by (simp del: upt_Suc)
    then show ?thesis using Cons.IH by (metis list.set_intros(2))
  next
    case (Inr payload)
    show ?thesis
    proof (cases "decode_group x grp payload")
      case (Inl e')
      then have "try_totals x grp duplicated (Some e') ts = Inr p" using Cons.prems t Inr by (simp del: upt_Suc)
      then show ?thesis using Cons.IH by (metis list.set_intros(2))
    next
      case (Inr q)
      then have "q = p" using Cons.prems t \<open>?r = Inr payload\<close> by (simp del: upt_Suc)
      then show ?thesis using t Inr \<open>?r = Inr payload\<close> by (metis list.set_intros(1))
    qed
  qed
qed

lemma decode_group_Inr:
  assumes "decode_group x grp payload = Inr p"
  obtains bs where "base64url_decode x payload = Inr bs" "encode_proof p = Some bs" "proof_ok p"
    "grp = hex x (take 4 (sha x bs))"
  using assms encode_decode by (fastforce simp: decode_group_def split: if_splits)

lemma mset_one_each:
  assumes "distinct (map fst ps)" "fst ` set ps = set is" "distinct is"
  shows "mset ps = mset (zip is (map (the \<circ> map_of ps) is))"
proof -
  have "set (zip is (map (the \<circ> map_of ps) is)) = (\<lambda>i. (i, the (map_of ps i))) ` set is"
    by (simp add: zip_map2 zip_same_conv_map image_image)
  also have "\<dots> = (\<lambda>i. (i, the (map_of ps i))) ` fst ` set ps" using assms(2) by simp
  also have "\<dots> = set ps" using assms(1) by (force simp: image_iff)
  finally show ?thesis
    using assms(1,3) by (intro iffD1 [OF set_eq_iff_mset_eq_distinct]) (auto simp: distinct_map distinct_zipI1)
qed

text \<open>C26. Chunks are never spliced: a group that is accepted was put together from the parts of one claimed
  total, among which every index from one to the total occurs exactly once and no other, and the
  bytes they spell are the encoding of the record, whose digest starts with the group's name.\<close>
theorem assembled_from_one_reading:
  assumes "assemble_group x grp parts = Inr p"
    and "\<forall>(i, t, c) \<in> set parts. 1 \<le> i \<and> i \<le> t"
  shows "\<exists>cs bs. mset (parts_of (length cs) parts) = mset (zip [1..<Suc (length cs)] cs) \<and>
    base64url_decode x (concat cs) = Inr bs \<and> encode_proof p = Some bs \<and> proof_ok p \<and>
    grp = hex x (take 4 (sha x bs))"
proof -
  obtain bt dup where f: "fold add_part parts ([], []) = (bt, dup)" by fastforce
  note c = collected_fold [of parts, unfolded f]
  obtain tot chunks payload where t: "(tot, chunks) \<in> set bt"
      "read_parts (map_of dup tot) chunks [] [1..<Suc tot] = Inr payload" "decode_group x grp payload = Inr p"
    using try_totals_Inr assms(1) f unfolding assemble_group_def by fastforce
  have m: "map_of chunks = map_of (rev (parts_of tot parts))"
    using collectedD(4) [OF c] bt.get_iff_mem [OF collectedD(1) [OF c]] t(1) by blast
  have all: "\<forall>i \<in> set [1..<Suc tot]. map_of dup tot \<noteq> Some i \<and> i \<in> dom (map_of chunks)"
    and pl: "payload = concat (map (the \<circ> map_of chunks) [1..<Suc tot])"
    using t(2) unfolding read_parts_Inr by auto
  have range: "fst ` set (parts_of tot parts) \<subseteq> set [1..<Suc tot]"
    using assms(2) by (auto simp: parts_of_def split: if_splits)
  then have none: "map_of dup tot = None"
    using all collectedD(6) [OF c, of tot] by (cases "map_of dup tot") blast+
  then have d: "distinct (map fst (parts_of tot parts))" using collectedD(5) [OF c] by blast
  then have mp: "map_of chunks = map_of (parts_of tot parts)" 
    unfolding m by (subst map_of_inject_set) (auto simp: rev_map [symmetric])
  have "set [1..<Suc tot] \<subseteq> fst ` set (parts_of tot parts)"
    using all unfolding mp by (auto simp: dom_map_of_conv_image_fst)
  then have e: "mset (parts_of tot parts) = mset (zip [1..<Suc tot] (map (the \<circ> map_of chunks) [1..<Suc tot]))"
    unfolding mp using range d by (intro mset_one_each) auto
  obtain bs where "base64url_decode x payload = Inr bs" "encode_proof p = Some bs" "proof_ok p"
    "grp = hex x (take 4 (sha x bs))" using decode_group_Inr [OF t(3)] .
  then show ?thesis using e pl by (intro exI [of _ "map (the \<circ> map_of chunks) [1..<Suc tot]"] exI [of _ bs]) (simp del: upt_Suc)
qed

section \<open>What is published is accepted\<close>

lemma parts_of_alt: "parts_of tot parts = map (\<lambda>(i, t, c). (i, c)) (filter (\<lambda>(i, t, c). t = tot) parts)"
  by (induction parts) (auto simp: parts_of_def)

lemma map_of_zip_self: "length cs = length is \<Longrightarrow> distinct is \<Longrightarrow> map (the \<circ> map_of (zip is cs)) is = cs"
  by (rule nth_equalityI) (auto simp: map_of_zip_nth)

lemma parts_of_honest:
  assumes "mset parts = mset (map (\<lambda>(i, c). (i, tot, c)) ics)"
  shows "mset (parts_of t parts) = (if t = tot then mset ics else {#})"
proof -
  have "mset (parts_of t parts) = image_mset (\<lambda>(i, t, c). (i, c)) (filter_mset (\<lambda>(i, t', c). t' = t) (mset parts))"
    by (simp add: parts_of_alt)
  also have "\<dots> = mset (parts_of t (map (\<lambda>(i, c). (i, tot, c)) ics))"
    unfolding assms by (simp add: parts_of_alt)
  also have "parts_of t (map (\<lambda>(i, c). (i, tot, c)) ics) = (if t = tot then ics else [])"
    by (induction ics) (auto simp: parts_of_def)
  finally show ?thesis by simp
qed

lemma assemble_honest:
  assumes "mset parts = mset (map (\<lambda>(i, c). (i, tot, c)) (zip [1..<Suc tot] cs))" "length cs = tot" "0 < tot"
    and "decode_group x grp (concat cs) = Inr p"
  shows "assemble_group x grp parts = Inr p"
proof -
  let ?is = "[1..<Suc tot]"
  obtain bt dup where f: "fold add_part parts ([], []) = (bt, dup)" by fastforce
  note c = collected_fold [of parts, unfolded f]
  note po = parts_of_honest [OF assms(1)]
  have len: "length cs = length ?is" using assms(2) by simp
  have pm: "mset (parts_of tot parts) = mset (zip ?is cs)" using po [of tot] by simp
  have "mset (map fst (parts_of tot parts)) = mset (map fst (zip ?is cs))" using pm by (simp only: mset_map)
  then have d: "distinct (map fst (parts_of tot parts))"
    using mset_eq_imp_distinct_iff map_fst_zip [OF len [symmetric]] distinct_upt by metis
  have "length (parts_of tot parts) = tot" using mset_eq_length [OF pm] assms(2) by simp
  then have "parts_of tot parts \<noteq> []" using assms(3) by auto
  then obtain chunks where ch: "map_of bt tot = Some chunks" using collectedD(3) [OF c, of tot] by fastforce
  have other: "map_of bt t = None" if "t \<noteq> tot" for t
    using collectedD(4) [OF c, of t] po [of t] that by (cases "map_of bt t") auto
  have bt: "bt = [(tot, chunks)]"
    by (rule bt_ext [OF collectedD(1) [OF c]]) (use ch other in \<open>auto simp: fun_eq_iff\<close>)
  have "map_of chunks = map_of (rev (parts_of tot parts))" using collectedD(4) [OF c ch] by blast
  also have "\<dots> = map_of (zip ?is cs)"
  proof (subst map_of_inject_set)
    show "distinct (map fst (rev (parts_of tot parts)))" using d by (simp add: rev_map [symmetric])
    show "distinct (map fst (zip ?is cs))" unfolding map_fst_zip [OF len [symmetric]] by simp
    show "set (rev (parts_of tot parts)) = set (zip ?is cs)" using mset_eq_setD [OF pm] by (simp del: upt_Suc)
  qed
  finally have m: "map_of chunks = map_of (zip ?is cs)" .
  have "map_of dup tot = None" using collectedD(6) [OF c, of tot] d by (cases "map_of dup tot") blast+
  moreover have "set ?is = dom (map_of chunks)" unfolding m using len by (simp add: dom_map_of_zip del: upt_Suc)
  ultimately have "read_parts (map_of dup tot) chunks [] ?is = Inr (concat cs)"
    unfolding read_parts_Inr m map_of_zip_self [OF len distinct_upt] by auto
  then show ?thesis using assms(4) f bt by (simp add: assemble_group_def del: upt_Suc)
qed

lemma fold_add_record:
  "\<forall>r \<in> set recs. parse_chunk r = Inr (grp, h r) \<Longrightarrow>
     fold add_record recs ([(grp, ps)], junk) = ([(grp, ps @ map h recs)], junk)"
  by (induction recs arbitrary: ps) (auto simp: add_record_def split: prod.splits)

lemma proofs_from_one_group:
  assumes "\<forall>r \<in> set recs. parse_chunk r = Inr (grp, h r)" "recs \<noteq> []"
  shows "proofs_from_txt x recs = [assemble_group x grp (map h recs)]"
proof -
  obtain r rs where r: "recs = r # rs" using assms(2) by (cases recs) auto
  have "add_record r ([], []) = ([(grp, [h r])], [])" using assms(1) r by (cases "h r") (auto simp: add_record_def)
  then have "fold add_record recs ([], []) = ([(grp, map h recs)], [])"
    using fold_add_record [of rs grp h "[h r]" "[]"] assms(1) r by simp
  then show ?thesis by (simp add: proofs_from_txt_def)
qed

lemma chunks_of_props:
  "0 < n \<Longrightarrow> concat (chunks_of n xs) = xs \<and> (\<forall>c \<in> set (chunks_of n xs). c \<noteq> [] \<and> set c \<subseteq> set xs)"
proof (induction n xs rule: chunks_of.induct)
  case (1 n xs)
  show ?case
  proof (cases "xs = []")
    case False
    then have "concat (chunks_of n (drop n xs)) = drop n xs"
      "\<forall>c \<in> set (chunks_of n (drop n xs)). c \<noteq> [] \<and> set c \<subseteq> set (drop n xs)"
      using 1 by auto
    then show ?thesis using 1(2) False set_take_subset [of n xs] set_drop_subset [of n xs]
      by (subst (1 2) chunks_of.simps) auto
  qed (simp add: chunks_of.simps)
qed

lemma filter_url64: "list_all is_url64 s \<Longrightarrow> filter (\<lambda>c. \<not> is_whitespace c \<and> c \<noteq> 61) s = s"
  by (rule filter_True_id) (auto simp: list_all_iff alphabets_not_white is_url64_def)

lemma decode_group_encoded:
  assumes "crates_ok x" "proof_ok p" "encode_proof p = Some bs"
  shows "decode_group x (hex x (take 4 (sha x bs))) (enc64url x bs) = Inr p"
  using assms by (simp add: decode_group_def base64url_decode_def decode_padless_def filter_url64 crates_ok_def decode_encode)

lemma txt_reads_back:
  assumes "crates_ok x" "proof_ok p" "to_txt x p = Some records" "mset recs = mset records"
  shows "proofs_from_txt x recs = [Inr p]"
proof -
  obtain bs where bs: "encode_proof p = Some bs" using assms(3) by (auto simp: to_txt_def split: option.splits)
  define grp where "grp = hex x (take 4 (sha x bs))"
  define cs where "cs = chunks_of PROOF_CHUNK_CHARS (enc64url x bs)"
  define tot where "tot = length cs"
  let ?ics = "zip [1..<Suc tot] cs"
  have url: "list_all is_url64 (enc64url x bs)" and "bs \<noteq> []"
    using assms(1) bs by (auto simp: crates_ok_def encode_proof_def encode_unchecked_def split: if_splits)
  have cs: "concat cs = enc64url x bs" "\<forall>c \<in> set cs. c \<noteq> [] \<and> list_all is_url64 c"
    using chunks_of_props [of PROOF_CHUNK_CHARS "enc64url x bs"] url
    by (auto simp: cs_def PROOF_CHUNK_CHARS_def list_all_iff)
  have "enc64url x bs \<noteq> []" using assms(1) \<open>bs \<noteq> []\<close> unfolding crates_ok_def by (metis option.inject)
  then have pos: "0 < tot" using cs(1) by (auto simp: tot_def)
  have tot: "tot < 256" and rec: "records = map (\<lambda>(i, c). txt_record grp i tot c) ?ics"
    using assms(3) bs by (auto simp: to_txt_def Let_def grp_def cs_def tot_def enumerate_eq_zip map_Suc_upt [symmetric]
        zip_map1 o_def case_prod_unfold simp del: upt_Suc split: if_splits)
  have grp: "length grp = 8" "list_all is_lower_hex grp"
    using assms(1) by (auto simp: crates_ok_def grp_def)
  have parse: "parse_chunk (txt_record grp i tot c) = Inr (grp, i, tot, c)" if "(i, c) \<in> set ?ics" for i c
  proof (rule parse_txt_record [OF grp])
    show "0 < i" "i \<le> tot" using set_zip_leftD [OF that] by auto
    show "c \<noteq> []" "list_all is_url64 c" using set_zip_rightD [OF that] cs(2) by auto
  qed (rule tot)
  define h where "h r = snd (projr (parse_chunk r))" for r
  have h: "parse_chunk r = Inr (grp, h r)" if "r \<in> set recs" for r
    using that mset_eq_setD [OF assms(4)] parse unfolding rec h_def by force
  have "mset (map h recs) = mset (map h records)" using assms(4) by (simp only: mset_map)
  also have "map h records = map (\<lambda>(i, c). (i, tot, c)) ?ics"
    unfolding rec using parse by (auto simp: h_def simp del: upt_Suc)
  finally have "assemble_group x grp (map h recs) = Inr p"
  proof (rule assemble_honest [OF _ tot_def [symmetric] pos])
    show "decode_group x grp (concat cs) = Inr p"
      unfolding grp_def cs(1) by (rule decode_group_encoded [OF assms(1,2) bs])
  qed
  moreover have "length recs = tot" using mset_eq_length [OF assms(4)] unfolding rec by (simp add: tot_def del: upt_Suc)
  then have "recs \<noteq> []" using pos by auto
  ultimately show ?thesis using proofs_from_one_group [of recs grp h x] h by simp
qed

text \<open>C29. What a zone publishes for a record, its resolver reads back: the TXT records of a record,
  served in any order, yield exactly that record.\<close>
theorem txt_roundtrip:
  assumes "crates_ok x" "proof_ok p" "to_txt x p = Some records" "mset recs = mset records"
  shows "proofs_from_txt x recs = [Inr p]"
  using assms by (rule txt_reads_back)

definition demo_proof :: rekor_proof where
  "demo_proof = \<lparr>log_id = replicate 32 1, log_index = 5, p_statement = [2, 3], canonicalized_body = [4],
     p_checkpoint = [], inclusion_path = [replicate 32 9]\<rparr>"

text \<open>Stand-ins for the crates: hexadecimal for both encodings, and a digest that copies its input.\<close>

definition demo_hex :: "bytes \<Rightarrow> rstr" where
  "demo_hex bs = concat (map (\<lambda>b. hex_pad 2 (unat b)) bs)"

fun demo_unhex :: "rstr \<Rightarrow> bytes option" where
  "demo_unhex [] = Some []"
| "demo_unhex [c] = None"
| "demo_unhex (a # b # r) =
     (case (to_digit 16 a, to_digit 16 b, demo_unhex r) of
        (Some i, Some j, Some bs) \<Rightarrow> Some (of_nat (16 * i + j) # bs) | _ \<Rightarrow> None)"

definition demo_crates :: crates where
  "demo_crates = \<lparr>sha = demo_sha, hex = demo_hex, enc64url = demo_hex, dec64url = demo_unhex, dec64 = demo_unhex\<rparr>"

lemma hex_pad_2: "hex_pad 2 n = [digit_char (n div 16 mod 16), digit_char (n mod 16)]"
  by (simp add: numeral_2_eq_2)

lemma lower_hex_digit: "d < 16 \<Longrightarrow> is_lower_hex (digit_char d)" "is_lower_hex c \<Longrightarrow> is_url64 c"
  by (auto simp: is_lower_hex_def digit_char_def is_url64_def)

lemma demo_unhex_hex: "demo_unhex (demo_hex bs) = Some bs"
proof (induction bs)
  case (Cons b bs)
  have "unat b div 16 mod 16 = unat b div 16" using unat_lt_256 [of b] by simp
  then show ?case using Cons by (simp add: demo_hex_def hex_pad_2)
qed (simp add: demo_hex_def)

lemma demo_hex_lower: "list_all is_lower_hex (demo_hex bs)" "length (demo_hex bs) = 2 * length bs"
  by (induction bs) (auto simp: demo_hex_def hex_pad_2 lower_hex_digit)

lemma demo_crates_ok: "crates_ok demo_crates"
  using demo_hex_lower(1)
  by (auto simp: crates_ok_def demo_crates_def demo_unhex_hex demo_hex_lower demo_sha_def list_all_iff lower_hex_digit)
    (simp add: demo_hex_def)

lemma demo_proof_fits:
  "proof_ok demo_proof" "encode_proof demo_proof = Some (encode_unchecked demo_proof)" "length (encode_unchecked demo_proof) = 83"
  by (simp_all add: demo_proof_def proof_ok_def encode_proof_def encode_unchecked_def encode_blob_def)

lemma length_chunks_of: "length (chunks_of n xs) \<le> length xs"
proof (induction n xs rule: chunks_of.induct)
  case (1 n xs)
  show ?case
  proof (cases "xs = [] \<or> n = 0")
    case False
    then have "length (chunks_of n (drop n xs)) \<le> length xs - n" "length xs - n < length xs" using 1 by auto
    then have "Suc (length (chunks_of n (drop n xs))) \<le> length xs" by linarith
    then show ?thesis using False by (subst chunks_of.simps) simp
  qed (simp add: chunks_of.simps)
qed

theorem txt_roundtrip_witness:
  "proofs_from_txt demo_crates (rev (the (to_txt demo_crates demo_proof))) = [Inr demo_proof]"
proof (rule txt_roundtrip [OF demo_crates_ok demo_proof_fits(1)])
  have "length (chunks_of PROOF_CHUNK_CHARS (enc64url demo_crates (encode_unchecked demo_proof))) \<le> 166"
    using length_chunks_of [of PROOF_CHUNK_CHARS "enc64url demo_crates (encode_unchecked demo_proof)"]
    by (simp add: demo_crates_def demo_hex_lower demo_proof_fits)
  then show "to_txt demo_crates demo_proof = Some (the (to_txt demo_crates demo_proof))"
    by (simp add: to_txt_def demo_proof_fits Let_def)
qed simp

theorem assembled_from_one_reading_witness:
  "\<exists>cs bs. mset (parts_of (length cs) [(1, 1, enc64url demo_crates (encode_unchecked demo_proof))]) =
      mset (zip [1..<Suc (length cs)] cs) \<and>
    base64url_decode demo_crates (concat cs) = Inr bs \<and> encode_proof demo_proof = Some bs \<and> proof_ok demo_proof \<and>
    hex demo_crates (take 4 (sha demo_crates (encode_unchecked demo_proof))) = hex demo_crates (take 4 (sha demo_crates bs))"
proof (rule assembled_from_one_reading)
  show "assemble_group demo_crates (hex demo_crates (take 4 (sha demo_crates (encode_unchecked demo_proof))))
      [(1, 1, enc64url demo_crates (encode_unchecked demo_proof))] = Inr demo_proof"
    using decode_group_encoded [OF demo_crates_ok demo_proof_fits(1,2)]
    by (intro assemble_honest [where cs = "[enc64url demo_crates (encode_unchecked demo_proof)]" and tot = 1]) simp_all
qed simp

end
