(* ===== verification/Rekor_Note.thy ===== *)
theory Rekor_Note
  imports Rekor_Txt
begin

text \<open>
  Keys and signed notes of the transparency log: \<^verbatim>\<open>synch-net/src/pubkey.rs\<close>, and from
  \<^verbatim>\<open>synch-net/src/rekor.rs\<close> the pinned log keys, the parser of a checkpoint and the check that the
  pinned key signed it as its own origin. The three signature algorithms of the crypto crate are the
  fields of \<open>verifiers\<close>.
\<close>

section \<open>Verification keys\<close>

record verifiers =
  ecdsa_asn1 :: "bytes \<Rightarrow> bytes \<Rightarrow> bytes \<Rightarrow> bool"
  ecdsa_fixed :: "bytes \<Rightarrow> bytes \<Rightarrow> bytes \<Rightarrow> bool"
  ed25519 :: "bytes \<Rightarrow> bytes \<Rightarrow> bytes \<Rightarrow> bool"

datatype scheme = EcdsaP256Sha256 | Ed25519

record raw_key =
  rk_scheme :: scheme
  rk_point :: bytes

definition P256_SPKI_PREFIX :: bytes where
  "P256_SPKI_PREFIX =
     [0x30, 0x59, 0x30, 0x13, 0x06, 0x07, 0x2a, 0x86, 0x48, 0xce, 0x3d, 0x02, 0x01, 0x06, 0x08, 0x2a,
      0x86, 0x48, 0xce, 0x3d, 0x03, 0x01, 0x07, 0x03, 0x42, 0x00, 0x04]"

definition ED25519_SPKI_PREFIX :: bytes where
  "ED25519_SPKI_PREFIX = [0x30, 0x2a, 0x30, 0x05, 0x06, 0x03, 0x2b, 0x65, 0x70, 0x03, 0x21, 0x00]"

definition uncompressed :: "bytes \<Rightarrow> bytes" where
  "uncompressed point = 0x04 # point"

definition bytes_strip_prefix :: "bytes \<Rightarrow> bytes \<Rightarrow> bytes option" where
  "bytes_strip_prefix p bs = (if take (length p) bs = p then Some (drop (length p) bs) else None)"

definition from_spki :: "bytes \<Rightarrow> raw_key option" where
  "from_spki der =
     (let ed = (case bytes_strip_prefix ED25519_SPKI_PREFIX der of
          Some point \<Rightarrow> if length point = 32 then Some \<lparr>rk_scheme = Ed25519, rk_point = point\<rparr> else None
        | None \<Rightarrow> None)
      in case bytes_strip_prefix P256_SPKI_PREFIX der of
          Some point \<Rightarrow>
            if length point = 64 then Some \<lparr>rk_scheme = EcdsaP256Sha256, rk_point = uncompressed point\<rparr> else ed
        | None \<Rightarrow> ed)"

definition from_spki_as :: "bytes \<Rightarrow> scheme \<Rightarrow> raw_key option" where
  "from_spki_as der sch =
     (case from_spki der of Some k \<Rightarrow> if rk_scheme k = sch then Some k else None | None \<Rightarrow> None)"

definition from_raw :: "bytes \<Rightarrow> scheme \<Rightarrow> raw_key option" where
  "from_raw bs sch =
     (case sch of
        EcdsaP256Sha256 \<Rightarrow>
          if bs \<noteq> [] \<and> hd bs = 0x04 \<and> length bs = 65 then Some \<lparr>rk_scheme = sch, rk_point = bs\<rparr>
          else if length bs = 64 then Some \<lparr>rk_scheme = sch, rk_point = uncompressed bs\<rparr>
          else None
      | Ed25519 \<Rightarrow> if length bs = 32 then Some \<lparr>rk_scheme = sch, rk_point = bs\<rparr> else None)"

definition verifies :: "verifiers \<Rightarrow> raw_key \<Rightarrow> bytes \<Rightarrow> bytes \<Rightarrow> bool" where
  "verifies g k message sig =
     (let algorithms = (case rk_scheme k of EcdsaP256Sha256 \<Rightarrow> [ecdsa_asn1 g, ecdsa_fixed g] | Ed25519 \<Rightarrow> [ed25519 g])
      in list_ex (\<lambda>algorithm. algorithm (rk_point k) message sig) algorithms)"

definition p256_spki :: "bytes \<Rightarrow> bytes" where
  "p256_spki point = P256_SPKI_PREFIX @ point"

definition p256_point :: "bytes \<Rightarrow> bytes option" where
  "p256_point spki =
     (if length spki < 27 then None
      else let point = drop 27 spki in
        if length point \<noteq> 64 \<or> p256_spki point \<noteq> spki then None else Some point)"

section \<open>Pinned logs\<close>

definition base64_decode :: "crates \<Rightarrow> rstr \<Rightarrow> bytes option" where
  "base64_decode x s = decode_padless (dec64 x) s"

record log_key =
  lk_id :: digest
  lk_key :: raw_key
  lk_origin :: "rstr option"

definition log_key_from_spki :: "crates \<Rightarrow> bytes \<Rightarrow> proof_error + log_key" where
  "log_key_from_spki x der =
     (case from_spki der of
        Some key \<Rightarrow> Inr \<lparr>lk_id = sha x der, lk_key = key, lk_origin = None\<rparr>
      | None \<Rightarrow> Inl UnknownLog)"

definition for_origin :: "rstr \<Rightarrow> log_key \<Rightarrow> log_key" where
  "for_origin origin k = k\<lparr>lk_origin := Some origin\<rparr>"

definition note_hint :: "crates \<Rightarrow> log_key \<Rightarrow> rstr \<Rightarrow> bytes option" where
  "note_hint x k origin =
     (case rk_scheme (lk_key k) of
        EcdsaP256Sha256 \<Rightarrow> None
      | Ed25519 \<Rightarrow> Some (take 4 (sha x (as_bytes origin @ 0x0a # 0x01 # rk_point (lk_key k)))))"

definition log_key_verify :: "verifiers \<Rightarrow> log_key \<Rightarrow> bytes \<Rightarrow> bytes \<Rightarrow> proof_error + unit" where
  "log_key_verify g k message sig = (if verifies g (lk_key k) message sig then Inr () else Inl CheckpointBad)"

type_synonym log_keys = "log_key list"

definition find_log :: "log_keys \<Rightarrow> digest \<Rightarrow> log_key option" where
  "find_log keys ident = find (\<lambda>k. lk_id k = ident) keys"

definition PEM_BEGIN :: rstr where "PEM_BEGIN = str ''-----BEGIN PUBLIC KEY-----''"
definition PEM_END :: rstr where "PEM_END = str ''-----END PUBLIC KEY-----''"

definition decode_key :: "crates \<Rightarrow> rstr \<Rightarrow> proof_error + log_key" where
  "decode_key x body = result_bind (ok_or UnknownLog (base64_decode x body)) (log_key_from_spki x)"

fun parse_key_lines :: "crates \<Rightarrow> rstr list \<Rightarrow> log_keys \<Rightarrow> rstr option \<Rightarrow> proof_error + (log_keys \<times> rstr option)" where
  "parse_key_lines x [] keys block = Inr (keys, block)"
| "parse_key_lines x (line # rest) keys block =
     (let line = trim (hd (split_on 35 line)) in
      if line = [] then parse_key_lines x rest keys block
      else if line = PEM_BEGIN then parse_key_lines x rest keys (Some [])
      else if line = PEM_END then
        (case block of
           None \<Rightarrow> Inl UnknownLog
         | Some body \<Rightarrow> result_bind (decode_key x body) (\<lambda>k. parse_key_lines x rest (keys @ [k]) None))
      else
        (case block of
           Some body \<Rightarrow> parse_key_lines x rest keys (Some (body @ line))
         | None \<Rightarrow> result_bind (decode_key x line) (\<lambda>k. parse_key_lines x rest (keys @ [k]) None)))"

definition log_keys_parse :: "crates \<Rightarrow> rstr \<Rightarrow> proof_error + log_keys" where
  "log_keys_parse x s =
     result_bind (parse_key_lines x (lines s) [] None) (\<lambda>(keys, block).
     if block \<noteq> None then Inl UnknownLog else Inr keys)"

section \<open>Checkpoints\<close>

record note_signature =
  ns_name :: rstr
  ns_hint :: bytes
  ns_signature :: bytes

record checkpoint =
  cp_origin :: rstr
  tree_size :: u64
  root_hash :: digest
  cp_signed :: bytes
  cp_signatures :: "note_signature list"

text \<open>\<open>str::rfind("\n\n")\<close>: the position of the last blank line.\<close>

fun rfind_blank :: "rstr \<Rightarrow> nat option" where
  "rfind_blank (a # b # s) =
     (case rfind_blank (b # s) of
        Some i \<Rightarrow> Some (Suc i)
      | None \<Rightarrow> if a = 10 \<and> b = 10 then Some 0 else None)"
| "rfind_blank _ = None"

fun parse_signature_lines :: "crates \<Rightarrow> rstr list \<Rightarrow> proof_error + note_signature list" where
  "parse_signature_lines x [] = Inr []"
| "parse_signature_lines x (line # rest) =
     result_bind (ok_or Malformed (strip_prefix [0x2014, 32] line)) (\<lambda>r.
     result_bind (ok_or Malformed (split_once 32 r)) (\<lambda>(name, encoded).
     result_bind (ok_or Malformed (base64_decode x encoded)) (\<lambda>blob.
     if length blob \<le> 4 then Inl Malformed
     else result_bind (parse_signature_lines x rest) (\<lambda>sigs.
       Inr (\<lparr>ns_name = name, ns_hint = take 4 blob, ns_signature = drop 4 blob\<rparr> # sigs)))))"

definition checkpoint_parse :: "crates \<Rightarrow> bytes \<Rightarrow> proof_error + checkpoint" where
  "checkpoint_parse x bs =
     result_bind (ok_or Malformed (from_utf8 bs)) (\<lambda>s.
     result_bind (ok_or Malformed (rfind_blank s)) (\<lambda>split.
     let signed = take (split + 1) s; ls = lines signed in
     result_bind (ok_or Malformed (case ls of l # _ \<Rightarrow> Some l | [] \<Rightarrow> None)) (\<lambda>origin.
     result_bind (ok_or Malformed (case ls of _ # l # _ \<Rightarrow> Some l | _ \<Rightarrow> None)) (\<lambda>size_line.
     result_bind (ok_or Malformed (from_str_radix 10 size_line)) (\<lambda>size.
     result_bind (ok_or Malformed (case ls of _ # _ # l # _ \<Rightarrow> Some l | _ \<Rightarrow> None)) (\<lambda>root_line.
     result_bind (ok_or Malformed (base64_decode x root_line)) (\<lambda>root.
     if length root \<noteq> 32 then Inl Malformed
     else result_bind (parse_signature_lines x (filter (\<lambda>l. l \<noteq> []) (lines (drop (split + 2) s)))) (\<lambda>sigs.
     if sigs = [] then Inl Malformed
     else Inr \<lparr>cp_origin = origin, tree_size = size, root_hash = root, cp_signed = as_bytes signed, cp_signatures = sigs\<rparr>))))))))"

definition verify_signature :: "crates \<Rightarrow> verifiers \<Rightarrow> log_key \<Rightarrow> checkpoint \<Rightarrow> proof_error + unit" where
  "verify_signature x g key c =
     (if (case lk_origin key of Some pinned \<Rightarrow> pinned \<noteq> cp_origin c | None \<Rightarrow> False) then Inl CheckpointBad
      else if list_ex (\<lambda>line. ns_name line = cp_origin c \<and>
          (case note_hint x key (cp_origin c) of None \<Rightarrow> True | Some h \<Rightarrow> h = ns_hint line) \<and>
          is_ok (log_key_verify g key (cp_signed c) (ns_signature line))) (cp_signatures c)
      then Inr () else Inl CheckpointBad)"

definition verify_under :: "crates \<Rightarrow> verifiers \<Rightarrow> log_keys \<Rightarrow> checkpoint \<Rightarrow> proof_error + unit" where
  "verify_under x g logs c =
     (if list_ex (\<lambda>key. is_ok (verify_signature x g key c)) logs then Inr () else Inl CheckpointBad)"

section \<open>Which bytes a signature covers\<close>

lemma rfind_blank_Some:
  "rfind_blank s = Some i \<Longrightarrow> Suc i < length s \<and> s ! i = 10 \<and> s ! Suc i = 10 \<and>
     (\<forall>j. i < j \<and> Suc j < length s \<longrightarrow> \<not> (s ! j = 10 \<and> s ! Suc j = 10))"
proof (induction s arbitrary: i rule: rfind_blank.induct)
  case (1 a b s)
  show ?case
  proof (cases "rfind_blank (b # s)")
    case None
    have no: "\<not> ((b # s) ! j = 10 \<and> (b # s) ! Suc j = 10)" if "Suc j < length (b # s)" for j
      using that None
    proof (induction j arbitrary: b s)
      case 0
      then show ?case by (cases s) (auto split: option.splits if_splits)
    next
      case (Suc j)
      then obtain c s' where "s = c # s'" by (cases s) auto
      then show ?case using Suc by (auto split: option.splits)
    qed
    have "i = 0" "a = 10" "b = 10" using 1 None by (auto split: if_splits)
    then show ?thesis using no by (auto simp: nth_Cons split: nat.splits)
  next
    case (Some k)
    then have "i = Suc k" using 1(2) by simp
    then show ?thesis using 1(1) [OF Some] by (auto simp: nth_Cons split: nat.splits)
  qed
qed auto

lemma rfind_blank_last:
  assumes "Suc i < length s" "s ! i = 10" "s ! Suc i = 10"
  shows "\<exists>k. rfind_blank s = Some k \<and> i \<le> k"
  using assms
proof (induction s arbitrary: i rule: rfind_blank.induct)
  case (1 a b s)
  show ?case
  proof (cases i)
    case 0
    then show ?thesis using 1 by (auto split: option.splits)
  next
    case (Suc j)
    then show ?thesis using 1(1) [of j] 1(2-4) by auto
  qed
qed auto

lemma checkpoint_parse_split:
  assumes "checkpoint_parse x bs = Inr c"
  obtains s i where "from_utf8 bs = Some s" "rfind_blank s = Some i" "cp_signed c = as_bytes (take (Suc i) s)"
    "parse_signature_lines x (filter (\<lambda>l. l \<noteq> []) (lines (drop (Suc (Suc i)) s))) = Inr (cp_signatures c)"
    "cp_signatures c \<noteq> []" "length (root_hash c) = 32"
proof -
  obtain s i where s: "from_utf8 bs = Some s" "rfind_blank s = Some i" using assms by (auto simp: checkpoint_parse_def)
  moreover have "cp_signed c = as_bytes (take (Suc i) s)"
    "parse_signature_lines x (filter (\<lambda>l. l \<noteq> []) (lines (drop (Suc (Suc i)) s))) = Inr (cp_signatures c)"
    "cp_signatures c \<noteq> []" "length (root_hash c) = 32"
    using assms s by (auto simp: checkpoint_parse_def Let_def split: if_splits)
  ultimately show ?thesis using that by blast
qed

lemma as_bytes_take_less:
  assumes "i < j" "i < length s"
  shows "utf8_len (take i s) < utf8_len (take j s)"
proof -
  have "take j s = take i s @ take (j - i) (drop i s)" using assms by (metis le_add_diff_inverse less_imp_le take_add)
  moreover have "take (j - i) (drop i s) \<noteq> []" using assms by auto
  then have "0 < utf8_len (take (j - i) (drop i s))" by (cases "take (j - i) (drop i s)") simp_all
  ultimately show ?thesis by simp
qed

lemma utf8_char_first:
  assumes "scalar c" "hd (utf8_char c) = 10"
  shows "c = 10"
  using assms by (auto simp: utf8_char_def split: if_splits)

lemma utf8_char_last:
  assumes "scalar c" "last (utf8_char c) = 10"
  shows "c = 10"
  using assms by (auto simp: utf8_char_def split: if_splits)

lemma of_nat_u8_10: "n < 256 \<Longrightarrow> (of_nat n :: u8) = 10 \<longleftrightarrow> n = 10"
  using unat_of_nat_u8 [of n] by auto

lemma first_byte_newline:
  assumes "valid_str (b # r)" "as_bytes (b # r) = 10 # block"
  shows "b = 10"
proof -
  have "hd (as_bytes (b # r)) = of_nat (hd (utf8_char b))"
    using utf8_char_nonempty [of b] by (cases "utf8_char b") (auto simp: as_bytes_def)
  moreover have "hd (utf8_char b) < 256" using assms(1) utf8_char_lt [of b "hd (utf8_char b)"] by simp
  ultimately have "hd (utf8_char b) = 10" using assms(2) of_nat_u8_10 by simp
  then show ?thesis using assms(1) utf8_char_first by simp
qed

lemma last_byte_newline:
  assumes "valid_str (t @ [a])" "as_bytes (t @ [a]) = bs" "last bs = 10"
  shows "a = 10"
proof -
  have "last (as_bytes (t @ [a])) = of_nat (last (utf8_char a))"
    using utf8_char_nonempty [of a] by (simp add: as_bytes_def last_map)
  moreover have "last (utf8_char a) < 256" using assms(1) utf8_char_lt [of a "last (utf8_char a)"] by simp
  ultimately have "last (utf8_char a) = 10" using assms(2,3) of_nat_u8_10 by simp
  then show ?thesis using assms(1) utf8_char_last by simp
qed

text \<open>Nothing can be appended to a signed note behind the signer's back: when a block, separated by an empty
  line, is appended to a note that parses and ends with a newline, and the result still parses, the
  bytes taken as signed are longer than before, so they are not the bytes the log signed.\<close>
theorem appended_block_changes_signed:
  assumes "checkpoint_parse x bs = Inr c" "last bs = 10"
    and "checkpoint_parse x (bs @ 10 # block) = Inr c'"
  shows "length (cp_signed c) < length (cp_signed c')"
proof -
  obtain s i where s: "from_utf8 bs = Some s" "rfind_blank s = Some i" "cp_signed c = as_bytes (take (Suc i) s)"
    using checkpoint_parse_split [OF assms(1)] .
  obtain s' i' where s': "from_utf8 (bs @ 10 # block) = Some s'" "rfind_blank s' = Some i'"
      "cp_signed c' = as_bytes (take (Suc i') s')"
    using checkpoint_parse_split [OF assms(3)] .
  have v: "valid_str s" "as_bytes s = bs" "valid_str s'" "as_bytes s' = bs @ 10 # block"
    using from_utf8_inv [OF s(1)] from_utf8_inv [OF s'(1)] by auto
  obtain r where r: "s' = s @ r" "valid_str r" using as_bytes_prefix [of s "10 # block" s'] v by auto
  have i: "Suc i < length s" using rfind_blank_Some [OF s(2)] by blast
  obtain t a where t: "s = t @ [a]" using i by (cases s rule: rev_cases) auto
  have "as_bytes r = 10 # block" using v r by simp
  then obtain b r' where b: "r = b # r'" by (cases r) auto
  have "a = 10" using v(1,2) assms(2) unfolding t by (rule last_byte_newline)
  moreover have "b = 10" using r(2) \<open>as_bytes r = 10 # block\<close> unfolding b by (rule first_byte_newline)
  ultimately have "Suc (length t) < length s'" "s' ! length t = 10" "s' ! Suc (length t) = 10"
    using r(1) t b by (simp_all add: nth_append)
  then obtain k where "rfind_blank s' = Some k" "length t \<le> k" using rfind_blank_last by blast
  then have "length s \<le> Suc i'" using s'(2) t by simp
  then have "Suc i < Suc i'" "take (Suc i) s = take (Suc i) s'" using i r(1) by auto
  then show ?thesis using as_bytes_take_less [of "Suc i" "Suc i'" s'] i r(1) s(3) s'(3) by simp
qed

definition demo_block :: rstr where
  "demo_block = [0x2014, 32, 111, 32, 115, 10]"

definition demo_note :: rstr where
  "demo_note = [111, 10, 49, 10, 114, 10, 10] @ demo_block"

text \<open>Stand-ins whose base64 decoder takes any text for the same 32 bytes.\<close>

definition demo_crates2 :: crates where
  "demo_crates2 = demo_crates\<lparr>dec64 := (\<lambda>_. Some (replicate 32 0))\<rparr>"

lemma projr_ok: "is_ok r \<Longrightarrow> r = Inr (projr r)"
  by (cases r) auto

lemma demo_note_parses:
  "is_ok (checkpoint_parse demo_crates2 (as_bytes demo_note))"
  "is_ok (checkpoint_parse demo_crates2 (as_bytes (demo_note @ 10 # demo_block)))"
proof -
  have v: "from_utf8 (as_bytes demo_note) = Some demo_note"
    "from_utf8 (as_bytes (demo_note @ 10 # demo_block)) = Some (demo_note @ 10 # demo_block)"
    by (rule from_utf8_as_bytes; simp add: demo_note_def demo_block_def scalar_def)+
  have n: "from_str_radix 10 [49] = Some 1" by (simp add: from_str_radix_def to_digit_def digit_value_def)
  show "is_ok (checkpoint_parse demo_crates2 (as_bytes demo_note))"
    unfolding checkpoint_parse_def v
    by (simp add: demo_note_def demo_block_def lines_def strip_cr_def n base64_decode_def decode_padless_def
        demo_crates2_def strip_prefix_def starts_with_def Let_def)
  show "is_ok (checkpoint_parse demo_crates2 (as_bytes (demo_note @ 10 # demo_block)))"
    unfolding checkpoint_parse_def v
    by (simp add: demo_note_def demo_block_def lines_def strip_cr_def n base64_decode_def decode_padless_def
        demo_crates2_def strip_prefix_def starts_with_def Let_def)
qed

theorem appended_block_changes_signed_witness:
  "length (cp_signed (projr (checkpoint_parse demo_crates2 (as_bytes demo_note)))) <
     length (cp_signed (projr (checkpoint_parse demo_crates2 (as_bytes (demo_note @ 10 # demo_block)))))"
proof (rule appended_block_changes_signed [OF projr_ok [OF demo_note_parses(1)]])
  have "as_bytes (demo_note @ 10 # demo_block) = as_bytes demo_note @ 10 # as_bytes demo_block"
    by (simp add: as_bytes_ascii)
  then show "checkpoint_parse demo_crates2 (as_bytes demo_note @ 10 # as_bytes demo_block) =
      Inr (projr (checkpoint_parse demo_crates2 (as_bytes (demo_note @ 10 # demo_block))))"
    using projr_ok [OF demo_note_parses(2)] by simp
  show "last (as_bytes demo_note) = 10" by (simp add: demo_note_def demo_block_def as_bytes_def utf8_char_def)
qed

end
