(* ===== verification/Der.thy ===== *)
theory Der
  imports Bytes Text
begin

text \<open>
  The narrow DER reader and writer under the zone-key certificates (\<^verbatim>\<open>synch-net/src/x509.rs\<close>: \<open>Der\<close> and
  \<open>tlv\<close>). A position in the input is a natural; \<open>slice::get\<close> is \<open>nth_opt\<close> and \<open>slice_opt\<close>. The only
  content of an error is its text, so there is one error value.
\<close>

unbundle bit_operations_syntax

section \<open>Slices\<close>

definition nth_opt :: "'a list \<Rightarrow> nat \<Rightarrow> 'a option" where
  "nth_opt xs i = (if i < length xs then Some (xs ! i) else None)"

definition slice_opt :: "'a list \<Rightarrow> nat \<Rightarrow> nat \<Rightarrow> 'a list option" where
  "slice_opt xs start n = (if start + n \<le> length xs then Some (take n (drop start xs)) else None)"

lemma nth_opt_append [simp]: "nth_opt (pre @ rest) (length pre + k) = nth_opt rest k"
  by (simp add: nth_opt_def)

lemma slice_opt_append [simp]: "slice_opt (pre @ rest) (length pre + k) n = slice_opt rest k n"
  by (simp add: slice_opt_def)

lemma opt_append_small [simp]:
  "nth_opt (pre @ rest) (length pre) = nth_opt rest 0"
  "nth_opt (pre @ rest) (Suc (length pre)) = nth_opt rest 1"
  "slice_opt (pre @ rest) (Suc (Suc (length pre))) n = slice_opt rest 2 n"
  using nth_opt_append [of pre rest 0] nth_opt_append [of pre rest 1] slice_opt_append [of pre rest 2 n] by simp_all

section \<open>The writer\<close>

definition tlv :: "u8 \<Rightarrow> bytes \<Rightarrow> bytes" where
  "tlv tag body =
     (let len = length body in
      if len < 0x80 then tag # of_nat len # body
      else let ds = min_bytes len in tag # (0x80 OR of_nat (length ds)) # ds @ body)"

section \<open>The reader\<close>

datatype x509_error = X509Error

record der =
  der_bytes :: bytes
  der_at :: nat

definition der_new :: "bytes \<Rightarrow> der" where
  "der_new bs = \<lparr>der_bytes = bs, der_at = 0\<rparr>"

definition der_is_empty :: "der \<Rightarrow> bool" where
  "der_is_empty d \<longleftrightarrow> length (der_bytes d) \<le> der_at d"

definition der_length :: "der \<Rightarrow> u8 \<Rightarrow> x509_error + (nat \<times> nat)" where
  "der_length d first =
     (if first < 0x80 then Inr (unat first, 2)
      else if first = 0x80 then Inl X509Error
      else let count = unat (first AND 0x7f) in
        if 4 < count then Inl X509Error
        else result_bind (ok_or X509Error (slice_opt (der_bytes d) (der_at d + 2) count)) (\<lambda>slice.
          if slice ! 0 = 0 then Inl X509Error
          else if count = 1 \<and> slice ! 0 < 0x80 then Inl X509Error
          else Inr (be_value slice, 2 + count)))"

definition der_next :: "der \<Rightarrow> x509_error + ((u8 \<times> bytes) \<times> der)" where
  "der_next d =
     result_bind (ok_or X509Error (nth_opt (der_bytes d) (der_at d))) (\<lambda>tag.
     result_bind (ok_or X509Error (nth_opt (der_bytes d) (der_at d + 1))) (\<lambda>first.
     result_bind (der_length d first) (\<lambda>(len, header).
     let start = der_at d + header in
     result_bind (ok_or X509Error (slice_opt (der_bytes d) start len)) (\<lambda>body.
     Inr ((tag, body), d\<lparr>der_at := start + len\<rparr>)))))"

definition der_tagged :: "u8 \<Rightarrow> der \<Rightarrow> x509_error + (bytes \<times> der)" where
  "der_tagged tag d =
     result_bind (der_next d) (\<lambda>((actual, body), d'). if actual \<noteq> tag then Inl X509Error else Inr (body, d'))"

definition der_optional :: "u8 \<Rightarrow> der \<Rightarrow> bytes option \<times> der" where
  "der_optional tag d =
     (case der_next d of
        Inr ((actual, body), d') \<Rightarrow> if actual = tag then (Some body, d') else (None, d)
      | Inl _ \<Rightarrow> (None, d))"

definition der_sequence :: "der \<Rightarrow> x509_error + (der \<times> der)" where
  "der_sequence d = result_bind (der_tagged 0x30 d) (\<lambda>(body, d). Inr (der_new body, d))"

definition der_finish :: "der \<Rightarrow> x509_error + unit" where
  "der_finish d = (if der_is_empty d then Inr () else Inl X509Error)"

definition only_sequence :: "der \<Rightarrow> x509_error + der" where
  "only_sequence d =
     result_bind (der_sequence d) (\<lambda>(inner, d). result_bind (der_finish d) (\<lambda>_. Inr inner))"

definition raw_sequence :: "der \<Rightarrow> x509_error + (bytes \<times> der)" where
  "raw_sequence d =
     result_bind (der_tagged 0x30 d) (\<lambda>(_, d').
     Inr (take (der_at d' - der_at d) (drop (der_at d) (der_bytes d)), d'))"

definition der_any :: "der \<Rightarrow> x509_error + (bytes \<times> der)" where
  "der_any d = result_bind (der_next d) (\<lambda>((_, body), d). Inr (body, d))"

section \<open>The reader accepts exactly what the writer writes\<close>

definition der_of :: "bytes \<Rightarrow> bytes \<Rightarrow> der" where
  "der_of pre rest = \<lparr>der_bytes = pre @ rest, der_at = length pre\<rparr>"

lemma der_of_sel [simp]: "der_bytes (der_of pre rest) = pre @ rest" "der_at (der_of pre rest) = length pre"
  by (simp_all add: der_of_def)

lemma der_new_of: "der_new bs = der_of [] bs"
  by (simp add: der_new_def der_of_def)

lemma der_is_empty_of [simp]: "der_is_empty (der_of pre rest) \<longleftrightarrow> rest = []"
  by (simp add: der_is_empty_def)

lemma der_of_advance: "length x = n \<Longrightarrow> (der_of pre (x @ rest))\<lparr>der_at := length pre + n\<rparr> = der_of (pre @ x) rest"
  by (simp add: der_of_def)

lemma long_form_byte:
  assumes "1 \<le> k" "k \<le> 8"
  shows "(0x80 OR of_nat k :: u8) = of_nat (128 + k)" "((0x80 OR of_nat k :: u8) AND 0x7f) = of_nat k"
    "unat (of_nat k :: u8) = k" "\<not> (0x80 OR of_nat k :: u8) < 0x80" "(0x80 OR of_nat k :: u8) \<noteq> 0x80"
proof -
  consider "k = 1" | "k = 2" | "k = 3" | "k = 4" | "k = 5" | "k = 6" | "k = 7" | "k = 8"
    using assms by linarith
  then show "(0x80 OR of_nat k :: u8) = of_nat (128 + k)" "((0x80 OR of_nat k :: u8) AND 0x7f) = of_nat k"
    "unat (of_nat k :: u8) = k" "\<not> (0x80 OR of_nat k :: u8) < 0x80" "(0x80 OR of_nat k :: u8) \<noteq> 0x80"
    by (cases; simp)+
qed

lemma mod_128: "128 \<le> n \<Longrightarrow> n < 256 \<Longrightarrow> n = 128 + n mod 128" for n :: nat
  by (simp add: le_mod_geq)

lemma long_form_inv:
  assumes "\<not> (first :: u8) < 0x80"
  shows "first = of_nat (128 + unat (first AND 0x7f))"
proof -
  have "first AND 0x7f = take_bit 7 first" by (simp add: take_bit_eq_mask mask_eq_exp_minus_1)
  moreover have "unat (take_bit 7 first) = unat first mod 2 ^ 7"
    by (simp only: unsigned_take_bit_eq) (rule take_bit_eq_mod)
  ultimately have m: "unat (first AND 0x7f) = unat first mod 128" by simp
  have "128 \<le> unat first" using assms by (simp add: word_less_nat_alt)
  moreover have "unat first < 256" using unsigned_less [of first] by simp
  ultimately have "unat first = 128 + unat (first AND 0x7f)" unfolding m by (rule mod_128)
  then have "(of_nat (unat first) :: u8) = of_nat (128 + unat (first AND 0x7f))" by (rule arg_cong)
  then show ?thesis by simp
qed

lemma of_nat_u8_small: "n < 0x80 \<Longrightarrow> (of_nat n :: u8) < 0x80 \<and> unat (of_nat n :: u8) = n"
  by (simp add: word_less_nat_alt unat_of_nat)

lemma der_next_tlv:
  assumes "length body < 2 ^ 32"
  shows "der_next (der_of pre (tlv tag body @ rest)) = Inr ((tag, body), der_of (pre @ tlv tag body) rest)"
proof (cases "length body < 0x80")
  case True
  let ?t = "tag # of_nat (length body) # body"
  have t: "tlv tag body = ?t" using True by (simp add: tlv_def Let_def)
  have "der_length (der_of pre (?t @ rest)) (of_nat (length body)) = Inr (length body, 2)"
    using of_nat_u8_small [OF True] by (simp add: der_length_def)
  moreover have "nth_opt (?t @ rest) 0 = Some tag" "nth_opt (?t @ rest) 1 = Some (of_nat (length body))"
    "slice_opt (?t @ rest) 2 (length body) = Some body"
    by (simp_all add: nth_opt_def slice_opt_def)
  ultimately show ?thesis unfolding t der_next_def
    using der_of_advance [of ?t "2 + length body" pre rest] nth_opt_append [of pre "?t @ rest" 0]
      nth_opt_append [of pre "?t @ rest" 1] by (simp add: Let_def add.assoc)
next
  case False
  define ds where "ds = min_bytes (length body)"
  have n: "0 < length body" "length body < 2 ^ 64" using False assms by auto
  note sh = min_bytes_shape [OF n, folded ds_def]
  have k: "1 \<le> length ds" "length ds \<le> 4" "length ds \<le> 8"
    using sh min_bytes_length [of "length body" 4] n assms by (auto simp: ds_def Suc_le_eq)
  let ?f = "0x80 OR of_nat (length ds) :: u8"
  let ?t = "tag # ?f # ds @ body"
  have t: "tlv tag body = ?t" using False by (simp add: tlv_def Let_def ds_def)
  have big: "\<not> (length ds = 1 \<and> ds ! 0 < 0x80)"
  proof
    assume "length ds = 1 \<and> ds ! 0 < 0x80"
    then obtain b where b: "ds = [b]" "b < 0x80" by (cases ds) auto
    then have "length body = unat b" using sh(3) be_value_simps(2) [of "[]" b] by simp
    then show False using False b(2) by (simp add: word_less_nat_alt)
  qed
  note lf = long_form_byte [OF k(1,3)]
  have hd0: "ds ! 0 \<noteq> 0" using sh(1,2) by (simp add: hd_conv_nth)
  have sl: "slice_opt (pre @ ?t @ rest) (length pre + 2) (length ds) = Some ds"
    by (simp only: slice_opt_append) (simp add: slice_opt_def)
  then have "der_length (der_of pre (?t @ rest)) ?f = Inr (length body, 2 + length ds)"
    unfolding der_length_def using lf(2-5) k hd0 big sh(3) by (auto simp: Let_def simp del: lf(1))
  moreover have "nth_opt (?t @ rest) 0 = Some tag" "nth_opt (?t @ rest) 1 = Some ?f"
    "slice_opt (?t @ rest) (2 + length ds) (length body) = Some body"
    by (simp_all add: nth_opt_def slice_opt_def)
  ultimately show ?thesis unfolding t der_next_def
    using der_of_advance [of ?t "2 + length ds + length body" pre rest] nth_opt_append [of pre "?t @ rest" 0]
      nth_opt_append [of pre "?t @ rest" 1] slice_opt_append [of pre "?t @ rest" "2 + length ds" "length body"]
    by (simp add: Let_def add.assoc)
qed

lemma der_next_inv:
  assumes "der_next (der_of pre rest) = Inr ((tag, body), d)"
  shows "\<exists>rest'. rest = tlv tag body @ rest' \<and> length body < 2 ^ 32 \<and> d = der_of (pre @ tlv tag body) rest'"
proof -
  obtain first len header where f: "nth_opt rest 0 = Some tag" "nth_opt rest 1 = Some first"
      "der_length (der_of pre rest) first = Inr (len, header)" "slice_opt rest header len = Some body"
      "d = (der_of pre rest)\<lparr>der_at := length pre + header + len\<rparr>"
    using assms by (auto simp: der_next_def Let_def)
  obtain r where r: "rest = tag # first # r"
    using f(1,2) by (cases rest; cases "tl rest") (auto simp: nth_opt_def split: if_splits)
  show ?thesis
  proof (cases "first < 0x80")
    case True
    then have l: "len = unat first" "header = 2" using f(3) by (auto simp: der_length_def)
    then have b: "body = take len r" "len \<le> length r" using f(4) r by (auto simp: slice_opt_def split: if_splits)
    have "len < 0x80" using True l by (simp add: word_less_nat_alt)
    then have "tlv tag body = tag # first # body" using b l by (simp add: tlv_def)
    then show ?thesis
      using f(5) r b l der_of_advance [of "tag # first # body" "2 + len" pre "drop len r"] \<open>len < 0x80\<close>
      by (intro exI [of _ "drop len r"]) (simp add: add.assoc)
  next
    case False
    define count where "count = unat (first AND 0x7f)"
    obtain ds where ds: "first \<noteq> 0x80" "count \<le> 4" "slice_opt rest 2 count = Some ds" "ds ! 0 \<noteq> 0"
        "\<not> (count = 1 \<and> ds ! 0 < 0x80)" "len = be_value ds" "header = 2 + count"
      using f(3) False unfolding der_length_def by (auto simp: Let_def count_def not_less split: if_splits)
    have first: "first = of_nat (128 + count)" using long_form_inv [OF False] count_def by simp
    then have c: "1 \<le> count" using ds(1) by (cases count) auto
    have d: "r = ds @ drop count r" "length ds = count" using ds(3) r by (auto simp: slice_opt_def split: if_splits)
    have "ds \<noteq> []" using c d(2) by auto
    then have ne: "ds \<noteq> []" "hd ds \<noteq> 0" using ds(4) by (simp_all add: hd_conv_nth)
    have min: "min_bytes len = ds" unfolding ds(6) by (rule min_bytes_be_value [OF ne]) (use d(2) ds(2) in simp)
    have "be_value ds < 256 ^ count" using be_value_less [of ds] d(2) by simp
    also have "\<dots> \<le> 256 ^ 4" using ds(2) by (intro power_increasing) auto
    finally have small: "len < 2 ^ 32" using ds(6) by simp
    have big: "\<not> len < 0x80"
    proof (cases "count = 1")
      case True
      then obtain b where "ds = [b]" using d(2) by (cases ds) auto
      then show ?thesis using ds(5,6) True be_value_simps(2) [of "[]" b] by (simp add: word_less_nat_alt)
    next
      case False
      then have "256 ^ 1 \<le> (256 :: nat) ^ (length ds - 1)" using c d(2) by (intro power_increasing) auto
      then show ?thesis using be_value_ge [OF ne] ds(6) by simp
    qed
    have b: "body = take len (drop count r)" "len \<le> length (drop count r)"
      using f(4) r ds(7) by (auto simp: slice_opt_def split: if_splits)
    have t: "tlv tag body = tag # first # ds @ body"
      using b big min first d(2) long_form_byte(1) [OF c] ds(2) by (simp add: tlv_def Let_def)
    define rest' where "rest' = drop len (drop count r)"
    have "ds @ drop count r = ds @ body @ rest'" by (simp only: b(1) rest'_def append_take_drop_id)
    then have "r = ds @ body @ rest'" by (rule trans [OF d(1)])
    then have e: "rest = tlv tag body @ rest'" using t r by simp
    have "length (tlv tag body) = 2 + count + len" using t d(2) b by simp
    then have "d = der_of (pre @ tlv tag body) rest'"
      using der_of_advance [of "tlv tag body" "2 + count + len" pre rest'] f(5) ds(7) e by (simp add: add.assoc)
    moreover have "length body = len" using b by simp
    ultimately show ?thesis using e small by blast
  qed
qed

lemma der_next_iff:
  "der_next (der_of pre rest) = Inr ((tag, body), d) \<longleftrightarrow>
     (\<exists>rest'. rest = tlv tag body @ rest' \<and> length body < 2 ^ 32 \<and> d = der_of (pre @ tlv tag body) rest')"
  using der_next_inv der_next_tlv by blast

lemma der_next_progress:
  "der_next d = Inr (x, d') \<Longrightarrow> der_bytes d' = der_bytes d \<and> der_at d < der_at d' \<and> der_at d < length (der_bytes d)"
  by (auto simp: der_next_def der_length_def Let_def nth_opt_def ok_or_def split: if_splits option.splits)

lemma der_sequence_progress:
  "der_sequence d = Inr (x, d') \<Longrightarrow> der_bytes d' = der_bytes d \<and> der_at d < der_at d' \<and> der_at d < length (der_bytes d)"
  by (auto simp: der_sequence_def der_tagged_def dest!: der_next_progress split: if_splits)

lemma der_tagged_iff:
  "der_tagged tag (der_of pre rest) = Inr (body, d) \<longleftrightarrow>
     (\<exists>rest'. rest = tlv tag body @ rest' \<and> length body < 2 ^ 32 \<and> d = der_of (pre @ tlv tag body) rest')"
proof -
  have "der_tagged tag (der_of pre rest) = Inr (body, d) \<longleftrightarrow> der_next (der_of pre rest) = Inr ((tag, body), d)"
    by (auto simp: der_tagged_def split: if_splits)
  then show ?thesis by (simp add: der_next_iff)
qed

lemma der_sequence_iff:
  "der_sequence (der_of pre rest) = Inr (inner, d) \<longleftrightarrow>
     (\<exists>body rest'. rest = tlv 0x30 body @ rest' \<and> length body < 2 ^ 32 \<and> inner = der_of [] body \<and>
        d = der_of (pre @ tlv 0x30 body) rest')"
  by (auto simp: der_sequence_def der_tagged_iff der_new_of)

lemma der_any_iff:
  "der_any (der_of pre rest) = Inr (body, d) \<longleftrightarrow>
     (\<exists>tag rest'. rest = tlv tag body @ rest' \<and> length body < 2 ^ 32 \<and> d = der_of (pre @ tlv tag body) rest')"
  by (auto simp: der_any_def der_next_iff)

lemma raw_sequence_iff:
  "raw_sequence (der_of pre rest) = Inr (raw, d) \<longleftrightarrow>
     (\<exists>body rest'. raw = tlv 0x30 body \<and> rest = raw @ rest' \<and> length body < 2 ^ 32 \<and> d = der_of (pre @ raw) rest')"
proof
  assume "raw_sequence (der_of pre rest) = Inr (raw, d)"
  then show "\<exists>body rest'. raw = tlv 0x30 body \<and> rest = raw @ rest' \<and> length body < 2 ^ 32 \<and> d = der_of (pre @ raw) rest'"
    by (auto simp: raw_sequence_def der_tagged_iff)
next
  assume "\<exists>body rest'. raw = tlv 0x30 body \<and> rest = raw @ rest' \<and> length body < 2 ^ 32 \<and> d = der_of (pre @ raw) rest'"
  then obtain body rest' where r: "raw = tlv 0x30 body" "rest = raw @ rest'" "length body < 2 ^ 32" "d = der_of (pre @ raw) rest'"
    by blast
  then have "der_tagged 0x30 (der_of pre rest) = Inr (body, d)" by (auto simp: der_tagged_iff)
  then show "raw_sequence (der_of pre rest) = Inr (raw, d)" using r by (simp add: raw_sequence_def)
qed

lemma der_finish_of [simp]: "der_finish (der_of pre rest) = Inr () \<longleftrightarrow> rest = []"
  by (simp add: der_finish_def)

lemma only_sequence_iff:
  "only_sequence (der_of pre rest) = Inr d \<longleftrightarrow> (\<exists>body. rest = tlv 0x30 body \<and> length body < 2 ^ 32 \<and> d = der_of [] body)"
proof
  assume "only_sequence (der_of pre rest) = Inr d"
  then show "\<exists>body. rest = tlv 0x30 body \<and> length body < 2 ^ 32 \<and> d = der_of [] body"
    by (auto simp: only_sequence_def der_sequence_iff)
next
  assume "\<exists>body. rest = tlv 0x30 body \<and> length body < 2 ^ 32 \<and> d = der_of [] body"
  then obtain body where "rest = tlv 0x30 body @ []" "length body < 2 ^ 32" "d = der_of [] body" by auto
  then have "der_sequence (der_of pre rest) = Inr (d, der_of (pre @ tlv 0x30 body) [])"
    unfolding der_sequence_iff by blast
  then show "only_sequence (der_of pre rest) = Inr d" by (simp add: only_sequence_def)
qed

lemma der_optional_Some:
  "der_optional tag (der_of pre rest) = (Some body, d) \<longleftrightarrow>
     (\<exists>rest'. rest = tlv tag body @ rest' \<and> length body < 2 ^ 32 \<and> d = der_of (pre @ tlv tag body) rest')"
proof -
  have "der_optional tag (der_of pre rest) = (Some body, d) \<longleftrightarrow> der_next (der_of pre rest) = Inr ((tag, body), d)"
    by (auto simp: der_optional_def split: sum.splits if_splits)
  then show ?thesis by (simp add: der_next_iff)
qed

lemma der_optional_None:
  "der_optional tag d = (None, d') \<Longrightarrow> d' = d"
  by (auto simp: der_optional_def split: sum.splits if_splits)

lemma tlv_tag: "tlv tag body = tag # tl (tlv tag body)"
  by (simp add: tlv_def Let_def)

lemma tlv_tag_eq: "tlv tag body @ rest = tlv tag' body' @ rest' \<Longrightarrow> tag = tag'"
  by (metis append_Cons list.inject tlv_tag)

lemma length_tlv: "length body < length (tlv tag body)"
  by (simp add: tlv_def Let_def)

lemma length_tlv_le: "length (tlv tag body) \<le> length body + 10"
proof -
  have "length (min_bytes n) \<le> 8" for n
    using length_dropWhile_le [of "\<lambda>b. b = 0" "be_bytes 8 n"] by (auto simp: min_bytes_def Let_def split: list.split)
  from this [of "length body"] show ?thesis by (simp add: tlv_def Let_def)
qed

text \<open>An element is read in one way only.\<close>

lemma tlv_inject:
  assumes "tlv tag body @ rest = tlv tag' body' @ rest'" "length body < 2 ^ 32" "length body' < 2 ^ 32"
  shows "tag = tag' \<and> body = body' \<and> rest = rest'"
proof -
  have "der_next (der_of [] (tlv tag body @ rest)) = der_next (der_of [] (tlv tag' body' @ rest'))" using assms(1) by simp
  then have "tag = tag'" "body = body'" unfolding der_next_tlv [OF assms(2)] der_next_tlv [OF assms(3)] by auto
  then show ?thesis using assms(1) by simp
qed

text \<open>The reader run forwards over written elements.\<close>

lemma der_reads:
  assumes "length body < 2 ^ 32"
  shows "der_tagged tag (der_of pre (tlv tag body @ rest)) = Inr (body, der_of (pre @ tlv tag body) rest)"
    and "der_sequence (der_of pre (tlv 0x30 body @ rest)) = Inr (der_of [] body, der_of (pre @ tlv 0x30 body) rest)"
    and "der_any (der_of pre (tlv tag body @ rest)) = Inr (body, der_of (pre @ tlv tag body) rest)"
    and "raw_sequence (der_of pre (tlv 0x30 body @ rest)) = Inr (tlv 0x30 body, der_of (pre @ tlv 0x30 body) rest)"
    and "der_optional tag (der_of pre (tlv tag body @ rest)) = (Some body, der_of (pre @ tlv tag body) rest)"
    and "tag' \<noteq> tag \<Longrightarrow> der_optional tag' (der_of pre (tlv tag body @ rest)) = (None, der_of pre (tlv tag body @ rest))"
    and "only_sequence (der_of pre (tlv 0x30 body)) = Inr (der_of [] body)"
proof -
  note nx = der_next_tlv [OF assms]
  show "der_tagged tag (der_of pre (tlv tag body @ rest)) = Inr (body, der_of (pre @ tlv tag body) rest)"
    by (simp add: der_tagged_def nx)
  show "der_any (der_of pre (tlv tag body @ rest)) = Inr (body, der_of (pre @ tlv tag body) rest)"
    by (simp add: der_any_def nx)
  show "der_sequence (der_of pre (tlv 0x30 body @ rest)) = Inr (der_of [] body, der_of (pre @ tlv 0x30 body) rest)"
    by (simp add: der_sequence_def der_tagged_def nx der_new_of)
  show "raw_sequence (der_of pre (tlv 0x30 body @ rest)) = Inr (tlv 0x30 body, der_of (pre @ tlv 0x30 body) rest)"
    using assms by (auto simp: raw_sequence_iff)
  show "der_optional tag (der_of pre (tlv tag body @ rest)) = (Some body, der_of (pre @ tlv tag body) rest)"
    "tag' \<noteq> tag \<Longrightarrow> der_optional tag' (der_of pre (tlv tag body @ rest)) = (None, der_of pre (tlv tag body @ rest))"
    by (simp_all add: der_optional_def nx)
  show "only_sequence (der_of pre (tlv 0x30 body)) = Inr (der_of [] body)"
    using assms by (auto simp: only_sequence_iff)
qed

lemma der_optional_end: "der_optional tag (der_of pre []) = (None, der_of pre [])"
  by (simp add: der_optional_def der_next_def nth_opt_def)

end
