(* ===== verification/X509.thy ===== *)
theory X509
  imports Der Text_Ops
begin

text \<open>
  Zone-key certificates (\<^verbatim>\<open>synch-net/src/x509.rs\<close>) and the chain extension they carry
  (\<^verbatim>\<open>synch-net/src/zonecert.rs\<close>): the parser of a certificate, the writer of a self-signed one, and
  the codec of the DNSSEC chain. The two times of a certificate are their DER bytes' contents, chosen
  by the caller; the DNS name type of the resolver library is not needed here.
\<close>

section \<open>The chain extension\<close>

definition OID_DNSSEC_CHAIN :: bytes where "OID_DNSSEC_CHAIN = [0x69, 0x85, 0xe5, 0xe9, 0xb2, 0x07]"

record chain_link =
  link_zone :: rstr
  link_rrs :: bytes

definition encode_link :: "chain_link \<Rightarrow> bytes" where
  "encode_link l = tlv 0x30 (tlv 0x16 (as_bytes (link_zone l)) @ tlv 0x04 (link_rrs l))"

definition chain_encode :: "chain_link list \<Rightarrow> bytes" where
  "chain_encode links = tlv 0x30 (concat (map encode_link links))"

definition decode_link :: "der \<Rightarrow> x509_error + chain_link" where
  "decode_link link =
     result_bind (der_tagged 0x16 link) (\<lambda>(bs, link).
     if \<not> list_all (\<lambda>b. b < 0x80) bs then Inl X509Error
     else result_bind (ok_or X509Error (from_utf8 bs)) (\<lambda>zone.
     result_bind (der_tagged 0x04 link) (\<lambda>(rrs, link).
     if \<not> der_is_empty link then Inl X509Error
     else Inr \<lparr>link_zone = zone, link_rrs = rrs\<rparr>)))"

function decode_links :: "der \<Rightarrow> x509_error + chain_link list" where
  "decode_links d =
     (if der_is_empty d then Inr []
      else result_bind (der_sequence d) (\<lambda>(link, d).
        result_bind (decode_link link) (\<lambda>l.
        result_bind (decode_links d) (\<lambda>ls. Inr (l # ls)))))"
  by pat_completeness auto
termination
  by (relation "measure (\<lambda>d. length (der_bytes d) - der_at d)") (auto dest!: der_sequence_progress)

declare decode_links.simps [simp del]

definition chain_decode :: "bytes \<Rightarrow> x509_error + chain_link list" where
  "chain_decode bs =
     result_bind (der_sequence (der_new bs)) (\<lambda>(lst, outer).
     if \<not> der_is_empty outer then Inl X509Error
     else decode_links lst)"

section \<open>Certificates\<close>

definition OID_BASIC_CONSTRAINTS :: bytes where "OID_BASIC_CONSTRAINTS = [0x55, 0x1d, 0x13]"
definition OID_KEY_USAGE :: bytes where "OID_KEY_USAGE = [0x55, 0x1d, 0x0f]"
definition OID_SUBJECT_ALT_NAME :: bytes where "OID_SUBJECT_ALT_NAME = [0x55, 0x1d, 0x11]"
definition OID_COMMON_NAME :: bytes where "OID_COMMON_NAME = [0x55, 0x04, 0x03]"
definition OID_ECDSA_SHA256 :: bytes where "OID_ECDSA_SHA256 = [0x2a, 0x86, 0x48, 0xce, 0x3d, 0x04, 0x03, 0x02]"

record extension =
  ext_oid :: bytes
  ext_critical :: bool
  ext_value :: bytes

record certificate =
  cert_spki :: bytes
  dns_names :: "rstr list"
  cert_extensions :: "extension list"

definition read_extension :: "der \<Rightarrow> x509_error + extension" where
  "read_extension ext =
     result_bind (der_tagged 0x06 ext) (\<lambda>(oid, ext).
     let (flag, ext) = der_optional 0x01 ext;
         critical = (case flag of Some v \<Rightarrow> (case v of b # _ \<Rightarrow> b \<noteq> 0 | [] \<Rightarrow> False) | None \<Rightarrow> False)
     in result_bind (der_tagged 0x04 ext) (\<lambda>(val, ext).
     result_bind (der_finish ext) (\<lambda>_.
     Inr \<lparr>ext_oid = oid, ext_critical = critical, ext_value = val\<rparr>)))"

function read_extensions :: "der \<Rightarrow> x509_error + extension list" where
  "read_extensions d =
     (if der_is_empty d then Inr []
      else result_bind (der_sequence d) (\<lambda>(ext, d).
        result_bind (read_extension ext) (\<lambda>e.
        result_bind (read_extensions d) (\<lambda>es. Inr (e # es)))))"
  by pat_completeness auto
termination
  by (relation "measure (\<lambda>d. length (der_bytes d) - der_at d)") (auto dest!: der_sequence_progress)

declare read_extensions.simps [simp del]

function read_names :: "der \<Rightarrow> x509_error + rstr list" where
  "read_names d =
     (if der_is_empty d then Inr []
      else result_bind (der_next d) (\<lambda>(el, d).
        if fst el = 0x82 then
          result_bind (ok_or X509Error (from_utf8 (snd el))) (\<lambda>n.
          result_bind (read_names d) (\<lambda>ns. Inr (n # ns)))
        else read_names d))"
  by pat_completeness auto
termination
  by (relation "measure (\<lambda>d. length (der_bytes d) - der_at d)") (auto dest!: der_next_progress)

declare read_names.simps [simp del]

definition parse_san :: "bytes \<Rightarrow> x509_error + rstr list" where
  "parse_san val = result_bind (only_sequence (der_new val)) read_names"

definition san_names :: "extension list \<Rightarrow> x509_error + rstr list" where
  "san_names exts =
     (case filter (\<lambda>e. ext_oid e = OID_SUBJECT_ALT_NAME) exts of
        [] \<Rightarrow> Inr []
      | [san] \<Rightarrow> parse_san (ext_value san)
      | _ \<Rightarrow> Inl X509Error)"

text \<open>The members up to the key, the extensions after it, and the whole \<open>tbsCertificate\<close>.\<close>

definition parse_tbs_key :: "der \<Rightarrow> x509_error + (bytes \<times> der)" where
  "parse_tbs_key tbs =
     (let (_, tbs) = der_optional 0xa0 tbs in
      result_bind (der_any tbs) (\<lambda>(_, tbs).
      result_bind (der_sequence tbs) (\<lambda>(_, tbs).
      result_bind (der_any tbs) (\<lambda>(_, tbs).
      result_bind (der_any tbs) (\<lambda>(_, tbs).
      result_bind (der_any tbs) (\<lambda>(_, tbs).
      raw_sequence tbs))))))"

definition parse_tbs_extensions :: "der \<Rightarrow> x509_error + extension list" where
  "parse_tbs_extensions tbs =
     (let (_, tbs) = der_optional 0x81 tbs;
          (_, tbs) = der_optional 0x82 tbs;
          (wrapper, tbs) = der_optional 0xa3 tbs
      in result_bind (case wrapper of
            Some bs \<Rightarrow> result_bind (only_sequence (der_new bs)) read_extensions
          | None \<Rightarrow> Inr []) (\<lambda>exts.
      result_bind (der_finish tbs) (\<lambda>_. Inr exts)))"

definition parse_tbs :: "der \<Rightarrow> x509_error + (bytes \<times> extension list)" where
  "parse_tbs tbs =
     result_bind (parse_tbs_key tbs) (\<lambda>(spki, tbs).
     result_bind (parse_tbs_extensions tbs) (\<lambda>exts. Inr (spki, exts)))"

definition certificate_parse :: "bytes \<Rightarrow> x509_error + certificate" where
  "certificate_parse bs =
     result_bind (der_sequence (der_new bs)) (\<lambda>(outer, whole).
     if \<not> der_is_empty whole then Inl X509Error
     else result_bind (der_sequence outer) (\<lambda>(tbs, outer).
     result_bind (parse_tbs tbs) (\<lambda>(spki, exts).
     result_bind (san_names exts) (\<lambda>names.
     result_bind (der_sequence outer) (\<lambda>(_, outer).
     result_bind (der_any outer) (\<lambda>(_, outer).
     result_bind (der_finish outer) (\<lambda>_.
     Inr \<lparr>cert_spki = spki, dns_names = names, cert_extensions = exts\<rparr>)))))))"

definition cert_extension :: "certificate \<Rightarrow> bytes \<Rightarrow> bytes option" where
  "cert_extension cert oid =
     (case filter (\<lambda>e. ext_oid e = oid) (cert_extensions cert) of [only] \<Rightarrow> Some (ext_value only) | _ \<Rightarrow> None)"

section \<open>The writer\<close>

record self_signed =
  common_name :: rstr
  dns_name :: rstr
  ss_spki :: bytes
  serial :: bytes
  not_before :: bytes
  not_after :: bytes
  ss_extensions :: "(bytes \<times> bytes) list"

definition algorithm_identifier :: bytes where
  "algorithm_identifier = tlv 0x30 (tlv 0x06 OID_ECDSA_SHA256)"

definition rdn_common_name :: "rstr \<Rightarrow> bytes" where
  "rdn_common_name cn = tlv 0x30 (tlv 0x31 (tlv 0x30 (tlv 0x06 OID_COMMON_NAME @ tlv 0x0c (as_bytes cn))))"

definition extension_tlv :: "bytes \<Rightarrow> bool \<Rightarrow> bytes \<Rightarrow> bytes" where
  "extension_tlv oid critical val =
     tlv 0x30 (tlv 0x06 oid @ (if critical then tlv 0x01 [0xff] else []) @ tlv 0x04 val)"

definition der_integer :: "bytes \<Rightarrow> bytes" where
  "der_integer magnitude =
     (let trimmed = (case dropWhile (\<lambda>b. b = 0) magnitude of [] \<Rightarrow> [0] | ds \<Rightarrow> ds)
      in tlv 0x02 ((if hd trimmed AND 0x80 \<noteq> 0 then [0x00] else []) @ trimmed))"

definition extension_der :: "self_signed \<Rightarrow> bytes" where
  "extension_der s =
     extension_tlv OID_BASIC_CONSTRAINTS True (tlv 0x30 []) @
     extension_tlv OID_KEY_USAGE True (tlv 0x03 [0x07, 0x80]) @
     extension_tlv OID_SUBJECT_ALT_NAME False (tlv 0x30 (tlv 0x82 (as_bytes (dns_name s)))) @
     concat (map (\<lambda>(oid, val). extension_tlv oid False val) (ss_extensions s))"

definition ss_tbs :: "self_signed \<Rightarrow> bytes" where
  "ss_tbs s =
     tlv 0x30 (
       tlv 0xa0 (tlv 0x02 [0x02]) @
       der_integer (serial s) @
       algorithm_identifier @
       rdn_common_name (common_name s) @
       tlv 0x30 (not_before s @ not_after s) @
       rdn_common_name (common_name s) @
       ss_spki s @
       tlv 0xa3 (tlv 0x30 (extension_der s)))"

definition ss_build :: "(bytes \<Rightarrow> bytes) \<Rightarrow> self_signed \<Rightarrow> bytes" where
  "ss_build sign s =
     (let tbs = ss_tbs s in
      tlv 0x30 (tbs @ algorithm_identifier @ tlv 0x03 (0x00 # sign tbs)))"

section \<open>The chain codec\<close>

definition links_fit :: "chain_link list \<Rightarrow> bool" where
  "links_fit links \<longleftrightarrow>
     list_all (\<lambda>l. list_all (\<lambda>c. c < 0x80) (link_zone l)) links \<and> length (concat (map encode_link links)) < 2 ^ 32"

lemma ascii_valid_bytes:
  "list_all (\<lambda>c. c < 0x80) s \<Longrightarrow> valid_str s \<and> list_all (\<lambda>b. b < 0x80) (as_bytes s)"
  by (induction s) (auto simp: as_bytes_ascii word_less_nat_alt unat_of_nat_u8)

lemma ascii_bytes_inv:
  "valid_str s \<Longrightarrow> list_all (\<lambda>b. b < 0x80) (as_bytes s) \<Longrightarrow> list_all (\<lambda>c. c < 0x80) s"
proof (induction s)
  case (Cons c s)
  have "as_bytes (c # s) = as_bytes [c] @ as_bytes s" using as_bytes_append [of "[c]" s] by simp
  then have s: "list_all (\<lambda>b. b < 0x80) (as_bytes [c])" "list_all (\<lambda>b. b < 0x80) (as_bytes s)"
    using Cons.prems(2) by auto
  have "c < 0x80"
  proof (rule ccontr)
    assume n: "\<not> c < 0x80"
    then have "128 \<le> hd (utf8_char c)" "hd (utf8_char c) < 256"
      using Cons.prems(1) by (auto simp: utf8_char_def scalar_def)
    then show False
      using s(1) utf8_char_nonempty [of c]
      by (cases "utf8_char c") (auto simp: as_bytes_def word_less_nat_alt unat_of_nat_u8)
  qed
  then show ?case using Cons s by simp
qed simp

lemma decode_link_iff:
  "decode_link (der_of [] body) = Inr l \<longleftrightarrow>
     body = tlv 0x16 (as_bytes (link_zone l)) @ tlv 0x04 (link_rrs l) \<and>
     list_all (\<lambda>c. c < 0x80) (link_zone l) \<and>
     length (as_bytes (link_zone l)) < 2 ^ 32 \<and> length (link_rrs l) < 2 ^ 32" (is "?l \<longleftrightarrow> ?r")
proof
  assume ?l
  then obtain bs zone rrs where z: "body = tlv 0x16 bs @ tlv 0x04 rrs" "list_all (\<lambda>b. b < 0x80) bs" "from_utf8 bs = Some zone"
      "length bs < 2 ^ 32" "length rrs < 2 ^ 32" "l = \<lparr>link_zone = zone, link_rrs = rrs\<rparr>"
    by (auto simp: decode_link_def der_tagged_iff split: if_splits)
  then show ?r using ascii_bytes_inv from_utf8_inv [OF z(3)] by auto
next
  assume r: ?r
  then have "valid_str (link_zone l)" "list_all (\<lambda>b. b < 0x80) (as_bytes (link_zone l))" using ascii_valid_bytes by auto
  moreover have "body = tlv 0x16 (as_bytes (link_zone l)) @ tlv 0x04 (link_rrs l) @ []" using r by simp
  ultimately show ?l unfolding decode_link_def
    using r by (simp only: der_reads result_bind.simps prod.case) (simp add: der_reads from_utf8_as_bytes)
qed

lemma decode_links_iff:
  "length rest < 2 ^ 32 \<Longrightarrow> decode_links (der_of pre rest) = Inr ls \<longleftrightarrow>
     rest = concat (map encode_link ls) \<and> list_all (\<lambda>l. list_all (\<lambda>c. c < 0x80) (link_zone l)) ls"
proof (induction ls arbitrary: pre rest)
  case Nil
  then show ?case by (subst decode_links.simps) (auto split: if_splits)
next
  case (Cons l ls)
  have zone: "length (as_bytes (link_zone l)) < length (encode_link l)" "length (link_rrs l) < length (encode_link l)"
    unfolding encode_link_def
    using length_tlv [of _ "0x30"] length_tlv [of "as_bytes (link_zone l)" "0x16"] length_tlv [of "link_rrs l" "0x04"]
    by (metis (no_types, lifting) add_lessD1 length_append less_trans add.commute)+
  have body: "length (tlv 0x16 (as_bytes (link_zone l)) @ tlv 0x04 (link_rrs l)) < length (encode_link l)"
    unfolding encode_link_def by (rule length_tlv)
  show ?case
  proof (cases "rest = []")
    case True
    then show ?thesis by (subst decode_links.simps) (auto simp: encode_link_def tlv_def Let_def)
  next
    case False
    have "decode_links (der_of pre rest) = Inr (l # ls) \<longleftrightarrow>
        (\<exists>body rest'. rest = tlv 0x30 body @ rest' \<and> length body < 2 ^ 32 \<and> decode_link (der_of [] body) = Inr l \<and>
           decode_links (der_of (pre @ tlv 0x30 body) rest') = Inr ls)"
      using False by (subst decode_links.simps) (auto simp: der_sequence_iff)
    also have "\<dots> \<longleftrightarrow> (\<exists>body rest'. rest = tlv 0x30 body @ rest' \<and> length body < 2 ^ 32 \<and> decode_link (der_of [] body) = Inr l \<and>
        rest' = concat (map encode_link ls) \<and> list_all (\<lambda>l. list_all (\<lambda>c. c < 0x80) (link_zone l)) ls)"
      using Cons by (intro ex_cong1 conj_cong refl) simp
    also have "\<dots> \<longleftrightarrow> rest = concat (map encode_link (l # ls)) \<and>
        list_all (\<lambda>l. list_all (\<lambda>c. c < 0x80) (link_zone l)) (l # ls)"
      using zone body Cons.prems unfolding decode_link_iff by (auto simp: encode_link_def)
    finally show ?thesis .
  qed
qed

lemma chain_decode_iff: "chain_decode bs = Inr links \<longleftrightarrow> bs = chain_encode links \<and> links_fit links"
proof -
  have "chain_decode bs = result_bind (only_sequence (der_of [] bs)) decode_links"
    by (cases "der_sequence (der_of [] bs)") (auto simp: chain_decode_def only_sequence_def der_new_of der_finish_def)
  then show ?thesis by (auto simp: only_sequence_iff decode_links_iff chain_encode_def links_fit_def)
qed

text \<open>C27. The chain extension is read one way only: a byte string decodes to a list of links exactly when
  it is the encoding of that list, with ASCII zone names and lengths that fit the format.\<close>
theorem chain_decode_iff_encode:
  "chain_decode bs = Inr links \<longleftrightarrow> bs = chain_encode links \<and> links_fit links"
  by (rule chain_decode_iff)

section \<open>Reading back a written certificate\<close>

lemma tlv_le: "length (tlv tag body) \<le> n \<Longrightarrow> length body < n"
  using length_tlv [of body tag] by simp

lemma read_extension_written:
  assumes "length oid < 2 ^ 32" "length val < 2 ^ 32"
  shows "read_extension (der_of [] (tlv 0x06 oid @ (if critical then tlv 0x01 [0xff] else []) @ tlv 0x04 val)) =
    Inr \<lparr>ext_oid = oid, ext_critical = critical, ext_value = val\<rparr>"
proof -
  have one: "length [0xff :: u8] < 2 ^ 32" by simp
  show ?thesis
    using assms der_reads(1) [OF assms(2), of "0x04" _ "[]"] der_reads(6) [OF assms(2), of "0x01" "0x04" _ "[]"]
    by (cases critical) (simp_all add: read_extension_def der_reads(1) [OF assms(1)] der_reads(5) [OF one])
qed

lemma read_extensions_written:
  assumes "length (concat (map (\<lambda>e. extension_tlv (ext_oid e) (ext_critical e) (ext_value e)) es)) < 2 ^ 32"
  shows "read_extensions (der_of pre (concat (map (\<lambda>e. extension_tlv (ext_oid e) (ext_critical e) (ext_value e)) es))) = Inr es"
  using assms
proof (induction es arbitrary: pre)
  case Nil
  then show ?case by (simp add: read_extensions.simps)
next
  case (Cons e es)
  let ?rest = "concat (map (\<lambda>e. extension_tlv (ext_oid e) (ext_critical e) (ext_value e)) es)"
  let ?body = "tlv 0x06 (ext_oid e) @ (if ext_critical e then tlv 0x01 [0xff] else []) @ tlv 0x04 (ext_value e)"
  have len: "length ?body < 2 ^ 32" "length ?rest < 2 ^ 32"
    using Cons.prems length_tlv [of ?body "0x30"] by (simp_all add: extension_tlv_def)
  then have "length (ext_oid e) < 2 ^ 32" "length (ext_value e) < 2 ^ 32"
    using length_tlv [of "ext_oid e" "0x06"] length_tlv [of "ext_value e" "0x04"] by (simp_all split: if_splits)
  then have e: "read_extension (der_of [] ?body) = Inr e" using read_extension_written by simp
  have "tlv 0x30 ?body @ ?rest \<noteq> []" by (simp add: tlv_def Let_def)
  then show ?case
    using Cons.IH [OF len(2)] e der_reads(2) [OF len(1)]
    by (subst read_extensions.simps) (simp add: extension_tlv_def)
qed

lemma parse_tbs_written:
  assumes "length v < 2 ^ 32" "length n < 2 ^ 32" "length alg < 2 ^ 32" "length issuer < 2 ^ 32" "length validity < 2 ^ 32"
    "length subject < 2 ^ 32" "length kb < 2 ^ 32" "length (tlv 0x30 exts) < 2 ^ 32"
  shows "parse_tbs (der_of [] (tlv 0xa0 v @ tlv 0x02 n @ tlv 0x30 alg @ tlv 0x30 issuer @ tlv 0x30 validity @
      tlv 0x30 subject @ tlv 0x30 kb @ tlv 0xa3 (tlv 0x30 exts))) =
    result_bind (read_extensions (der_of [] exts)) (\<lambda>es. Inr (tlv 0x30 kb, es))"
proof -
  have e: "length exts < 2 ^ 32" using assms(8) length_tlv [of exts "0x30"] by simp
  note last = der_reads(5) [OF assms(8), of "0xa3" _ "[]", simplified]
    der_reads(6) [OF assms(8), of _ "0xa3" _ "[]", simplified]
  show ?thesis
    unfolding parse_tbs_def parse_tbs_key_def parse_tbs_extensions_def
    by (cases "read_extensions (der_of [] exts)") (simp_all add: der_reads(5) [OF assms(1)] der_reads(3) [OF assms(2)] der_reads(2) [OF assms(3)]
        der_reads(3) [OF assms(4)] der_reads(3) [OF assms(5)] der_reads(3) [OF assms(6)] der_reads(4) [OF assms(7)]
        last der_new_of der_reads(7) [OF e] der_finish_def)
qed

lemma parse_san_written:
  assumes "valid_str nm" "length (tlv 0x82 (as_bytes nm)) < 2 ^ 32"
  shows "parse_san (tlv 0x30 (tlv 0x82 (as_bytes nm))) = Inr [nm]"
proof -
  have n: "length (as_bytes nm) < 2 ^ 32" using assms(2) length_tlv [of "as_bytes nm" "0x82"] by linarith
  have ne: "tlv 0x82 (as_bytes nm) \<noteq> []" by (simp add: tlv_def Let_def)
  have end1: "read_names (der_of (tlv 0x82 (as_bytes nm)) []) = Inr []" by (subst read_names.simps) simp
  have "read_names (der_of [] (tlv 0x82 (as_bytes nm))) = Inr [nm]"
    using der_next_tlv [OF n, of "[]" "0x82" "[]"] ne end1 from_utf8_as_bytes [OF assms(1)]
    by (subst read_names.simps) simp
  then show ?thesis by (simp add: parse_san_def der_new_of der_reads(7) [OF assms(2)])
qed

definition ss_ok :: "self_signed \<Rightarrow> bool" where
  "ss_ok s \<longleftrightarrow> (\<exists>kb. ss_spki s = tlv 0x30 kb) \<and> valid_str (dns_name s) \<and>
     (\<forall>(oid, val) \<in> set (ss_extensions s). oid \<noteq> OID_SUBJECT_ALT_NAME)"

definition ss_certificate :: "self_signed \<Rightarrow> certificate" where
  "ss_certificate s =
     \<lparr>cert_spki = ss_spki s, dns_names = [dns_name s],
      cert_extensions =
        [\<lparr>ext_oid = OID_BASIC_CONSTRAINTS, ext_critical = True, ext_value = tlv 0x30 []\<rparr>,
         \<lparr>ext_oid = OID_KEY_USAGE, ext_critical = True, ext_value = tlv 0x03 [0x07, 0x80]\<rparr>,
         \<lparr>ext_oid = OID_SUBJECT_ALT_NAME, ext_critical = False,
          ext_value = tlv 0x30 (tlv 0x82 (as_bytes (dns_name s)))\<rparr>] @
        map (\<lambda>(oid, val). \<lparr>ext_oid = oid, ext_critical = False, ext_value = val\<rparr>) (ss_extensions s)\<rparr>"

lemma extension_der_written:
  "extension_der s =
     concat (map (\<lambda>e. extension_tlv (ext_oid e) (ext_critical e) (ext_value e)) (cert_extensions (ss_certificate s)))"
  by (simp add: extension_der_def ss_certificate_def o_def case_prod_unfold)

lemma san_names_written:
  assumes "ss_ok s" "length (tlv 0x82 (as_bytes (dns_name s))) < 2 ^ 32"
  shows "san_names (cert_extensions (ss_certificate s)) = Inr [dns_name s]"
proof -
  have "filter (\<lambda>e. ext_oid e = OID_SUBJECT_ALT_NAME)
      (map (\<lambda>(oid, val). \<lparr>ext_oid = oid, ext_critical = False, ext_value = val\<rparr>) (ss_extensions s)) = []"
    using assms(1) by (auto simp: ss_ok_def filter_empty_conv)
  then show ?thesis
    using parse_san_written [OF _ assms(2)] assms(1)
    by (simp add: san_names_def ss_certificate_def ss_ok_def OID_BASIC_CONSTRAINTS_def OID_KEY_USAGE_def
        OID_SUBJECT_ALT_NAME_def)
qed

lemma der_integer_tlv: "\<exists>n. der_integer magnitude = tlv 0x02 n"
  by (auto simp: der_integer_def Let_def)

lemma san_short: "length (tlv 0x82 (as_bytes (dns_name s))) < length (extension_der s)"
  using length_tlv [of "tlv 0x82 (as_bytes (dns_name s))" "0x30"]
    length_tlv [of "tlv 0x30 (tlv 0x82 (as_bytes (dns_name s)))" "0x04"]
    length_tlv [of "tlv 0x06 OID_SUBJECT_ALT_NAME @ tlv 0x04 (tlv 0x30 (tlv 0x82 (as_bytes (dns_name s))))" "0x30"]
  by (simp add: extension_der_def extension_tlv_def)

lemma certificate_parse_built:
  assumes "ss_ok s" "length (ss_build sign s) < 2 ^ 32"
  shows "certificate_parse (ss_build sign s) = Inr (ss_certificate s)"
proof -
  obtain kb where kb: "ss_spki s = tlv 0x30 kb" using assms(1) by (auto simp: ss_ok_def)
  obtain n where n: "der_integer (serial s) = tlv 0x02 n" using der_integer_tlv by blast
  define alg where "alg = tlv 0x06 OID_ECDSA_SHA256"
  define rdn where "rdn = tlv 0x31 (tlv 0x30 (tlv 0x06 OID_COMMON_NAME @ tlv 0x0c (as_bytes (common_name s))))"
  define body where "body = tlv 0xa0 (tlv 0x02 [0x02]) @ tlv 0x02 n @ tlv 0x30 alg @ tlv 0x30 rdn @
    tlv 0x30 (not_before s @ not_after s) @ tlv 0x30 rdn @ tlv 0x30 kb @ tlv 0xa3 (tlv 0x30 (extension_der s))"
  define sg where "sg = 0x00 # sign (tlv 0x30 body)"
  define whole where "whole = tlv 0x30 body @ tlv 0x30 alg @ tlv 0x03 sg"
  have build: "ss_build sign s = tlv 0x30 whole"
    by (simp add: ss_build_def ss_tbs_def Let_def whole_def sg_def body_def alg_def rdn_def n kb
        algorithm_identifier_def rdn_common_name_def)
  have w: "length whole < 2 ^ 32" using assms(2) length_tlv [of whole "0x30"] unfolding build by linarith
  have b: "length body < 2 ^ 32" "length alg < 2 ^ 32" "length sg < 2 ^ 32"
    using w length_tlv [of body "0x30"] length_tlv [of alg "0x30"] length_tlv [of sg "0x03"] by (simp_all add: whole_def)
  have parts: "length (tlv 0x02 [0x02]) < 2 ^ 32" "length n < 2 ^ 32" "length rdn < 2 ^ 32"
    "length (not_before s @ not_after s) < 2 ^ 32" "length kb < 2 ^ 32" "length (tlv 0x30 (extension_der s)) < 2 ^ 32"
    using b(1) length_tlv [of "tlv 0x02 [0x02]" "0xa0"] length_tlv [of n "0x02"] length_tlv [of rdn "0x30"]
      length_tlv [of "not_before s @ not_after s" "0x30"] length_tlv [of kb "0x30"]
      length_tlv [of "tlv 0x30 (extension_der s)" "0xa3"]
    by (simp_all add: body_def)
  have ext: "length (extension_der s) < 2 ^ 32"
    using parts(6) length_tlv [of "extension_der s" "0x30"] by linarith
  have tbs: "parse_tbs (der_of [] body) = Inr (ss_spki s, cert_extensions (ss_certificate s))"
    unfolding body_def parse_tbs_written [OF parts(1,2) b(2) parts(3,4,3,5,6)]
    using read_extensions_written [OF ext [unfolded extension_der_written], of "[]"]
    by (simp add: extension_der_written kb)
  have san: "san_names (cert_extensions (ss_certificate s)) = Inr [dns_name s]"
    using san_names_written [OF assms(1)] san_short [of s] ext by simp
  have "ss_certificate s = \<lparr>cert_spki = ss_spki s, dns_names = [dns_name s], cert_extensions = cert_extensions (ss_certificate s)\<rparr>"
    by (simp add: ss_certificate_def)
  then show ?thesis
    unfolding build certificate_parse_def der_new_of
    using der_reads(2) [OF w, of "[]" "[]"] der_reads(3) [OF b(3), of _ "0x03" "[]"]
    by (simp add: whole_def der_reads(2) [OF b(1)] der_reads(2) [OF b(2)] tbs san der_finish_def)
qed

text \<open>A certificate that the writer built is read back as it was meant: the key, the one DNS name and
  the extensions in order.\<close>
theorem certificate_roundtrip:
  assumes "ss_ok s" "length (ss_build sign s) < 2 ^ 32"
  shows "certificate_parse (ss_build sign s) = Inr (ss_certificate s)"
  using assms by (rule certificate_parse_built)

definition demo_self_signed :: self_signed where
  "demo_self_signed = \<lparr>common_name = str ''a'', dns_name = str ''z.example'', ss_spki = tlv 0x30 [1, 2], serial = [5],
     not_before = [], not_after = [], ss_extensions = [(OID_DNSSEC_CHAIN, [7])]\<rparr>"

lemma demo_self_signed_ok: "ss_ok demo_self_signed" "length (ss_build (\<lambda>_. [3]) demo_self_signed) < 2 ^ 32"
proof -
  show "ss_ok demo_self_signed"
    by (auto simp: ss_ok_def demo_self_signed_def str_def valid_str_def scalar_def OID_DNSSEC_CHAIN_def OID_SUBJECT_ALT_NAME_def)
  have ext: "length (extension_der demo_self_signed) < 110"
    by (simp add: extension_der_def extension_tlv_def demo_self_signed_def tlv_def OID_DNSSEC_CHAIN_def
        OID_SUBJECT_ALT_NAME_def OID_BASIC_CONSTRAINTS_def OID_KEY_USAGE_def str_def as_bytes_def utf8_char_def)
  have rdn: "length (rdn_common_name (common_name demo_self_signed)) < 30"
    by (simp add: rdn_common_name_def demo_self_signed_def tlv_def OID_COMMON_NAME_def str_def as_bytes_def utf8_char_def)
  have alg: "length algorithm_identifier < 20" by (simp add: algorithm_identifier_def tlv_def OID_ECDSA_SHA256_def)
  have small: "length (tlv 0xa0 (tlv 0x02 [0x02])) < 10" "length (der_integer (serial demo_self_signed)) < 10"
    "length (tlv 0x30 (not_before demo_self_signed @ not_after demo_self_signed)) < 10" "length (ss_spki demo_self_signed) < 10"
    "length (tlv 0x03 [0, 3]) < 10"
    by (simp_all add: tlv_def der_integer_def demo_self_signed_def)
  have "length (ss_tbs demo_self_signed) < 300"
    unfolding ss_tbs_def by (rule le_less_trans [OF length_tlv_le])
      (use ext rdn alg small length_tlv_le [of "0x30" "extension_der demo_self_signed"]
        length_tlv_le [of "0xa3" "tlv 0x30 (extension_der demo_self_signed)"] in simp)
  then show "length (ss_build (\<lambda>_. [3]) demo_self_signed) < 2 ^ 32"
    unfolding ss_build_def Let_def by (intro le_less_trans [OF length_tlv_le]) (use alg small in simp)
qed

theorem certificate_roundtrip_witness:
  "certificate_parse (ss_build (\<lambda>_. [3]) demo_self_signed) = Inr (ss_certificate demo_self_signed)"
  by (rule certificate_roundtrip [OF demo_self_signed_ok])

section \<open>Nothing in a certificate is skipped\<close>

definition opt_tlv :: "u8 \<Rightarrow> bytes \<Rightarrow> bool" where
  "opt_tlv tag bs \<longleftrightarrow> bs = [] \<or> (\<exists>b. bs = tlv tag b)"

text \<open>The bytes of one extension, with the optional criticality flag.\<close>

definition ext_spells :: "bytes \<Rightarrow> extension \<Rightarrow> bool" where
  "ext_spells raw e \<longleftrightarrow>
     (\<exists>flag. opt_tlv 0x01 flag \<and> raw = tlv 0x30 (tlv 0x06 (ext_oid e) @ flag @ tlv 0x04 (ext_value e)))"

lemma der_optional_opt:
  assumes "der_optional tag (der_of pre rest) = (x, d)"
  shows "\<exists>w rest'. opt_tlv tag w \<and> rest = w @ rest' \<and> d = der_of (pre @ w) rest' \<and> (x = None \<longrightarrow> w = []) \<and>
    (\<forall>b. x = Some b \<longrightarrow> w = tlv tag b \<and> length b < 2 ^ 32)"
proof (cases x)
  case None
  then show ?thesis using der_optional_None assms by (fastforce simp: opt_tlv_def)
next
  case (Some b)
  then show ?thesis using assms by (auto simp: der_optional_Some opt_tlv_def)
qed

lemma read_extension_spells:
  assumes "read_extension (der_of [] body) = Inr e"
  shows "ext_spells (tlv 0x30 body) e"
proof -
  obtain oid d1 where o: "der_tagged 0x06 (der_of [] body) = Inr (oid, d1)" using assms by (auto simp: read_extension_def)
  obtain x d2 where x: "der_optional 0x01 d1 = (x, d2)" by fastforce
  obtain val d3 where v: "der_tagged 0x04 d2 = Inr (val, d3)" "der_finish d3 = Inr ()" "ext_oid e = oid" "ext_value e = val"
    using assms o x by (auto simp: read_extension_def)
  obtain r1 where r1: "body = tlv 0x06 oid @ r1" "d1 = der_of (tlv 0x06 oid) r1" using o by (auto simp: der_tagged_iff)
  obtain fl r2 where f: "opt_tlv 0x01 fl" "r1 = fl @ r2" "d2 = der_of (tlv 0x06 oid @ fl) r2"
    using der_optional_opt x unfolding r1(2) by blast
  have "r2 = tlv 0x04 val" using v(1,2) unfolding f(3) by (auto simp: der_tagged_iff)
  then show ?thesis using r1 f v by (auto simp: ext_spells_def)
qed

lemma read_extensions_spell:
  "read_extensions (der_of pre rest) = Inr es \<Longrightarrow> \<exists>raws. rest = concat raws \<and> list_all2 ext_spells raws es"
proof (induction es arbitrary: pre rest)
  case Nil
  then show ?case by (subst (asm) read_extensions.simps) (auto split: if_splits)
next
  case (Cons e es)
  then obtain body rest' where b: "rest = tlv 0x30 body @ rest'" "read_extension (der_of [] body) = Inr e"
      "read_extensions (der_of (pre @ tlv 0x30 body) rest') = Inr es"
    by (subst (asm) (2) read_extensions.simps) (auto simp: der_sequence_iff split: if_splits)
  then obtain raws where "rest' = concat raws" "list_all2 ext_spells raws es" using Cons.IH by blast
  then show ?case using b read_extension_spells [OF b(2)] by (intro exI [of _ "tlv 0x30 body # raws"]) auto
qed

definition tbs_front :: "bytes \<Rightarrow> bool" where
  "tbs_front bs \<longleftrightarrow>
     (\<exists>w n alg t1 issuer t2 validity t3 subject t4. opt_tlv 0xa0 w \<and>
        bs = w @ tlv t1 n @ tlv 0x30 alg @ tlv t2 issuer @ tlv t3 validity @ tlv t4 subject)"

lemma parse_tbs_key_spells:
  assumes "parse_tbs_key (der_of [] body) = Inr (spki, d)"
  shows "\<exists>front rest. tbs_front front \<and> body = front @ spki @ rest \<and> d = der_of (front @ spki) rest"
proof -
  obtain x0 d0 where x0: "der_optional 0xa0 (der_of [] body) = (x0, d0)" by fastforce
  obtain w r0 where w: "opt_tlv 0xa0 w" "body = w @ r0" "d0 = der_of w r0" using der_optional_opt [OF x0] by auto
  obtain n d1 where a1: "der_any d0 = Inr (n, d1)"
    and k1: "result_bind (der_sequence d1) (\<lambda>(_, tbs). result_bind (der_any tbs) (\<lambda>(_, tbs).
      result_bind (der_any tbs) (\<lambda>(_, tbs). result_bind (der_any tbs) (\<lambda>(_, tbs). raw_sequence tbs)))) = Inr (spki, d)"
    using assms x0 by (auto simp: parse_tbs_key_def)
  obtain alg d2 where a2: "der_sequence d1 = Inr (alg, d2)"
    and k2: "result_bind (der_any d2) (\<lambda>(_, tbs). result_bind (der_any tbs) (\<lambda>(_, tbs).
      result_bind (der_any tbs) (\<lambda>(_, tbs). raw_sequence tbs))) = Inr (spki, d)"
    using k1 by auto
  obtain issuer d3 validity d4 subject d5 where a3: "der_any d2 = Inr (issuer, d3)" "der_any d3 = Inr (validity, d4)"
      "der_any d4 = Inr (subject, d5)" "raw_sequence d5 = Inr (spki, d)"
    using k2 by auto
  obtain t1 r1 where r1: "r0 = tlv t1 n @ r1" "d1 = der_of (w @ tlv t1 n) r1" using a1 unfolding w(3) der_any_iff by blast
  obtain ab r2 where r2: "r1 = tlv 0x30 ab @ r2" "d2 = der_of ((w @ tlv t1 n) @ tlv 0x30 ab) r2"
    using a2 unfolding r1(2) der_sequence_iff by blast
  obtain t3 r3 where r3: "r2 = tlv t3 issuer @ r3" "d3 = der_of (((w @ tlv t1 n) @ tlv 0x30 ab) @ tlv t3 issuer) r3"
    using a3(1) unfolding r2(2) der_any_iff by blast
  obtain t4 r4 where r4: "r3 = tlv t4 validity @ r4"
      "d4 = der_of ((((w @ tlv t1 n) @ tlv 0x30 ab) @ tlv t3 issuer) @ tlv t4 validity) r4"
    using a3(2) unfolding r3(2) der_any_iff by blast
  obtain t5 r5 where r5: "r4 = tlv t5 subject @ r5"
      "d5 = der_of (((((w @ tlv t1 n) @ tlv 0x30 ab) @ tlv t3 issuer) @ tlv t4 validity) @ tlv t5 subject) r5"
    using a3(3) unfolding r4(2) der_any_iff by blast
  let ?front = "w @ tlv t1 n @ tlv 0x30 ab @ tlv t3 issuer @ tlv t4 validity @ tlv t5 subject"
  obtain r6 where "r5 = spki @ r6" "d = der_of (?front @ spki) r6"
    using a3(4) unfolding r5(2) raw_sequence_iff by auto
  moreover have "tbs_front ?front" using w(1) unfolding tbs_front_def by blast
  ultimately show ?thesis using w(2) r1(1) r2(1) r3(1) r4(1) r5(1) by (intro exI [of _ ?front] exI [of _ r6]) simp
qed

lemma parse_tbs_extensions_spell:
  assumes "parse_tbs_extensions (der_of pre rest) = Inr es"
  shows "\<exists>id1 id2 block raws. rest = id1 @ id2 @ block \<and> opt_tlv 0x81 id1 \<and> opt_tlv 0x82 id2 \<and>
    list_all2 ext_spells raws es \<and> (block = [] \<and> raws = [] \<or> block = tlv 0xa3 (tlv 0x30 (concat raws)))"
proof -
  obtain x1 d1 where x1: "der_optional 0x81 (der_of pre rest) = (x1, d1)" by fastforce
  obtain id1 r1 where i1: "opt_tlv 0x81 id1" "rest = id1 @ r1" "d1 = der_of (pre @ id1) r1"
    using der_optional_opt [OF x1] by blast
  obtain x2 d2 where x2: "der_optional 0x82 d1 = (x2, d2)" by fastforce
  obtain id2 r2 where i2: "opt_tlv 0x82 id2" "r1 = id2 @ r2" "d2 = der_of ((pre @ id1) @ id2) r2"
    using der_optional_opt [OF x2 [unfolded i1(3)]] by blast
  obtain x3 d3 where x3: "der_optional 0xa3 d2 = (x3, d3)" by fastforce
  obtain block r3 where b: "r2 = block @ r3" "d3 = der_of (((pre @ id1) @ id2) @ block) r3"
      "x3 = None \<longrightarrow> block = []" "\<forall>b. x3 = Some b \<longrightarrow> block = tlv 0xa3 b"
    using der_optional_opt [OF x3 [unfolded i2(3)]] by blast
  have fin: "r3 = []"
    and ex: "(case x3 of Some bs \<Rightarrow> result_bind (only_sequence (der_new bs)) read_extensions | None \<Rightarrow> Inr []) = Inr es"
    using assms x1 x2 x3 unfolding b(2) parse_tbs_extensions_def by (auto simp: Let_def)
  have "\<exists>raws. list_all2 ext_spells raws es \<and> (block = [] \<and> raws = [] \<or> block = tlv 0xa3 (tlv 0x30 (concat raws)))"
  proof (cases x3)
    case None
    then show ?thesis using b(3) ex by (intro exI [of _ "[]"]) simp
  next
    case (Some bs)
    then obtain exts where "bs = tlv 0x30 exts" "read_extensions (der_of [] exts) = Inr es"
      using ex by (auto simp: der_new_of only_sequence_iff)
    then show ?thesis using b(4) Some read_extensions_spell by blast
  qed
  then show ?thesis using i1(1,2) i2(1,2) b(1) fin by auto
qed

lemma parse_tbs_spells:
  assumes "parse_tbs (der_of [] body) = Inr (spki, es)"
  shows "\<exists>front id1 id2 block raws. body = front @ spki @ id1 @ id2 @ block \<and> tbs_front front \<and>
    opt_tlv 0x81 id1 \<and> opt_tlv 0x82 id2 \<and> list_all2 ext_spells raws es \<and>
    (block = [] \<and> raws = [] \<or> block = tlv 0xa3 (tlv 0x30 (concat raws)))"
proof -
  obtain d where d: "parse_tbs_key (der_of [] body) = Inr (spki, d)" "parse_tbs_extensions d = Inr es"
    using assms by (auto simp: parse_tbs_def)
  obtain front rest where f: "tbs_front front" "body = front @ spki @ rest" "d = der_of (front @ spki) rest"
    using parse_tbs_key_spells [OF d(1)] by blast
  obtain id1 id2 block raws where "rest = id1 @ id2 @ block" "opt_tlv 0x81 id1" "opt_tlv 0x82 id2"
      "list_all2 ext_spells raws es" "block = [] \<and> raws = [] \<or> block = tlv 0xa3 (tlv 0x30 (concat raws))"
    using parse_tbs_extensions_spell [OF d(2) [unfolded f(3)]] by blast
  then show ?thesis using f(1) unfolding f(2) by blast
qed

text \<open>C11. Nothing hides in an accepted certificate: its bytes are the key, the extensions the parser
  returned, in order and with nothing between or after them, and the other fixed members; there is at
  most one subject name extension, and the DNS names are the ones it holds.\<close>
theorem certificate_nothing_hidden:
  assumes "certificate_parse bs = Inr c"
  shows "\<exists>front id1 id2 block raws alg t sg.
    bs = tlv 0x30 (tlv 0x30 (front @ cert_spki c @ id1 @ id2 @ block) @ tlv 0x30 alg @ tlv t sg) \<and>
    tbs_front front \<and> opt_tlv 0x81 id1 \<and> opt_tlv 0x82 id2 \<and> list_all2 ext_spells raws (cert_extensions c) \<and>
    (block = [] \<and> raws = [] \<or> block = tlv 0xa3 (tlv 0x30 (concat raws))) \<and>
    (case filter (\<lambda>e. ext_oid e = OID_SUBJECT_ALT_NAME) (cert_extensions c) of
       [] \<Rightarrow> dns_names c = [] | [san] \<Rightarrow> parse_san (ext_value san) = Inr (dns_names c) | _ \<Rightarrow> False)"
proof -
  obtain body alg t sg where b: "bs = tlv 0x30 (tlv 0x30 body @ tlv 0x30 alg @ tlv t sg)"
      "parse_tbs (der_of [] body) = Inr (cert_spki c, cert_extensions c)" "san_names (cert_extensions c) = Inr (dns_names c)"
    using assms by (auto simp: certificate_parse_def der_new_of der_sequence_iff der_any_iff split: if_splits)
  have "case filter (\<lambda>e. ext_oid e = OID_SUBJECT_ALT_NAME) (cert_extensions c) of
       [] \<Rightarrow> dns_names c = [] | [san] \<Rightarrow> parse_san (ext_value san) = Inr (dns_names c) | _ \<Rightarrow> False"
    using b(3) by (auto simp: san_names_def split: list.splits)
  then show ?thesis using parse_tbs_spells [OF b(2)] b(1) by blast
qed

theorem certificate_nothing_hidden_witness:
  "\<exists>front id1 id2 block raws alg t sg.
    ss_build (\<lambda>_. [3]) demo_self_signed =
      tlv 0x30 (tlv 0x30 (front @ cert_spki (ss_certificate demo_self_signed) @ id1 @ id2 @ block) @ tlv 0x30 alg @ tlv t sg) \<and>
    list_all2 ext_spells raws (cert_extensions (ss_certificate demo_self_signed))"
  using certificate_nothing_hidden [OF certificate_parse_built [OF demo_self_signed_ok]] by blast

end
