(* ===== verification/Chain.thy ===== *)
theory Chain
  imports X509
begin

text \<open>
  The DNSSEC chain a zone-key certificate carries (\<^verbatim>\<open>synch-net/src/chain.rs\<close>): links decoded and
  grouped, the walk from the trust anchor down to the signing zone, the declaration under the apex,
  and \<open>authorize\<close>, the one way from a certificate to the keys it proves. The DNS library is the record
  \<open>dns\<close>, over an abstract type of names: parsing, printing and comparing names, decoding a run of
  records (what was read, and whether it ended cleanly), and checking one RRSIG. Messages of errors are
  dropped. The arithmetic of a key tag is on 32-bit words.
\<close>

section \<open>What the DNS library provides\<close>

datatype rtype = TyTXT | TyDNSKEY | TyDS | TyOther nat

record dnskey =
  k_flags :: nat
  k_zone_key :: bool
  k_revoke :: bool
  k_algorithm :: u8
  k_public :: bytes

datatype digest_type = DigestSHA256 | DigestSHA384 | DigestOther

record ds_data =
  ds_key_tag :: nat
  ds_algorithm :: u8
  ds_type :: digest_type
  ds_digest :: bytes

record 'n rrsig =
  s_type_covered :: rtype
  s_num_labels :: nat
  s_signer :: 'n
  s_key_tag :: nat
  s_expiration :: u32
  s_signature :: bytes

datatype 'n rdata = RTxt "bytes list" | RDnskey dnskey | RDs ds_data | RRrsig "'n rrsig" | ROther

record 'n rr =
  rr_name :: 'n
  rr_class_in :: bool
  rr_data :: "'n rdata"

record 'n dns =
  from_utf8_name :: "rstr \<Rightarrow> 'n option"
  set_fqdn :: "'n \<Rightarrow> 'n"
  lowercase :: "'n \<Rightarrow> 'n"
  name_string :: "'n \<Rightarrow> rstr"
  name_eq :: "'n \<Rightarrow> 'n \<Rightarrow> bool"
  is_root :: "'n \<Rightarrow> bool"
  zone_of :: "'n \<Rightarrow> 'n \<Rightarrow> bool"
  num_labels :: "'n \<Rightarrow> nat"
  labels :: "'n \<Rightarrow> bytes list"
  read_run :: "bytes \<Rightarrow> 'n rr list \<times> bool"
  verify_rrsig :: "dnskey \<Rightarrow> 'n \<Rightarrow> 'n rrsig \<Rightarrow> 'n rr list \<Rightarrow> bool"
  calculate_key_tag :: "dnskey \<Rightarrow> nat option"
  digest256 :: "bytes \<Rightarrow> bytes"
  digest384 :: "bytes \<Rightarrow> bytes"

section \<open>Names\<close>

datatype chain_error = Absent | ChainMalformed | ChainStructure | ChainSignature | ChainAnchor

definition TRANSPARENCY_LABEL :: rstr where "TRANSPARENCY_LABEL = str ''_synchronicity-transparency''"
definition TRANSPARENCY_TEXT :: rstr where "TRANSPARENCY_TEXT = str ''v=sync1 transparency''"

definition dns_name_of :: "'n dns \<Rightarrow> rstr \<Rightarrow> chain_error + 'n" where
  "dns_name_of d s = result_bind (ok_or ChainStructure (from_utf8_name d s)) (\<lambda>n. Inr (lowercase d (set_fqdn d n)))"

definition transparency_name :: "'n dns \<Rightarrow> 'n \<Rightarrow> chain_error + 'n" where
  "transparency_name d apex = dns_name_of d (TRANSPARENCY_LABEL @ 46 # name_string d apex)"

definition single_dns_name :: "'n dns \<Rightarrow> certificate \<Rightarrow> x509_error + 'n" where
  "single_dns_name d cert =
     (case dns_names cert of
        [s] \<Rightarrow>
          result_bind (ok_or X509Error (from_utf8_name d s)) (\<lambda>n.
          let n = set_fqdn d n in
          if is_root d n then Inl X509Error
          else
            let n = lowercase d n; canonical = name_string d n in
            if s \<noteq> trim_end (\<lambda>c. c = 46) canonical \<and> s \<noteq> canonical then Inl X509Error
            else Inr n)
      | _ \<Rightarrow> Inl X509Error)"

definition identify :: "'n dns \<Rightarrow> certificate \<Rightarrow> chain_error + 'n" where
  "identify d cert = map_err (\<lambda>_. ChainStructure) (single_dns_name d cert)"

section \<open>Links\<close>

record 'n parsed_link =
  pl_zone :: 'n
  pl_dnskeys :: "'n rr list"
  pl_dnskey_sigs :: "'n rrsig list"
  pl_ds :: "'n rr list"
  pl_ds_sigs :: "'n rrsig list"
  pl_txt :: "'n rr list"
  pl_txt_sigs :: "'n rrsig list"

definition add_rr :: "'n rr \<Rightarrow> 'n parsed_link \<Rightarrow> 'n parsed_link" where
  "add_rr r out =
     (case rr_data r of
        RDnskey _ \<Rightarrow> out\<lparr>pl_dnskeys := pl_dnskeys out @ [r]\<rparr>
      | RDs _ \<Rightarrow> out\<lparr>pl_ds := pl_ds out @ [r]\<rparr>
      | RTxt _ \<Rightarrow> out\<lparr>pl_txt := pl_txt out @ [r]\<rparr>
      | RRrsig sig \<Rightarrow> (case s_type_covered sig of
            TyDNSKEY \<Rightarrow> out\<lparr>pl_dnskey_sigs := pl_dnskey_sigs out @ [sig]\<rparr>
          | TyDS \<Rightarrow> out\<lparr>pl_ds_sigs := pl_ds_sigs out @ [sig]\<rparr>
          | TyTXT \<Rightarrow> out\<lparr>pl_txt_sigs := pl_txt_sigs out @ [sig]\<rparr>
          | TyOther _ \<Rightarrow> out)
      | ROther \<Rightarrow> out)"

fun add_rrs :: "'n dns \<Rightarrow> 'n rr list \<Rightarrow> 'n parsed_link \<Rightarrow> chain_error + 'n parsed_link" where
  "add_rrs d [] out = Inr out"
| "add_rrs d (r # rs) out =
     (if \<not> name_eq d (rr_name r) (pl_zone out) then Inl ChainStructure
      else if \<not> rr_class_in r then Inl ChainStructure
      else add_rrs d rs (add_rr r out))"

definition parse_link :: "'n dns \<Rightarrow> chain_link \<Rightarrow> chain_error + 'n parsed_link" where
  "parse_link d l =
     result_bind (dns_name_of d (link_zone l)) (\<lambda>zone.
     let (rrs, clean) = read_run d (link_rrs l);
         out = \<lparr>pl_zone = zone, pl_dnskeys = [], pl_dnskey_sigs = [], pl_ds = [], pl_ds_sigs = [], pl_txt = [], pl_txt_sigs = []\<rparr>
     in result_bind (add_rrs d rrs out) (\<lambda>out.
        if clean then Inr out else Inl ChainMalformed))"

fun parse_links :: "'n dns \<Rightarrow> chain_link list \<Rightarrow> chain_error + 'n parsed_link list" where
  "parse_links d [] = Inr []"
| "parse_links d (l # ls) =
     result_bind (parse_link d l) (\<lambda>p. result_bind (parse_links d ls) (\<lambda>ps. Inr (p # ps)))"

section \<open>Keys\<close>

definition DNSKEY_PROTOCOL :: u8 where "DNSKEY_PROTOCOL = 3"

definition dnskey_rdata :: "dnskey \<Rightarrow> bytes" where
  "dnskey_rdata k = be_bytes 2 (k_flags k) @ DNSKEY_PROTOCOL # k_algorithm k # k_public k"

definition rdata_of :: "'n rr \<Rightarrow> bytes" where
  "rdata_of r = (case rr_data r of RDnskey k \<Rightarrow> dnskey_rdata k | _ \<Rightarrow> [])"

definition usable_signer :: "dnskey \<Rightarrow> bool" where
  "usable_signer k \<longleftrightarrow> k_zone_key k \<and> \<not> k_revoke k"

definition record_is_usable_signer :: "'n rr \<Rightarrow> bool" where
  "record_is_usable_signer r = (case rr_data r of RDnskey k \<Rightarrow> usable_signer k | _ \<Rightarrow> False)"

definition tag_term :: "nat \<times> u8 \<Rightarrow> u32" where
  "tag_term = (\<lambda>(i, b). if i mod 2 = 0 then push_bit 8 (ucast b) else ucast b)"

definition key_tag :: "bytes \<Rightarrow> nat" where
  "key_tag rdata =
     (let total = sum_list (map tag_term (enumerate 0 rdata))
      in unat ((total + (drop_bit 16 total AND 0xffff)) AND 0xffff))"

definition ds_input :: "'n dns \<Rightarrow> 'n \<Rightarrow> bytes \<Rightarrow> bytes" where
  "ds_input d zone rdata =
     concat (map (\<lambda>label. of_nat (length label) # label) (labels d (lowercase d zone))) @ 0 # rdata"

definition ds_digest_sha256 :: "'n dns \<Rightarrow> 'n \<Rightarrow> bytes \<Rightarrow> bytes" where
  "ds_digest_sha256 d zone rdata = digest256 d (ds_input d zone rdata)"

definition ds_digest_sha384 :: "'n dns \<Rightarrow> 'n \<Rightarrow> bytes \<Rightarrow> bytes" where
  "ds_digest_sha384 d zone rdata = digest384 d (ds_input d zone rdata)"

definition covers :: "'n dns \<Rightarrow> 'n rr list \<Rightarrow> 'n \<Rightarrow> bytes \<Rightarrow> bool" where
  "covers d ds zone rdata \<longleftrightarrow>
     \<not> length rdata < 4 \<and>
     list_ex (\<lambda>r. case rr_data r of
        RDs x \<Rightarrow> ds_key_tag x = key_tag rdata \<and> ds_algorithm x = rdata ! 3 \<and>
          (case ds_type x of
             DigestSHA256 \<Rightarrow> ds_digest x = ds_digest_sha256 d zone rdata
           | DigestSHA384 \<Rightarrow> ds_digest x = ds_digest_sha384 d zone rdata
           | DigestOther \<Rightarrow> False)
      | _ \<Rightarrow> False) ds"

section \<open>Signatures over a set of records\<close>

definition MAX_RRSIG_VERIFICATIONS :: nat where "MAX_RRSIG_VERIFICATIONS = 16"

definition rrset_of :: "'n parsed_link \<Rightarrow> rtype \<Rightarrow> ('n rr list \<times> 'n rrsig list) option" where
  "rrset_of l ty =
     (case ty of
        TyTXT \<Rightarrow> Some (pl_txt l, pl_txt_sigs l)
      | TyDNSKEY \<Rightarrow> Some (pl_dnskeys l, pl_dnskey_sigs l)
      | TyDS \<Rightarrow> Some (pl_ds l, pl_ds_sigs l)
      | TyOther _ \<Rightarrow> None)"

text \<open>The pairs of a signature and a key that the two nested loops do not pass over, in their order.\<close>

definition pairings :: "'n dns \<Rightarrow> rtype \<Rightarrow> 'n rrsig list \<Rightarrow> 'n rr list \<Rightarrow> ('n rrsig \<times> dnskey) list" where
  "pairings d ty sigs keys =
     concat (map (\<lambda>sig. if s_type_covered sig \<noteq> ty then []
       else concat (map (\<lambda>r. case rr_data r of
           RDnskey k \<Rightarrow>
             if \<not> usable_signer k \<or> calculate_key_tag d k \<noteq> Some (s_key_tag sig) then [] else [(sig, k)]
         | _ \<Rightarrow> []) keys)) sigs)"

fun try_pairings ::
  "'n dns \<Rightarrow> 'n \<Rightarrow> 'n rr list \<Rightarrow> nat \<Rightarrow> ('n rrsig \<times> dnskey) list \<Rightarrow> chain_error + unit"
where
  "try_pairings d zone rrset budget [] = Inl ChainSignature"
| "try_pairings d zone rrset budget ((sig, k) # ps) =
     (if budget = 0 then Inl ChainSignature
      else if verify_rrsig d k zone sig rrset then Inr ()
      else try_pairings d zone rrset (budget - 1) ps)"

definition verify_rrset :: "'n dns \<Rightarrow> 'n parsed_link \<Rightarrow> rtype \<Rightarrow> 'n rr list \<Rightarrow> chain_error + unit" where
  "verify_rrset d l ty keys =
     (case rrset_of l ty of
        None \<Rightarrow> Inl ChainSignature
      | Some (rrset, sigs) \<Rightarrow>
          try_pairings d (pl_zone l) rrset MAX_RRSIG_VERIFICATIONS (pairings d ty sigs keys))"

definition verify_dnskey_set :: "'n dns \<Rightarrow> (dnskey \<Rightarrow> bool) \<Rightarrow> 'n parsed_link \<Rightarrow> chain_error + 'n rr list" where
  "verify_dnskey_set d anchors l =
     (if pl_dnskeys l = [] then Inl ChainAnchor
      else
        let anchored = filter (\<lambda>r. case rr_data r of RDnskey k \<Rightarrow> usable_signer k \<and> anchors k | _ \<Rightarrow> False) (pl_dnskeys l) in
        if anchored = [] then Inl ChainAnchor
        else result_bind (verify_rrset d l TyDNSKEY anchored) (\<lambda>_. Inr (pl_dnskeys l)))"

definition verify_dnskey_set_under :: "'n dns \<Rightarrow> 'n parsed_link \<Rightarrow> 'n rr list \<Rightarrow> chain_error + 'n rr list" where
  "verify_dnskey_set_under d l ds =
     (let matching = filter (\<lambda>r. record_is_usable_signer r \<and> covers d ds (pl_zone l) (rdata_of r)) (pl_dnskeys l) in
      if matching = [] then Inl ChainSignature
      else result_bind (verify_rrset d l TyDNSKEY matching) (\<lambda>_. Inr (pl_dnskeys l)))"

definition verify_ds_set :: "'n dns \<Rightarrow> 'n parsed_link \<Rightarrow> 'n rr list \<Rightarrow> chain_error + 'n rr list" where
  "verify_ds_set d l parent_keys =
     (if pl_ds l = [] then Inl ChainStructure
      else result_bind (verify_rrset d l TyDS parent_keys) (\<lambda>_. Inr (pl_ds l)))"

section \<open>The walk\<close>

fun is_ladder :: "'n dns \<Rightarrow> 'n parsed_link list \<Rightarrow> bool" where
  "is_ladder d (lo # hi # ls) \<longleftrightarrow>
     \<not> (name_eq d (pl_zone hi) (pl_zone lo) \<or> \<not> zone_of d (pl_zone hi) (pl_zone lo)) \<and>
     is_ladder d (hi # ls)"
| "is_ladder d _ \<longleftrightarrow> True"

text \<open>From the top down: the trusted keys so far, and the links still below, nearest first.\<close>

fun descend :: "'n dns \<Rightarrow> 'n rr list \<Rightarrow> 'n parsed_link list \<Rightarrow> chain_error + 'n rr list" where
  "descend d trusted [] = Inr trusted"
| "descend d trusted (l # ls) =
     result_bind (verify_ds_set d l trusted) (\<lambda>ds.
     result_bind (verify_dnskey_set_under d l ds) (\<lambda>trusted.
     descend d trusted ls))"

definition walk_ladder :: "'n dns \<Rightarrow> (dnskey \<Rightarrow> bool) \<Rightarrow> 'n parsed_link list \<Rightarrow> chain_error + ('n rr list \<times> rstr)" where
  "walk_ladder d anchors ladder =
     (if \<not> is_ladder d ladder then Inl ChainStructure
      else case rev ladder of
          [] \<Rightarrow> Inl Absent
        | tip # below \<Rightarrow>
            result_bind (verify_dnskey_set d anchors tip) (\<lambda>trusted.
            result_bind (descend d trusted below) (\<lambda>trusted.
            Inr (trusted, name_string d (pl_zone tip)))))"

definition declares :: "'n rr \<Rightarrow> bool" where
  "declares r = (case rr_data r of RTxt parts \<Rightarrow> concat parts = as_bytes TRANSPARENCY_TEXT | _ \<Rightarrow> False)"

fun check_declaration_sigs :: "'n dns \<Rightarrow> 'n parsed_link \<Rightarrow> 'n \<Rightarrow> 'n rrsig list \<Rightarrow> chain_error + unit" where
  "check_declaration_sigs d l zone [] = Inr ()"
| "check_declaration_sigs d l zone (sig # sigs) =
     (if s_num_labels sig < num_labels d (pl_zone l) then Inl ChainStructure
      else if \<not> name_eq d (lowercase d (s_signer sig)) zone then Inl ChainStructure
      else check_declaration_sigs d l zone sigs)"

definition verify_declaration :: "'n dns \<Rightarrow> 'n parsed_link \<Rightarrow> 'n rr list \<Rightarrow> 'n \<Rightarrow> chain_error + unit" where
  "verify_declaration d l zone_keys signing_zone =
     (if pl_txt l = [] then Inl ChainStructure
      else if \<not> list_ex declares (pl_txt l) then Inl ChainStructure
      else result_bind (check_declaration_sigs d l signing_zone (pl_txt_sigs l)) (\<lambda>_.
        verify_rrset d l TyTXT zone_keys))"

record valid_chain =
  anchor_zone :: rstr
  chain_links :: nat
  anchored_directly :: bool

definition validate_inner ::
  "'n dns \<Rightarrow> chain_link list \<Rightarrow> 'n \<Rightarrow> (dnskey \<Rightarrow> bool) \<Rightarrow> chain_error + (bytes list \<times> 'n \<times> valid_chain)"
where
  "validate_inner d links apex anchors =
     (if links = [] then Inl Absent
      else result_bind (transparency_name d apex) (\<lambda>declared_at.
      result_bind (parse_links d links) (\<lambda>parsed.
      if length parsed < 2 then Inl ChainStructure
      else if \<not> name_eq d (pl_zone (parsed ! 0)) declared_at then Inl ChainStructure
      else
        let signing_zone = pl_zone (parsed ! 1); ladder = drop 1 parsed in
        if \<not> zone_of d signing_zone apex then Inl ChainStructure
        else result_bind (walk_ladder d anchors ladder) (\<lambda>(trusted, anchor).
          result_bind (verify_declaration d (parsed ! 0) trusted signing_zone) (\<lambda>_.
          let proven = map rdata_of (filter record_is_usable_signer trusted) in
          if proven = [] then Inl ChainStructure
          else Inr (proven, signing_zone,
            \<lparr>anchor_zone = anchor, chain_links = length ladder, anchored_directly = (length ladder = 1)\<rparr>))))))"

record 'n authorized =
  a_apex :: 'n
  a_signing_zone :: 'n
  a_proven_keys :: "bytes list"
  a_chain :: valid_chain

definition authorize :: "'n dns \<Rightarrow> certificate \<Rightarrow> (dnskey \<Rightarrow> bool) \<Rightarrow> chain_error + 'n authorized" where
  "authorize d cert anchors =
     result_bind (identify d cert) (\<lambda>apex.
     case cert_extension cert OID_DNSSEC_CHAIN of
       None \<Rightarrow> Inl Absent
     | Some v \<Rightarrow>
         result_bind (map_err (\<lambda>_. ChainMalformed) (chain_decode v)) (\<lambda>carried.
         result_bind (validate_inner d carried apex anchors) (\<lambda>(proven, zone, chain).
         Inr \<lparr>a_apex = apex, a_signing_zone = zone, a_proven_keys = proven, a_chain = chain\<rparr>)))"

section \<open>What a signature check establishes\<close>

definition signed_by :: "'n dns \<Rightarrow> 'n parsed_link \<Rightarrow> rtype \<Rightarrow> (dnskey \<Rightarrow> bool) \<Rightarrow> bool" where
  "signed_by d l ty allowed \<longleftrightarrow>
     (\<exists>rrset sigs sig k. rrset_of l ty = Some (rrset, sigs) \<and> sig \<in> set sigs \<and> s_type_covered sig = ty \<and>
        usable_signer k \<and> allowed k \<and> verify_rrsig d k (pl_zone l) sig rrset)"

lemma try_pairings_iff:
  "try_pairings d zone rrset budget ps = Inr () \<longleftrightarrow>
     (\<exists>p \<in> set (take budget ps). verify_rrsig d (snd p) zone (fst p) rrset)"
proof (induction ps arbitrary: budget)
  case (Cons p ps)
  then show ?case by (cases budget; cases p) auto
qed simp

lemma set_pairings:
  "set (pairings d ty sigs keys) = {(sig, k). sig \<in> set sigs \<and> s_type_covered sig = ty \<and>
     (\<exists>r \<in> set keys. rr_data r = RDnskey k) \<and> usable_signer k \<and> calculate_key_tag d k = Some (s_key_tag sig)}"
  by (force simp: pairings_def split: rdata.splits if_splits)

text \<open>A set of records counts as signed exactly when one of the first sixteen pairs of a signature over
  its type and a usable key with that signature's tag verifies: the work an entry can ask for is
  bounded, and nothing but a verifying pair is accepted.\<close>
theorem verify_rrset_iff:
  "verify_rrset d l ty keys = Inr () \<longleftrightarrow>
     (\<exists>rrset sigs. rrset_of l ty = Some (rrset, sigs) \<and>
        (\<exists>p \<in> set (take 16 (pairings d ty sigs keys)). verify_rrsig d (snd p) (pl_zone l) (fst p) rrset))"
  by (auto simp: verify_rrset_def try_pairings_iff MAX_RRSIG_VERIFICATIONS_def split: option.splits)

lemma verify_rrset_signed:
  assumes "verify_rrset d l ty keys = Inr ()"
  shows "signed_by d l ty (\<lambda>k. \<exists>r \<in> set keys. rr_data r = RDnskey k)"
proof -
  obtain rrset sigs sig k where s: "rrset_of l ty = Some (rrset, sigs)" "(sig, k) \<in> set (pairings d ty sigs keys)"
      "verify_rrsig d k (pl_zone l) sig rrset"
    using assms in_set_takeD
    by (fastforce simp: verify_rrset_def try_pairings_iff split: option.splits)
  then show ?thesis unfolding signed_by_def set_pairings by blast
qed

lemma signed_by_mono: "signed_by d l ty p \<Longrightarrow> (\<And>k. usable_signer k \<Longrightarrow> p k \<Longrightarrow> q k) \<Longrightarrow> signed_by d l ty q"
  unfolding signed_by_def by blast

section \<open>Delegation\<close>

definition key_in :: "'n rr list \<Rightarrow> dnskey \<Rightarrow> bool" where
  "key_in rs k \<longleftrightarrow> (\<exists>r \<in> set rs. rr_data r = RDnskey k)"

text \<open>Which links DNSSEC delegation vouches for: the anchored one, and below a vouched one a link whose
  DS set the keys above signed and whose own keys are signed by one that a DS covers.\<close>

inductive vouched :: "'n dns \<Rightarrow> (dnskey \<Rightarrow> bool) \<Rightarrow> 'n parsed_link \<Rightarrow> bool" for d anchors where
  anchored: "signed_by d l TyDNSKEY (\<lambda>k. key_in (pl_dnskeys l) k \<and> anchors k) \<Longrightarrow> vouched d anchors l"
| delegated: "vouched d anchors parent \<Longrightarrow>
    \<not> name_eq d (pl_zone parent) (pl_zone l) \<Longrightarrow> zone_of d (pl_zone parent) (pl_zone l) \<Longrightarrow>
    signed_by d l TyDS (key_in (pl_dnskeys parent)) \<Longrightarrow>
    signed_by d l TyDNSKEY (\<lambda>k. key_in (pl_dnskeys l) k \<and> covers d (pl_ds l) (pl_zone l) (dnskey_rdata k)) \<Longrightarrow>
    vouched d anchors l"

lemma verify_dnskey_set_vouched:
  assumes "verify_dnskey_set d anchors l = Inr trusted"
  shows "vouched d anchors l \<and> trusted = pl_dnskeys l"
proof -
  let ?ks = "filter (\<lambda>r. case rr_data r of RDnskey k \<Rightarrow> usable_signer k \<and> anchors k | _ \<Rightarrow> False) (pl_dnskeys l)"
  have v: "verify_rrset d l TyDNSKEY ?ks = Inr ()" "trusted = pl_dnskeys l"
    using assms by (auto simp: verify_dnskey_set_def Let_def split: if_splits)
  have "signed_by d l TyDNSKEY (\<lambda>k. key_in (pl_dnskeys l) k \<and> anchors k)"
    by (rule signed_by_mono [OF verify_rrset_signed [OF v(1)]]) (auto simp: key_in_def)
  then show ?thesis using v(2) by (blast intro: anchored)
qed

lemma step_vouched:
  assumes "vouched d anchors parent" "is_ladder d [l, parent]"
    and "verify_ds_set d l (pl_dnskeys parent) = Inr ds" "verify_dnskey_set_under d l ds = Inr trusted"
  shows "vouched d anchors l \<and> trusted = pl_dnskeys l"
proof -
  have v: "verify_rrset d l TyDS (pl_dnskeys parent) = Inr ()" "ds = pl_ds l"
    using assms(3) by (auto simp: verify_ds_set_def split: if_splits)
  let ?ks = "filter (\<lambda>r. record_is_usable_signer r \<and> covers d (pl_ds l) (pl_zone l) (rdata_of r)) (pl_dnskeys l)"
  have u: "verify_rrset d l TyDNSKEY ?ks = Inr ()" "trusted = pl_dnskeys l"
    using assms(4) v(2) by (auto simp: verify_dnskey_set_under_def Let_def split: if_splits)
  have "signed_by d l TyDS (key_in (pl_dnskeys parent))"
    by (rule signed_by_mono [OF verify_rrset_signed [OF v(1)]]) (auto simp: key_in_def)
  moreover have "signed_by d l TyDNSKEY (\<lambda>k. key_in (pl_dnskeys l) k \<and> covers d (pl_ds l) (pl_zone l) (dnskey_rdata k))"
    by (rule signed_by_mono [OF verify_rrset_signed [OF u(1)]]) (auto simp: key_in_def rdata_of_def)
  ultimately show ?thesis using assms(1,2) u(2) by (auto intro: delegated)
qed

lemma is_ladder_snoc: "is_ladder d (xs @ [l, p]) \<longleftrightarrow> is_ladder d (xs @ [l]) \<and> is_ladder d [l, p]"
proof (induction xs)
  case (Cons x xs)
  then show ?case by (cases xs) auto
qed simp

lemma descend_vouched:
  "vouched d anchors parent \<Longrightarrow> is_ladder d (rev below @ [parent]) \<Longrightarrow>
   descend d (pl_dnskeys parent) below = Inr trusted \<Longrightarrow>
   vouched d anchors (last (parent # below)) \<and> trusted = pl_dnskeys (last (parent # below))"
proof (induction below arbitrary: parent)
  case Nil
  then show ?case by simp
next
  case (Cons l ls)
  have ladder: "is_ladder d [l, parent]" "is_ladder d (rev ls @ [l])"
    using Cons.prems(2) is_ladder_snoc [of d "rev ls" l parent] by simp_all
  obtain ds keys where s: "verify_ds_set d l (pl_dnskeys parent) = Inr ds" "verify_dnskey_set_under d l ds = Inr keys"
      "descend d keys ls = Inr trusted"
    using Cons.prems(3) by auto
  have "vouched d anchors l" "keys = pl_dnskeys l" using step_vouched [OF Cons.prems(1) ladder(1) s(1,2)] by auto
  then show ?case using Cons.IH ladder(2) s(3) by simp
qed

lemma walk_ladder_vouched:
  assumes "walk_ladder d anchors ladder = Inr (trusted, zone)"
  shows "ladder \<noteq> [] \<and> vouched d anchors (hd ladder) \<and> trusted = pl_dnskeys (hd ladder)"
proof -
  obtain tip below keys where w: "is_ladder d ladder" "rev ladder = tip # below" "verify_dnskey_set d anchors tip = Inr keys"
      "descend d keys below = Inr trusted"
    using assms by (auto simp: walk_ladder_def split: if_splits list.splits)
  have l: "ladder = rev below @ [tip]" using w(2) by (metis rev.simps(2) rev_rev_ident)
  have "vouched d anchors tip" "keys = pl_dnskeys tip" using verify_dnskey_set_vouched [OF w(3)] by auto
  then have "vouched d anchors (last (tip # below)) \<and> trusted = pl_dnskeys (last (tip # below))"
    using descend_vouched w(1,4) l by blast
  moreover have "last (tip # below) = hd ladder" unfolding l by (cases below rule: rev_cases) auto
  ultimately show ?thesis using l by simp
qed

lemma check_declaration_sigs_iff:
  "check_declaration_sigs d l zone sigs = Inr () \<longleftrightarrow>
     (\<forall>sig \<in> set sigs. num_labels d (pl_zone l) \<le> s_num_labels sig \<and> name_eq d (lowercase d (s_signer sig)) zone)"
  by (induction sigs) auto

lemma set_proven:
  "set (map rdata_of (filter record_is_usable_signer rs)) = {dnskey_rdata k | k. key_in rs k \<and> usable_signer k}"
proof -
  have u: "record_is_usable_signer r \<longleftrightarrow> (\<exists>k. rr_data r = RDnskey k \<and> usable_signer k)" for r :: "'a rr"
    by (cases "rr_data r") (auto simp: record_is_usable_signer_def)
  have "x \<in> set (map rdata_of (filter record_is_usable_signer rs)) \<longleftrightarrow>
      (\<exists>k. x = dnskey_rdata k \<and> key_in rs k \<and> usable_signer k)" for x
    unfolding set_map set_filter u key_in_def by (auto simp: rdata_of_def image_iff)
  then show ?thesis by blast
qed

lemma authorize_chain:
  assumes "authorize d cert anchors = Inr a"
  shows "\<exists>carried decl link rest at. identify d cert = Inr (a_apex a) \<and>
    cert_extension cert OID_DNSSEC_CHAIN = Some (chain_encode carried) \<and>
    parse_links d carried = Inr (decl # link # rest) \<and>
    vouched d anchors link \<and> a_signing_zone a = pl_zone link \<and> zone_of d (pl_zone link) (a_apex a) \<and>
    a_proven_keys a \<noteq> [] \<and>
    set (a_proven_keys a) = {dnskey_rdata k | k. key_in (pl_dnskeys link) k \<and> usable_signer k} \<and>
    transparency_name d (a_apex a) = Inr at \<and> name_eq d (pl_zone decl) at \<and>
    list_ex declares (pl_txt decl) \<and> signed_by d decl TyTXT (key_in (pl_dnskeys link)) \<and>
    list_all (\<lambda>sig. num_labels d (pl_zone decl) \<le> s_num_labels sig) (pl_txt_sigs decl)"
proof -
  obtain v carried where c: "identify d cert = Inr (a_apex a)" "cert_extension cert OID_DNSSEC_CHAIN = Some v"
      "chain_decode v = Inr carried" "validate_inner d carried (a_apex a) anchors = Inr (a_proven_keys a, a_signing_zone a, a_chain a)"
    using assms by (auto simp: authorize_def split: option.splits)
  obtain at parsed trusted anchor where p: "transparency_name d (a_apex a) = Inr at" "parse_links d carried = Inr parsed"
      "\<not> length parsed < 2" "name_eq d (pl_zone (parsed ! 0)) at" "zone_of d (pl_zone (parsed ! 1)) (a_apex a)"
      "walk_ladder d anchors (drop 1 parsed) = Inr (trusted, anchor)"
      "verify_declaration d (parsed ! 0) trusted (pl_zone (parsed ! 1)) = Inr ()"
      "a_proven_keys a = map rdata_of (filter record_is_usable_signer trusted)" "a_proven_keys a \<noteq> []"
      "a_signing_zone a = pl_zone (parsed ! 1)"
    using c(4) by (auto simp: validate_inner_def Let_def split: if_splits)
  obtain decl link rest where l: "parsed = decl # link # rest" using p(3) by (cases parsed; cases "tl parsed") auto
  have w: "vouched d anchors link" "trusted = pl_dnskeys link" using walk_ladder_vouched [OF p(6)] l by auto
  have v: "list_ex declares (pl_txt decl)" "check_declaration_sigs d decl (pl_zone link) (pl_txt_sigs decl) = Inr ()"
      "verify_rrset d decl TyTXT (pl_dnskeys link) = Inr ()"
    using p(7) l w(2) by (auto simp: verify_declaration_def split: if_splits)
  have "signed_by d decl TyTXT (key_in (pl_dnskeys link))"
    by (rule signed_by_mono [OF verify_rrset_signed [OF v(3)]]) (simp add: key_in_def)
  moreover have "list_all (\<lambda>sig. num_labels d (pl_zone decl) \<le> s_num_labels sig) (pl_txt_sigs decl)"
    using v(2) by (simp add: check_declaration_sigs_iff list_all_iff)
  moreover have "v = chain_encode carried" using c(3) by (simp add: chain_decode_iff)
  ultimately show ?thesis
    using c(1,2) p(1,2,4,5,8,9,10) l w v(1) set_proven [of "pl_dnskeys link"] by auto
qed

text \<open>C4. Authorisation rests on delegation and consent: when a certificate is authorised, the chain in it
  is a chain of links whose second one DNSSEC delegation vouches for from a trust anchor down; the
  proven keys are exactly that zone's usable keys; the zone contains the apex the certificate names;
  and one of its keys signed the declaration under that apex, which is not a wildcard's.\<close>
theorem authorize_sound:
  assumes "authorize d cert anchors = Inr a"
  shows "\<exists>carried decl link rest at. identify d cert = Inr (a_apex a) \<and>
    cert_extension cert OID_DNSSEC_CHAIN = Some (chain_encode carried) \<and>
    parse_links d carried = Inr (decl # link # rest) \<and>
    vouched d anchors link \<and> a_signing_zone a = pl_zone link \<and> zone_of d (pl_zone link) (a_apex a) \<and>
    a_proven_keys a \<noteq> [] \<and>
    set (a_proven_keys a) = {dnskey_rdata k | k. key_in (pl_dnskeys link) k \<and> usable_signer k} \<and>
    transparency_name d (a_apex a) = Inr at \<and> name_eq d (pl_zone decl) at \<and>
    list_ex declares (pl_txt decl) \<and> signed_by d decl TyTXT (key_in (pl_dnskeys link)) \<and>
    list_all (\<lambda>sig. num_labels d (pl_zone decl) \<le> s_num_labels sig) (pl_txt_sigs decl)"
  using assms by (rule authorize_chain)

section \<open>Key tags\<close>

text \<open>The sum of RFC 4034, without a width.\<close>

definition tag_sum :: "bytes \<Rightarrow> nat" where
  "tag_sum rdata = sum_list (map (\<lambda>(i, b). if i mod 2 = 0 then 256 * unat b else unat b) (enumerate 0 rdata))"

lemma unat_sum_list_u32: "unat (sum_list ws) = sum_list (map unat ws) mod 2 ^ 32" for ws :: "u32 list"
proof (induction ws)
  case (Cons w ws)
  have "unat (w + sum_list ws) = (unat w + unat (sum_list ws)) mod 2 ^ 32" by (simp add: unat_word_ariths)
  then show ?case using Cons by (simp add: mod_simps)
qed simp

lemma unat_tag_term: "unat (tag_term (i, b)) = (if i mod 2 = 0 then 256 * unat b else unat b)"
proof -
  have b: "unat (ucast b :: u32) = unat b" by (simp add: unsigned_ucast_eq take_bit_nat_eq_self_iff less_trans [OF unat_lt_256])
  have "unat (push_bit 8 (ucast b :: u32)) = 256 * unat b"
    using b unat_lt_256 [of b] by (simp add: push_bit_eq_mult unat_word_ariths)
  then show ?thesis using b by (simp add: tag_term_def)
qed

lemma tag_sum_le: "tag_sum rdata \<le> 65280 * length rdata"
proof -
  have "sum_list (map (\<lambda>(i, b). if i mod 2 = 0 then 256 * unat b else unat b) (enumerate n rdata)) \<le> 65280 * length rdata" for n
  proof (induction rdata arbitrary: n)
    case (Cons b rdata)
    have "(if n mod 2 = 0 then 256 * unat b else unat b) \<le> 65280" using unat_lt_256 [of b] by simp
    then show ?case using Cons.IH [of "Suc n"] by simp
  qed simp
  then show ?thesis by (simp add: tag_sum_def)
qed

lemma unat_and_mask16: "unat (x AND 0xffff) = unat x mod 2 ^ 16" for x :: u32
proof -
  have "x AND 0xffff = take_bit 16 x" by (simp add: take_bit_eq_mask mask_eq_exp_minus_1)
  moreover have "unat (take_bit 16 x) = unat x mod 2 ^ 16" by (simp only: unsigned_take_bit_eq) (rule take_bit_eq_mod)
  ultimately show ?thesis by simp
qed

text \<open>For every DNSKEY that fits a DNS message the 32-bit arithmetic of the key tag does not wrap: the
  tag is the one of RFC 4034 over the whole rdata.\<close>
theorem key_tag_exact:
  assumes "length rdata \<le> 65535"
  shows "key_tag rdata = (tag_sum rdata + tag_sum rdata div 2 ^ 16 mod 2 ^ 16) mod 2 ^ 16"
proof -
  let ?t = "sum_list (map tag_term (enumerate 0 rdata))"
  have m: "map (unat \<circ> tag_term) (enumerate 0 rdata) =
      map (\<lambda>(i, b). if i mod 2 = 0 then 256 * unat b else unat b) (enumerate 0 rdata)"
    by (rule map_cong) (auto simp: unat_tag_term)
  have "tag_sum rdata < 2 ^ 32" using tag_sum_le [of rdata] assms by simp
  then have t: "unat ?t = tag_sum rdata"
    unfolding unat_sum_list_u32 map_map m tag_sum_def [symmetric] by (rule mod_less)
  have "unat (drop_bit 16 ?t) = unat ?t div 2 ^ 16" 
    by (simp only: unat_drop_bit_eq) (rule drop_bit_eq_div)
  then have "unat (?t + (drop_bit 16 ?t AND 0xffff)) = (tag_sum rdata + tag_sum rdata div 2 ^ 16 mod 2 ^ 16) mod 2 ^ 32"
    using t by (simp add: unat_word_ariths unat_and_mask16)
  then show ?thesis
    unfolding key_tag_def Let_def unat_and_mask16 by (simp add: mod_mod_cancel)
qed

theorem key_tag_exact_witness: "key_tag [1, 1, 3, 8, 255, 255] = (tag_sum [1, 1, 3, 8, 255, 255] +
    tag_sum [1, 1, 3, 8, 255, 255] div 2 ^ 16 mod 2 ^ 16) mod 2 ^ 16"
  by (rule key_tag_exact) simp

section \<open>A chain that is accepted\<close>

definition demo_key :: dnskey where
  "demo_key = \<lparr>k_flags = 257, k_zone_key = True, k_revoke = False, k_algorithm = 13, k_public = [1, 2]\<rparr>"

definition demo_zone :: rstr where "demo_zone = str ''z''"

definition demo_sig :: "rtype \<Rightarrow> rstr rrsig" where
  "demo_sig ty = \<lparr>s_type_covered = ty, s_num_labels = 2, s_signer = demo_zone, s_key_tag = 7, s_expiration = 0, s_signature = []\<rparr>"

definition demo_rrs :: "bytes \<Rightarrow> rstr rr list \<times> bool" where
  "demo_rrs bs =
     (let rr = (\<lambda>n x. \<lparr>rr_name = n, rr_class_in = True, rr_data = x\<rparr>) in
      if bs = [1] then
        ([rr (TRANSPARENCY_LABEL @ 46 # demo_zone) (RTxt [as_bytes TRANSPARENCY_TEXT]),
          rr (TRANSPARENCY_LABEL @ 46 # demo_zone) (RRrsig (demo_sig TyTXT))], True)
      else ([rr demo_zone (RDnskey demo_key), rr demo_zone (RRrsig (demo_sig TyDNSKEY))], True))"

definition demo_dns :: "rstr dns" where
  "demo_dns =
     \<lparr>from_utf8_name = Some, set_fqdn = id, lowercase = id, name_string = id, name_eq = (=), is_root = (\<lambda>n. n = []),
      zone_of = (\<lambda>z n. ends_with z n), num_labels = (\<lambda>_. 2), labels = (\<lambda>n. [as_bytes n]), read_run = demo_rrs,
      verify_rrsig = (\<lambda>k _ _ _. k_algorithm k = 13), calculate_key_tag = (\<lambda>_. Some 7), digest256 = (\<lambda>x. x), digest384 = (\<lambda>x. x)\<rparr>"

definition demo_links :: "chain_link list" where
  "demo_links = [\<lparr>link_zone = TRANSPARENCY_LABEL @ 46 # demo_zone, link_rrs = [1]\<rparr>, \<lparr>link_zone = demo_zone, link_rrs = [2]\<rparr>]"

definition demo_cert :: certificate where
  "demo_cert = \<lparr>cert_spki = [], dns_names = [demo_zone],
     cert_extensions = [\<lparr>ext_oid = OID_DNSSEC_CHAIN, ext_critical = False, ext_value = chain_encode demo_links\<rparr>]\<rparr>"

definition demo_authorized :: "rstr authorized" where
  "demo_authorized = \<lparr>a_apex = demo_zone, a_signing_zone = demo_zone, a_proven_keys = [dnskey_rdata demo_key],
     a_chain = \<lparr>anchor_zone = demo_zone, chain_links = 1, anchored_directly = True\<rparr>\<rparr>"

lemma demo_links_small: "length (concat (map encode_link demo_links)) < 200"
proof -
  have "length (encode_link l) \<le> utf8_len (link_zone l) + length (link_rrs l) + 30" for l
    using length_tlv_le [of "0x30" "tlv 0x16 (as_bytes (link_zone l)) @ tlv 0x04 (link_rrs l)"]
      length_tlv_le [of "0x16" "as_bytes (link_zone l)"] length_tlv_le [of "0x04" "link_rrs l"]
    by (simp add: encode_link_def)
  from this [of "demo_links ! 0"] this [of "demo_links ! 1"] show ?thesis
    by (simp add: demo_links_def TRANSPARENCY_LABEL_def demo_zone_def str_def utf8_width_def)
qed

lemma demo_links_fit: "links_fit demo_links"
  using demo_links_small by (simp add: links_fit_def demo_links_def TRANSPARENCY_LABEL_def demo_zone_def str_def)

lemma demo_authorize:
  assumes "dns_names cert = [demo_zone]" "cert_extension cert OID_DNSSEC_CHAIN = Some (chain_encode demo_links)"
  shows "authorize demo_dns cert (\<lambda>k. k = demo_key) = Inr demo_authorized"
proof -
  have "chain_decode (chain_encode demo_links) = Inr demo_links" using demo_links_fit by (simp add: chain_decode_iff)
  moreover have "TRANSPARENCY_LABEL @ 46 # demo_zone \<noteq> demo_zone" "demo_zone \<noteq> []" "last demo_zone \<noteq> 46"
    by (simp_all add: demo_zone_def TRANSPARENCY_LABEL_def str_def)
  ultimately show ?thesis using assms
    by (simp add: authorize_def identify_def single_dns_name_def validate_inner_def
        transparency_name_def dns_name_of_def demo_dns_def demo_links_def parse_link_def demo_rrs_def Let_def add_rr_def
        walk_ladder_def verify_dnskey_set_def verify_rrset_def rrset_of_def pairings_def demo_sig_def demo_key_def
        usable_signer_def MAX_RRSIG_VERIFICATIONS_def verify_declaration_def declares_def record_is_usable_signer_def
        rdata_of_def demo_authorized_def ends_with_iff)
qed

lemma demo_cert_names:
  "dns_names demo_cert = [demo_zone]" "cert_extension demo_cert OID_DNSSEC_CHAIN = Some (chain_encode demo_links)"
  by (simp_all add: demo_cert_def cert_extension_def)

theorem authorize_sound_witness:
  "\<exists>carried decl link rest at. identify demo_dns demo_cert = Inr demo_zone \<and>
    parse_links demo_dns carried = Inr (decl # link # rest) \<and> vouched demo_dns (\<lambda>k. k = demo_key) link \<and>
    transparency_name demo_dns demo_zone = Inr at"
  using authorize_sound [OF demo_authorize [OF demo_cert_names]] unfolding demo_authorized_def by (auto; blast)

end
