(* ===== verification/Json.thy ===== *)
theory Json
  imports Text_Ops
begin

text \<open>
  JSON values as the library \<^verbatim>\<open>serde_json\<close> hands them to the code (\<^verbatim>\<open>serde_json::Value\<close>), and the
  accessors the code calls. A number is a \<open>u64\<close>, a negative \<open>i64\<close>, or a float, whose value no code here
  reads. An object is the list of its members in the order of their keys. Reading and writing the text of a value is
  the library's business, and an argument where it is used.
\<close>

datatype json = JNull | JBool bool | JUInt u64 | JNegInt int | JFloat | JString rstr | JArray "json list"
  | JObject "(rstr \<times> json) list"

definition json_get :: "json \<Rightarrow> rstr \<Rightarrow> json option" where
  "json_get j key = (case j of JObject m \<Rightarrow> map_of m key | _ \<Rightarrow> None)"

text \<open>Indexing by a key: a value that is no object, or has no such member, gives \<^verbatim>\<open>null\<close>.\<close>

definition json_at :: "json \<Rightarrow> string \<Rightarrow> json" where
  "json_at j key = (case json_get j (str key) of Some v \<Rightarrow> v | None \<Rightarrow> JNull)"

definition as_str :: "json \<Rightarrow> rstr option" where
  "as_str j = (case j of JString s \<Rightarrow> Some s | _ \<Rightarrow> None)"

definition as_u64 :: "json \<Rightarrow> u64 option" where
  "as_u64 j = (case j of JUInt n \<Rightarrow> Some n | _ \<Rightarrow> None)"

definition as_i64 :: "json \<Rightarrow> int option" where
  "as_i64 j =
     (case j of JUInt n \<Rightarrow> if unat n < 2 ^ 63 then Some (int (unat n)) else None | JNegInt i \<Rightarrow> Some i | _ \<Rightarrow> None)"

definition as_array :: "json \<Rightarrow> json list option" where
  "as_array j = (case j of JArray js \<Rightarrow> Some js | _ \<Rightarrow> None)"

definition as_object :: "json \<Rightarrow> (rstr \<times> json) list option" where
  "as_object j = (case j of JObject m \<Rightarrow> Some m | _ \<Rightarrow> None)"

text \<open>What every value the library builds satisfies: text is text, negative numbers are negative \<open>i64\<close>s,
  and the keys of an object are distinct and in order.\<close>

fun json_ok :: "json \<Rightarrow> bool" where
  "json_ok (JNegInt i) = (- (2 ^ 63) \<le> i \<and> i < 0)"
| "json_ok (JString s) = valid_str s"
| "json_ok (JArray js) = list_all json_ok js"
| "json_ok (JObject m) = (sorted_wrt (<) (map fst m) \<and> list_all valid_str (map fst m) \<and> list_all json_ok (map snd m))"
| "json_ok j = True"

lemma json_accessors_iff [simp]:
  "as_str j = Some s \<longleftrightarrow> j = JString s" "as_u64 j = Some n \<longleftrightarrow> j = JUInt n"
  "as_array j = Some js \<longleftrightarrow> j = JArray js" "as_object j = Some m \<longleftrightarrow> j = JObject m"
  by (auto simp: as_str_def as_u64_def as_array_def as_object_def split: json.splits)

lemma json_accessors [simp]:
  "as_str (JString s) = Some s" "as_u64 (JUInt n) = Some n" "as_array (JArray js) = Some js" "as_object (JObject m) = Some m"
  by simp_all

lemma json_get_object [simp]: "json_get (JObject m) k = map_of m k"
  by (simp add: json_get_def)

end
