(* ===== verification/Rekor_Verify.thy ===== *)
theory Rekor_Verify
  imports Rekor_Note Chain Json
begin

text \<open>
  The offline verification of a transparency record (\<^verbatim>\<open>synch-net/src/rekor.rs\<close>): the log entry's body,
  the Statement about a key set, and \<open>verify\<close>, which joins the inclusion path, the checkpoint, the
  certificate and its chain, the signature and the Statement. JSON is read by a library, the parameter
  \<open>from_slice\<close>, into the values of \<open>Json\<close>.
\<close>

section \<open>Reading JSON\<close>

definition json_text :: "json \<Rightarrow> proof_error + rstr" where
  "json_text j = (case j of JString s \<Rightarrow> Inr s | _ \<Rightarrow> Inl Malformed)"

definition json_number :: "json \<Rightarrow> proof_error + u64" where
  "json_number j = (case j of JUInt n \<Rightarrow> Inr n | _ \<Rightarrow> Inl Malformed)"

definition json_array :: "json \<Rightarrow> proof_error + json list" where
  "json_array j = (case j of JArray js \<Rightarrow> Inr js | _ \<Rightarrow> Inl Malformed)"

definition json_b64 :: "crates \<Rightarrow> json \<Rightarrow> proof_error + bytes" where
  "json_b64 x j = result_bind (json_text j) (\<lambda>s. ok_or Malformed (base64_decode x s))"

section \<open>The entry\<close>

definition HASHEDREKORD_KIND :: rstr where "HASHEDREKORD_KIND = str ''hashedrekord''"
definition HASHEDREKORD_API_VERSION :: rstr where "HASHEDREKORD_API_VERSION = str ''0.0.2''"
definition HASHEDREKORD_DIGEST_ALGORITHM :: rstr where "HASHEDREKORD_DIGEST_ALGORITHM = str ''SHA2_256''"
definition HASHEDREKORD_KEY_DETAILS :: rstr where "HASHEDREKORD_KEY_DETAILS = str ''PKIX_ECDSA_P256_SHA_256''"

record hashed_body =
  hb_digest :: bytes
  hb_signature :: bytes
  hb_certificate :: certificate
  hb_certificate_der :: bytes

definition hashed_body_parse :: "crates \<Rightarrow> (bytes \<Rightarrow> json option) \<Rightarrow> bytes \<Rightarrow> proof_error + hashed_body" where
  "hashed_body_parse x from_slice bs =
     result_bind (ok_or Malformed (from_slice bs)) (\<lambda>v.
     result_bind (json_text (json_at v ''kind'')) (\<lambda>kind.
     result_bind (json_text (json_at v ''apiVersion'')) (\<lambda>api_version.
     if kind \<noteq> HASHEDREKORD_KIND \<or> api_version \<noteq> HASHEDREKORD_API_VERSION then Inl Binding
     else let spec = json_at (json_at v ''spec'') ''hashedRekordV002'' in
     if spec = JNull then Inl Malformed
     else let data = json_at spec ''data'' in
     result_bind (json_text (json_at data ''algorithm'')) (\<lambda>algorithm.
     if algorithm \<noteq> HASHEDREKORD_DIGEST_ALGORITHM then Inl Binding
     else let signature = json_at spec ''signature''; verifier = json_at signature ''verifier'' in
     result_bind (json_text (json_at verifier ''keyDetails'')) (\<lambda>key_details.
     if key_details \<noteq> HASHEDREKORD_KEY_DETAILS then Inl Binding
     else
       let raw = json_at (json_at verifier ''x509Certificate'') ''rawBytes'' in
       result_bind (case raw of JString _ \<Rightarrow> json_b64 x raw | _ \<Rightarrow> Inl Binding) (\<lambda>der.
       result_bind (map_err (\<lambda>_. Malformed) (certificate_parse der)) (\<lambda>cert.
       result_bind (json_b64 x (json_at data ''digest'')) (\<lambda>digest.
       result_bind (json_b64 x (json_at signature ''content'')) (\<lambda>sig.
       Inr \<lparr>hb_digest = digest, hb_signature = sig, hb_certificate = cert, hb_certificate_der = der\<rparr>)))))))))"

section \<open>The Statement\<close>

definition STATEMENT_TYPE :: rstr where "STATEMENT_TYPE = str ''https://in-toto.io/Statement/v1''"
definition PREDICATE_TYPE :: rstr where "PREDICATE_TYPE = str ''https://synchronicity.sh/zone-key/v2''"

record statement_key =
  sk_key_tag :: nat
  sk_algorithm :: nat
  sk_flags :: nat
  sk_sha256 :: rstr

record zone_key_statement =
  st_apex :: rstr
  st_keys :: "statement_key list"
  st_action :: rstr

definition statement_key_of :: "crates \<Rightarrow> bytes \<Rightarrow> statement_key" where
  "statement_key_of x rdata =
     \<lparr>sk_key_tag = key_tag rdata,
      sk_algorithm = (if 4 \<le> length rdata then unat (rdata ! 3) else 0),
      sk_flags = (if 4 \<le> length rdata then be_value [rdata ! 0, rdata ! 1] else 0),
      sk_sha256 = hex x (sha x rdata)\<rparr>"

definition for_keys :: "crates \<Rightarrow> rstr \<Rightarrow> bytes list \<Rightarrow> rstr \<Rightarrow> zone_key_statement" where
  "for_keys x apex rdatas action =
     \<lparr>st_apex = apex,
      st_keys = sort_key (\<lambda>k. (sk_key_tag k, sk_sha256 k)) (map (statement_key_of x) rdatas),
      st_action = action\<rparr>"

definition json_uint :: "nat \<Rightarrow> json \<Rightarrow> proof_error + nat" where
  "json_uint width j =
     result_bind (json_number j) (\<lambda>n. if 2 ^ width \<le> unat n then Inl Malformed else Inr (unat n))"

definition parse_statement_key :: "rstr \<Rightarrow> json \<times> json \<Rightarrow> proof_error + statement_key" where
  "parse_statement_key apex = (\<lambda>(subject, entry).
     result_bind (json_text (json_at subject ''name'')) (\<lambda>subject_name.
     if subject_name \<noteq> apex then Inl Malformed
     else result_bind (json_text (json_at (json_at subject ''digest'') ''sha256'')) (\<lambda>subject_sha256.
     result_bind (json_text (json_at entry ''sha256'')) (\<lambda>sha256.
     if \<not> eq_ignore_ascii_case subject_sha256 sha256 then Inl Malformed
     else result_bind (json_uint 16 (json_at entry ''keyTag'')) (\<lambda>tag.
     result_bind (json_uint 8 (json_at entry ''algorithm'')) (\<lambda>alg.
     result_bind (json_uint 16 (json_at entry ''flags'')) (\<lambda>flags.
     Inr \<lparr>sk_key_tag = tag, sk_algorithm = alg, sk_flags = flags, sk_sha256 = sha256\<rparr>)))))))"

fun parse_statement_keys :: "rstr \<Rightarrow> (json \<times> json) list \<Rightarrow> proof_error + statement_key list" where
  "parse_statement_keys apex [] = Inr []"
| "parse_statement_keys apex (p # ps) =
     result_bind (parse_statement_key apex p) (\<lambda>k.
     result_bind (parse_statement_keys apex ps) (\<lambda>ks. Inr (k # ks)))"

definition statement_parse :: "(bytes \<Rightarrow> json option) \<Rightarrow> bytes \<Rightarrow> proof_error + zone_key_statement" where
  "statement_parse from_slice bs =
     result_bind (ok_or Malformed (from_slice bs)) (\<lambda>v.
     result_bind (json_text (json_at v ''_type'')) (\<lambda>statement_type.
     if statement_type \<noteq> STATEMENT_TYPE then Inl Binding
     else result_bind (json_text (json_at v ''predicateType'')) (\<lambda>predicate_type.
     if predicate_type \<noteq> PREDICATE_TYPE then Inl Binding
     else result_bind (json_array (json_at v ''subject'')) (\<lambda>subjects.
     if subjects = [] then Inl Malformed
     else let predicate = json_at v ''predicate'' in
     result_bind (json_text (json_at predicate ''apex'')) (\<lambda>apex.
     result_bind (json_array (json_at predicate ''keys'')) (\<lambda>listed.
     if length listed \<noteq> length subjects then Inl Malformed
     else result_bind (parse_statement_keys apex (zip subjects listed)) (\<lambda>keys.
     result_bind (json_text (json_at predicate ''action'')) (\<lambda>action.
     Inr \<lparr>st_apex = apex, st_keys = keys, st_action = action\<rparr>))))))))"

record zone_key =
  zk_domain :: rstr
  zk_signing_zone :: rstr
  zk_key_tag :: nat
  zk_rdata :: bytes

definition same_name :: "'n dns \<Rightarrow> rstr \<Rightarrow> rstr \<Rightarrow> bool" where
  "same_name d a b =
     (case (dns_name_of d a, dns_name_of d b) of (Inr a, Inr b) \<Rightarrow> name_eq d a b | _ \<Rightarrow> False)"

definition check_binds ::
  "crates \<Rightarrow> 'n dns \<Rightarrow> zone_key_statement \<Rightarrow> 'n \<Rightarrow> zone_key \<Rightarrow> bytes list \<Rightarrow> proof_error + unit"
where
  "check_binds x d st apex key proven =
     (if \<not> same_name d (st_apex st) (name_string d apex) then Inl Binding
      else if st_keys (for_keys x (st_apex st) proven (st_action st)) \<noteq> st_keys st then Inl Binding
      else if \<not> list_ex (\<lambda>k. eq_ignore_ascii_case (sk_sha256 k) (hex x (sha x (zk_rdata key)))) (st_keys st) then Inl Binding
      else if st_action st \<noteq> str ''create'' \<and> st_action st \<noteq> str ''rollover'' then Inl Binding
      else Inr ())"

section \<open>Verification\<close>

definition DSSE_PAYLOAD_TYPE :: rstr where "DSSE_PAYLOAD_TYPE = str ''application/vnd.in-toto+json''"

definition pae :: "rstr \<Rightarrow> bytes \<Rightarrow> bytes" where
  "pae payload_type payload =
     as_bytes (str ''DSSEv1 '') @ as_bytes (fmt_nat 10 (utf8_len payload_type)) @ 32 # as_bytes payload_type @
     32 # as_bytes (fmt_nat 10 (length payload)) @ 32 # payload"

definition verify_ecdsa_p256_asn1 :: "verifiers \<Rightarrow> bytes \<Rightarrow> bytes \<Rightarrow> bytes \<Rightarrow> proof_error + unit" where
  "verify_ecdsa_p256_asn1 g public message sig =
     (if ecdsa_asn1 g (0x04 # public) message sig then Inr () else Inl Attribution)"

record verified_record =
  v_log_index :: u64
  v_tree_size :: u64
  v_origin :: rstr
  v_action :: rstr

definition verify ::
  "crates \<Rightarrow> verifiers \<Rightarrow> 'n dns \<Rightarrow> (bytes \<Rightarrow> json option) \<Rightarrow> rekor_proof \<Rightarrow> zone_key \<Rightarrow> log_keys \<Rightarrow>
     (dnskey \<Rightarrow> bool) \<Rightarrow> proof_error + verified_record"
where
  "verify x g d from_slice p key logs anchors =
     result_bind (ok_or UnknownLog (find_log logs (log_id p))) (\<lambda>log_key.
     result_bind (checkpoint_parse x (p_checkpoint p)) (\<lambda>checkpoint.
     result_bind (verify_inclusion (sha x) (unat (log_index p)) (unat (tree_size checkpoint)) (proof_leaf_hash (sha x) p)
       (inclusion_path p) (root_hash checkpoint)) (\<lambda>_.
     result_bind (verify_signature x g log_key checkpoint) (\<lambda>_.
     result_bind (hashed_body_parse x from_slice (canonicalized_body p)) (\<lambda>body.
     result_bind (map_err (\<lambda>_. ChainBad) (identify d (hb_certificate body))) (\<lambda>claimed_apex.
     result_bind (map_err (\<lambda>_. ChainBad) (dns_name_of d (zk_domain key))) (\<lambda>domain.
     if \<not> zone_of d claimed_apex domain then Inl Binding
     else result_bind (map_err (\<lambda>_. ChainBad) (authorize d (hb_certificate body) anchors)) (\<lambda>authorized.
     result_bind (map_err (\<lambda>_. ChainBad) (dns_name_of d (zk_signing_zone key))) (\<lambda>observed_signer.
     if \<not> name_eq d (a_signing_zone authorized) observed_signer then Inl Binding
     else let message = pae DSSE_PAYLOAD_TYPE (p_statement p) in
     result_bind (ok_or Attribution (p256_point (cert_spki (hb_certificate body)))) (\<lambda>signer.
     result_bind (verify_ecdsa_p256_asn1 g signer message (hb_signature body)) (\<lambda>_.
     if hb_digest body \<noteq> sha x message then Inl Binding
     else result_bind (statement_parse from_slice (p_statement p)) (\<lambda>statement.
     result_bind (check_binds x d statement claimed_apex key (a_proven_keys authorized)) (\<lambda>_.
     Inr \<lparr>v_log_index = log_index p, v_tree_size = tree_size checkpoint, v_origin = cp_origin checkpoint,
          v_action = st_action statement\<rparr>)))))))))))))"

section \<open>The pre-authentication encoding\<close>

lemma append_at_sep:
  "xs @ c # r = ys @ c # r' \<Longrightarrow> c \<notin> set xs \<Longrightarrow> c \<notin> set ys \<Longrightarrow> xs = ys \<and> r = r'"
proof (induction xs arbitrary: ys)
  case Nil
  then show ?case by (cases ys) auto
next
  case (Cons x xs)
  then show ?case by (cases ys) auto
qed

lemma as_bytes_all_ascii: "list_all (\<lambda>c. c < 0x80) s \<Longrightarrow> as_bytes s = map of_nat s"
  by (induction s) (simp_all add: as_bytes_ascii as_bytes_def [of "[]"])

lemma as_bytes_digits: "as_bytes (fmt_nat 10 n) = map of_nat (fmt_nat 10 n)"
  using fmt_nat_graphic by (intro as_bytes_all_ascii) (fastforce simp: list_all_iff)

lemma digits_no_space: "(32 :: u8) \<notin> set (as_bytes (fmt_nat 10 n))"
proof -
  have "(32 :: u8) \<noteq> of_nat c" if "48 \<le> c" "c < 103" for c :: nat
  proof
    assume "(32 :: u8) = of_nat c"
    then have "unat (32 :: u8) = unat (of_nat c :: u8)" by simp
    then show False using that by (simp add: unat_of_nat)
  qed
  then show ?thesis unfolding as_bytes_digits using fmt_nat_graphic by fastforce
qed

lemma fmt_nat_eq: "fmt_nat 10 m = fmt_nat 10 n \<Longrightarrow> m = n"
proof (induction m arbitrary: n rule: less_induct)
  case (less m)
  have d: "digit_char a = digit_char b \<Longrightarrow> a < 10 \<Longrightarrow> b < 10 \<Longrightarrow> a = b" for a b by (simp add: digit_char_def)
  show ?case
  proof (cases "m < 10 \<or> n < 10")
    case True
    then show ?thesis using less.prems d [of m n] by (subst (asm) (1 2) fmt_nat.simps) (auto split: if_splits simp: eq_commute [of "[]"])
  next
    case False
    then have "fmt_nat 10 (m div 10) = fmt_nat 10 (n div 10)" "digit_char (m mod 10) = digit_char (n mod 10)"
      using less.prems by (simp_all add: fmt_nat.simps [of 10 m] fmt_nat.simps [of 10 n])
    then have "m div 10 = n div 10" "m mod 10 = n mod 10" using less.IH [of "m div 10"] False d by auto
    then show ?thesis by (metis div_mult_mod_eq)
  qed
qed

lemma fmt_nat_inj:
  assumes "as_bytes (fmt_nat 10 m) = as_bytes (fmt_nat 10 n)"
  shows "m = n"
proof -
  have "valid_str (fmt_nat 10 k)" for k using fmt_nat_graphic by (fastforce simp: valid_str_def list_all_iff scalar_def)
  then show ?thesis using as_bytes_inj assms fmt_nat_eq by blast
qed

text \<open>The bytes a zone signs fix both the payload and the type it is to be read as.\<close>
theorem pae_inject:
  assumes "valid_str t" "valid_str t'"
  shows "pae t payload = pae t' payload' \<longleftrightarrow> t = t' \<and> payload = payload'"
proof
  assume "pae t payload = pae t' payload'"
  then have e: "as_bytes (fmt_nat 10 (utf8_len t)) @ 32 # as_bytes t @ 32 # as_bytes (fmt_nat 10 (length payload)) @ 32 # payload =
      as_bytes (fmt_nat 10 (utf8_len t')) @ 32 # as_bytes t' @ 32 # as_bytes (fmt_nat 10 (length payload')) @ 32 # payload'"
    by (simp add: pae_def)
  note f = append_at_sep [OF e digits_no_space digits_no_space]
  have "length (as_bytes t) = length (as_bytes t')" using f fmt_nat_inj by simp
  then have g: "as_bytes t = as_bytes t'"
    "as_bytes (fmt_nat 10 (length payload)) @ 32 # payload = as_bytes (fmt_nat 10 (length payload')) @ 32 # payload'"
    using f by auto
  show "t = t' \<and> payload = payload'"
    using as_bytes_inj [OF assms g(1)] append_at_sep [OF g(2) digits_no_space digits_no_space] by simp
qed simp

theorem pae_inject_witness: "pae (str ''a'') [49] \<noteq> pae (str ''a 1 1'') []"
  using pae_inject [of "str ''a''" "str ''a 1 1''" "[49]" "[]"] by (simp add: str_def scalar_def)

section \<open>Statements\<close>

lemma lower_hex_lower: "list_all is_lower_hex s \<Longrightarrow> map ascii_lower s = s"
  by (induction s) (auto simp: is_lower_hex_def ascii_lower_def)

text \<open>One key set has one rendering: the order in which the keys come out of the chain does not show.\<close>
theorem for_keys_canonical:
  assumes "mset rdatas = mset rdatas'" "inj_on (\<lambda>r. hex x (sha x r)) (set rdatas)"
  shows "for_keys x apex rdatas action = for_keys x apex rdatas' action"
proof -
  let ?k = "\<lambda>k. (sk_key_tag k, sk_sha256 k)"
  have "inj_on ?k (statement_key_of x ` set rdatas)"
    using assms(2) by (auto simp: inj_on_def statement_key_of_def)
  moreover have "mset (map (statement_key_of x) rdatas) = mset (map (statement_key_of x) rdatas')"
    using assms(1) by simp
  ultimately have "sort_key ?k (map (statement_key_of x) rdatas) = sort_key ?k (map (statement_key_of x) rdatas')"
    by (intro sort_key_inj_key_eq) simp_all
  then show ?thesis by (simp add: for_keys_def)
qed

lemma check_binds_facts:
  assumes "check_binds x d st apex key proven = Inr ()" "crates_ok x" "inj (hex x)"
  shows "same_name d (st_apex st) (name_string d apex)" "st_action st \<in> {str ''create'', str ''rollover''}"
    "mset (st_keys st) = mset (map (statement_key_of x) proven)" "\<exists>r \<in> set proven. sha x r = sha x (zk_rdata key)"
proof -
  have c: "same_name d (st_apex st) (name_string d apex)" "st_keys (for_keys x (st_apex st) proven (st_action st)) = st_keys st"
      "list_ex (\<lambda>k. eq_ignore_ascii_case (sk_sha256 k) (hex x (sha x (zk_rdata key)))) (st_keys st)"
      "st_action st \<in> {str ''create'', str ''rollover''}"
    using assms(1) by (auto simp: check_binds_def split: if_splits)
  then show "same_name d (st_apex st) (name_string d apex)" "st_action st \<in> {str ''create'', str ''rollover''}" by simp_all
  show m: "mset (st_keys st) = mset (map (statement_key_of x) proven)" using c(2) [symmetric] by (simp add: for_keys_def)
  obtain k where k: "k \<in> set (st_keys st)" "eq_ignore_ascii_case (sk_sha256 k) (hex x (sha x (zk_rdata key)))"
    using c(3) by (auto simp: list_ex_iff)
  obtain r where r: "r \<in> set proven" "k = statement_key_of x r" using k(1) mset_eq_setD [OF m] by auto
  have "hex x (sha x r) = hex x (sha x (zk_rdata key))"
    using k(2) r(2) assms(2) by (simp add: eq_ignore_ascii_case_def statement_key_of_def crates_ok_def lower_hex_lower)
  then show "\<exists>r \<in> set proven. sha x r = sha x (zk_rdata key)" using r(1) assms(3) by (auto dest: injD)
qed

section \<open>What an accepted record establishes\<close>

lemma verify_steps:
  assumes "verify x g d from_slice p key logs anchors = Inr r"
  obtains k cp body apex domain a observed signer st where
    "find_log logs (log_id p) = Some k" "checkpoint_parse x (p_checkpoint p) = Inr cp"
    "verify_inclusion (sha x) (unat (log_index p)) (unat (tree_size cp)) (proof_leaf_hash (sha x) p) (inclusion_path p) (root_hash cp) = Inr ()"
    "verify_signature x g k cp = Inr ()" "hashed_body_parse x from_slice (canonicalized_body p) = Inr body"
    "identify d (hb_certificate body) = Inr apex" "dns_name_of d (zk_domain key) = Inr domain" "zone_of d apex domain"
    "authorize d (hb_certificate body) anchors = Inr a" "dns_name_of d (zk_signing_zone key) = Inr observed"
    "name_eq d (a_signing_zone a) observed" "p256_point (cert_spki (hb_certificate body)) = Some signer"
    "ecdsa_asn1 g (0x04 # signer) (pae DSSE_PAYLOAD_TYPE (p_statement p)) (hb_signature body)"
    "hb_digest body = sha x (pae DSSE_PAYLOAD_TYPE (p_statement p))"
    "statement_parse from_slice (p_statement p) = Inr st" "check_binds x d st apex key (a_proven_keys a) = Inr ()"
    "r = \<lparr>v_log_index = log_index p, v_tree_size = tree_size cp, v_origin = cp_origin cp, v_action = st_action st\<rparr>"
  using assms unfolding verify_def verify_ecdsa_p256_asn1_def Let_def
  by (auto split: if_splits)

lemma verify_signature_line:
  assumes "verify_signature x g k cp = Inr ()"
  shows "\<exists>line \<in> set (cp_signatures cp). ns_name line = cp_origin cp \<and> verifies g (lk_key k) (cp_signed cp) (ns_signature line)"
    and "lk_origin k \<in> {None, Some (cp_origin cp)}"
  using assms
  by (auto simp: verify_signature_def log_key_verify_def list_ex_iff split: if_splits option.splits)

text \<open>C3. An accepted record rests on all of its parts: a pinned log with the record's log id signed the
  checkpoint, as the origin it is pinned for; the certificate's own key signed the encoding of this
  Statement, whose digest the entry holds; the apex of the certificate encloses the domain that is
  being resolved and lies in the zone that signed the answer; DNSSEC delegation vouches for that zone
  from a trust anchor down; the digest of the key that signed the answer is that of one of the zone's
  usable keys; and the action puts the keys into service.\<close>
theorem verify_sound:
  assumes "verify x g d from_slice p key logs anchors = Inr r" "crates_ok x" "inj (hex x)"
  shows "\<exists>k cp body apex domain observed link signer.
    k \<in> set logs \<and> lk_id k = log_id p \<and> lk_origin k \<in> {None, Some (cp_origin cp)} \<and>
    checkpoint_parse x (p_checkpoint p) = Inr cp \<and> v_origin r = cp_origin cp \<and>
    (\<exists>line \<in> set (cp_signatures cp). verifies g (lk_key k) (cp_signed cp) (ns_signature line)) \<and>
    hashed_body_parse x from_slice (canonicalized_body p) = Inr body \<and>
    cert_spki (hb_certificate body) = p256_spki signer \<and> hb_digest body = sha x (pae DSSE_PAYLOAD_TYPE (p_statement p)) \<and>
    ecdsa_asn1 g (0x04 # signer) (pae DSSE_PAYLOAD_TYPE (p_statement p)) (hb_signature body) \<and>
    identify d (hb_certificate body) = Inr apex \<and> dns_name_of d (zk_domain key) = Inr domain \<and> zone_of d apex domain \<and>
    dns_name_of d (zk_signing_zone key) = Inr observed \<and> name_eq d (pl_zone link) observed \<and> zone_of d (pl_zone link) apex \<and>
    vouched d anchors link \<and>
    (\<exists>dk. key_in (pl_dnskeys link) dk \<and> usable_signer dk \<and> sha x (dnskey_rdata dk) = sha x (zk_rdata key)) \<and>
    v_action r \<in> {str ''create'', str ''rollover''}"
  using assms(1)
proof (rule verify_steps)
  fix k cp body apex domain a observed signer st
  assume s: "find_log logs (log_id p) = Some k" "checkpoint_parse x (p_checkpoint p) = Inr cp"
    "verify_signature x g k cp = Inr ()" "hashed_body_parse x from_slice (canonicalized_body p) = Inr body"
    "identify d (hb_certificate body) = Inr apex" "dns_name_of d (zk_domain key) = Inr domain" "zone_of d apex domain"
    "authorize d (hb_certificate body) anchors = Inr a" "dns_name_of d (zk_signing_zone key) = Inr observed"
    "name_eq d (a_signing_zone a) observed" "p256_point (cert_spki (hb_certificate body)) = Some signer"
    "ecdsa_asn1 g (0x04 # signer) (pae DSSE_PAYLOAD_TYPE (p_statement p)) (hb_signature body)"
    "hb_digest body = sha x (pae DSSE_PAYLOAD_TYPE (p_statement p))"
    "check_binds x d st apex key (a_proven_keys a) = Inr ()"
    "r = \<lparr>v_log_index = log_index p, v_tree_size = tree_size cp, v_origin = cp_origin cp, v_action = st_action st\<rparr>"
  obtain link where l: "identify d (hb_certificate body) = Inr (a_apex a)" "vouched d anchors link"
      "a_signing_zone a = pl_zone link" "zone_of d (pl_zone link) (a_apex a)"
      "set (a_proven_keys a) = {dnskey_rdata k | k. key_in (pl_dnskeys link) k \<and> usable_signer k}"
    using authorize_chain [OF s(8)] by blast
  have "k \<in> set logs \<and> lk_id k = log_id p" using s(1) by (auto simp: find_log_def find_Some_iff)
  moreover have "cert_spki (hb_certificate body) = p256_spki signer"
    using s(11) by (auto simp: p256_point_def Let_def split: if_splits)
  moreover note b = check_binds_facts [OF s(14) assms(2,3)]
  have "\<exists>dk. key_in (pl_dnskeys link) dk \<and> usable_signer dk \<and> sha x (dnskey_rdata dk) = sha x (zk_rdata key)"
    using b(4) l(5) by auto
  ultimately show ?thesis
    using s(2-7,9,10,12,13,15) l(1-4) b(2) verify_signature_line [OF s(3)] by (simp, blast)
qed

text \<open>C10. The entry of an accepted record is in the log: where the checkpoint's root is the root of a list
  of entries of the checkpoint's size, and SHA-256 has no collision among the strings hashed along
  the path, the entry's body stands in that list at the record's index.\<close>
theorem verify_logged:
  assumes "verify x g d from_slice p key logs anchors = Inr r" "crates_ok x" "proof_ok p"
    and "checkpoint_parse x (p_checkpoint p) = Inr cp" "root_hash cp = tree_root (sha x) D" "unat (tree_size cp) = length D"
    and "inj_on (sha x) (inclusion_inputs (sha x) (unat (log_index p)) D (canonicalized_body p) (inclusion_path p))"
  shows "unat (v_log_index r) < length D \<and> D ! unat (v_log_index r) = canonicalized_body p"
  using assms(1)
proof (rule verify_steps)
  fix cp' st
  assume v: "checkpoint_parse x (p_checkpoint p) = Inr cp'"
    "verify_inclusion (sha x) (unat (log_index p)) (unat (tree_size cp')) (proof_leaf_hash (sha x) p) (inclusion_path p) (root_hash cp') = Inr ()"
    "r = \<lparr>v_log_index = log_index p, v_tree_size = tree_size cp', v_origin = cp_origin cp', v_action = st_action st\<rparr>"
  have i: "verify_inclusion (sha x) (unat (log_index p)) (length D) (leaf_hash (sha x) (canonicalized_body p))
      (inclusion_path p) (tree_root (sha x) D) = Inr ()"
    using v assms(4-6) by (simp add: proof_leaf_hash_def)
  then have "canonicalized_body p = D ! unat (log_index p)"
    using accepted_entry [OF _ i] assms(2,3,7) by (simp add: crates_ok_def proof_ok_def)
  then show ?thesis using i v(3) by (simp add: verify_inclusion_iff)
qed

section \<open>A record that is accepted\<close>

definition demo_signer :: bytes where "demo_signer = replicate 64 0"

definition demo_zone_cert :: self_signed where
  "demo_zone_cert = \<lparr>common_name = [], dns_name = demo_zone, ss_spki = p256_spki demo_signer, serial = [5],
     not_before = [], not_after = [], ss_extensions = [(OID_DNSSEC_CHAIN, chain_encode demo_links)]\<rparr>"

lemma demo_zone_cert_parses: "certificate_parse (ss_build (\<lambda>_. [3]) demo_zone_cert) = Inr (ss_certificate demo_zone_cert)"
proof (rule certificate_parse_built)
  have "p256_spki demo_signer = tlv 0x30 (drop 2 (p256_spki demo_signer))"
    by (simp add: p256_spki_def P256_SPKI_PREFIX_def demo_signer_def tlv_def)
  then show "ss_ok demo_zone_cert"
    unfolding ss_ok_def demo_zone_cert_def
    by (auto simp: demo_zone_def str_def scalar_def OID_DNSSEC_CHAIN_def OID_SUBJECT_ALT_NAME_def)
  have ext: "length (extension_tlv oid c v) \<le> length oid + length v + 50" for oid c v
    using length_tlv_le [of "0x30" "tlv 0x06 oid @ (if c then tlv 0x01 [0xff] else []) @ tlv 0x04 v"]
      length_tlv_le [of "0x06" oid] length_tlv_le [of "0x04" v] length_tlv_le [of "0x01" "[0xff]"]
    by (auto simp: extension_tlv_def split: if_splits)
  have chain: "length (chain_encode demo_links) < 2 ^ 30"
    using demo_links_small length_tlv_le [of "0x30" "concat (map encode_link demo_links)"] by (simp add: chain_encode_def)
  have "length (extension_der demo_zone_cert) < 2 ^ 30 + 1000"
    using ext [of OID_BASIC_CONSTRAINTS True "tlv 0x30 []"] ext [of OID_KEY_USAGE True "tlv 0x03 [0x07, 0x80]"]
      ext [of OID_SUBJECT_ALT_NAME False "tlv 0x30 (tlv 0x82 (as_bytes demo_zone))"] ext [of OID_DNSSEC_CHAIN False "chain_encode demo_links"]
      length_tlv_le [of "0x30" "[]"] length_tlv_le [of "0x03" "[0x07, 0x80]"] length_tlv_le [of "0x82" "as_bytes demo_zone"]
      length_tlv_le [of "0x30" "tlv 0x82 (as_bytes demo_zone)"] chain
    by (simp add: extension_der_def demo_zone_cert_def OID_BASIC_CONSTRAINTS_def OID_KEY_USAGE_def OID_SUBJECT_ALT_NAME_def
        OID_DNSSEC_CHAIN_def demo_zone_def str_def utf8_width_def)
  moreover have "length (rdn_common_name []) < 100" "length algorithm_identifier < 100" "length (tlv 0xa0 (tlv 0x02 [0x02])) < 100"
    "length (der_integer [5]) < 100" "length (tlv 0x30 []) < 100" "length (tlv 0x03 [0, 3]) < 100" "length (p256_spki demo_signer) < 100"
    by (simp_all add: rdn_common_name_def algorithm_identifier_def tlv_def der_integer_def OID_COMMON_NAME_def OID_ECDSA_SHA256_def
        as_bytes_def p256_spki_def P256_SPKI_PREFIX_def demo_signer_def)
  ultimately have "length (ss_tbs demo_zone_cert) < 2 ^ 30 + 2000"
    unfolding ss_tbs_def
    by (intro le_less_trans [OF length_tlv_le])
      (use length_tlv_le [of "0x30" "extension_der demo_zone_cert"] length_tlv_le [of "0xa3" "tlv 0x30 (extension_der demo_zone_cert)"]
        in \<open>simp add: demo_zone_cert_def\<close>)
  then show "length (ss_build (\<lambda>_. [3]) demo_zone_cert) < 2 ^ 32"
    using length_tlv_le [of "0x30" "ss_tbs demo_zone_cert @ algorithm_identifier @ tlv 0x03 [0, 3]"]
      \<open>length algorithm_identifier < 100\<close> \<open>length (tlv 0x03 [0, 3]) < 100\<close>
    by (simp add: ss_build_def)
qed

definition demo_rekor_text :: "rstr \<Rightarrow> bytes option" where
  "demo_rekor_text s =
     (if s = str ''r'' then Some (leaf_hash demo_sha [1])
      else if s = str ''c'' then Some (ss_build (\<lambda>_. [3]) demo_zone_cert)
      else if s = str ''d'' then Some (demo_sha (pae DSSE_PAYLOAD_TYPE [2]))
      else Some (replicate 32 0))"

definition demo_rekor_crates :: crates where
  "demo_rekor_crates = demo_crates\<lparr>dec64 := demo_rekor_text\<rparr>"

definition demo_obj :: "(string \<times> json) list \<Rightarrow> json" where
  "demo_obj m = JObject (map (\<lambda>(k, v). (str k, v)) m)"

definition demo_entry_json :: json where
  "demo_entry_json = demo_obj [(''kind'', JString HASHEDREKORD_KIND), (''apiVersion'', JString HASHEDREKORD_API_VERSION),
     (''spec'', demo_obj [(''hashedRekordV002'', demo_obj [
        (''data'', demo_obj [(''algorithm'', JString HASHEDREKORD_DIGEST_ALGORITHM), (''digest'', JString (str ''d''))]),
        (''signature'', demo_obj [(''content'', JString (str ''s'')), (''verifier'', demo_obj [
           (''keyDetails'', JString HASHEDREKORD_KEY_DETAILS),
           (''x509Certificate'', demo_obj [(''rawBytes'', JString (str ''c''))])])])])])]"

definition demo_statement_key :: statement_key where
  "demo_statement_key = statement_key_of demo_rekor_crates (dnskey_rdata demo_key)"

definition demo_statement_json :: json where
  "demo_statement_json = demo_obj [(''_type'', JString STATEMENT_TYPE), (''predicateType'', JString PREDICATE_TYPE),
     (''subject'', JArray [demo_obj [(''name'', JString demo_zone),
        (''digest'', demo_obj [(''sha256'', JString (sk_sha256 demo_statement_key))])]]),
     (''predicate'', demo_obj [(''apex'', JString demo_zone), (''action'', JString (str ''create'')),
        (''keys'', JArray [demo_obj [(''sha256'', JString (sk_sha256 demo_statement_key)),
           (''keyTag'', JUInt (of_nat (sk_key_tag demo_statement_key))), (''algorithm'', JUInt (of_nat (sk_algorithm demo_statement_key))),
           (''flags'', JUInt (of_nat (sk_flags demo_statement_key)))]])])]"

definition demo_slices :: "bytes \<Rightarrow> json option" where
  "demo_slices bs = (if bs = [1] then Some demo_entry_json else if bs = [2] then Some demo_statement_json else None)"

definition demo_record :: rekor_proof where
  "demo_record = \<lparr>log_id = replicate 32 1, log_index = 0, p_statement = [2], canonicalized_body = [1],
     p_checkpoint = as_bytes demo_note, inclusion_path = []\<rparr>"

definition demo_log :: log_key where
  "demo_log = \<lparr>lk_id = replicate 32 1, lk_key = \<lparr>rk_scheme = EcdsaP256Sha256, rk_point = []\<rparr>, lk_origin = None\<rparr>"

definition demo_verifiers :: verifiers where
  "demo_verifiers = \<lparr>ecdsa_asn1 = (\<lambda>_ _ _. True), ecdsa_fixed = (\<lambda>_ _ _. True), ed25519 = (\<lambda>_ _ _. True)\<rparr>"

definition demo_observed :: zone_key where
  "demo_observed = \<lparr>zk_domain = demo_zone, zk_signing_zone = demo_zone, zk_key_tag = 7, zk_rdata = dnskey_rdata demo_key\<rparr>"

definition demo_checkpoint :: checkpoint where
  "demo_checkpoint = \<lparr>cp_origin = [111], tree_size = 1, root_hash = leaf_hash demo_sha [1], cp_signed = as_bytes [111, 10, 49, 10, 114, 10],
     cp_signatures = [\<lparr>ns_name = [111], ns_hint = replicate 4 0, ns_signature = replicate 28 0\<rparr>]\<rparr>"

lemma demo_checkpoint_parses: "checkpoint_parse demo_rekor_crates (as_bytes demo_note) = Inr demo_checkpoint"
proof -
  have v: "from_utf8 (as_bytes demo_note) = Some demo_note"
    by (rule from_utf8_as_bytes) (simp add: demo_note_def demo_block_def scalar_def)
  have n: "from_str_radix 10 [49] = Some 1" by (simp add: from_str_radix_def to_digit_def digit_value_def)
  have l: "length (leaf_hash demo_sha e) = 32" for e by (simp add: leaf_hash_def demo_sha_def)
  have r: "replicate 32 (0 :: u8) = replicate 4 0 @ replicate 28 0" by (simp add: replicate_add [symmetric])
  show ?thesis
    unfolding checkpoint_parse_def v
    by (simp add: demo_note_def demo_block_def lines_def strip_cr_def n base64_decode_def decode_padless_def l demo_checkpoint_def
        demo_rekor_crates_def demo_rekor_text_def str_def is_whitespace_def strip_prefix_def starts_with_def Let_def r)
qed

lemma demo_statement_key_eq:
  "sk_key_tag demo_statement_key < 2 ^ 16" "sk_algorithm demo_statement_key = 13" "sk_flags demo_statement_key = 257"
proof -
  show "sk_key_tag demo_statement_key < 2 ^ 16"
    by (simp add: demo_statement_key_def statement_key_of_def key_tag_def Let_def unat_and_mask16)
  have "dnskey_rdata demo_key = [1, 1, 3, 13, 1, 2]"
    by (simp add: dnskey_rdata_def demo_key_def DNSKEY_PROTOCOL_def numeral_2_eq_2)
  then show "sk_algorithm demo_statement_key = 13" "sk_flags demo_statement_key = 257"
    by (simp_all add: demo_statement_key_def statement_key_of_def be_value_def)
qed

lemma demo_body_parses:
  "hashed_body_parse demo_rekor_crates demo_slices [1] = Inr \<lparr>hb_digest = demo_sha (pae DSSE_PAYLOAD_TYPE [2]),
     hb_signature = replicate 32 0, hb_certificate = ss_certificate demo_zone_cert,
     hb_certificate_der = ss_build (\<lambda>_. [3]) demo_zone_cert\<rparr>"
  by (simp add: hashed_body_parse_def demo_slices_def demo_entry_json_def demo_obj_def json_at_def json_get_def json_text_def json_b64_def Let_def str_def
      base64_decode_def decode_padless_def demo_rekor_crates_def demo_rekor_text_def is_whitespace_def demo_zone_cert_parses)

lemma demo_statement_parses:
  "statement_parse demo_slices [2] = Inr \<lparr>st_apex = demo_zone, st_keys = [demo_statement_key], st_action = str ''create''\<rparr>"
  using demo_statement_key_eq
  by (simp add: statement_parse_def demo_slices_def demo_statement_json_def demo_obj_def json_at_def json_get_def json_text_def json_array_def Let_def
      parse_statement_key_def json_uint_def json_number_def eq_ignore_ascii_case_def str_def unat_of_nat)

lemma demo_record_verifies:
  "verify demo_rekor_crates demo_verifiers demo_dns demo_slices demo_record demo_observed [demo_log] (\<lambda>k. k = demo_key) =
     Inr \<lparr>v_log_index = 0, v_tree_size = 1, v_origin = [111], v_action = str ''create''\<rparr>"
proof -
  let ?cert = "ss_certificate demo_zone_cert"
  have names: "dns_names ?cert = [demo_zone]" "cert_extension ?cert OID_DNSSEC_CHAIN = Some (chain_encode demo_links)"
    by (simp_all add: ss_certificate_def demo_zone_cert_def cert_extension_def OID_DNSSEC_CHAIN_def OID_BASIC_CONSTRAINTS_def
        OID_KEY_USAGE_def OID_SUBJECT_ALT_NAME_def)
  have auth: "authorize demo_dns ?cert (\<lambda>k. k = demo_key) = Inr demo_authorized" using names by (rule demo_authorize)
  have ident: "identify demo_dns ?cert = Inr demo_zone"
    using names(1) by (simp add: identify_def single_dns_name_def demo_dns_def demo_zone_def str_def Let_def)
  have point: "p256_point (cert_spki ?cert) = Some demo_signer"
    by (simp add: ss_certificate_def demo_zone_cert_def p256_point_def p256_spki_def P256_SPKI_PREFIX_def demo_signer_def)
  have dns: "dns_name_of demo_dns s = Inr s" "zone_of demo_dns s s" "name_eq demo_dns s s" "name_string demo_dns s = s" for s
    by (simp_all add: dns_name_of_def demo_dns_def ends_with_iff)
  have binds: "check_binds demo_rekor_crates demo_dns \<lparr>st_apex = demo_zone, st_keys = [demo_statement_key], st_action = str ''create''\<rparr>
      demo_zone demo_observed [dnskey_rdata demo_key] = Inr ()"
    by (simp add: check_binds_def same_name_def dns for_keys_def demo_statement_key_def demo_observed_def eq_ignore_ascii_case_def
        statement_key_of_def)
  show ?thesis
    by (simp add: verify_def demo_record_def demo_log_def find_log_def demo_checkpoint_parses demo_checkpoint_def verify_inclusion_def
        proof_leaf_hash_def demo_rekor_crates_def [THEN arg_cong [of _ _ sha]] demo_crates_def verify_signature_def note_hint_def
        log_key_verify_def verifies_def demo_verifiers_def demo_body_parses ident auth point dns binds demo_observed_def
        [THEN arg_cong [of _ _ zk_domain]] demo_observed_def [THEN arg_cong [of _ _ zk_signing_zone]] demo_authorized_def
        verify_ecdsa_p256_asn1_def demo_statement_parses Let_def)
qed

lemma demo_rekor_crates_ok: "crates_ok demo_rekor_crates" "inj (hex demo_rekor_crates)"
proof -
  show "crates_ok demo_rekor_crates" using demo_crates_ok by (simp add: crates_ok_def demo_rekor_crates_def)
  show "inj (hex demo_rekor_crates)"
    using demo_unhex_hex by (simp add: demo_rekor_crates_def demo_crates_def inj_def) (metis option.inject)
qed

theorem verify_sound_witness:
  "\<exists>link dk. vouched demo_dns (\<lambda>k. k = demo_key) link \<and> key_in (pl_dnskeys link) dk \<and> usable_signer dk \<and>
     demo_sha (dnskey_rdata dk) = demo_sha (dnskey_rdata demo_key)"
  using verify_sound [OF demo_record_verifies demo_rekor_crates_ok]
  by (auto simp: demo_rekor_crates_def demo_crates_def demo_observed_def)

theorem verify_logged_witness: "[[1 :: u8]] ! 0 = canonicalized_body demo_record"
proof -
  have "tree_root demo_sha [[1]] = leaf_hash demo_sha [1]" "audit_path demo_sha 0 [[1]] = []"
    by (subst tree_root.simps audit_path.simps; simp)+
  then show ?thesis
    using verify_logged [OF demo_record_verifies demo_rekor_crates_ok(1), of demo_checkpoint "[[1]]"] demo_checkpoint_parses
    by (simp add: demo_record_def proof_ok_def demo_checkpoint_def demo_rekor_crates_def demo_crates_def inclusion_inputs_def)
qed

theorem for_keys_canonical_witness:
  "for_keys demo_crates [] [[1], [2]] [] = for_keys demo_crates [] [[2], [1]] []"
proof (rule for_keys_canonical)
  have "demo_hex (demo_sha [1]) \<noteq> demo_hex (demo_sha [2])" using demo_unhex_hex [of "demo_sha [1]"] demo_unhex_hex [of "demo_sha [2]"]
    by (auto simp: demo_sha_def)
  then show "inj_on (\<lambda>r. hex demo_crates (sha demo_crates r)) (set [[1], [2]])" by (simp add: demo_crates_def)
qed (simp add: add_mset_commute)

end
