(* ===== verification/Membership.thy ===== *)
theory Membership
  imports Lock_Types Rust_Maps Text_Ops "HOL-Library.Multiset"
begin

text \<open>
  Membership records (\<^verbatim>\<open>synch-net/src/dns.rs\<close>): the TXT records that bind device keys to origins, the member
  set a domain's records make up, and the record of a control plane. Labels, domains and origins are
  decided by the separately verified library and keys by the key library; both are the record
  \<open>origin_lib\<close>. The member set does not depend on the order in which the records arrive, and a key that
  is claimed twice under different names is bound to none of them.
\<close>

section \<open>Records\<close>

record origin_lib =
  normalize_label :: "rstr \<Rightarrow> rstr option"
  normalize_domain :: "rstr \<Rightarrow> rstr option"
  origin_named :: "rstr \<Rightarrow> rstr \<Rightarrow> origin_id option"
  from_z32 :: "rstr \<Rightarrow> node_id option"
  key_valid :: "node_id \<Rightarrow> bool"

definition TXT_PREFIX :: rstr where "TXT_PREFIX = str ''_synchronicity''"
definition RECORD_VERSION_TAG :: rstr where "RECORD_VERSION_TAG = str ''sync1''"
definition CP_TXT_PREFIX :: rstr where "CP_TXT_PREFIX = str ''_synchronicity-cp''"
definition CP_RECORD_VERSION_TAG :: rstr where "CP_RECORD_VERSION_TAG = str ''synccp1''"
definition REKOR_TXT_PREFIX :: rstr where "REKOR_TXT_PREFIX = str ''_synchronicity-rekor''"

definition query_name :: "rstr \<Rightarrow> rstr" where
  "query_name domain = TXT_PREFIX @ str ''.'' @ domain"

definition rekor_query_name :: "rstr \<Rightarrow> rstr" where
  "rekor_query_name zone = REKOR_TXT_PREFIX @ str ''.'' @ zone"

definition rekor_part_query_name :: "rstr \<Rightarrow> nat \<Rightarrow> rstr" where
  "rekor_part_query_name zone index =
     (if index = 0 \<or> index = 1 then rekor_query_name zone
      else REKOR_TXT_PREFIX @ str ''-'' @ fmt_nat 10 index @ str ''.'' @ zone)"

definition control_plane_query_name :: "rstr \<Rightarrow> rstr" where
  "control_plane_query_name apex = CP_TXT_PREFIX @ str ''.'' @ apex"

record member_record =
  mr_id :: "rstr option"
  mr_node_key :: node_id
  mr_relay :: "rstr option"
  mr_addr :: "rstr option"
  mr_apex :: "rstr option"

datatype record_error = NotSync1 | MissingKey | BadKey | BadLabel | Duplicate string

datatype net_error =
  NetDns | RekorAbsent | RekorMalformed | RekorAttribution | RekorBinding | RekorInclusion | RekorCheckpoint | RekorUnknownLog |
  RekorChain

definition record_origin :: "origin_lib \<Rightarrow> rstr \<Rightarrow> member_record \<Rightarrow> net_error + origin_id" where
  "record_origin v domain r =
     (case mr_id r of Some i \<Rightarrow> ok_or NetDns (origin_named v i domain) | None \<Rightarrow> Inr (Key (mr_node_key r)))"

text \<open>The fields seen so far: the key is still optional.\<close>

record record_fields =
  rf_id :: "rstr option"
  rf_node_key :: "node_id option"
  rf_relay :: "rstr option"
  rf_addr :: "rstr option"
  rf_apex :: "rstr option"

fun parse_record_fields :: "origin_lib \<Rightarrow> rstr list \<Rightarrow> record_fields \<Rightarrow> record_error + record_fields" where
  "parse_record_fields v [] f = Inr f"
| "parse_record_fields v (field # rest) f =
     (case split_once 61 field of
        None \<Rightarrow> parse_record_fields v rest f
      | Some (key, val) \<Rightarrow>
          if key = str ''id'' then
            if rf_id f \<noteq> None then Inl (Duplicate ''id'')
            else result_bind (ok_or BadLabel (normalize_label v val)) (\<lambda>i. parse_record_fields v rest (f\<lparr>rf_id := Some i\<rparr>))
          else if key = str ''nk'' then
            if rf_node_key f \<noteq> None then Inl (Duplicate ''nk'')
            else result_bind (ok_or BadKey (from_z32 v val)) (\<lambda>k. parse_record_fields v rest (f\<lparr>rf_node_key := Some k\<rparr>))
          else if key = str ''relay'' then parse_record_fields v rest (f\<lparr>rf_relay := Some val\<rparr>)
          else if key = str ''addr'' then parse_record_fields v rest (f\<lparr>rf_addr := Some val\<rparr>)
          else if key = str ''apex'' then
            if rf_apex f \<noteq> None then Inl (Duplicate ''apex'')
            else parse_record_fields v rest (f\<lparr>rf_apex := Some (map ascii_lower val)\<rparr>)
          else parse_record_fields v rest f)"

definition parse_record :: "origin_lib \<Rightarrow> rstr \<Rightarrow> record_error + member_record" where
  "parse_record v s =
     (case split_whitespace s of
        [] \<Rightarrow> Inl NotSync1
      | first # others \<Rightarrow>
          if first \<noteq> str ''v='' @ RECORD_VERSION_TAG then Inl NotSync1
          else
            result_bind (parse_record_fields v others
              \<lparr>rf_id = None, rf_node_key = None, rf_relay = None, rf_addr = None, rf_apex = None\<rparr>) (\<lambda>f.
            result_bind (ok_or MissingKey (rf_node_key f)) (\<lambda>key.
            Inr \<lparr>mr_id = rf_id f, mr_node_key = key, mr_relay = rf_relay f, mr_addr = rf_addr f, mr_apex = rf_apex f\<rparr>)))"

section \<open>Control planes\<close>

datatype cp_record_error = NotSyncCp1 | MissingUrl | BadUrl | CpDuplicate string

fun parse_cp_fields :: "rstr list \<Rightarrow> rstr option \<Rightarrow> cp_record_error + rstr option" where
  "parse_cp_fields [] url = Inr url"
| "parse_cp_fields (field # rest) url =
     (case split_once 61 field of
        None \<Rightarrow> parse_cp_fields rest url
      | Some (key, val) \<Rightarrow>
          if key = str ''url'' then
            if url \<noteq> None then Inl (CpDuplicate ''url'') else parse_cp_fields rest (Some val)
          else parse_cp_fields rest url)"

definition parse_control_plane_record :: "rstr \<Rightarrow> cp_record_error + rstr" where
  "parse_control_plane_record s =
     (case split_whitespace s of
        [] \<Rightarrow> Inl NotSyncCp1
      | first # others \<Rightarrow>
          if first \<noteq> str ''v='' @ CP_RECORD_VERSION_TAG then Inl NotSyncCp1
          else
            result_bind (parse_cp_fields others None) (\<lambda>url.
            result_bind (ok_or MissingUrl url) (\<lambda>url.
            let trimmed = trim_end (\<lambda>c. c = 47) url;
                has_origin = list_ex (\<lambda>scheme. starts_with scheme trimmed \<and> utf8_len trimmed > utf8_len scheme)
                  [str ''https://'', str ''http://'']
            in if \<not> has_origin then Inl BadUrl else Inr trimmed)))"

section \<open>Member sets\<close>

datatype dial_hint = Relay rstr | Addr rstr

record member_set =
  ms_domain :: rstr
  ms_bindings :: "(origin_id \<times> node_id) list"
  ms_ambiguous_keys :: "node_id list"
  ms_rejected :: "(rstr \<times> record_error) list"
  ms_hints :: "(node_id, dial_hint list) btmap"

fun parse_all :: "origin_lib \<Rightarrow> rstr list \<Rightarrow> member_record list \<times> (rstr \<times> record_error) list" where
  "parse_all v [] = ([], [])"
| "parse_all v (s # ss) =
     (let (parsed, rejected) = parse_all v ss in
      case parse_record v s of Inr r \<Rightarrow> (r # parsed, rejected) | Inl e \<Rightarrow> (parsed, (s, e) # rejected))"

definition entry_or_default :: "'k :: linorder \<Rightarrow> ('k, 'a list) btmap \<Rightarrow> 'a list" where
  "entry_or_default k m = (case map_of m k of Some xs \<Rightarrow> xs | None \<Rightarrow> [])"

definition identities :: "member_record list \<Rightarrow> (node_id, rstr option list) btmap" where
  "identities parsed =
     fold (\<lambda>r m. bt_insert (mr_node_key r) (List.insert (mr_id r) (entry_or_default (mr_node_key r) m)) m) parsed []"

definition ambiguous_of :: "member_record list \<Rightarrow> node_id list" where
  "ambiguous_of parsed = map fst (filter (\<lambda>(_, ids). length ids > 1) (identities parsed))"

definition record_hints :: "member_record \<Rightarrow> dial_hint list" where
  "record_hints r =
     (case mr_relay r of Some text \<Rightarrow> [Relay text] | None \<Rightarrow> []) @ (case mr_addr r of Some text \<Rightarrow> [Addr text] | None \<Rightarrow> [])"

definition add_hints :: "member_record \<Rightarrow> (node_id, dial_hint list) btmap \<Rightarrow> (node_id, dial_hint list) btmap" where
  "add_hints r hints =
     fold (\<lambda>hint m. bt_insert (mr_node_key r) (entry_or_default (mr_node_key r) m @ [hint]) m) (record_hints r) hints"

fun bind_records ::
  "origin_lib \<Rightarrow> rstr \<Rightarrow> node_id list \<Rightarrow> member_record list \<Rightarrow> (origin_id \<times> node_id) list \<Rightarrow> (node_id, dial_hint list) btmap \<Rightarrow>
     net_error + (origin_id \<times> node_id) list \<times> (node_id, dial_hint list) btmap" where
  "bind_records v domain ambiguous [] bindings hints = Inr (bindings, hints)"
| "bind_records v domain ambiguous (r # rs) bindings hints =
     (if mr_node_key r \<in> set ambiguous then bind_records v domain ambiguous rs bindings hints
      else
        result_bind (record_origin v domain r) (\<lambda>origin.
        let binding = (origin, mr_node_key r) in
        bind_records v domain ambiguous rs (if binding \<in> set bindings then bindings else bindings @ [binding]) (add_hints r hints)))"

definition from_records :: "origin_lib \<Rightarrow> rstr \<Rightarrow> rstr list \<Rightarrow> net_error + member_set" where
  "from_records v domain records =
     result_bind (ok_or NetDns (normalize_domain v domain)) (\<lambda>domain.
     let (parsed, rejected) = parse_all v records; ambiguous = ambiguous_of parsed in
     result_bind (bind_records v domain ambiguous parsed [] []) (\<lambda>(bindings, hints).
     Inr \<lparr>ms_domain = domain, ms_bindings = sort bindings, ms_ambiguous_keys = filter (key_valid v) ambiguous,
       ms_rejected = rejected, ms_hints = hints\<rparr>))"

definition self_origin :: "member_set \<Rightarrow> node_id \<Rightarrow> origin_id option" where
  "self_origin ms key =
     (if key \<in> set (ms_ambiguous_keys ms) then None
      else (case map fst (filter (\<lambda>(_, k). k = key) (ms_bindings ms)) of [only] \<Rightarrow> Some only | _ \<Rightarrow> None))"

section \<open>Ambiguous keys\<close>

lemma entry_insert: "entry_or_default k (bt_insert k' xs m) = (if k = k' then xs else entry_or_default k m)"
  by (simp add: entry_or_default_def bt.get_insert)

lemma identities_fold:
  fixes m :: "(node_id, rstr option list) btmap"
  defines "f \<equiv> \<lambda>r m. bt_insert (mr_node_key r) (List.insert (mr_id r) (entry_or_default (mr_node_key r) m)) m"
  assumes "bt_invar m" "\<And>k. distinct (entry_or_default k m)"
  shows "bt_invar (fold f parsed m)" "distinct (entry_or_default k (fold f parsed m))"
    "set (entry_or_default k (fold f parsed m)) = set (entry_or_default k m) \<union> mr_id ` {r \<in> set parsed. mr_node_key r = k}"
proof -
  have "bt_invar (fold f parsed m) \<and> (\<forall>k. distinct (entry_or_default k (fold f parsed m)) \<and>
    set (entry_or_default k (fold f parsed m)) = set (entry_or_default k m) \<union> mr_id ` {r \<in> set parsed. mr_node_key r = k})"
    using assms(2,3)
  proof (induction parsed arbitrary: m)
    case (Cons r parsed)
    have "bt_invar (f r m)" "distinct (entry_or_default k (f r m))" for k
      using Cons.prems by (auto simp: f_def bt_invar_insert entry_insert)
    then show ?case using Cons.IH [of "f r m"] by (auto simp: f_def entry_insert)
  qed auto
  then show "bt_invar (fold f parsed m)" "distinct (entry_or_default k (fold f parsed m))"
    "set (entry_or_default k (fold f parsed m)) = set (entry_or_default k m) \<union> mr_id ` {r \<in> set parsed. mr_node_key r = k}"
    by simp_all
qed

lemma identities_facts:
  "bt_invar (identities parsed)" "distinct (entry_or_default k (identities parsed))"
  "set (entry_or_default k (identities parsed)) = mr_id ` {r \<in> set parsed. mr_node_key r = k}"
  unfolding identities_def using identities_fold [where m = "[]" and parsed = parsed] by (simp_all add: entry_or_default_def)

lemma two_elements: "distinct xs \<Longrightarrow> length xs > 1 \<longleftrightarrow> (\<exists>a \<in> set xs. \<exists>b \<in> set xs. a \<noteq> b)"
  by (cases xs; cases "tl xs") auto

lemma ambiguous_iff:
  "k \<in> set (ambiguous_of parsed) \<longleftrightarrow>
     (\<exists>r \<in> set parsed. \<exists>r' \<in> set parsed. mr_node_key r = k \<and> mr_node_key r' = k \<and> mr_id r \<noteq> mr_id r')"
proof -
  have "k \<in> set (ambiguous_of parsed) \<longleftrightarrow> length (entry_or_default k (identities parsed)) > 1"
  proof (cases "map_of (identities parsed) k")
    case None
    then have "k \<notin> fst ` set (identities parsed)" by (simp add: map_of_eq_None_iff)
    then show ?thesis using None by (auto simp: ambiguous_of_def entry_or_default_def)
  next
    case (Some ids)
    have "(k, ids') \<in> set (identities parsed) \<longleftrightarrow> ids' = ids" for ids'
      using Some bt.get_iff_mem [OF identities_facts(1), of parsed k] by (metis option.inject)
    then show ?thesis using Some by (auto simp: ambiguous_of_def entry_or_default_def image_iff)
  qed
  then show ?thesis using two_elements [OF identities_facts(2), of k parsed] unfolding identities_facts(3) by auto
qed

lemma ambiguous_sorted: "sorted (ambiguous_of parsed)" "distinct (ambiguous_of parsed)"
proof -
  have "sorted_wrt (<) (map fst (identities parsed))" using identities_facts(1) [of parsed] by (simp add: bt_invar_def)
  then have "sorted_wrt (<) (ambiguous_of parsed)" unfolding ambiguous_of_def sorted_wrt_map by (rule sorted_wrt_filter)
  then show "sorted (ambiguous_of parsed)" "distinct (ambiguous_of parsed)" by (simp_all add: strict_sorted_iff)
qed

lemma ambiguous_set: "set parsed = set parsed' \<Longrightarrow> ambiguous_of parsed = ambiguous_of parsed'"
  by (rule sorted_distinct_set_unique) (auto simp: ambiguous_sorted ambiguous_iff)

section \<open>Bindings and hints\<close>

lemma hints_fold:
  "entry_or_default k (fold (\<lambda>hint m. bt_insert k' (entry_or_default k' m @ [hint]) m) hs m) =
   entry_or_default k m @ (if k = k' then hs else [])"
  by (induction hs arbitrary: m) (auto simp: entry_insert)

lemma add_hints_entry: "entry_or_default k (add_hints r m) = entry_or_default k m @ (if mr_node_key r = k then record_hints r else [])"
  by (simp add: add_hints_def hints_fold)

lemma bind_records_Inr:
  "bind_records v domain ambiguous rs b h = Inr (b', h') \<Longrightarrow> distinct b \<Longrightarrow>
   distinct b' \<and> set b' = set b \<union> {(origin, k). \<exists>r \<in> set rs. mr_node_key r = k \<and> k \<notin> set ambiguous \<and> record_origin v domain r = Inr origin} \<and>
   (\<forall>k. entry_or_default k h' = entry_or_default k h @
      concat (map record_hints (filter (\<lambda>r. mr_node_key r = k \<and> k \<notin> set ambiguous) rs)))"
proof (induction rs arbitrary: b h)
  case (Cons r rs)
  show ?case
  proof (cases "mr_node_key r \<in> set ambiguous")
    case True
    then show ?thesis using Cons by (auto simp: fun_eq_iff)
  next
    case False
    then obtain origin where o1: "record_origin v domain r = Inr origin" using Cons.prems by auto
    define b1 where "b1 = (if (origin, mr_node_key r) \<in> set b then b else b @ [(origin, mr_node_key r)])"
    have b1: "distinct b1" "set b1 = insert (origin, mr_node_key r) (set b)" using Cons.prems(2) by (auto simp: b1_def)
    have "bind_records v domain ambiguous rs b1 (add_hints r h) = Inr (b', h')"
      using Cons.prems(1) False o1 by (simp add: b1_def Let_def)
    from Cons.IH [OF this b1(1)] show ?thesis using False o1 b1(2) by (auto simp: add_hints_entry)
  qed
qed simp

lemma bind_records_ok:
  "(\<exists>b' h'. bind_records v domain ambiguous rs b h = Inr (b', h')) \<longleftrightarrow>
   (\<forall>r \<in> set rs. mr_node_key r \<notin> set ambiguous \<longrightarrow> is_ok (record_origin v domain r))"
proof (induction rs arbitrary: b h)
  case (Cons r rs)
  show ?case
  proof (cases "record_origin v domain r")
    case (Inr origin)
    then show ?thesis using Cons.IH by (simp add: Let_def)
  qed (use Cons.IH in \<open>auto\<close>)
qed simp

lemma parse_all_mset:
  "set (fst (parse_all v records)) = {r. \<exists>s \<in> set records. parse_record v s = Inr r}"
  "mset records = mset records' \<Longrightarrow> mset (fst (parse_all v records)) = mset (fst (parse_all v records')) \<and>
     mset (snd (parse_all v records)) = mset (snd (parse_all v records'))"
proof -
  have p: "fst (parse_all v ss) = List.map_filter (\<lambda>s. case parse_record v s of Inr r \<Rightarrow> Some r | Inl _ \<Rightarrow> None) ss"
    "snd (parse_all v ss) = List.map_filter (\<lambda>s. case parse_record v s of Inr _ \<Rightarrow> None | Inl e \<Rightarrow> Some (s, e)) ss" for ss
    by (induction ss) (auto simp: map_filter_simps Let_def split: prod.splits sum.splits)
  have f: "mset ss = mset ss' \<Longrightarrow> mset (List.map_filter f ss) = mset (List.map_filter f ss')" for f :: "rstr \<Rightarrow> 'a option" and ss ss'
    by (simp add: map_filter_def)
  show "set (fst (parse_all v records)) = {r. \<exists>s \<in> set records. parse_record v s = Inr r}"
    by (induction records) (auto simp: Let_def split: prod.splits sum.splits)
  show "mset records = mset records' \<Longrightarrow> mset (fst (parse_all v records)) = mset (fst (parse_all v records')) \<and>
     mset (snd (parse_all v records)) = mset (snd (parse_all v records'))"
    unfolding p by (simp add: map_filter_def)
qed

section \<open>The member set\<close>

text \<open>The records of an answer that parse, and the keys that more than one identity claims.\<close>

definition records_of :: "origin_lib \<Rightarrow> rstr list \<Rightarrow> member_record set" where
  "records_of v records = {r. \<exists>s \<in> set records. parse_record v s = Inr r}"

definition contested :: "origin_lib \<Rightarrow> rstr list \<Rightarrow> node_id \<Rightarrow> bool" where
  "contested v records k \<longleftrightarrow>
     (\<exists>r \<in> records_of v records. \<exists>r' \<in> records_of v records. mr_node_key r = k \<and> mr_node_key r' = k \<and> mr_id r \<noteq> mr_id r')"

lemma ambiguous_contested: "k \<in> set (ambiguous_of (fst (parse_all v records))) \<longleftrightarrow> contested v records k"
  by (simp add: ambiguous_iff contested_def records_of_def parse_all_mset(1))

lemma from_records_alt:
  "from_records v domain records =
     result_bind (ok_or NetDns (normalize_domain v domain)) (\<lambda>domain.
     result_bind (bind_records v domain (ambiguous_of (fst (parse_all v records))) (fst (parse_all v records)) [] []) (\<lambda>(bindings, hints).
     Inr \<lparr>ms_domain = domain, ms_bindings = sort bindings,
       ms_ambiguous_keys = filter (key_valid v) (ambiguous_of (fst (parse_all v records))),
       ms_rejected = snd (parse_all v records), ms_hints = hints\<rparr>))"
  by (simp add: from_records_def case_prod_beta Let_def)

lemma mset_hints: "mset (concat (map f (filter P xs))) = sum_mset (image_mset (\<lambda>x. mset (f x)) (filter_mset P (mset xs)))"
  by (induction xs) auto

lemma from_records_parts:
  assumes "from_records v domain records = Inr ms"
  shows "normalize_domain v domain = Some (ms_domain ms)"
    and "sorted (ms_bindings ms)" "distinct (ms_bindings ms)"
    and "set (ms_bindings ms) = {(origin, k). \<exists>r \<in> records_of v records. mr_node_key r = k \<and> \<not> contested v records k \<and>
      record_origin v (ms_domain ms) r = Inr origin}"
    and "entry_or_default k (ms_hints ms) = concat (map record_hints (filter (\<lambda>r. mr_node_key r = k \<and> \<not> contested v records k)
      (fst (parse_all v records))))"
    and "ms_ambiguous_keys ms = filter (key_valid v) (ambiguous_of (fst (parse_all v records)))"
    and "ms_rejected ms = snd (parse_all v records)"
proof -
  from assms obtain b h where n: "normalize_domain v domain = Some (ms_domain ms)"
    and b: "bind_records v (ms_domain ms) (ambiguous_of (fst (parse_all v records))) (fst (parse_all v records)) [] [] = Inr (b, h)"
    and ms: "ms_bindings ms = sort b" "ms_hints ms = h" "ms_ambiguous_keys ms = filter (key_valid v) (ambiguous_of (fst (parse_all v records)))"
      "ms_rejected ms = snd (parse_all v records)"
    by (auto simp: from_records_alt)
  note f = bind_records_Inr [OF b distinct.simps(1) [THEN iffD2, OF TrueI]]
  have e: "entry_or_default k [] = ([] :: dial_hint list)" for k :: node_id by (simp add: entry_or_default_def)
  show "normalize_domain v domain = Some (ms_domain ms)" by (rule n)
  show "sorted (ms_bindings ms)" "distinct (ms_bindings ms)" using f by (simp_all add: ms)
  show "set (ms_bindings ms) = {(origin, k). \<exists>r \<in> records_of v records. mr_node_key r = k \<and> \<not> contested v records k \<and>
      record_origin v (ms_domain ms) r = Inr origin}"
    using f by (auto simp: ms ambiguous_contested records_of_def parse_all_mset(1))
  show "entry_or_default k (ms_hints ms) = concat (map record_hints (filter (\<lambda>r. mr_node_key r = k \<and> \<not> contested v records k)
      (fst (parse_all v records))))"
    using f by (simp add: ms e ambiguous_contested)
  show "ms_ambiguous_keys ms = filter (key_valid v) (ambiguous_of (fst (parse_all v records)))"
    "ms_rejected ms = snd (parse_all v records)" by (rule ms)+
qed

text \<open>C19. A key is bound to an origin exactly when a record of the answer says so and no other record gives that key a different
  identity; a key that two records contest is bound to nothing, and nothing they say about
  reaching it is kept.\<close>
theorem member_set_exact:
  assumes "from_records v domain records = Inr ms"
  shows "((who, k) \<in> set (ms_bindings ms) \<longleftrightarrow>
      (\<exists>r \<in> records_of v records. mr_node_key r = k \<and> record_origin v (ms_domain ms) r = Inr who \<and>
        (\<forall>r' \<in> records_of v records. mr_node_key r' = k \<longrightarrow> mr_id r' = mr_id r))) \<and>
    (hint \<in> set (entry_or_default k (ms_hints ms)) \<longleftrightarrow>
      (\<exists>r \<in> records_of v records. mr_node_key r = k \<and> hint \<in> set (record_hints r) \<and> \<not> contested v records k))"
proof
  note f = from_records_parts [OF assms]
  let ?R = "records_of v records"
  have c: "\<not> contested v records k \<longleftrightarrow> (\<forall>r' \<in> ?R. mr_node_key r' = k \<longrightarrow> mr_id r' = mr_id r)"
    if "r \<in> ?R" "mr_node_key r = k" for r
    using that unfolding contested_def by metis
  show "(who, k) \<in> set (ms_bindings ms) \<longleftrightarrow>
      (\<exists>r \<in> ?R. mr_node_key r = k \<and> record_origin v (ms_domain ms) r = Inr who \<and> (\<forall>r' \<in> ?R. mr_node_key r' = k \<longrightarrow> mr_id r' = mr_id r))"
    unfolding f(4) using c by blast
  show "hint \<in> set (entry_or_default k (ms_hints ms)) \<longleftrightarrow>
      (\<exists>r \<in> ?R. mr_node_key r = k \<and> hint \<in> set (record_hints r) \<and> \<not> contested v records k)"
    unfolding f(5) by (auto simp: parse_all_mset(1) records_of_def)
qed

text \<open>The answer to a DNS query has no order: records that arrive in another order make the same member set, with
  the same bindings in the same places, the same ambiguous keys, and the same hints and
  rejected records up to order; and if one order is refused, so is every other.\<close>
theorem member_set_order:
  assumes "mset records = mset records'" "from_records v domain records = Inr ms"
  shows "\<exists>ms'. from_records v domain records' = Inr ms' \<and> ms_domain ms' = ms_domain ms \<and> ms_bindings ms' = ms_bindings ms \<and>
    ms_ambiguous_keys ms' = ms_ambiguous_keys ms \<and> mset (ms_rejected ms') = mset (ms_rejected ms) \<and>
    (\<forall>k. mset (entry_or_default k (ms_hints ms')) = mset (entry_or_default k (ms_hints ms)))"
proof -
  let ?p = "fst (parse_all v records)" and ?p' = "fst (parse_all v records')"
  note f = from_records_parts [OF assms(2)]
  have p: "mset ?p = mset ?p'" "mset (snd (parse_all v records)) = mset (snd (parse_all v records'))"
    using parse_all_mset(2) [OF assms(1), of v] by simp_all
  have set: "set ?p = set ?p'" using p(1) by (rule mset_eq_setD)
  have rec: "records_of v records' = records_of v records" using mset_eq_setD [OF assms(1)] by (simp add: records_of_def)
  have con: "contested v records' = contested v records" by (simp add: contested_def rec fun_eq_iff)
  have amb: "ambiguous_of ?p' = ambiguous_of ?p" using set [symmetric] by (rule ambiguous_set)
  obtain b h where "bind_records v (ms_domain ms) (ambiguous_of ?p) ?p [] [] = Inr (b, h)"
    using assms(2) f(1) by (auto simp: from_records_alt)
  then have "\<exists>b h. bind_records v (ms_domain ms) (ambiguous_of ?p') ?p' [] [] = Inr (b, h)"
    using bind_records_ok [of v "ms_domain ms" "ambiguous_of ?p" ?p "[]" "[]"] bind_records_ok [of v "ms_domain ms" "ambiguous_of ?p'" ?p' "[]" "[]"]
    unfolding set amb by blast
  then obtain ms' where ms': "from_records v domain records' = Inr ms'" using f(1) by (auto simp: from_records_alt)
  note f' = from_records_parts [OF ms']
  have d: "ms_domain ms' = ms_domain ms" using f(1) f'(1) by simp
  have "set (ms_bindings ms') = set (ms_bindings ms)" unfolding f(4) f'(4) d rec con ..
  then have "ms_bindings ms' = ms_bindings ms" using f(2,3) f'(2,3) by (intro sorted_distinct_set_unique)
  moreover have "mset (entry_or_default k (ms_hints ms')) = mset (entry_or_default k (ms_hints ms))" for k
    unfolding f(5) f'(5) con mset_hints p(1) ..
  ultimately show ?thesis using ms' d f(6,7) f'(6,7) amb p(2) by auto
qed

text \<open>A node finds its own origin exactly when its key is bound, and then there is only one.\<close>

lemma record_origin_same: "mr_id r = mr_id r' \<Longrightarrow> mr_node_key r = mr_node_key r' \<Longrightarrow> record_origin v d r = record_origin v d r'"
  by (simp add: record_origin_def split: option.split)

lemma distinct_set_single: "distinct xs \<Longrightarrow> set xs = {x} \<Longrightarrow> xs = [x]"
  by (cases xs; cases "tl xs") auto

lemma self_origin_iff:
  assumes "from_records v domain records = Inr ms"
  shows "self_origin ms k = Some who \<longleftrightarrow> (who, k) \<in> set (ms_bindings ms)"
proof -
  note f = from_records_parts [OF assms]
  let ?l = "map fst (filter (\<lambda>(_, k'). k' = k) (ms_bindings ms))"
  have "inj_on fst (set (filter (\<lambda>(_, k'). k' = k) (ms_bindings ms)))" by (auto simp: inj_on_def)
  then have d: "distinct ?l" using f(3) by (simp add: distinct_map)
  have m: "w \<in> set ?l \<longleftrightarrow> (w, k) \<in> set (ms_bindings ms)" for w
    by (simp add: image_iff)
  have one: "w = w'" if b: "(w, k) \<in> set (ms_bindings ms)" "(w', k) \<in> set (ms_bindings ms)" for w w'
  proof -
    obtain r r' where "r \<in> records_of v records" "mr_node_key r = k" "\<not> contested v records k" "record_origin v (ms_domain ms) r = Inr w"
      "r' \<in> records_of v records" "mr_node_key r' = k" "record_origin v (ms_domain ms) r' = Inr w'"
      using b unfolding f(4) mem_Collect_eq prod.case by blast
    moreover from this have "mr_id r = mr_id r'" unfolding contested_def by blast
    ultimately show ?thesis using record_origin_same [of r r' v "ms_domain ms"] by simp
  qed
  have amb: "k \<in> set (ms_ambiguous_keys ms) \<Longrightarrow> (w, k) \<notin> set (ms_bindings ms)" for w
    unfolding f(4,6) by (simp add: ambiguous_contested)
  show ?thesis
  proof (cases "\<exists>w. (w, k) \<in> set (ms_bindings ms)")
    case True
    then obtain w where w: "(w, k) \<in> set (ms_bindings ms)" by blast
    then have "set ?l = {w}" using m one by blast
    with d have "?l = [w]" by (rule distinct_set_single)
    moreover have "k \<notin> set (ms_ambiguous_keys ms)" using amb w by blast
    ultimately have "self_origin ms k = Some w" by (simp only: self_origin_def if_False list.case)
    then have "self_origin ms k = Some who \<longleftrightarrow> who = w" by auto
    moreover have "who = w \<longleftrightarrow> (who, k) \<in> set (ms_bindings ms)" using w one [of who w] by (rule_tac iffI) simp_all
    ultimately show ?thesis by (rule trans)
  next
    case False
    then have "w \<notin> set ?l" for w unfolding m by blast
    then have "set ?l = {}" by (simp only: set_eq_iff empty_iff simp_thms)
    then have "?l = []" by (simp only: set_empty)
    then have "self_origin ms k = None" by (simp only: self_origin_def list.case if_cancel)
    then show ?thesis using False by simp
  qed
qed

definition demo_origin_lib :: origin_lib where
  "demo_origin_lib = \<lparr>normalize_label = Some, normalize_domain = Some, origin_named = (\<lambda>i d. Some (Named d i)),
     from_z32 = (\<lambda>s. Some (map of_nat s)), key_valid = (\<lambda>_. True)\<rparr>"

definition demo_member_records :: "rstr list" where
  "demo_member_records = [str ''v=sync1 id=a nk=K addr=x'', str ''v=sync1 nk=L id=b'', str ''v=sync1 nk=L id=c'', str ''junk'']"

lemma demo_records_parse:
  "parse_record demo_origin_lib (str ''v=sync1 id=a nk=K addr=x'') =
     Inr \<lparr>mr_id = Some (str ''a''), mr_node_key = [75], mr_relay = None, mr_addr = Some (str ''x''), mr_apex = None\<rparr>"
  "parse_record demo_origin_lib (str ''v=sync1 nk=L id=b'') =
     Inr \<lparr>mr_id = Some (str ''b''), mr_node_key = [76], mr_relay = None, mr_addr = None, mr_apex = None\<rparr>"
  "parse_record demo_origin_lib (str ''v=sync1 nk=L id=c'') =
     Inr \<lparr>mr_id = Some (str ''c''), mr_node_key = [76], mr_relay = None, mr_addr = None, mr_apex = None\<rparr>"
  "parse_record demo_origin_lib (str ''junk'') = Inl NotSync1"
  by (simp_all add: parse_record_def split_whitespace_def str_def is_whitespace_def RECORD_VERSION_TAG_def demo_origin_lib_def)

definition demo_member_set :: member_set where
  "demo_member_set = \<lparr>ms_domain = str ''d'', ms_bindings = [(Named (str ''d'') (str ''a''), [75])], ms_ambiguous_keys = [[76]],
     ms_rejected = [(str ''junk'', NotSync1)], ms_hints = [([75], [Addr (str ''x'')])]\<rparr>"

lemma demo_member_set: "from_records demo_origin_lib (str ''d'') demo_member_records = Inr demo_member_set"
proof -
  have p: "parse_all demo_origin_lib demo_member_records =
    ([\<lparr>mr_id = Some (str ''a''), mr_node_key = [75], mr_relay = None, mr_addr = Some (str ''x''), mr_apex = None\<rparr>,
      \<lparr>mr_id = Some (str ''b''), mr_node_key = [76], mr_relay = None, mr_addr = None, mr_apex = None\<rparr>,
      \<lparr>mr_id = Some (str ''c''), mr_node_key = [76], mr_relay = None, mr_addr = None, mr_apex = None\<rparr>], [(str ''junk'', NotSync1)])"
    by (simp add: demo_member_records_def demo_records_parse)
  have a: "ambiguous_of (fst (parse_all demo_origin_lib demo_member_records)) = [[76]]"
    by (simp add: p ambiguous_of_def identities_def entry_or_default_def str_def word_less_nat_alt)
  show ?thesis
    by (simp add: from_records_alt a)
      (simp add: p, simp add: demo_origin_lib_def record_origin_def demo_member_set_def add_hints_def record_hints_def entry_or_default_def)
qed

theorem member_set_exact_witness:
  "(Named (str ''d'') (str ''a''), [75]) \<in> set (ms_bindings demo_member_set) \<and>
   (\<exists>r \<in> records_of demo_origin_lib demo_member_records. mr_node_key r = [75] \<and>
      record_origin demo_origin_lib (ms_domain demo_member_set) r = Inr (Named (str ''d'') (str ''a'')))"
proof -
  have b: "(Named (str ''d'') (str ''a''), [75]) \<in> set (ms_bindings demo_member_set)" by (simp add: demo_member_set_def)
  then show ?thesis using member_set_exact [OF demo_member_set, of "Named (str ''d'') (str ''a'')" "[75]"] by blast
qed

theorem member_set_order_witness:
  "\<exists>ms'. from_records demo_origin_lib (str ''d'') (rev demo_member_records) = Inr ms' \<and> ms_bindings ms' = ms_bindings demo_member_set"
  using member_set_order [of demo_member_records "rev demo_member_records", OF _ demo_member_set] by auto

end
