(* ===== verification/Proof_Memo.thy ===== *)
theory Proof_Memo
  imports Rekor_Verify Membership
begin

text \<open>
  The offline half of the transparency gate (\<^verbatim>\<open>synch-net/src/dns.rs\<close>): the proofs that a zone
  publishes are put together and verified one after the other, at most four of them, and a success is
  remembered under a digest of everything that went into it. The digest is an argument; the hasher is
  fed field by field, which is the digest of the fields one after the other. The lock of the memo is
  taken once to look and once more to remember, so other resolutions may run between the two: the runs
  of the memo below interleave these steps freely. What is shown: the memo never holds more than it
  may, and nobody can tell it is there.
\<close>

section \<open>The memo\<close>

record proof_memo =
  pm_pins :: log_keys
  pm_entries :: "(bytes, verified_record) btmap"
  pm_order :: "bytes list"

definition memo_default :: proof_memo where
  "memo_default = \<lparr>pm_pins = [], pm_entries = [], pm_order = []\<rparr>"

definition MAX_PROOF_MEMOS :: nat where "MAX_PROOF_MEMOS = 4096"

definition use_pins :: "log_keys \<Rightarrow> proof_memo \<Rightarrow> proof_memo" where
  "use_pins pins m = (if pm_pins m \<noteq> pins then \<lparr>pm_pins = pins, pm_entries = [], pm_order = []\<rparr> else m)"

definition memo_get :: "log_keys \<Rightarrow> bytes \<Rightarrow> proof_memo \<Rightarrow> verified_record option \<times> proof_memo" where
  "memo_get pins input m = (let m = use_pins pins m in (map_of (pm_entries m) input, m))"

definition memo_insert :: "log_keys \<Rightarrow> bytes \<Rightarrow> verified_record \<Rightarrow> proof_memo \<Rightarrow> proof_memo" where
  "memo_insert pins input v m =
     (let m = use_pins pins m in
      if map_of (pm_entries m) input \<noteq> None then m
      else
        let m = (if length (pm_entries m) = MAX_PROOF_MEMOS
                 then (case pm_order m of [] \<Rightarrow> m
                       | oldest # order \<Rightarrow> m\<lparr>pm_order := order, pm_entries := bt_remove oldest (pm_entries m)\<rparr>)
                 else m)
        in m\<lparr>pm_order := pm_order m @ [input], pm_entries := bt_insert input v (pm_entries m)\<rparr>)"

section \<open>What a result is remembered under\<close>

definition memo_field :: "bytes \<Rightarrow> bytes" where
  "memo_field f = be_bytes 8 (length f) @ f"

definition memo_fields :: "zone_key \<Rightarrow> rstr list \<Rightarrow> bytes list" where
  "memo_fields key records =
     [as_bytes (zk_domain key), as_bytes (zk_signing_zone key), be_bytes 2 (zk_key_tag key), zk_rdata key] @
     sort (map as_bytes records)"

definition memo_input :: "zone_key \<Rightarrow> rstr list \<Rightarrow> bytes" where
  "memo_input key records = concat (map memo_field (memo_fields key records))"

definition proof_memo_key :: "(bytes \<Rightarrow> bytes) \<Rightarrow> zone_key \<Rightarrow> rstr list \<Rightarrow> bytes" where
  "proof_memo_key blake3 key records = blake3 (memo_input key records)"

section \<open>Verifying what a zone publishes\<close>

definition MAX_PROOF_CANDIDATES :: nat where "MAX_PROOF_CANDIDATES = 4"

definition candidates_to_verify :: "rekor_proof list \<Rightarrow> rekor_proof list" where
  "candidates_to_verify candidates = take MAX_PROOF_CANDIDATES candidates"

definition rekor_error :: "proof_error \<Rightarrow> net_error" where
  "rekor_error e =
     (case e of
        proof_error.Malformed \<Rightarrow> RekorMalformed | Attribution \<Rightarrow> RekorAttribution | Binding \<Rightarrow> RekorBinding
      | InclusionFailed \<Rightarrow> RekorInclusion | CheckpointBad \<Rightarrow> RekorCheckpoint | UnknownLog \<Rightarrow> RekorUnknownLog
      | ChainBad \<Rightarrow> RekorChain)"

text \<open>What \<open>rekor::verify\<close> needs beside a proof and a key: the libraries and the trust anchors.\<close>

record 'n gate_libs =
  gl_crates :: crates
  gl_verifiers :: verifiers
  gl_dns :: "'n dns"
  gl_json :: "bytes \<Rightarrow> json option"
  gl_anchors :: "dnskey \<Rightarrow> bool"
  gl_blake3 :: "bytes \<Rightarrow> bytes"

definition gate_verify :: "('n, 'z) gate_libs_scheme \<Rightarrow> rekor_proof \<Rightarrow> zone_key \<Rightarrow> log_keys \<Rightarrow> proof_error + verified_record" where
  "gate_verify l p key pins = verify (gl_crates l) (gl_verifiers l) (gl_dns l) (gl_json l) p key pins (gl_anchors l)"

fun read_candidates :: "(proof_error + rekor_proof) list \<Rightarrow> rekor_proof list \<times> proof_error option" where
  "read_candidates [] = ([], None)"
| "read_candidates (r # rs) =
     (let (candidates, malformed) = read_candidates rs in
      case r of
        Inr c \<Rightarrow> (c # candidates, malformed)
      | Inl e \<Rightarrow> (candidates, case malformed of None \<Rightarrow> Some e | Some _ \<Rightarrow> malformed))"

fun try_candidates ::
  "('n, 'z) gate_libs_scheme \<Rightarrow> zone_key \<Rightarrow> log_keys \<Rightarrow> proof_error option \<Rightarrow> rekor_proof list \<Rightarrow>
     proof_error option + verified_record"
where
  "try_candidates l key pins e [] = Inl e"
| "try_candidates l key pins e (c # cs) =
     (case gate_verify l c key pins of Inr v \<Rightarrow> Inr v | Inl e \<Rightarrow> try_candidates l key pins (Some e) cs)"

text \<open>What follows a miss, without remembering it. The list that is tried is not empty, so an error
  is at hand when none of it verifies.\<close>

definition check_records :: "('n, 'z) gate_libs_scheme \<Rightarrow> log_keys \<Rightarrow> rstr list \<Rightarrow> zone_key \<Rightarrow> net_error + verified_record" where
  "check_records l pins records key =
     (let (candidates, malformed) = read_candidates (proofs_from_txt (gl_crates l) records) in
      if candidates = [] then
        Inl (case malformed of Some _ \<Rightarrow> RekorMalformed | None \<Rightarrow> RekorAbsent)
      else map_err (\<lambda>e. rekor_error (the e)) (try_candidates l key pins None (candidates_to_verify candidates)))"

definition verify_proof_records ::
  "('n, 'z) gate_libs_scheme \<Rightarrow> log_keys \<Rightarrow> rstr list \<Rightarrow> zone_key \<Rightarrow> proof_memo \<Rightarrow>
     (net_error + verified_record) \<times> proof_memo"
where
  "verify_proof_records l pins records key m =
     (let input = proof_memo_key (gl_blake3 l) key records;
          (hit, m) = memo_get pins input m
      in case hit of
           Some v \<Rightarrow> (Inr v, m)
         | None \<Rightarrow>
             (case check_records l pins records key of
                Inr v \<Rightarrow> (Inr v, memo_insert pins input v m)
              | Inl e \<Rightarrow> (Inl e, m)))"

section \<open>The memo stays within its bound\<close>

definition memo_wf :: "proof_memo \<Rightarrow> bool" where
  "memo_wf m \<longleftrightarrow> bt_invar (pm_entries m) \<and> distinct (pm_order m) \<and> set (pm_order m) = fst ` set (pm_entries m) \<and>
     length (pm_entries m) \<le> MAX_PROOF_MEMOS"

lemma memo_wf_default: "memo_wf memo_default"
  by (simp add: memo_wf_def memo_default_def)

lemma use_pins_simps [simp]: "pm_pins (use_pins pins m) = pins" "use_pins pins (use_pins pins m) = use_pins pins m"
  by (simp_all add: use_pins_def)

lemma use_pins_entries: "map_of (pm_entries (use_pins pins m)) i = (if pm_pins m = pins then map_of (pm_entries m) i else None)"
  by (simp add: use_pins_def)

lemma memo_wf_use_pins: "memo_wf m \<Longrightarrow> memo_wf (use_pins pins m)"
  by (simp add: memo_wf_def use_pins_def)

lemma memo_wf_get: "memo_wf m \<Longrightarrow> memo_wf (snd (memo_get pins input m))"
  by (simp add: memo_get_def Let_def memo_wf_use_pins)

lemma card_bt: "bt_invar m \<Longrightarrow> card (fst ` set m) = length m"
  using bt.invar_distinct [of m] by (metis distinct_card length_map list.set_map)

lemma memo_evict:
  assumes "memo_wf m" "length (pm_entries m) = MAX_PROOF_MEMOS"
  obtains oldest order where "pm_order m = oldest # order"
proof (cases "pm_order m")
  case Nil
  then have "pm_entries m = []" using assms(1) by (simp add: memo_wf_def)
  then show ?thesis using assms(2) by (simp add: MAX_PROOF_MEMOS_def)
qed

lemma memo_wf_push:
  assumes "bt_invar e" "distinct ord" "set ord = fst ` set e" "length e < MAX_PROOF_MEMOS" "map_of e input = None"
  shows "memo_wf \<lparr>pm_pins = pins, pm_entries = bt_insert input v e, pm_order = ord @ [input]\<rparr>"
proof -
  have i: "input \<notin> fst ` set e" using assms(5) by (simp add: map_of_eq_None_iff)
  have "length (bt_insert input v e) = Suc (length e)"
    using card_bt [OF bt_invar_insert [OF assms(1)], of input v] card_bt [OF assms(1)] i by (simp add: keys_bt_insert)
  then show ?thesis using assms i by (simp add: memo_wf_def bt_invar_insert keys_bt_insert)
qed

lemma keys_bt_remove: "bt_invar m \<Longrightarrow> fst ` set (bt_remove k m) = fst ` set m - {k}"
  using bt.get_remove [of m k] by (simp add: dom_map_of_conv_image_fst [symmetric])

lemma memo_wf_insert:
  assumes "memo_wf m"
  shows "memo_wf (memo_insert pins input v m)"
proof -
  define u where "u = use_pins pins m"
  have u: "memo_wf u" "pm_pins u = pins" using assms by (simp_all add: u_def memo_wf_use_pins)
  note w = u(1) [unfolded memo_wf_def]
  show ?thesis
  proof (cases "map_of (pm_entries u) input")
    case None
    show ?thesis
    proof (cases "length (pm_entries u) = MAX_PROOF_MEMOS")
      case True
      then obtain oldest order where o: "pm_order u = oldest # order" using memo_evict u(1) by blast
      let ?e = "bt_remove oldest (pm_entries u)"
      have k: "fst ` set ?e = fst ` set (pm_entries u) - {oldest}" using w by (intro keys_bt_remove) simp
      have "oldest \<in> fst ` set (pm_entries u)" using w o by auto
      then have "card (fst ` set ?e) < card (fst ` set (pm_entries u))" unfolding k by (intro card_Diff1_less) auto
      moreover have ei: "bt_invar ?e" using w by (simp add: bt_invar_remove)
      ultimately have "length ?e < MAX_PROOF_MEMOS" using w True card_bt by metis
      moreover have "set order = fst ` set ?e" "distinct order" using w o k by auto
      moreover have "map_of ?e input = None" using None w by (simp add: bt.get_remove)
      ultimately have "memo_wf \<lparr>pm_pins = pins, pm_entries = bt_insert input v ?e, pm_order = order @ [input]\<rparr>"
        using ei by (intro memo_wf_push)
      moreover have "memo_insert pins input v m = \<lparr>pm_pins = pins, pm_entries = bt_insert input v ?e, pm_order = order @ [input]\<rparr>"
        using None True o u(2) by (simp add: memo_insert_def u_def [symmetric])
      ultimately show ?thesis by simp
    next
      case False
      then have "memo_wf \<lparr>pm_pins = pins, pm_entries = bt_insert input v (pm_entries u), pm_order = pm_order u @ [input]\<rparr>"
        using w None by (intro memo_wf_push) simp_all
      then show ?thesis using None False by (simp add: memo_insert_def u_def [symmetric] memo_wf_def)
    qed
  next
    case (Some old)
    then show ?thesis using u(1) by (simp add: memo_insert_def u_def [symmetric])
  qed
qed

section \<open>The digest covers everything\<close>

lemma memo_field_nonempty [simp]: "memo_field f \<noteq> []" "[] \<noteq> memo_field f"
proof -
  have "length (be_bytes 8 (length f)) \<noteq> 0" by simp
  then show "memo_field f \<noteq> []" unfolding memo_field_def by (metis append_is_Nil_conv list.size(3))
  then show "[] \<noteq> memo_field f" by simp
qed

lemma memo_fields_inject:
  assumes "concat (map memo_field fs) = concat (map memo_field gs)" "\<forall>f \<in> set fs \<union> set gs. length f < 2 ^ 64"
  shows "fs = gs"
  using assms
proof (induction fs arbitrary: gs)
  case Nil
  then show ?case by (cases gs) simp_all
next
  case (Cons f fs)
  from Cons.prems(1) have "concat (map memo_field gs) \<noteq> []" by auto
  then obtain g gs' where g: "gs = g # gs'" by (cases gs) auto
  have e: "be_bytes 8 (length f) @ f @ concat (map memo_field fs) = be_bytes 8 (length g) @ g @ concat (map memo_field gs')"
    using Cons.prems(1) by (simp add: g memo_field_def [of f] memo_field_def [of g])
  have l: "length f = length g"
  proof -
    have "be_bytes 8 (length f) = be_bytes 8 (length g)" using e append_eq_append_conv [of "be_bytes 8 (length f)" "be_bytes 8 (length g)"] by fastforce
    moreover have "length f < 256 ^ 8" "length g < 256 ^ 8" using Cons.prems(2) g by simp_all
    ultimately show ?thesis using be_value_be_bytes by metis
  qed
  then have "f @ concat (map memo_field fs) = g @ concat (map memo_field gs')" using e by (simp only: same_append_eq)
  with l have "f = g" "concat (map memo_field fs) = concat (map memo_field gs')" by (auto dest: append_eq_append_conv [THEN iffD1, rotated])
  then show ?case using Cons.IH [of gs'] Cons.prems(2) g by simp
qed

text \<open>What Rust's types give: strings are made of scalar values, a key tag has sixteen bits, and no buffer is
  as long as an address is wide.\<close>

definition memo_args :: "zone_key \<Rightarrow> rstr list \<Rightarrow> bool" where
  "memo_args key records \<longleftrightarrow> valid_str (zk_domain key) \<and> valid_str (zk_signing_zone key) \<and> zk_key_tag key < 2 ^ 16 \<and>
     length (zk_rdata key) < 2 ^ 64 \<and> utf8_len (zk_domain key) < 2 ^ 64 \<and> utf8_len (zk_signing_zone key) < 2 ^ 64 \<and>
     list_all (\<lambda>r. valid_str r \<and> utf8_len r < 2 ^ 64) records"

lemma memo_fields_bound: "memo_args key records \<Longrightarrow> \<forall>f \<in> set (memo_fields key records). length f < 2 ^ 64"
  by (auto simp: memo_args_def memo_fields_def list_all_iff)

lemma utf8_records: "memo_args key records \<Longrightarrow> image_mset (the \<circ> from_utf8) (mset (map as_bytes records)) = mset records"
  unfolding memo_args_def by (induction records) (simp_all add: from_utf8_as_bytes)

lemma memo_input_inject:
  assumes "memo_args key records" "memo_args key' records'" "memo_input key records = memo_input key' records'"
  shows "key = key' \<and> mset records = mset records'"
proof -
  have "memo_fields key records = memo_fields key' records'"
    using assms(3) memo_fields_bound [OF assms(1)] memo_fields_bound [OF assms(2)] unfolding memo_input_def
    by (intro memo_fields_inject) auto
  then have e: "as_bytes (zk_domain key) = as_bytes (zk_domain key')" "as_bytes (zk_signing_zone key) = as_bytes (zk_signing_zone key')"
    "be_bytes 2 (zk_key_tag key) = be_bytes 2 (zk_key_tag key')" "zk_rdata key = zk_rdata key'"
    "sort (map as_bytes records) = sort (map as_bytes records')"
    unfolding memo_fields_def append.simps list.inject by blast+
  have "zk_key_tag key < 256 ^ 2" "zk_key_tag key' < 256 ^ 2" using assms(1,2) by (simp_all add: memo_args_def)
  then have "zk_key_tag key = zk_key_tag key'" using e(3) be_value_be_bytes by metis
  moreover have "zk_domain key = zk_domain key'"
    using assms(1,2) unfolding memo_args_def by (intro as_bytes_inj [OF _ _ e(1)]) simp_all
  moreover have "zk_signing_zone key = zk_signing_zone key'"
    using assms(1,2) unfolding memo_args_def by (intro as_bytes_inj [OF _ _ e(2)]) simp_all
  ultimately have "key = key'" using e(4) by (cases key; cases key') simp
  moreover have "mset (map as_bytes records) = mset (map as_bytes records')" using e(5) by (metis mset_sort)
  then have "mset records = mset records'" using utf8_records [OF assms(1)] utf8_records [OF assms(2)] by metis
  ultimately show ?thesis by simp
qed

section \<open>The records of an answer have no order\<close>

lemma parse_chunk_range: "parse_chunk r = Inr (g, i, t, c) \<Longrightarrow> 1 \<le> i \<and> i \<le> t"
  by (auto simp: parse_chunk_def neq_Nil_conv split: list.splits if_splits)

lemma parse_chunk_error: "parse_chunk r = Inl e \<Longrightarrow> e = proof_error.Malformed"
proof -
  consider "split_whitespace r = []" | a where "split_whitespace r = [a]" | a b where "split_whitespace r = [a, b]"
    | a b c where "split_whitespace r = [a, b, c]" | a b c d ws where "split_whitespace r = a # b # c # d # ws"
    by (metis list.exhaust)
  then show "parse_chunk r = Inl e \<Longrightarrow> e = proof_error.Malformed"
    by cases (auto simp: parse_chunk_def parse_usize_def result_bind_Inl_iff ok_or_def split: if_splits option.splits)
qed

lemma read_parts_error: "read_parts first chunks acc idx = Inl e \<Longrightarrow> e = proof_error.Malformed"
  by (induction idx arbitrary: acc) (auto split: if_splits option.splits)

lemma read_parts_eq:
  assumes "\<And>r. read_parts f m [] idx = Inr r \<longleftrightarrow> read_parts f' m' [] idx = Inr r"
  shows "read_parts f m [] idx = read_parts f' m' [] idx"
proof (cases "read_parts f m [] idx")
  case (Inl e)
  then have "\<nexists>r. read_parts f' m' [] idx = Inr r" using assms by auto
  then obtain e' where "read_parts f' m' [] idx = Inl e'" by (cases "read_parts f' m' [] idx") auto
  then show ?thesis using Inl read_parts_error by metis
next
  case (Inr r)
  then show ?thesis using assms by metis
qed

lemma parts_of_mset: "mset ps = mset ps' \<Longrightarrow> mset (parts_of t ps) = mset (parts_of t ps')"
  unfolding parts_of_alt by (simp add: mset_filter)

text \<open>Which parts a total has decides what is read for it, not the order they came in.\<close>

lemma read_total_perm:
  assumes "collected ps (bt, dup)" "collected ps' (bt', dup')" "mset ps = mset ps'" "\<forall>(i, t, c) \<in> set ps. 1 \<le> i \<and> i \<le> t"
    and "map_of bt t = Some m" "map_of bt' t = Some m'"
  shows "read_parts (map_of dup t) m [] [1..<Suc t] = read_parts (map_of dup' t) m' [] [1..<Suc t]"
proof -
  have ms: "mset (parts_of t ps) = mset (parts_of t ps')" using assms(3) by (rule parts_of_mset)
  then have sets: "set (parts_of t ps) = set (parts_of t ps')" by (rule mset_eq_setD)
  have dist: "distinct (map fst (parts_of t ps)) \<longleftrightarrow> distinct (map fst (parts_of t ps'))"
    using ms by (metis mset_eq_imp_distinct_iff mset_map)
  note m = collectedD(4) [OF assms(1) assms(5)] collectedD(4) [OF assms(2) assms(6)]
  show ?thesis
  proof (cases "distinct (map fst (parts_of t ps))")
    case True
    then have "map_of (rev (parts_of t ps)) = map_of (rev (parts_of t ps'))"
      using dist sets by (subst map_of_inject_set) (simp_all add: rev_map [symmetric])
    then have "m = m'" using m bt_ext by metis
    moreover have "map_of dup t = None" "map_of dup' t = None"
      using True dist collectedD(6) [OF assms(1)] collectedD(6) [OF assms(2)] by (metis option.exhaust)+
    ultimately show ?thesis by simp
  next
    case False
    then obtain i i' where i: "map_of dup t = Some i" "map_of dup' t = Some i'"
      using dist collectedD(5) [OF assms(1)] collectedD(5) [OF assms(2)] by (metis option.exhaust)
    have "fst ` set (parts_of t ps) \<subseteq> {1..t}" using assms(4) by (fastforce simp: parts_of_alt)
    then have "i \<in> set [1..<Suc t]" "i' \<in> set [1..<Suc t]"
      using collectedD(6) [OF assms(1) i(1)] collectedD(6) [OF assms(2) i(2)] sets by auto
    then show ?thesis unfolding i by (intro read_parts_eq) (auto simp: read_parts_Inr simp del: upt_Suc)
  qed
qed

lemma try_totals_cong:
  assumes "list_all2 (\<lambda>(t, m) (t', m'). t = t' \<and> read_parts (map_of dup t) m [] [1..<Suc t] = read_parts (map_of dup' t) m' [] [1..<Suc t]) ts ts'"
  shows "try_totals x g dup e ts = try_totals x g dup' e ts'"
  using assms by (induction ts ts' arbitrary: e rule: list_all2_induct) (auto split: sum.split simp del: upt_Suc)

lemma assemble_group_perm:
  assumes "mset ps = mset ps'" "\<forall>(i, t, c) \<in> set ps. 1 \<le> i \<and> i \<le> t"
  shows "assemble_group x g ps = assemble_group x g ps'"
proof -
  obtain bt dup bt' dup' where f: "fold add_part ps ([], []) = (bt, dup)" "fold add_part ps' ([], []) = (bt', dup')"
    by (metis surj_pair)
  have c: "collected ps (bt, dup)" "collected ps' (bt', dup')" using collected_fold [of ps] collected_fold [of ps'] f by simp_all
  have "map_of bt t = None \<longleftrightarrow> map_of bt' t = None" for t
    using collectedD(3,4) [OF c(1), of t] collectedD(3,4) [OF c(2), of t] parts_of_mset [OF assms(1), of t]
    by (metis mset_zero_iff not_None_eq)
  then have "fst ` set bt = fst ` set bt'" by (auto simp: map_of_eq_None_iff)
  then have k: "map fst bt = map fst bt'"
    using collectedD(1) [OF c(1)] collectedD(1) [OF c(2)] by (auto simp: bt_invar_def intro!: strict_sorted_equal)
  let ?R = "\<lambda>(t, m) (t', m'). t = t' \<and> read_parts (map_of dup t) m [] [1..<Suc t] = read_parts (map_of dup' t) m' [] [1..<Suc t]"
  have "list_all2 ?R bt bt'"
  proof (rule list_all2_all_nthI)
    show "length bt = length bt'" using k by (metis length_map)
    fix n assume n: "n < length bt"
    then have n': "n < length bt'" using \<open>length bt = length bt'\<close> by simp
    obtain t m t' m' where e: "bt ! n = (t, m)" "bt' ! n = (t', m')" by (metis surj_pair)
    have "t = t'" using k n n' e by (metis fst_conv nth_map)
    moreover have "map_of bt t = Some m" "map_of bt' t' = Some m'"
      using bt.get_iff_mem [OF collectedD(1) [OF c(1)]] bt.get_iff_mem [OF collectedD(1) [OF c(2)]] n n' e nth_mem by metis+
    ultimately show "?R (bt ! n) (bt' ! n)"
      using read_total_perm [OF c assms(1,2)] e by (simp del: upt_Suc)
  qed
  then show ?thesis using try_totals_cong f by (simp add: assemble_group_def)
qed

text \<open>The parts of a group, and the refusals, among the records of an answer.\<close>

definition parts_in :: "rstr \<Rightarrow> rstr list \<Rightarrow> part list" where
  "parts_in g records = concat (map (\<lambda>r. case parse_chunk r of Inr (g', p) \<Rightarrow> (if g' = g then [p] else []) | Inl _ \<Rightarrow> []) records)"

definition junk_in :: "rstr list \<Rightarrow> proof_error list" where
  "junk_in records = concat (map (\<lambda>r. case parse_chunk r of Inr _ \<Rightarrow> [] | Inl e \<Rightarrow> [e]) records)"

lemma group_snoc:
  "parts_in g (records @ [r]) = parts_in g records @ (case parse_chunk r of Inr (g', p) \<Rightarrow> (if g' = g then [p] else []) | Inl _ \<Rightarrow> [])"
  "junk_in (records @ [r]) = junk_in records @ (case parse_chunk r of Inr _ \<Rightarrow> [] | Inl e \<Rightarrow> [e])"
  by (simp_all add: parts_in_def junk_in_def)

lemma fold_add_record_groups:
  "\<exists>groups. fold add_record records ([], []) = (groups, junk_in records) \<and> bt_invar groups \<and>
     (\<forall>g. map_of groups g = (if parts_in g records = [] then None else Some (parts_in g records)))"
proof (induction records rule: rev_induct)
  case Nil
  then show ?case by (simp add: junk_in_def parts_in_def)
next
  case (snoc r records)
  then obtain groups where g: "fold add_record records ([], []) = (groups, junk_in records)" "bt_invar groups"
    "\<forall>g. map_of groups g = (if parts_in g records = [] then None else Some (parts_in g records))" by blast
  show ?case
  proof (cases "parse_chunk r")
    case (Inl e)
    then show ?thesis using g by (simp add: add_record_def [of r] group_snoc)
  next
    case (Inr p)
    then show ?thesis
      using g by (cases p) (auto simp: add_record_def [of r] group_snoc bt_invar_insert bt.get_insert)
  qed
qed

lemma mset_concat_map: "mset (concat (map f xs)) = sum_mset (image_mset (\<lambda>x. mset (f x)) (mset xs))"
  by (induction xs) auto

lemma parts_in_mset: "mset records = mset records' \<Longrightarrow> mset (parts_in g records) = mset (parts_in g records')"
  unfolding parts_in_def mset_concat_map by simp

lemma parts_in_range: "\<forall>(i, t, c) \<in> set (parts_in g records). 1 \<le> i \<and> i \<le> t"
  by (auto simp: parts_in_def dest: parse_chunk_range parse_chunk_range [OF sym] split: sum.splits if_splits)

lemma junk_in_perm:
  assumes "mset records = mset records'"
  shows "junk_in records = junk_in records'"
proof -
  have "e = proof_error.Malformed" if "e \<in> set (junk_in rs)" for e rs
    using that by (auto simp: junk_in_def dest: parse_chunk_error [OF sym] parse_chunk_error split: sum.splits)
  then have "junk_in rs = replicate (length (junk_in rs)) proof_error.Malformed" for rs
    by (metis replicate_eqI)
  moreover have "mset (junk_in records) = mset (junk_in records')"
    using assms unfolding junk_in_def mset_concat_map by simp
  then have "length (junk_in records) = length (junk_in records')" by (rule mset_eq_length)
  ultimately show ?thesis by metis
qed

lemma proofs_by_group:
  "\<exists>gs. sorted_wrt (<) gs \<and> set gs = {g. parts_in g records \<noteq> []} \<and>
     proofs_from_txt x records =
       (if gs = [] then map Inl (junk_in records) else map (\<lambda>g. assemble_group x g (parts_in g records)) gs)"
proof -
  obtain groups where g: "fold add_record records ([], []) = (groups, junk_in records)" "bt_invar groups"
    "\<forall>g. map_of groups g = (if parts_in g records = [] then None else Some (parts_in g records))"
    using fold_add_record_groups by blast
  have "map (\<lambda>(g, ps). assemble_group x g ps) groups = map (\<lambda>g. assemble_group x g (parts_in g records)) (map fst groups)"
  proof -
    have "ps = parts_in g records" if "(g, ps) \<in> set groups" for g ps
      using that g(3) bt.get_iff_mem [OF g(2), of g ps] by (simp split: if_splits)
    then show ?thesis by auto
  qed
  moreover have "set (map fst groups) = {g. parts_in g records \<noteq> []}"
    unfolding set_map dom_map_of_conv_image_fst [symmetric] dom_def using g(3) by simp
  ultimately show ?thesis using g(1,2)
    by (intro exI [of _ "map fst groups"]) (simp add: proofs_from_txt_def bt_invar_def)
qed

lemma proofs_from_txt_perm:
  assumes "mset records = mset records'"
  shows "proofs_from_txt x records = proofs_from_txt x records'"
proof -
  obtain gs gs' where g: "sorted_wrt (<) gs" "set gs = {g. parts_in g records \<noteq> []}"
      "proofs_from_txt x records =
        (if gs = [] then map Inl (junk_in records) else map (\<lambda>g. assemble_group x g (parts_in g records)) gs)"
    and g': "sorted_wrt (<) gs'" "set gs' = {g. parts_in g records' \<noteq> []}"
      "proofs_from_txt x records' =
        (if gs' = [] then map Inl (junk_in records') else map (\<lambda>g. assemble_group x g (parts_in g records')) gs')"
    using proofs_by_group [of records x] proofs_by_group [of records' x] by blast
  have p: "mset (parts_in g records) = mset (parts_in g records')" for g using assms by (rule parts_in_mset)
  then have "set gs = set gs'" unfolding g(2) g'(2) by (metis mset_zero_iff)
  then have "gs = gs'" using g(1) g'(1) by (intro strict_sorted_equal)
  moreover have "assemble_group x g (parts_in g records) = assemble_group x g (parts_in g records')" for g
    using p parts_in_range by (rule assemble_group_perm)
  ultimately show ?thesis unfolding g(3) g'(3) using junk_in_perm [OF assms] by simp
qed

lemma check_records_perm: "mset records = mset records' \<Longrightarrow> check_records l pins records key = check_records l pins records' key"
  by (simp add: check_records_def proofs_from_txt_perm [of records records'])

section \<open>Nobody can tell the memo is there\<close>

text \<open>The runs of the memo: any number of resolutions look into it, under whatever pins are in force, and remember
  what they verified. \<open>seen\<close> holds what was hashed for the results that were remembered.\<close>

inductive memo_run :: "('n, 'z) gate_libs_scheme \<Rightarrow> bytes set \<Rightarrow> proof_memo \<Rightarrow> bool" for l where
  memo_start: "memo_run l {} memo_default"
| memo_look: "memo_run l seen m \<Longrightarrow> memo_run l seen (snd (memo_get pins input m))"
| memo_keep: "memo_run l seen m \<Longrightarrow> memo_args key records \<Longrightarrow> check_records l pins records key = Inr v \<Longrightarrow>
    memo_run l (insert (memo_input key records) seen) (memo_insert pins (proof_memo_key (gl_blake3 l) key records) v m)"

lemma memo_run_wf: "memo_run l seen m \<Longrightarrow> memo_wf m"
  by (induction rule: memo_run.induct) (simp_all add: memo_wf_default memo_wf_get memo_wf_insert)

text \<open>Every entry is the result of a verification under the pins of the memo.\<close>

definition memo_true :: "('n, 'z) gate_libs_scheme \<Rightarrow> bytes set \<Rightarrow> proof_memo \<Rightarrow> bool" where
  "memo_true l seen m \<longleftrightarrow> (\<forall>i v. map_of (pm_entries m) i = Some v \<longrightarrow>
     (\<exists>key records. memo_args key records \<and> memo_input key records \<in> seen \<and> i = gl_blake3 l (memo_input key records) \<and>
        check_records l (pm_pins m) records key = Inr v))"

lemma memo_true_use_pins: "memo_true l seen m \<Longrightarrow> memo_true l seen (use_pins pins m)"
  by (cases "pm_pins m = pins") (simp_all add: memo_true_def use_pins_def)

lemma memo_insert_entries:
  assumes "memo_wf m"
  shows "pm_pins (memo_insert pins input v m) = pins"
    and "map_of (pm_entries (memo_insert pins input v m)) i = Some w \<Longrightarrow>
      i = input \<and> w = v \<or> map_of (pm_entries (use_pins pins m)) i = Some w"
  using memo_wf_use_pins [OF assms, of pins]
  by (auto simp: memo_insert_def Let_def bt.get_insert bt.get_remove memo_wf_def split: list.splits if_splits)

lemma memo_run_true: "memo_run l seen m \<Longrightarrow> memo_true l seen m"
proof (induction rule: memo_run.induct)
  case memo_start
  then show ?case by (simp add: memo_true_def memo_default_def)
next
  case (memo_look seen m pins input)
  then show ?case by (simp add: memo_get_def Let_def memo_true_use_pins)
next
  case (memo_keep seen m key records pins v)
  let ?in = "memo_input key records" and ?k = "proof_memo_key (gl_blake3 l) key records"
  have old: "memo_true l seen (use_pins pins m)" using memo_keep.IH by (rule memo_true_use_pins)
  note e = memo_insert_entries [OF memo_run_wf [OF memo_keep.hyps(1)], of pins ?k v]
  show ?case unfolding memo_true_def
  proof (intro allI impI)
    fix i w assume "map_of (pm_entries (memo_insert pins ?k v m)) i = Some w"
    from e(2) [OF this] show "\<exists>key' records'. memo_args key' records' \<and> memo_input key' records' \<in> insert ?in seen \<and>
        i = gl_blake3 l (memo_input key' records') \<and> check_records l (pm_pins (memo_insert pins ?k v m)) records' key' = Inr w"
    proof
      assume "i = ?k \<and> w = v"
      then show ?thesis
        using memo_keep.hyps(2,3) by (intro exI [of _ key] exI [of _ records]) (simp add: e(1) proof_memo_key_def [symmetric])
    next
      assume "map_of (pm_entries (use_pins pins m)) i = Some w"
      then show ?thesis using old unfolding memo_true_def e(1) use_pins_simps by blast
    qed
  qed
qed

text \<open>C20. In every run of the resolver's memo, however resolutions interleave and the pins change, the
  verification of a set of records returns exactly what verifying them afresh would return, as long as the digest does
  not collide on the inputs that were hashed; and the memo never holds more than 4096 results.\<close>
theorem memo_invisible:
  assumes "memo_run l seen m" "memo_args key records" "inj_on (gl_blake3 l) (insert (memo_input key records) seen)"
  shows "fst (verify_proof_records l pins records key m) = check_records l pins records key \<and>
    length (pm_entries (snd (verify_proof_records l pins records key m))) \<le> 4096"
proof
  let ?k = "proof_memo_key (gl_blake3 l) key records"
  let ?u = "use_pins pins m"
  have wf: "memo_wf ?u" "memo_wf (memo_insert pins ?k v ?u)" for v
    using memo_run_wf [OF assms(1)] by (simp_all add: memo_wf_use_pins memo_wf_insert)
  have true: "memo_true l seen ?u" using memo_run_true [OF assms(1)] by (rule memo_true_use_pins)
  show "length (pm_entries (snd (verify_proof_records l pins records key m))) \<le> 4096"
    using wf by (auto simp: verify_proof_records_def memo_get_def Let_def memo_wf_def MAX_PROOF_MEMOS_def split: option.split sum.split)
  show "fst (verify_proof_records l pins records key m) = check_records l pins records key"
  proof (cases "map_of (pm_entries ?u) ?k")
    case None
    then show ?thesis by (simp add: verify_proof_records_def memo_get_def Let_def split: sum.split)
  next
    case (Some v)
    then obtain key' records' where k: "memo_args key' records'" "memo_input key' records' \<in> seen"
        "?k = gl_blake3 l (memo_input key' records')" "check_records l pins records' key' = Inr v"
      using true unfolding memo_true_def by force
    then have "memo_input key records = memo_input key' records'"
      using assms(3) unfolding proof_memo_key_def by (metis inj_on_eq_iff insertCI)
    then have "key = key'" "mset records = mset records'" using memo_input_inject [OF assms(2) k(1)] by blast+
    then have "check_records l pins records key = Inr v" using k(4) check_records_perm by metis
    then show ?thesis using Some by (simp add: verify_proof_records_def memo_get_def Let_def)
  qed
qed

section \<open>A zone that publishes a proof\<close>

definition demo_gate :: "rstr gate_libs" where
  "demo_gate = \<lparr>gl_crates = demo_rekor_crates, gl_verifiers = demo_verifiers, gl_dns = demo_dns, gl_json = demo_slices,
     gl_anchors = (\<lambda>k. k = demo_key), gl_blake3 = id\<rparr>"

definition demo_verified :: verified_record where
  "demo_verified = \<lparr>v_log_index = 0, v_tree_size = 1, v_origin = [111], v_action = str ''create''\<rparr>"

definition demo_proof_txt :: rstr where
  "demo_proof_txt = txt_record (demo_hex (take 4 (demo_sha (encode_unchecked demo_record)))) 1 1 (demo_hex (encode_unchecked demo_record))"

lemma demo_record_fits:
  "proof_ok demo_record" "encode_proof demo_record = Some (encode_unchecked demo_record)" "length (encode_unchecked demo_record) = 65"
  by (simp_all add: demo_record_def proof_ok_def encode_proof_def encode_unchecked_def encode_blob_def demo_note_def demo_block_def utf8_width_def)

lemma demo_to_txt: "to_txt demo_rekor_crates demo_record = Some [demo_proof_txt]"
proof -
  let ?h = "demo_hex (encode_unchecked demo_record)"
  have l: "length ?h = 130" by (simp add: demo_hex_lower demo_record_fits)
  then have n: "?h \<noteq> []" by auto
  have "chunks_of PROOF_CHUNK_CHARS ?h = [?h]"
    by (subst chunks_of.simps) (use l n in \<open>simp add: PROOF_CHUNK_CHARS_def chunks_of.simps [of _ "[]"]\<close>)
  then show ?thesis
    by (simp add: to_txt_def demo_record_fits demo_rekor_crates_def demo_crates_def demo_proof_txt_def Let_def)
qed

lemma demo_proofs: "proofs_from_txt demo_rekor_crates [demo_proof_txt] = [Inr demo_record]"
  by (rule txt_reads_back [OF demo_rekor_crates_ok(1) demo_record_fits(1) demo_to_txt]) simp

lemma demo_check_records: "check_records demo_gate [demo_log] [demo_proof_txt] demo_observed = Inr demo_verified"
  using demo_record_verifies
  by (simp add: check_records_def demo_gate_def demo_proofs candidates_to_verify_def MAX_PROOF_CANDIDATES_def gate_verify_def
      map_err_def demo_verified_def)

lemma demo_txt_ascii: "list_all (\<lambda>c. c < 0x80) demo_proof_txt" "length demo_proof_txt = 150"
proof -
  have h: "c \<in> set (demo_hex bs) \<Longrightarrow> c < 0x80" for c bs using demo_hex_lower(1) [of bs] by (auto simp: list_all_iff is_lower_hex_def)
  have one: "fmt_nat 10 (Suc 0) = [49]" by (simp add: fmt_nat.simps digit_char_def)
  show "list_all (\<lambda>c. c < 0x80) demo_proof_txt"
    using h by (auto simp: demo_proof_txt_def txt_record_def PROOF_TXT_PREFIX_def str_def one list_all_iff)
  show "length demo_proof_txt = 150"
    by (simp add: demo_proof_txt_def txt_record_def PROOF_TXT_PREFIX_def str_def one demo_hex_lower demo_record_fits demo_sha_def)
qed

lemma demo_memo_args: "memo_args demo_observed [demo_proof_txt]"
proof -
  have "valid_str demo_proof_txt" using demo_txt_ascii(1) by (auto simp: valid_str_def scalar_def list_all_iff)
  moreover have "utf8_len demo_proof_txt = 150" using utf8_len_ascii demo_txt_ascii by metis
  ultimately show ?thesis
    by (simp add: memo_args_def demo_observed_def demo_zone_def str_def valid_str_def scalar_def utf8_width_def dnskey_rdata_def demo_key_def)
qed

theorem memo_invisible_witness:
  "fst (verify_proof_records demo_gate [demo_log] [demo_proof_txt] demo_observed
     (memo_insert [demo_log] (proof_memo_key id demo_observed [demo_proof_txt]) demo_verified memo_default)) = Inr demo_verified"
proof -
  have "memo_run demo_gate {memo_input demo_observed [demo_proof_txt]}
      (memo_insert [demo_log] (proof_memo_key id demo_observed [demo_proof_txt]) demo_verified memo_default)"
    using memo_keep [OF memo_start demo_memo_args demo_check_records] by (simp add: demo_gate_def)
  from memo_invisible [OF this demo_memo_args] show ?thesis
    by (simp add: demo_check_records [symmetric] demo_gate_def [THEN arg_cong [of _ _ gl_blake3]])
qed

end
