(* ===== verification/Canonical_Json.thy ===== *)
theory Canonical_Json
  imports Json
begin

text \<open>
  OLPC canonical JSON, the form that TUF signatures cover (\<^verbatim>\<open>synch-net/src/tuf.rs\<close>): members in the order
  of their keys, no white space, strings with only the quote and the backslash escaped, and whole numbers.
  Two values with one canonical form are equal, so a signature over the form is a signature over the value.
\<close>

section \<open>The writer\<close>

definition write_canonical_string :: "rstr \<Rightarrow> rstr" where
  "write_canonical_string s =
     34 # concat (map (\<lambda>c. if c = 34 then [92, 34] else if c = 92 then [92, 92] else [c]) s) @ [34]"

text \<open>\<^verbatim>\<open>i64::to_string\<close>.\<close>

definition fmt_i64 :: "int \<Rightarrow> rstr" where
  "fmt_i64 i = (if i < 0 then 45 # fmt_nat 10 (nat (- i)) else fmt_nat 10 (nat i))"

fun comma_separated :: "rstr list \<Rightarrow> rstr" where
  "comma_separated [] = []"
| "comma_separated [s] = s"
| "comma_separated (s # t # ss) = s @ 44 # comma_separated (t # ss)"

text \<open>The members are looked up by their sorted keys in the code; the keys are distinct, so this is
  the list of members sorted by key.\<close>

function write_canonical :: "json \<Rightarrow> rstr option" where
  "write_canonical JNull = Some (str ''null'')"
| "write_canonical (JBool b) = Some (if b then str ''true'' else str ''false'')"
| "write_canonical (JUInt n) =
     (case as_i64 (JUInt n) of Some i \<Rightarrow> Some (fmt_i64 i) | None \<Rightarrow> Some (fmt_u64 n))"
| "write_canonical (JNegInt i) = Some (fmt_i64 i)"
| "write_canonical JFloat = None"
| "write_canonical (JString s) = Some (write_canonical_string s)"
| "write_canonical (JArray items) =
     map_option (\<lambda>ss. 91 # comma_separated ss @ [93]) (those (map write_canonical items))"
| "write_canonical (JObject members) =
     map_option (\<lambda>ss. 123 # comma_separated ss @ [125])
       (those (map (\<lambda>(key, v). map_option (\<lambda>s. write_canonical_string key @ 58 # s) (write_canonical v))
         (sort_key fst members)))"
  by pat_completeness auto

termination write_canonical
proof (relation "measure size")
  fix items x
  assume "x \<in> set (items :: json list)"
  then show "(x, JArray items) \<in> measure size" by (induction items) auto
next
  fix members :: "(rstr \<times> json) list" and p key v
  assume p: "p \<in> set (sort_key fst members)" "(key, v) = p"
  then have "(key, v) \<in> set members" by simp
  then show "(v, JObject members) \<in> measure size" by (induction members) (auto split: if_splits)
qed auto

definition canonical_json :: "json \<Rightarrow> bytes option" where
  "canonical_json j = map_option as_bytes (write_canonical j)"

section \<open>Every form is read back in one way\<close>

definition escaped :: "rstr \<Rightarrow> rstr" where
  "escaped s = concat (map (\<lambda>c. if c = 34 then [92, 34] else if c = 92 then [92, 92] else [c]) s)"

lemma write_canonical_string_escaped: "write_canonical_string s = 34 # escaped s @ [34]"
  by (simp add: write_canonical_string_def escaped_def)

lemma escaped_simps [simp]:
  "escaped [] = []"
  "escaped (c # s) = (if c = 34 then [92, 34] else if c = 92 then [92, 92] else [c]) @ escaped s"
  by (simp_all add: escaped_def)

lemma escaped_cancel: "escaped s @ 34 # u = escaped t @ 34 # w \<Longrightarrow> s = t \<and> u = w"
proof (induction s arbitrary: t)
  case Nil
  then show ?case by (cases t) (auto split: if_splits)
next
  case (Cons c s)
  then show ?case by (cases t) (auto split: if_splits)
qed

lemma string_cancel: "write_canonical_string s @ u = write_canonical_string t @ w \<Longrightarrow> s = t \<and> u = w"
  using escaped_cancel [of s u t w] by (simp add: write_canonical_string_escaped)

text \<open>What may follow a value inside another: a comma or a bracket.\<close>

definition closed :: "rstr \<Rightarrow> bool" where
  "closed u \<longleftrightarrow> u = [] \<or> hd u \<in> {44, 93, 125}"

lemma digit_run:
  assumes "\<forall>c \<in> set s. 48 \<le> c \<and> c \<le> 57" "\<forall>c \<in> set t. 48 \<le> c \<and> c \<le> 57" "closed u" "closed w" "s @ u = t @ w"
  shows "s = t \<and> u = w"
proof -
  have *: "takeWhile (\<lambda>c. 48 \<le> c \<and> c \<le> 57) (a @ v) = a" if "\<forall>c \<in> set a. 48 \<le> c \<and> c \<le> (57 :: nat)" "closed v" for a v
    using that by (cases v) (auto simp: closed_def takeWhile_append2)
  have "s = t" using * [OF assms(1,3)] * [OF assms(2,4)] assms(5) by simp
  then show ?thesis using assms(5) by simp
qed

lemma decimal_digits: "c \<in> set (fmt_nat 10 n) \<Longrightarrow> 48 \<le> c \<and> c \<le> 57"
proof (induction n arbitrary: c rule: less_induct)
  case (less n)
  have d: "48 \<le> digit_char (n mod 10) \<and> digit_char (n mod 10) \<le> 57"
    using mod_less_divisor [of 10 n] by (simp add: digit_char_def)
  show ?case
  proof (cases "n < 10")
    case True
    then show ?thesis using less.prems d by (subst (asm) fmt_nat.simps) simp
  next
    case False
    then have "c \<in> set (fmt_nat 10 (n div 10)) \<or> c = digit_char (n mod 10)"
      using less.prems by (subst (asm) fmt_nat.simps) auto
    then show ?thesis using less.IH [of "n div 10" c] False d by auto
  qed
qed

lemma decimal_inject:
  assumes "m < 2 ^ 64" "n < 2 ^ 64" "fmt_nat 10 m = fmt_nat 10 n"
  shows "m = n"
proof -
  have ten: "2 \<le> (10 :: nat)" "10 \<le> (16 :: nat)" by simp_all
  have "Some m = Some n"
    by (rule trans [OF digits_value_fmt_nat [OF ten assms(1), symmetric, unfolded assms(3)] digits_value_fmt_nat [OF ten assms(2)]])
  then show ?thesis by (rule option.inject [THEN iffD1])
qed

lemma decimal_hd: "48 \<le> hd (fmt_nat 10 n) \<and> hd (fmt_nat 10 n) \<le> 57"
  by (rule decimal_digits [of _ n]) simp

lemma decimal_cancel:
  assumes "m < 2 ^ 64" "n < 2 ^ 64" "closed u" "closed w" "fmt_nat 10 m @ u = fmt_nat 10 n @ w"
  shows "m = n \<and> u = w"
proof -
  have "fmt_nat 10 m = fmt_nat 10 n \<and> u = w"
    using decimal_digits assms(3-5) by (intro digit_run) blast+
  then show ?thesis using decimal_inject [OF assms(1,2)] by blast
qed

text \<open>Lists of forms: elements that can be told apart in context, and that begin with no separator.\<close>

definition opens :: "rstr \<Rightarrow> bool" where
  "opens s \<longleftrightarrow> s \<noteq> [] \<and> hd s \<notin> {44, 93, 125}"

definition told_apart :: "('a \<Rightarrow> rstr) \<Rightarrow> 'a \<Rightarrow> 'a \<Rightarrow> bool" where
  "told_apart f x y \<longleftrightarrow> (\<forall>u w. closed u \<longrightarrow> closed w \<longrightarrow> f x @ u = f y @ w \<longrightarrow> x = y \<and> u = w)"

lemma comma_separated_Cons: "comma_separated (s # ss) = s @ (if ss = [] then [] else 44 # comma_separated ss)"
  by (cases ss) simp_all

lemma opens_not_end: "opens s \<Longrightarrow> e = 93 \<or> e = 125 \<Longrightarrow> s @ v \<noteq> e # u"
  by (cases s) (auto simp: opens_def)

lemma separated_cancel:
  assumes "e = 93 \<or> e = 125" "\<forall>x \<in> set xs. \<forall>y \<in> set ys. told_apart f x y" "\<forall>x \<in> set xs \<union> set ys. opens (f x)"
    and "comma_separated (map f xs) @ e # u = comma_separated (map f ys) @ e # w"
  shows "xs = ys \<and> u = w"
  using assms(2-4)
proof (induction xs arbitrary: ys)
  case Nil
  then show ?case using opens_not_end [OF _ assms(1)] by (cases ys) (auto simp: comma_separated_Cons dest: sym)
next
  case (Cons x xs)
  show ?case
  proof (cases ys)
    case Nil
    then show ?thesis using Cons.prems(2,3) opens_not_end [OF _ assms(1)] by (simp add: comma_separated_Cons)
  next
    case (Cons y ys')
    define rest where "rest zs v = (if zs = [] then [] else 44 # comma_separated (map f zs)) @ e # v" for zs v
    have c: "closed (rest zs v)" for zs v using assms(1) by (auto simp: rest_def closed_def)
    have "f x @ rest xs u = f y @ rest ys' w" using Cons.prems(3) unfolding Cons by (simp add: comma_separated_Cons rest_def)
    then have h: "x = y" "rest xs u = rest ys' w"
      using Cons.prems(1) c [of xs u] c [of ys' w] unfolding Cons told_apart_def by auto
    have "xs = ys' \<and> u = w"
    proof (cases "xs = [] \<or> ys' = []")
      case True
      then show ?thesis using h(2) assms(1) by (auto simp: rest_def split: if_splits)
    next
      case False
      then have "comma_separated (map f xs) @ e # u = comma_separated (map f ys') @ e # w" using h(2) by (simp add: rest_def)
      then show ?thesis using Cons.IH [of ys'] Cons.prems(1,2) unfolding Cons by simp
    qed
    then show ?thesis using h(1) Cons by simp
  qed
qed

section \<open>One value for one form\<close>

definition form :: "json \<Rightarrow> rstr" where
  "form j = the (write_canonical j)"

fun whole :: "json \<Rightarrow> bool" where
  "whole JFloat = False"
| "whole (JArray js) = list_all whole js"
| "whole (JObject m) = list_all whole (map snd m)"
| "whole j = True"

definition member_form :: "rstr \<times> json \<Rightarrow> rstr" where
  "member_form = (\<lambda>(k, v). write_canonical_string k @ 58 # form v)"

lemma those_map_Some: "(\<And>x. x \<in> set xs \<Longrightarrow> g x = Some (f x)) \<Longrightarrow> those (map g xs) = Some (map f xs)"
  by (induction xs) auto

lemma those_Some_all: "those (map g xs) = Some ys \<Longrightarrow> x \<in> set xs \<Longrightarrow> g x \<noteq> None"
  by (induction xs arbitrary: ys) (auto split: option.splits)

lemma uint_form: "write_canonical (JUInt n) = Some (fmt_nat 10 (unat n))"
  by (simp add: as_i64_def fmt_i64_def fmt_u64_def)

lemma written_whole: "write_canonical j = Some s \<Longrightarrow> whole j"
proof (induction j arbitrary: s rule: write_canonical.induct)
  case (7 items)
  then show ?case using those_Some_all [of write_canonical items] by (fastforce simp: list_all_iff)
next
  case (8 members)
  have "whole v" if m: "(k, v) \<in> set members" for k v
  proof -
    have in': "(k, v) \<in> set (sort_key fst members)" using m by simp
    obtain ys where "those (map (\<lambda>(key, v). map_option (\<lambda>s. write_canonical_string key @ 58 # s) (write_canonical v))
        (sort_key fst members)) = Some ys" using 8(2) by auto
    from those_Some_all [OF this in'] obtain t where "write_canonical v = Some t" by auto
    then show ?thesis using 8(1) [OF in' refl] by blast
  qed
  then show ?case by (auto simp: list_all_iff)
qed auto

lemma whole_written: "whole j \<Longrightarrow> write_canonical j = Some (form j)"
proof (induction j rule: write_canonical.induct)
  case (7 items)
  then have "those (map write_canonical items) = Some (map form items)"
    by (intro those_map_Some) (simp add: list_all_iff)
  then show ?case by (simp add: form_def)
next
  case (8 members)
  have "those (map (\<lambda>(key, v). map_option (\<lambda>s. write_canonical_string key @ 58 # s) (write_canonical v))
      (sort_key fst members)) = Some (map member_form (sort_key fst members))"
    using 8 by (intro those_map_Some) (auto simp: list_all_iff member_form_def)
  then show ?case by (simp add: form_def)
qed (auto simp: form_def simp del: write_canonical.simps(3) simp: uint_form)

lemma array_form: "whole (JArray js) \<Longrightarrow> form (JArray js) = 91 # comma_separated (map form js) @ [93]"
  using whole_written by (subst form_def) (simp add: list_all_iff those_map_Some [where f = form])

lemma object_form:
  assumes "whole (JObject m)" "json_ok (JObject m)"
  shows "form (JObject m) = 123 # comma_separated (map member_form m) @ [125]"
proof -
  have "sort_key fst m = m" using assms(2) by (intro sort_key_id_if_sorted) (simp add: strict_sorted_imp_sorted)
  moreover have "those (map (\<lambda>(key, v). map_option (\<lambda>s. write_canonical_string key @ 58 # s) (write_canonical v)) m)
      = Some (map member_form m)"
    using assms(1) whole_written by (intro those_map_Some) (auto simp: list_all_iff member_form_def)
  ultimately show ?thesis by (simp add: form_def)
qed

text \<open>The first character of a form tells which kind of value it is.\<close>

fun kind :: "json \<Rightarrow> nat" where
  "kind JNull = 0" | "kind (JBool b) = 1" | "kind (JUInt n) = 2" | "kind (JNegInt i) = 3" | "kind JFloat = 4"
| "kind (JString s) = 5" | "kind (JArray js) = 6" | "kind (JObject m) = 7"

definition lead_kind :: "nat \<Rightarrow> nat" where
  "lead_kind c = (if c = 110 then 0 else if c = 116 \<or> c = 102 then 1 else if 48 \<le> c \<and> c \<le> 57 then 2 else if c = 45 then 3
     else if c = 34 then 5 else if c = 91 then 6 else if c = 123 then 7 else 8)"

lemma scalar_forms [simp]:
  "form JNull = str ''null''" "form (JBool b) = (if b then str ''true'' else str ''false'')"
  "form (JUInt n) = fmt_nat 10 (unat n)" "i < 0 \<Longrightarrow> form (JNegInt i) = 45 # fmt_nat 10 (nat (- i))"
  "form (JString s) = write_canonical_string s"
  by (simp_all add: form_def uint_form fmt_i64_def del: write_canonical.simps(3))

lemma lead_decimal: "lead_kind (hd (fmt_nat 10 n)) = 2"
  using decimal_hd [of n] by (auto simp: lead_kind_def)

lemma form_lead:
  assumes "whole j" "json_ok j"
  shows "form j \<noteq> []" "lead_kind (hd (form j)) = kind j"
proof -
  have "form j \<noteq> [] \<and> lead_kind (hd (form j)) = kind j"
    using assms by (cases j) (simp_all add: array_form object_form lead_decimal, simp_all add: lead_kind_def str_def write_canonical_string_def)
  then show "form j \<noteq> []" "lead_kind (hd (form j)) = kind j" by simp_all
qed

lemma form_opens: "whole j \<Longrightarrow> json_ok j \<Longrightarrow> opens (form j)"
  using form_lead [of j] by (cases j) (auto simp: opens_def lead_kind_def)

lemma same_kind:
  assumes "whole a" "json_ok a" "whole b" "json_ok b" "form a @ u = form b @ w"
  shows "kind a = kind b"
  using form_lead [OF assms(1,2)] form_lead [OF assms(3,4)] assms(5) by (metis hd_append)

lemma members_apart:
  assumes "told_apart form (snd p) (snd q)"
  shows "told_apart member_form p q"
  unfolding told_apart_def
proof (intro allI impI)
  fix u w
  assume cl: "closed u" "closed w" and e: "member_form p @ u = member_form q @ w"
  obtain k v l z where pq: "p = (k, v)" "q = (l, z)" by (cases p; cases q) auto
  have "write_canonical_string k @ 58 # form v @ u = write_canonical_string l @ 58 # form z @ w"
    using e unfolding pq member_form_def by simp
  then have "k = l \<and> 58 # form v @ u = 58 # form z @ w" by (rule string_cancel)
  then show "p = q \<and> u = w" using assms cl unfolding told_apart_def pq by simp
qed

lemma scalars_apart:
  assumes "whole a" "json_ok a" "whole b" "json_ok b" "kind a < 6"
  shows "told_apart form a b"
  unfolding told_apart_def
proof (intro allI impI)
  fix u w
  assume cl: "closed u" "closed w" and e: "form a @ u = form b @ w"
  note k = same_kind [OF assms(1-4) e]
  show "a = b \<and> u = w"
  proof (cases a)
    case (JUInt m)
    then obtain n where b: "b = JUInt n" using k by (cases b) auto
    have "unat m < 2 ^ 64" "unat n < 2 ^ 64" using unsigned_less [of m] unsigned_less [of n] by simp_all
    then have "unat m = unat n \<and> u = w" using cl e unfolding b JUInt scalar_forms by (rule decimal_cancel)
    then show ?thesis using JUInt b by (auto intro: unsigned_word_eqI)
  next
    case (JNegInt i)
    then obtain l where b: "b = JNegInt l" using k by (cases b) auto
    have neg: "- (2 ^ 63) \<le> i" "i < 0" "- (2 ^ 63) \<le> l" "l < 0" using assms JNegInt b by simp_all
    then have "nat (- i) < 2 ^ 64" "nat (- l) < 2 ^ 64" by simp_all
    moreover have "fmt_nat 10 (nat (- i)) @ u = fmt_nat 10 (nat (- l)) @ w" using e neg unfolding b JNegInt by simp
    ultimately have "nat (- i) = nat (- l) \<and> u = w" using cl by (intro decimal_cancel)
    then show ?thesis using neg JNegInt b eq_nat_nat_iff [of "- i" "- l"] by simp
  next
    case (JString s)
    then obtain t where "b = JString t" using k by (cases b) auto
    then show ?thesis using string_cancel [of s u t w] e JString by simp
  next
    case (JBool c)
    then obtain d where "b = JBool d" using k by (cases b) auto
    then show ?thesis using e JBool by (cases c; cases d) (simp_all add: str_def)
  qed (use k e assms in \<open>cases b; simp\<close>)+
qed

lemma forms_apart:
  "whole a \<Longrightarrow> json_ok a \<Longrightarrow> whole b \<Longrightarrow> json_ok b \<Longrightarrow> told_apart form a b"
proof (induction a arbitrary: b rule: json.induct)
  case (JArray js)
  show ?case unfolding told_apart_def
  proof (intro allI impI)
    fix u w
    assume e: "form (JArray js) @ u = form b @ w"
    from same_kind [OF JArray.prems this] obtain ks where b: "b = JArray ks" by (cases b) auto
    have "comma_separated (map form js) @ 93 # u = comma_separated (map form ks) @ 93 # w"
      using e JArray.prems array_form unfolding b by simp
    then have "js = ks \<and> u = w" using JArray form_opens unfolding b
      by (intro separated_cancel [where e = 93 and f = form]) (auto simp: list_all_iff)
    then show "JArray js = b \<and> u = w" using b by simp
  qed
next
  case (JObject m)
  show ?case unfolding told_apart_def
  proof (intro allI impI)
    fix u w
    assume e: "form (JObject m) @ u = form b @ w"
    from same_kind [OF JObject.prems this] obtain l where b: "b = JObject l" by (cases b) auto
    have "comma_separated (map member_form m) @ 125 # u = comma_separated (map member_form l) @ 125 # w"
      using e JObject.prems object_form unfolding b by simp
    moreover have "told_apart member_form p q" if "p \<in> set m" "q \<in> set l" for p q
      using JObject.prems that JObject.IH [of p "snd p" "snd q"] unfolding b
      by (intro members_apart) (auto simp: list_all_iff snds.simps)
    ultimately have "m = l \<and> u = w"
      by (intro separated_cancel [where e = 125 and f = member_form])
        (auto simp: opens_def member_form_def write_canonical_string_def)
    then show "JObject m = b \<and> u = w" using b by simp
  qed
qed (rule scalars_apart; simp)+

lemma valid_separated: "\<forall>s \<in> set ss. valid_str s \<Longrightarrow> valid_str (comma_separated ss)"
  by (induction ss rule: comma_separated.induct) (auto simp: valid_str_def scalar_def)

lemma valid_decimal: "valid_str (fmt_nat 10 n)"
  using decimal_digits [of _ n] by (fastforce simp: valid_str_def scalar_def list_all_iff)

lemma valid_string_form: "valid_str s \<Longrightarrow> valid_str (write_canonical_string s)"
  by (auto simp: valid_str_def scalar_def list_all_iff write_canonical_string_def)

lemma valid_form: "whole j \<Longrightarrow> json_ok j \<Longrightarrow> valid_str (form j)"
proof (induction j)
  case (JArray js)
  then have "valid_str (comma_separated (map form js))" by (intro valid_separated) (auto simp: list_all_iff)
  then show ?case using array_form JArray.prems(1) by (simp add: valid_str_def scalar_def)
next
  case (JObject m)
  have "valid_str (member_form p)" if "p \<in> set m" for p
    using JObject.prems JObject.IH [of p "snd p"] valid_string_form [of "fst p"] that
    by (auto simp: member_form_def list_all_iff snds.simps valid_str_def scalar_def)
  then have "valid_str (comma_separated (map member_form m))" by (intro valid_separated) auto
  then show ?case using object_form JObject.prems by (simp add: valid_str_def scalar_def)
qed (auto simp: valid_decimal valid_string_form, auto simp: valid_str_def scalar_def str_def valid_decimal [unfolded valid_str_def scalar_def])

lemma canonical_form: "canonical_json j = Some bs \<longleftrightarrow> whole j \<and> bs = as_bytes (form j)"
  using written_whole whole_written by (fastforce simp: canonical_json_def)

text \<open>C12. Two JSON values with the same canonical bytes are the same value: a signature over the
  canonical form of a TUF role covers everything that is later read out of it.\<close>
theorem canonical_json_inject:
  assumes "json_ok a" "json_ok b" "canonical_json a = Some bs" "canonical_json b = Some bs"
  shows "a = b"
proof -
  have ab: "whole a" "whole b" "as_bytes (form a) = as_bytes (form b)" using assms(3,4) by (simp_all add: canonical_form)
  have "form a = form b" using ab valid_form assms(1,2) by (intro as_bytes_inj) simp_all
  then show ?thesis using forms_apart [OF ab(1) assms(1) ab(2) assms(2)] by (auto simp: told_apart_def closed_def)
qed

theorem canonical_json_inject_witness:
  "json_ok (JArray [JUInt 7]) \<and> canonical_json (JArray [JUInt 7]) = Some [91, 55, 93] \<and> JArray [JUInt 7] = JArray [JUInt (3 + 4)]"
proof -
  have a: "json_ok (JArray [JUInt 7])" "json_ok (JArray [JUInt (3 + 4)])" by simp_all
  have b: "canonical_json (JArray [JUInt 7]) = Some [91, 55, 93]" "canonical_json (JArray [JUInt (3 + 4)]) = Some [91, 55, 93]"
    by (simp_all add: canonical_json_def as_i64_def fmt_i64_def fmt_nat.simps digit_char_def as_bytes_def utf8_char_def)
  show ?thesis using canonical_json_inject [OF a b] a(1) b(1) by blast
qed

end
