(* ===== verification/Civil.thy ===== *)
theory Civil
  imports Main "HOL-Library.Signed_Division"
begin

text \<open>
  Calendar arithmetic (\<^verbatim>\<open>synch-core/src/civil.rs\<close>): day counts and dates of the proleptic Gregorian calendar.
  An \<^verbatim>\<open>i64\<close> is an integer, since no date that the callers build comes near its ends; \<open>sdiv\<close> is
  Rust's division, which rounds towards zero, and \<open>div\<close> and \<open>mod\<close> are \<^verbatim>\<open>div_euclid\<close> and \<^verbatim>\<open>rem_euclid\<close>.
\<close>

section \<open>The code\<close>

definition days_from_civil :: "int \<Rightarrow> int \<Rightarrow> int \<Rightarrow> int" where
  "days_from_civil year month day =
     (let year = year - (if month \<le> 2 then 1 else 0);
          era = (if year \<ge> 0 then year else year - 399) sdiv 400;
          year_of_era = year - era * 400;
          day_of_year = (153 * (month + (if month > 2 then - 3 else 9)) + 2) sdiv 5 + day - 1;
          day_of_era = year_of_era * 365 + year_of_era sdiv 4 - year_of_era sdiv 100 + day_of_year
      in era * 146097 + day_of_era - 719468)"

definition civil_from_days :: "int \<Rightarrow> int \<times> int \<times> int" where
  "civil_from_days days =
     (let z = days + 719468;
          era = z div 146097;
          day_of_era = z mod 146097;
          year_of_era = (day_of_era - day_of_era sdiv 1460 + day_of_era sdiv 36524 - day_of_era sdiv 146096) sdiv 365;
          year = year_of_era + era * 400;
          day_of_year = day_of_era - (365 * year_of_era + year_of_era sdiv 4 - year_of_era sdiv 100);
          month_prime = (5 * day_of_year + 2) sdiv 153;
          day = day_of_year - (153 * month_prime + 2) sdiv 5 + 1;
          month = (if month_prime < 10 then month_prime + 3 else month_prime - 9)
      in (year + (if month \<le> 2 then 1 else 0), month, day))"

definition civil_from_unix :: "int \<Rightarrow> int \<times> int \<times> int \<times> int \<times> int \<times> int" where
  "civil_from_unix unix_secs =
     (let (year, month, day) = civil_from_days (unix_secs div 86400);
          rest = unix_secs mod 86400
      in (year, month, day, rest sdiv 3600, (rest smod 3600) sdiv 60, rest smod 60))"

section \<open>The calendar\<close>

definition leap :: "int \<Rightarrow> bool" where
  "leap y \<longleftrightarrow> 4 dvd y \<and> (\<not> 100 dvd y \<or> 400 dvd y)"

definition month_length :: "int \<Rightarrow> int \<Rightarrow> int" where
  "month_length y m = (if m = 2 then if leap y then 29 else 28 else if m \<in> {4, 6, 9, 11} then 30 else 31)"

fun next_day :: "int \<times> int \<times> int \<Rightarrow> int \<times> int \<times> int" where
  "next_day (y, m, d) =
     (if d < month_length y m then (y, m, d + 1) else if m < 12 then (y, m + 1, 1) else (y + 1, 1, 1))"

definition date_ok :: "int \<times> int \<times> int \<Rightarrow> bool" where
  "date_ok = (\<lambda>(y, m, d). 1 \<le> m \<and> m \<le> 12 \<and> 1 \<le> d \<and> d \<le> month_length y m)"

section \<open>Years that begin in March\<close>

text \<open>The days before 1 March of year \<open>y\<close>, counted from 1 March of year 0, and the length of the year
  that begins there, which ends with the February of the next.\<close>

definition year_start :: "int \<Rightarrow> int" where
  "year_start y = 365 * y + y div 4 - y div 100 + y div 400"

definition year_days :: "int \<Rightarrow> int" where
  "year_days y = (if leap (y + 1) then 366 else 365)"

lemma sdiv_div: "0 \<le> a \<Longrightarrow> 0 < b \<Longrightarrow> a sdiv b = a div b" "0 \<le> a \<Longrightarrow> 0 < b \<Longrightarrow> a smod b = a mod b" for a b :: int
  by (cases "a = 0"; simp add: signed_divide_int_def signed_modulo_int_def)+

text \<open>A year as its era, century, group of four and place in the group.\<close>

lemma year_parts:
  fixes y :: int
  obtains e c q t where "y = 400 * e + 100 * c + 4 * q + t" "0 \<le> c" "c \<le> 3" "0 \<le> q" "q \<le> 24" "0 \<le> t" "t \<le> 3"
proof -
  define r where "r = y mod 400"
  define s where "s = r mod 100"
  have r: "y = 400 * (y div 400) + r" "0 \<le> r" "r < 400" by (simp_all add: r_def)
  have s: "r = 100 * (r div 100) + s" "0 \<le> s" "s < 100" by (simp_all add: s_def)
  have t: "s = 4 * (s div 4) + s mod 4" "0 \<le> s mod 4" "s mod 4 < 4" by simp_all
  show thesis
    by (rule that [of "y div 400" "r div 100" "s div 4" "s mod 4"]) (use r s t in linarith)+
qed

lemma parts_div:
  fixes e c q t :: int
  assumes "0 \<le> c" "c \<le> 3" "0 \<le> q" "q \<le> 24" "0 \<le> t" "t \<le> 3"
  shows "(400 * e + 100 * c + 4 * q + t) div 4 = 100 * e + 25 * c + q"
    and "(400 * e + 100 * c + 4 * q + t) div 100 = 4 * e + c"
    and "(400 * e + 100 * c + 4 * q + t) div 400 = e"
proof -
  show "(400 * e + 100 * c + 4 * q + t) div 4 = 100 * e + 25 * c + q"
    by (rule int_div_pos_eq [where r = t]) (use assms in simp_all)
  show "(400 * e + 100 * c + 4 * q + t) div 100 = 4 * e + c"
    by (rule int_div_pos_eq [where r = "4 * q + t"]) (use assms in simp_all)
  show "(400 * e + 100 * c + 4 * q + t) div 400 = e"
    by (rule int_div_pos_eq [where r = "100 * c + 4 * q + t"]) (use assms in simp_all)
qed

lemma dvd_last: "0 < r \<Longrightarrow> r \<le> n \<Longrightarrow> n dvd n * k + r \<longleftrightarrow> r = n" for n k r :: int
  using zdvd_not_zless [of r n] by (auto simp: dvd_add_right_iff order_le_less)

lemma year_start_parts:
  fixes e c q t :: int
  assumes "0 \<le> c" "c \<le> 3" "0 \<le> q" "q \<le> 24" "0 \<le> t" "t \<le> 3"
  shows "year_start (400 * e + 100 * c + 4 * q + t) = 146097 * e + 36524 * c + 1461 * q + 365 * t"
  unfolding year_start_def parts_div [OF assms] by simp

lemma year_days_parts:
  fixes e c q t :: int
  assumes "0 \<le> c" "c \<le> 3" "0 \<le> q" "q \<le> 24" "0 \<le> t" "t \<le> 3"
  shows "year_days (400 * e + 100 * c + 4 * q + t) = (if t = 3 \<and> (q \<noteq> 24 \<or> c = 3) then 366 else 365)"
proof -
  have "4 dvd 400 * e + 100 * c + 4 * q + t + 1 \<longleftrightarrow> t = 3"
    using dvd_last [of "t + 1" 4 "100 * e + 25 * c + q"] assms by (simp add: algebra_simps)
  moreover have "100 dvd 400 * e + 100 * c + 4 * q + t + 1 \<longleftrightarrow> 4 * q + t + 1 = 100"
    using dvd_last [of "4 * q + t + 1" 100 "4 * e + c"] assms by (simp add: algebra_simps)
  moreover have "400 dvd 400 * e + 100 * c + 4 * q + t + 1 \<longleftrightarrow> 100 * c + 4 * q + t + 1 = 400"
    using dvd_last [of "100 * c + 4 * q + t + 1" 400 e] assms by (simp add: algebra_simps)
  moreover have "4 * q + t + 1 = 100 \<longleftrightarrow> t = 3 \<and> q = 24" "100 * c + 4 * q + t + 1 = 400 \<longleftrightarrow> t = 3 \<and> q = 24 \<and> c = 3"
    using assms by arith+
  ultimately show ?thesis unfolding year_days_def leap_def by auto
qed

lemma div_succ:
  fixes n y :: int
  assumes "0 < n"
  shows "(y + 1) div n = y div n + (if n dvd y + 1 then 1 else 0)"
proof -
  define k where "k = y div n"
  define r where "r = y mod n"
  have y: "y + 1 = n * k + (r + 1)" by (simp add: k_def r_def)
  have r: "0 < r + 1" "r + 1 \<le> n"
    using pos_mod_bound [OF assms, of y] pos_mod_sign [OF assms, of y] unfolding r_def by linarith+
  have e: "n dvd y + 1 \<longleftrightarrow> r + 1 = n" unfolding y using r by (rule dvd_last)
  show ?thesis
  proof (cases "r + 1 = n")
    case True
    then have "(y + 1) div n = k + 1"
      using assms by (intro int_div_pos_eq [where r = 0]) (simp_all add: y distrib_left)
    then show ?thesis using True e by (simp add: k_def)
  next
    case False
    then have "(y + 1) div n = k"
      using r y by (intro int_div_pos_eq [where r = "r + 1"]) linarith+
    then show ?thesis using False e by (simp add: k_def)
  qed
qed

lemma year_start_Suc: "year_start (y + 1) = year_start y + year_days y"
proof -
  define a b c where "a \<longleftrightarrow> 4 dvd y + 1" and "b \<longleftrightarrow> 100 dvd y + 1" and "c \<longleftrightarrow> 400 dvd y + 1"
  define u v w where "u = y div 4" and "v = y div 100" and "w = y div 400"
  have "(100 :: int) dvd 400" "(4 :: int) dvd 100" by simp_all
  then have t: "c \<longrightarrow> b" "b \<longrightarrow> a" unfolding a_def b_def c_def by (blast intro: dvd_trans)+
  have "year_start (y + 1) = 365 * (y + 1) + (u + (if a then 1 else 0)) - (v + (if b then 1 else 0)) + (w + (if c then 1 else 0))"
    unfolding year_start_def div_succ [OF zero_less_numeral] a_def b_def c_def u_def v_def w_def ..
  moreover have "year_start y = 365 * y + u - v + w" unfolding year_start_def u_def v_def w_def ..
  moreover have "year_days y = (if a \<and> (\<not> b \<or> c) then 366 else 365)"
    unfolding year_days_def leap_def a_def b_def c_def ..
  ultimately show ?thesis using t by (cases a; cases b; cases c) simp_all
qed

lemma every_day: "\<exists>y doy. n = year_start y + doy \<and> 0 \<le> doy \<and> doy < year_days y"
proof (induction n rule: int_induct [where k = 0])
  case base
  show ?case by (rule exI [of _ 0]) (simp add: year_start_def year_days_def)
next
  case (step1 i)
  then obtain y doy where y: "i = year_start y + doy" "0 \<le> doy" "doy < year_days y" by blast
  show ?case
  proof (cases "doy + 1 < year_days y")
    case True
    then show ?thesis using y by (intro exI [of _ y] exI [of _ "doy + 1"]) simp
  next
    case False
    then show ?thesis using y year_start_Suc [of y]
      by (intro exI [of _ "y + 1"] exI [of _ 0]) (auto simp: year_days_def)
  qed
next
  case (step2 i)
  then obtain y doy where y: "i = year_start y + doy" "0 \<le> doy" "doy < year_days y" by blast
  show ?case
  proof (cases "doy = 0")
    case True
    then show ?thesis using y year_start_Suc [of "y - 1"]
      by (intro exI [of _ "y - 1"] exI [of _ "year_days (y - 1) - 1"]) (auto simp: year_days_def)
  next
    case False
    then show ?thesis using y by (intro exI [of _ y] exI [of _ "doy - 1"]) simp
  qed
qed

text \<open>The date of a day of a year that begins in March.\<close>

definition date_in :: "int \<Rightarrow> int \<Rightarrow> int \<times> int \<times> int" where
  "date_in y doy =
     (let mp = (5 * doy + 2) div 153; m = (if mp < 10 then mp + 3 else mp - 9)
      in (y + (if m \<le> 2 then 1 else 0), m, doy - (153 * mp + 2) div 5 + 1))"

lemma civil_year:
  fixes e c q t doy :: int
  assumes p: "0 \<le> c" "c \<le> 3" "0 \<le> q" "q \<le> 24" "0 \<le> t" "t \<le> 3"
    and doy: "0 \<le> doy" "doy < (if t = 3 \<and> (q \<noteq> 24 \<or> c = 3) then 366 else 365)"
  defines "doe \<equiv> 36524 * c + 1461 * q + 365 * t + doy"
  shows "0 \<le> doe" "doe < 146097" "(doe - doe div 1460 + doe div 36524 - doe div 146096) div 365 = 100 * c + 4 * q + t"
proof -
  have l: "doy \<le> 364 \<or> doy = 365 \<and> t = 3 \<and> (q \<noteq> 24 \<or> c = 3)" using doy by (auto split: if_splits)
  show b: "0 \<le> doe" "doe < 146097" using p doy(1) l unfolding doe_def by auto
  define o1 where "o1 = (if 1460 \<le> 24 * c + q + 365 * t + doy then 1 else 0 :: int)"
  define o2 where "o2 = (if doe = 146096 then 1 else 0 :: int)"
  have d1: "doe div 1460 = 25 * c + q + o1"
    by (rule int_div_pos_eq [where r = "24 * c + q + 365 * t + doy - 1460 * o1"]) (use p doy(1) l in \<open>auto simp: doe_def o1_def\<close>)
  have d2: "doe div 36524 = c + o2"
    by (rule int_div_pos_eq [where r = "doe - 36524 * (c + o2)"]) (use p doy(1) l in \<open>auto simp: doe_def o2_def\<close>)
  have d3: "doe div 146096 = o2"
    by (rule int_div_pos_eq [where r = "doe - 146096 * o2"]) (use b in \<open>auto simp: o2_def\<close>)
  have "0 \<le> doy - o1" "doy - o1 < 365" using p doy(1) l by (auto simp: o1_def)
  then show "(doe - doe div 1460 + doe div 36524 - doe div 146096) div 365 = 100 * c + 4 * q + t"
    unfolding d1 d2 d3 by (intro int_div_pos_eq [where r = "doy - o1"]) (simp_all add: doe_def)
qed

lemma civil_from_year:
  assumes "0 \<le> doy" "doy < year_days y"
  shows "civil_from_days (year_start y + doy - 719468) = date_in y doy"
proof -
  obtain e c q t where y: "y = 400 * e + 100 * c + 4 * q + t" and p: "0 \<le> c" "c \<le> 3" "0 \<le> q" "q \<le> 24" "0 \<le> t" "t \<le> 3"
    by (rule year_parts)
  define doe where "doe = 36524 * c + 1461 * q + 365 * t + doy"
  define yoe where "yoe = 100 * c + 4 * q + t"
  have doy: "doy < (if t = 3 \<and> (q \<noteq> 24 \<or> c = 3) then 366 else 365)" using assms(2) unfolding y year_days_parts [OF p] .
  note d = civil_year [OF p assms(1) doy, folded doe_def yoe_def]
  have z: "year_start y + doy = 146097 * e + doe" by (simp add: y year_start_parts [OF p] doe_def)
  have era: "(year_start y + doy) div 146097 = e" "(year_start y + doy) mod 146097 = doe"
    using d(1,2) unfolding z by simp_all
  have q: "yoe div 4 = 25 * c + q" "yoe div 100 = c" using parts_div(1,2) [OF p, of 0] by (simp_all add: yoe_def)
  have yoe: "0 \<le> yoe" using p by (simp add: yoe_def)
  have i: "0 \<le> doe - doe div 1460 + doe div 36524 - doe div 146096"
    using yoe unfolding d(3) [symmetric] by (simp only: pos_imp_zdiv_nonneg_iff zero_less_numeral)
  have mp: "0 \<le> (5 * doy + 2) div 153" using assms(1) by (simp add: pos_imp_zdiv_nonneg_iff)
  have s: "doe sdiv 1460 = doe div 1460" "doe sdiv 36524 = doe div 36524" "doe sdiv 146096 = doe div 146096"
    "yoe sdiv 4 = 25 * c + q" "yoe sdiv 100 = c" "(5 * doy + 2) sdiv 153 = (5 * doy + 2) div 153"
    "(153 * ((5 * doy + 2) div 153) + 2) sdiv 5 = (153 * ((5 * doy + 2) div 153) + 2) div 5"
    using d(1) sdiv_div(1) [OF yoe, of 4] sdiv_div(1) [OF yoe, of 100] q mp assms(1) by (simp_all add: sdiv_div)
  have yr: "(doe - doe div 1460 + doe div 36524 - doe div 146096) sdiv 365 = yoe"
    using i d(3) by (simp only: sdiv_div zero_less_numeral)
  have day: "doe - (365 * yoe + (25 * c + q) - c) = doy" by (simp add: doe_def yoe_def)
  have "yoe + e * 400 = y" by (simp add: y yoe_def)
  then show ?thesis
    unfolding civil_from_days_def diff_add_cancel Let_def era s yr day date_in_def by simp
qed

lemma div_bounds: "0 < n \<Longrightarrow> n * (x div n) \<le> x" "0 < n \<Longrightarrow> x < n * (x div n) + n" for n x :: int
  using pos_mod_bound [of n x] pos_mod_sign [of n x] by (simp_all add: minus_mod_eq_mult_div [symmetric])

lemma month_prime_iff:
  "(5 * doy + 2) div 153 = mp \<longleftrightarrow> (153 * mp + 2) div 5 \<le> doy \<and> doy < (153 * (mp + 1) + 2) div 5" for doy mp :: int
proof -
  define a where "a = (5 * doy + 2) div 153"
  define b where "b = (153 * mp + 2) div 5"
  define b' where "b' = (153 * (mp + 1) + 2) div 5"
  have f: "153 * a \<le> 5 * doy + 2" "5 * doy + 2 < 153 * a + 153" "5 * b \<le> 153 * mp + 2" "153 * mp + 2 < 5 * b + 5"
    "5 * b' \<le> 153 * (mp + 1) + 2" "153 * (mp + 1) + 2 < 5 * b' + 5"
    unfolding a_def b_def b'_def by (intro div_bounds; simp)+
  have "a = mp \<longleftrightarrow> b \<le> doy \<and> doy < b'"
  proof
    assume "a = mp"
    then have "5 * b \<le> 5 * doy + 4" "5 * doy + 1 \<le> 5 * b'" using f by simp_all
    then have "b \<le> doy" "doy < b'" by simp_all
    then show "b \<le> doy \<and> doy < b'" by simp
  next
    assume "b \<le> doy \<and> doy < b'"
    then have "b \<le> doy" "doy < b'" by simp_all
    then have "153 * a < 153 * mp + 153" "153 * mp < 153 * a + 153" using f by simp_all
    then have "a \<le> mp" "mp \<le> a" by simp_all
    then show "a = mp" by simp
  qed
  then show ?thesis unfolding a_def b_def b'_def .
qed

section \<open>Months\<close>

definition month_start :: "int \<Rightarrow> int" where
  "month_start mp = (153 * mp + 2) div 5"

lemma month_starts:
  "month_start 0 = 0" "month_start 1 = 31" "month_start 2 = 61" "month_start 3 = 92" "month_start 4 = 122"
  "month_start 5 = 153" "month_start 6 = 184" "month_start 7 = 214" "month_start 8 = 245" "month_start 9 = 275"
  "month_start 10 = 306" "month_start 11 = 337" "month_start 12 = 367"
  by (simp_all add: month_start_def)

lemma month_cases: "0 \<le> mp \<Longrightarrow> mp \<le> 11 \<Longrightarrow>
  mp = 0 \<or> mp = 1 \<or> mp = 2 \<or> mp = 3 \<or> mp = 4 \<or> mp = 5 \<or> mp = 6 \<or> mp = 7 \<or> mp = 8 \<or> mp = 9 \<or> mp = 10 \<or> mp = 11" for mp :: int
  by presburger

lemma date_in_at:
  assumes "month_start mp \<le> doy" "doy < month_start (mp + 1)"
  shows "date_in y doy = (if mp < 10 then (y + (if mp < 0 then 1 else 0), mp + 3, doy - month_start mp + 1)
    else (y + (if mp \<le> 11 then 1 else 0), mp - 9, doy - month_start mp + 1))"
proof -
  have "(5 * doy + 2) div 153 = mp" using assms by (simp only: month_prime_iff month_start_def)
  then show ?thesis by (auto simp: date_in_def Let_def month_start_def)
qed

lemma month_at:
  assumes "0 \<le> doy" "doy \<le> 365"
  obtains mp where "0 \<le> mp" "mp \<le> 11" "month_start mp \<le> doy" "doy < month_start (mp + 1)"
proof -
  define mp where "mp = (5 * doy + 2) div 153"
  have "153 * mp \<le> 5 * doy + 2" "5 * doy + 2 < 153 * mp + 153" unfolding mp_def by (intro div_bounds; simp)+
  then have "0 \<le> mp" "mp \<le> 11" using assms by linarith+
  moreover have "month_start mp \<le> doy \<and> doy < month_start (mp + 1)"
    using month_prime_iff [of doy mp] mp_def unfolding month_start_def by blast
  ultimately show thesis using that by blast
qed

text \<open>The months from March to January have the lengths that \<open>month_start\<close> gives them.\<close>

lemma month_length_at:
  assumes "0 \<le> mp" "mp \<le> 10"
  shows "month_length y (if mp < 10 then mp + 3 else mp - 9) = month_start (mp + 1) - month_start mp"
    and "month_start (mp + 1) < month_start (mp + 2)" "month_start (mp + 1) \<le> 337"
proof -
  have "mp \<le> 11" using assms(2) by simp
  from month_cases [OF assms(1) this] assms(2)
  show "month_length y (if mp < 10 then mp + 3 else mp - 9) = month_start (mp + 1) - month_start mp"
    "month_start (mp + 1) < month_start (mp + 2)" "month_start (mp + 1) \<le> 337"
    by (elim disjE; simp add: month_length_def month_starts)+
qed

text \<open>Up to January the months have the lengths of \<open>month_start\<close>; the last one is February.\<close>

lemma date_in_early:
  assumes "0 \<le> mp" "mp \<le> 10" "month_start mp \<le> doy" "doy < month_start (mp + 1)"
  shows "date_ok (date_in y doy)" "next_day (date_in y doy) = date_in y (doy + 1)"
proof -
  note at = date_in_at [OF assms(3,4), of y]
  note len = month_length_at(1) [OF assms(1,2)]
  show "date_ok (date_in y doy)" unfolding at date_ok_def using len assms by (auto split: if_splits)
  show "next_day (date_in y doy) = date_in y (doy + 1)"
  proof (cases "doy + 1 < month_start (mp + 1)")
    case True
    then have "date_in y (doy + 1) = (if mp < 10 then (y + (if mp < 0 then 1 else 0), mp + 3, doy + 1 - month_start mp + 1)
        else (y + (if mp \<le> 11 then 1 else 0), mp - 9, doy + 1 - month_start mp + 1))"
      using assms by (intro date_in_at) simp_all
    then show ?thesis unfolding at using len True assms by (auto split: if_splits)
  next
    case False
    then have e: "doy + 1 = month_start (mp + 1)" using assms by simp
    have "date_in y (doy + 1) = (if mp + 1 < 10 then (y + (if mp + 1 < 0 then 1 else 0), mp + 1 + 3, doy + 1 - month_start (mp + 1) + 1)
        else (y + (if mp + 1 \<le> 11 then 1 else 0), mp + 1 - 9, doy + 1 - month_start (mp + 1) + 1))"
      using month_length_at(2) [OF assms(1,2)] e by (intro date_in_at) (simp_all add: add.commute add.left_commute)
    then show ?thesis unfolding at using len e assms by (auto split: if_splits)
  qed
qed

lemma date_in_last:
  assumes "337 \<le> doy" "doy < year_days y"
  shows "date_ok (date_in y doy)" "next_day (date_in y doy) = (if doy + 1 < year_days y then date_in y (doy + 1) else date_in (y + 1) 0)"
proof -
  have b: "year_days y = 337 + month_length (y + 1) 2" "year_days y \<le> 366" by (simp_all add: year_days_def month_length_def)
  have at: "date_in y d = (y + 1, 2, d - 336)" if "337 \<le> d" "d \<le> 366" for d
    using date_in_at [of 11 d y] that by (simp add: month_start_def)
  have "date_in (y + 1) 0 = (y + 1, 3, 1)" using date_in_at [of 0 0 "y + 1"] by (simp add: month_start_def)
  then show "date_ok (date_in y doy)" "next_day (date_in y doy) = (if doy + 1 < year_days y then date_in y (doy + 1) else date_in (y + 1) 0)"
    using at [of doy] at [of "doy + 1"] assms b by (auto simp: date_ok_def)
qed

lemma date_in_steps:
  assumes "0 \<le> doy" "doy < year_days y"
  shows "date_ok (date_in y doy)"
    and "next_day (date_in y doy) = (if doy + 1 < year_days y then date_in y (doy + 1) else date_in (y + 1) 0)"
proof -
  have b: "365 \<le> year_days y" "year_days y \<le> 366" by (simp_all add: year_days_def)
  then have "doy \<le> 365" using assms(2) by simp
  then obtain mp where mp: "0 \<le> mp" "mp \<le> 11" "month_start mp \<le> doy" "doy < month_start (mp + 1)"
    using month_at [OF assms(1)] by blast
  have "date_ok (date_in y doy) \<and>
      next_day (date_in y doy) = (if doy + 1 < year_days y then date_in y (doy + 1) else date_in (y + 1) 0)"
  proof (cases "mp = 11")
    case True
    then show ?thesis using date_in_last assms(2) mp(3) month_starts by auto
  next
    case False
    then have "mp \<le> 10" using mp(2) by simp
    then show ?thesis using date_in_early [OF mp(1) _ mp(3,4), of y] month_length_at(3) [OF mp(1)] mp(4) b by auto
  qed
  then show "date_ok (date_in y doy)"
    "next_day (date_in y doy) = (if doy + 1 < year_days y then date_in y (doy + 1) else date_in (y + 1) 0)" by simp_all
qed

section \<open>The inverse\<close>

lemma era_div: "(if y \<ge> 0 then y else y - 399) sdiv 400 = y div 400" for y :: int
proof (cases "y \<ge> 0")
  case False
  then have "(y - 399) sdiv 400 = - ((399 - y) div 400)" by (simp add: signed_divide_int_def)
  moreover have "(399 - y) div 400 = - (y div 400)"
  proof -
    define k where "k = y div 400"
    have "400 * k \<le> y" "y < 400 * k + 400" unfolding k_def by (intro div_bounds; simp)+
    then have "(399 - y) div 400 = - k" by (intro int_div_pos_eq [where r = "399 - y + 400 * k"]) simp_all
    then show ?thesis by (simp add: k_def)
  qed
  ultimately show ?thesis using False by simp
qed (simp add: sdiv_div)

lemma year_start_era: "year_start y = 146097 * (y div 400) + (365 * (y mod 400) + y mod 400 div 4 - y mod 400 div 100)"
proof -
  define e r where "e = y div 400" and "r = y mod 400"
  have y: "y = e * 400 + r" by (simp add: e_def r_def)
  have "y div 4 = e * 100 + r div 4" unfolding y using div_mult_self3 [of 4 "e * 100" r] by simp
  moreover have "y div 100 = e * 4 + r div 100" unfolding y using div_mult_self3 [of 100 "e * 4" r] by simp
  moreover have "365 * y = 146000 * e + 365 * r" unfolding y by simp
  ultimately show ?thesis unfolding year_start_def e_def [symmetric] r_def [symmetric] by simp
qed

lemma days_from_civil_start:
  assumes "1 \<le> m" "m \<le> 12"
  shows "days_from_civil y m d =
    year_start (y - (if m \<le> 2 then 1 else 0)) + (month_start (if m > 2 then m - 3 else m + 9) + d - 1) - 719468"
proof -
  define y' where "y' = y - (if m \<le> 2 then 1 else 0)"
  define mp where "mp = m + (if m > 2 then - 3 else 9)"
  have mp: "0 \<le> mp" "mp = (if m > 2 then m - 3 else m + 9)" using assms by (simp_all add: mp_def)
  have r: "y' - y' div 400 * 400 = y' mod 400" by (simp add: minus_div_mult_eq_mod)
  have s: "(153 * mp + 2) sdiv 5 = month_start mp" "y' mod 400 sdiv 4 = y' mod 400 div 4" "y' mod 400 sdiv 100 = y' mod 400 div 100"
    using mp(1) by (simp_all add: month_start_def sdiv_div)
  show ?thesis
    unfolding days_from_civil_def Let_def y'_def [symmetric] mp_def [symmetric] era_div r s mp(2) [symmetric] year_start_era by simp
qed

lemma days_of_date_in:
  assumes "0 \<le> doy" "doy < year_days y" "date_in y doy = (y', m, d)"
  shows "days_from_civil y' m d = year_start y + doy - 719468"
proof -
  have "doy \<le> 365" using assms(2) by (simp add: year_days_def split: if_splits)
  then obtain mp where mp: "0 \<le> mp" "mp \<le> 11" "month_start mp \<le> doy" "doy < month_start (mp + 1)"
    using month_at [OF assms(1)] by blast
  have m: "m = (if mp < 10 then mp + 3 else mp - 9)" "y' = y + (if m \<le> 2 then 1 else 0)" "d = doy - month_start mp + 1"
    using date_in_at [OF mp(3,4), of y] assms(3) mp(1,2) by (auto split: if_splits)
  then have "1 \<le> m" "m \<le> 12" "(if m > 2 then m - 3 else m + 9) = mp" "y' - (if m \<le> 2 then 1 else 0) = y" using mp by auto
  then show ?thesis using days_from_civil_start [of m y' d] m(3) by simp
qed

lemma days_of_civil: "civil_from_days n = (y, m, d) \<Longrightarrow> days_from_civil y m d = n"
proof -
  assume a: "civil_from_days n = (y, m, d)"
  obtain y' doy where "n + 719468 = year_start y' + doy" and d: "0 \<le> doy" "doy < year_days y'" using every_day by blast
  then have n: "n = year_start y' + doy - 719468" by simp
  have "civil_from_days n = date_in y' doy" unfolding n using d by (rule civil_from_year)
  then show ?thesis using days_of_date_in [OF d, of y m d] a n by simp
qed

text \<open>The place of a date in the year that begins in March.\<close>

lemma place_in_year:
  assumes "date_ok (y, m, d)"
  defines "mp \<equiv> if m > 2 then m - 3 else m + 9" and "y' \<equiv> y - (if m \<le> 2 then 1 else 0)"
  shows "0 \<le> month_start mp + d - 1" "month_start mp + d - 1 < year_days y'" "month_start mp + d - 1 < month_start (mp + 1)"
proof -
  have a: "1 \<le> m" "m \<le> 12" "1 \<le> d" "d \<le> month_length y m" using assms(1) by (simp_all add: date_ok_def)
  have mp: "0 \<le> mp" "mp \<le> 11" using a by (auto simp: mp_def)
  have y: "365 \<le> year_days y'" by (simp add: year_days_def)
  have "0 \<le> month_start mp" using month_cases [OF mp] by (elim disjE) (simp_all add: month_starts)
  then show "0 \<le> month_start mp + d - 1" using a by simp
  have "month_start mp + d - 1 < year_days y' \<and> month_start mp + d - 1 < month_start (mp + 1)"
  proof (cases "mp \<le> 10")
    case True
    then have "month_length y m = month_start (mp + 1) - month_start mp"
      using month_length_at(1) [OF mp(1) True, of y] a(1,2) by (auto simp: mp_def split: if_splits)
    then show ?thesis using month_length_at(3) [OF mp(1) True] a(4) y by simp
  next
    case False
    then have "mp = 11" "m = 2" using mp(2) a by (auto simp: mp_def split: if_splits)
    then show ?thesis using a(4) by (simp add: month_starts year_days_def month_length_def y'_def split: if_splits)
  qed
  then show "month_start mp + d - 1 < year_days y'" "month_start mp + d - 1 < month_start (mp + 1)" by simp_all
qed

lemma civil_of_days: "date_ok (y, m, d) \<Longrightarrow> civil_from_days (days_from_civil y m d) = (y, m, d)"
proof -
  assume ok: "date_ok (y, m, d)"
  define mp y' where "mp = (if m > 2 then m - 3 else m + 9)" and "y' = y - (if m \<le> 2 then 1 else 0)"
  note p = place_in_year [OF ok, folded mp_def y'_def]
  have a: "1 \<le> m" "m \<le> 12" "1 \<le> d" using ok by (simp_all add: date_ok_def)
  have "days_from_civil y m d = year_start y' + (month_start mp + d - 1) - 719468"
    using days_from_civil_start [OF a(1,2), of y d] by (simp add: mp_def y'_def)
  then have "civil_from_days (days_from_civil y m d) = date_in y' (month_start mp + d - 1)"
    using civil_from_year [OF p(1,2)] by simp
  then show ?thesis using date_in_at [OF _ p(3), of y'] a by (auto simp: mp_def y'_def split: if_splits)
qed

lemma civil_date_ok: "date_ok (civil_from_days n)"
proof -
  obtain y doy where "n + 719468 = year_start y + doy" and d: "0 \<le> doy" "doy < year_days y" using every_day by blast
  then have n: "n = year_start y + doy - 719468" by simp
  show ?thesis unfolding n civil_from_year [OF d] by (rule date_in_steps(1) [OF d])
qed

section \<open>What the conversions compute\<close>


end
