(* ===== verification/Rfc3339.thy ===== *)
theory Rfc3339
  imports Civil Text_Ops
begin

text \<open>
  The timestamps of TUF metadata (\<open>parse_rfc3339\<close> of \<^verbatim>\<open>synch-net/src/tuf.rs\<close>), as seconds since the
  epoch. \<open>str_get\<close> is \<^verbatim>\<open>str::get\<close> by byte offsets, which gives nothing inside a character, and
  \<open>parse_i64\<close> is \<^verbatim>\<open>str::parse::<i64>\<close>, which admits one sign.
\<close>

section \<open>Slices and signed numbers\<close>

fun byte_split :: "nat \<Rightarrow> rstr \<Rightarrow> (rstr \<times> rstr) option" where
  "byte_split n [] = (if n = 0 then Some ([], []) else None)"
| "byte_split n (c # s) =
     (if n = 0 then Some ([], c # s)
      else if utf8_width c \<le> n then map_option (\<lambda>(a, b). (c # a, b)) (byte_split (n - utf8_width c) s)
      else None)"

definition str_get :: "rstr \<Rightarrow> nat \<Rightarrow> nat \<Rightarrow> rstr option" where
  "str_get s a b = (case byte_split b s of None \<Rightarrow> None | Some (p, _) \<Rightarrow> map_option snd (byte_split a p))"

definition parse_i64 :: "rstr \<Rightarrow> int option" where
  "parse_i64 s =
     (let (negative, ds) = (case s of [] \<Rightarrow> (False, [])
          | c # r \<Rightarrow> if r \<noteq> [] \<and> c = 45 then (True, r) else if r \<noteq> [] \<and> c = 43 then (False, r) else (False, s))
      in if ds = [] then None
      else case digits_value 10 0 ds of None \<Rightarrow> None
        | Some n \<Rightarrow>
          let v = (if negative then - int n else int n)
          in if - (2 ^ 63) \<le> v \<and> v < 2 ^ 63 then Some v else None)"

section \<open>The parser\<close>

definition last_day :: "int \<Rightarrow> int \<Rightarrow> int" where
  "last_day year month =
     (let leap = (year smod 4 = 0 \<and> (year smod 100 \<noteq> 0 \<or> year smod 400 = 0)) in
      if month \<in> {1, 3, 5, 7, 8, 10, 12} then 31
      else if month \<in> {4, 6, 9, 11} then 30
      else 28 + (if leap then 1 else 0))"

definition skip_fraction :: "rstr \<Rightarrow> rstr" where
  "skip_fraction rest =
     (case strip_prefix [46] rest of
        Some fraction \<Rightarrow> dropWhile (\<lambda>c. 48 \<le> c \<and> c \<le> 57) fraction
      | None \<Rightarrow> rest)"

definition zone_offset :: "rstr \<Rightarrow> int option" where
  "zone_offset rest =
     (let b = as_bytes rest in
      if b = [90] \<or> b = [122] \<or> b = [] then Some 0
      else if (hd b = 43 \<or> hd b = 45) \<and> length b = 6 \<and> b ! 3 = 58 then
        Option.bind (Option.bind (str_get rest 1 3) parse_i64) (\<lambda>hours.
        Option.bind (Option.bind (str_get rest 4 6) parse_i64) (\<lambda>minutes.
        let magnitude = hours * 3600 + minutes * 60
        in Some (if hd b = 45 then - magnitude else magnitude)))
      else None)"

definition parse_rfc3339 :: "rstr \<Rightarrow> int option" where
  "parse_rfc3339 txt =
     (let b = as_bytes txt;
          number = (\<lambda>from upto. Option.bind (str_get txt from upto) parse_i64)
      in if length b < 19 \<or> b ! 4 \<noteq> 45 \<or> b ! 7 \<noteq> 45 \<or> b ! 10 \<noteq> 84 \<or> b ! 13 \<noteq> 58 \<or> b ! 16 \<noteq> 58 then None
      else
        Option.bind (number 0 4) (\<lambda>year.
        Option.bind (number 5 7) (\<lambda>month.
        Option.bind (number 8 10) (\<lambda>day.
        Option.bind (number 11 13) (\<lambda>hour.
        Option.bind (number 14 16) (\<lambda>minute.
        Option.bind (number 17 19) (\<lambda>sec.
        if \<not> (1 \<le> month \<and> month \<le> 12) \<or> hour > 23 \<or> minute > 59 \<or> sec > 60 then None
        else if \<not> (1 \<le> day \<and> day \<le> last_day year month) then None
        else
          Option.bind (byte_split 19 txt) (\<lambda>(_, rest).
          Option.bind (zone_offset (skip_fraction rest)) (\<lambda>offset.
          Some (days_from_civil year month day * 86400 + hour * 3600 + minute * 60 + sec - offset))))))))))"

section \<open>Slices of ASCII text\<close>

lemma byte_split_ascii:
  "\<forall>c \<in> set s. c < 128 \<Longrightarrow> byte_split n s = (if n \<le> length s then Some (take n s, drop n s) else None)"
proof (induction s arbitrary: n)
  case (Cons c s)
  then show ?case by (cases n) (auto simp: utf8_width_def)
qed simp

lemma str_get_ascii:
  "\<forall>c \<in> set s. c < 128 \<Longrightarrow> a \<le> b \<Longrightarrow> b \<le> length s \<Longrightarrow> str_get s a b = Some (drop a (take b s))"
  using byte_split_ascii [of s b] byte_split_ascii [of "take b s" a] set_take_subset [of b s] by (auto simp: str_get_def)

lemma as_bytes_ascii_map: "\<forall>c \<in> set s. c < 128 \<Longrightarrow> as_bytes s = map of_nat s"
  by (induction s) (auto simp: as_bytes_ascii)

text \<open>The slice at byte 19 does not panic: the seconds end there.\<close>

lemma slice_defined: "str_get s a b \<noteq> None \<Longrightarrow> byte_split b s \<noteq> None"
  by (auto simp: str_get_def split: option.splits)

lemma smod_zero_iff: "0 < k \<Longrightarrow> y smod k = 0 \<longleftrightarrow> k dvd y" for k y :: int
  unfolding signed_modulo_int_def by (auto simp: dvd_eq_mod_eq_0 [symmetric] sgn_if)

lemma last_day_month_length:
  assumes "1 \<le> m" "m \<le> 12"
  shows "last_day y m = month_length y m"
proof -
  have l: "(y smod 4 = 0 \<and> (y smod 100 \<noteq> 0 \<or> y smod 400 = 0)) = leap y"
    by (simp only: smod_zero_iff zero_less_numeral leap_def)
  have e: "last_day y m = (if m \<in> {1, 3, 5, 7, 8, 10, 12} then 31 else if m \<in> {4, 6, 9, 11} then 30 else 28 + (if leap y then 1 else 0))"
    unfolding last_day_def Let_def l ..
  have "0 \<le> m - 1" "m - 1 \<le> 11" using assms by simp_all
  from month_cases [OF this] show ?thesis unfolding e
    by (elim disjE) (simp_all add: month_length_def algebra_simps)
qed

section \<open>What is parsed\<close>

text \<open>The rendering of an instant, with two or four digits for a number.\<close>

definition two :: "int \<Rightarrow> rstr" where
  "two n = [digit_char (nat n div 10), digit_char (nat n mod 10)]"

definition four :: "int \<Rightarrow> rstr" where
  "four n = two (n div 100) @ two (n mod 100)"

definition rfc3339_text :: "int \<Rightarrow> rstr" where
  "rfc3339_text t =
     (let (year, month, day, hour, minute, sec) = civil_from_unix t
      in four year @ [45] @ two month @ [45] @ two day @ [84] @ two hour @ [58] @ two minute @ [58] @ two sec @ [90])"

lemma digits_two: "0 \<le> n \<Longrightarrow> n < 100 \<Longrightarrow> digits_value 10 acc (two n @ s) =
    (if acc * 100 + nat n < 2 ^ 64 then digits_value 10 (acc * 100 + nat n) s else None)"
proof -
  assume n: "0 \<le> n" "n < 100"
  define k where "k = nat n"
  have k: "k < 100" "k div 10 < 10" "k mod 10 < 10" "10 * (k div 10) + k mod 10 = k" using n by (auto simp: k_def)
  have "(acc * 10 + k div 10) * 10 + k mod 10 = acc * 100 + k" using k(4) by simp
  then show ?thesis using k(2,3) unfolding two_def k_def [symmetric] by (auto simp: ac_simps)
qed

lemma parse_two: "0 \<le> n \<Longrightarrow> n < 100 \<Longrightarrow> parse_i64 (two n) = Some n"
proof -
  assume n: "0 \<le> n" "n < 100"
  have d: "digits_value 10 0 (two n) = Some (nat n)" using digits_two [OF n, of 0 "[]"] n by simp
  have "digit_char (nat n div 10) \<noteq> 45" "digit_char (nat n div 10) \<noteq> 43" by (simp_all add: digit_char_def)
  then show ?thesis using d n by (simp add: parse_i64_def two_def)
qed

lemma parse_four: "0 \<le> n \<Longrightarrow> n < 10000 \<Longrightarrow> parse_i64 (four n) = Some n"
proof -
  assume n: "0 \<le> n" "n < 10000"
  have q: "0 \<le> n div 100" "n div 100 < 100" "0 \<le> n mod 100" "n mod 100 < 100" using n by simp_all
  have "nat (n div 100) * 100 + nat (n mod 100) = nat n"
    using n by (simp add: nat_div_distrib nat_mod_distrib)
  moreover have "nat n < 2 ^ 64" "nat (n div 100) < 2 ^ 64" using n q by simp_all
  ultimately have d: "digits_value 10 0 (four n) = Some (nat n)"
    using digits_two [OF q(1,2), of 0 "two (n mod 100)"] digits_two [OF q(3,4), of "nat (n div 100)" "[]"] by (simp add: four_def)
  have "digit_char (nat (n div 100) div 10) \<noteq> 45" "digit_char (nat (n div 100) div 10) \<noteq> 43" by (simp_all add: digit_char_def)
  then show ?thesis using d n by (simp add: parse_i64_def four_def two_def)
qed

lemma ascii_fields:
  "length (two n) = 2" "length (four n) = 4"
  "0 \<le> n \<Longrightarrow> n < 100 \<Longrightarrow> c \<in> set (two n) \<Longrightarrow> c < 128"
  "0 \<le> n \<Longrightarrow> n < 10000 \<Longrightarrow> c \<in> set (four n) \<Longrightarrow> c < 128"
proof -
  have two: "c < 128" if "0 \<le> n" "n < 100" "c \<in> set (two n)" for n
  proof -
    have "nat n div 10 < 10" using that by (simp add: nat_less_iff less_mult_imp_div_less)
    then show ?thesis using that(3) by (auto simp: two_def digit_char_def)
  qed
  show "length (two n) = 2" "length (four n) = 4" by (simp_all add: two_def four_def)
  show "0 \<le> n \<Longrightarrow> n < 100 \<Longrightarrow> c \<in> set (two n) \<Longrightarrow> c < 128" by (rule two)
  show "c < 128" if "0 \<le> n" "n < 10000" "c \<in> set (four n)"
  proof -
    have "0 \<le> n div 100" "n div 100 < 100" "0 \<le> n mod 100" "n mod 100 < 100" using that by simp_all
    then show ?thesis using that(3) two [of "n div 100"] two [of "n mod 100"] unfolding four_def by auto
  qed
qed

lemma parse_fields:
  assumes "0 \<le> y" "y < 10000" "date_ok (y, m, d)" "0 \<le> h" "h \<le> 23" "0 \<le> mi" "mi \<le> 59" "0 \<le> s" "s \<le> 59"
  shows "parse_rfc3339 (four y @ [45] @ two m @ [45] @ two d @ [84] @ two h @ [58] @ two mi @ [58] @ two s @ [90])
    = Some (days_from_civil y m d * 86400 + h * 3600 + mi * 60 + s)" (is "parse_rfc3339 ?txt = _")
proof -
  have md: "1 \<le> m" "m \<le> 12" "1 \<le> d" "d \<le> month_length y m" using assms(3) by (simp_all add: date_ok_def)
  have "month_length y m \<le> 31" by (simp add: month_length_def)
  then have d: "d \<le> 31" using md(4) by simp
  define tx where "tx = ?txt"
  have len: "length tx = 20" by (simp add: tx_def ascii_fields(1,2))
  have ascii: "\<forall>c \<in> set tx. c < 128" 
    unfolding tx_def using assms md d ascii_fields(3) [of m] ascii_fields(3) [of d] ascii_fields(3) [of h] ascii_fields(3) [of mi] ascii_fields(3) [of s]
      ascii_fields(4) [of y] by auto
  note get = str_get_ascii [OF ascii]
  have f: "str_get tx 0 4 = Some (four y)" "str_get tx 5 7 = Some (two m)" "str_get tx 8 10 = Some (two d)"
    "str_get tx 11 13 = Some (two h)" "str_get tx 14 16 = Some (two mi)" "str_get tx 17 19 = Some (two s)"
    by (simp_all add: get len) (simp_all add: tx_def ascii_fields(1,2))
  have rest: "byte_split 19 tx = Some (take 19 tx, [90])" by (simp add: byte_split_ascii [OF ascii] len) (simp add: tx_def ascii_fields(1,2))
  have b: "as_bytes tx ! 4 = 45" "as_bytes tx ! 7 = 45" "as_bytes tx ! 10 = 84" "as_bytes tx ! 13 = 58"
    "as_bytes tx ! 16 = 58" "length (as_bytes tx) = 20"
    unfolding as_bytes_ascii_map [OF ascii] by (simp_all add: len) (simp_all add: tx_def nth_append ascii_fields(1,2))
  have z: "zone_offset (skip_fraction [90]) = Some 0"
    by (simp add: zone_offset_def skip_fraction_def strip_prefix_def starts_with_def as_bytes_def utf8_char_def)
  have p: "parse_i64 (four y) = Some y" "parse_i64 (two m) = Some m" "parse_i64 (two d) = Some d"
    "parse_i64 (two h) = Some h" "parse_i64 (two mi) = Some mi" "parse_i64 (two s) = Some s"
    using assms md d by (simp_all add: parse_two parse_four)
  show ?thesis unfolding tx_def [symmetric]
    unfolding parse_rfc3339_def Let_def b f rest bind.bind_lunit p last_day_month_length [OF md(1,2)]
    using md assms z by simp
qed

text \<open>C35. Every instant of the years 0 to 9999 is read back from its RFC 3339 rendering, to the second, by way of
  the calendar conversions in both directions.\<close>
theorem rfc3339_roundtrip:
  assumes "0 \<le> fst (civil_from_unix t)" "fst (civil_from_unix t) < 10000"
  shows "parse_rfc3339 (rfc3339_text t) = Some t"
proof -
  obtain y m d where c: "civil_from_days (t div 86400) = (y, m, d)" by (cases "civil_from_days (t div 86400)") auto
  define r where "r = t mod 86400"
  have r: "0 \<le> r" "r < 86400" "t = t div 86400 * 86400 + r" by (simp_all add: r_def)
  define h mi s where "h = r div 3600" and "mi = r mod 3600 div 60" and "s = r mod 60"
  have q: "r sdiv 3600 = h" "(r smod 3600) sdiv 60 = mi" "r smod 60 = s"
    using r by (simp_all add: h_def mi_def s_def sdiv_div)
  have b: "0 \<le> h" "h \<le> 23" "0 \<le> mi" "mi \<le> 59" "0 \<le> s" "s \<le> 59"
    using r(1,2) unfolding h_def mi_def s_def by (auto simp: pos_imp_zdiv_nonneg_iff)
  have "r mod 3600 mod 60 = r mod 60" by (simp add: mod_mod_cancel)
  then have rs: "h * 3600 + mi * 60 + s = r"
    unfolding h_def mi_def s_def using div_mult_mod_eq [of "r mod 3600" 60] div_mult_mod_eq [of r 3600] by linarith
  have cu: "civil_from_unix t = (y, m, d, h, mi, s)" unfolding civil_from_unix_def c Let_def r_def [symmetric] q by simp
  have ok: "date_ok (y, m, d)" using civil_date_ok [of "t div 86400"] c by simp
  have days: "days_from_civil y m d = t div 86400" by (rule days_of_civil [OF c])
  have "0 \<le> y" "y < 10000" using assms cu by simp_all
  from parse_fields [OF this ok b] show ?thesis
    using r(3) rs days by (simp add: rfc3339_text_def cu)
qed

theorem rfc3339_roundtrip_witness:
  "fst (civil_from_unix 1700000000) = 2023 \<and> parse_rfc3339 (rfc3339_text 1700000000) = Some 1700000000"
proof -
  have "fst (civil_from_unix 1700000000) = 2023"
    by code_simp
  then show ?thesis using rfc3339_roundtrip [of 1700000000] by simp
qed

text \<open>An accepted timestamp names a day that exists: an overlong day never rolls an expiry forward.\<close>

lemma parse_rfc3339_date:
  assumes "parse_rfc3339 s = Some t"
  obtains y m d h mi se off where "date_ok (y, m, d)" "h \<le> 23" "mi \<le> 59" "se \<le> 60"
    "t = days_from_civil y m d * 86400 + h * 3600 + mi * 60 + se - off"
proof -
  have "\<exists>y m d h mi se off. t = days_from_civil y m d * 86400 + h * 3600 + mi * 60 + se - off \<and>
    1 \<le> m \<and> m \<le> 12 \<and> 1 \<le> d \<and> d \<le> last_day y m \<and> h \<le> 23 \<and> mi \<le> 59 \<and> se \<le> 60"
    using assms unfolding parse_rfc3339_def Let_def
    apply (clarsimp simp: bind_eq_Some_conv not_less split: if_splits)
    apply (intro exI conjI, rule refl, assumption+)
    done
  then obtain y m d h mi se off where f: "1 \<le> m" "m \<le> 12" "1 \<le> d" "d \<le> last_day y m" "h \<le> 23" "mi \<le> 59" "se \<le> 60"
    "t = days_from_civil y m d * 86400 + h * 3600 + mi * 60 + se - off" by blast
  then show thesis using that [of y m d h mi se off] by (simp add: date_ok_def last_day_month_length)
qed

text \<open>The fields are read with their sign, and only bounded from above: a string that is no RFC 3339
  timestamp at all is accepted, and the sign in an offset turns it round.\<close>

lemma signed_fields_accepted:
  "parse_rfc3339 (str ''2026-01-01T-5:-9:-1+-9:+1'') =
   Some (days_from_civil 2026 1 1 * 86400 - 5 * 3600 - 9 * 60 - 1 + 9 * 3600 - 60)"
  by (simp add: parse_rfc3339_def str_get_def parse_i64_def last_day_def skip_fraction_def strip_prefix_def starts_with_def
      zone_offset_def as_bytes_def utf8_char_def utf8_width_def str_def to_digit_def digit_value_def)

end
