(* ===== verification/Tuf.thy ===== *)
theory Tuf
  imports Rekor_Note Canonical_Json Rfc3339
begin

text \<open>
  The verification of TUF metadata and the pin state that follows it (\<^verbatim>\<open>synch-net/src/tuf.rs\<close>): metadata
  files, the root role with its key table, \<open>update\<close>, the transparency logs a trusted root names, and the persisted
  state. The libraries are arguments: \<open>crates\<close> and \<open>verifiers\<close> as for the records, and
  \<open>tuf_libs\<close> for JSON text, hexadecimal and padded base64. Errors keep their class and drop their message.
\<close>

section \<open>Errors, files and state\<close>

record tuf_libs =
  from_slice :: "bytes \<Rightarrow> json option"
  from_str :: "rstr \<Rightarrow> json option"
  to_string :: "json \<Rightarrow> rstr"
  hex_decode :: "rstr \<Rightarrow> bytes option"
  base64_encode :: "bytes \<Rightarrow> rstr"

datatype tuf_error = TufMalformed | TufChain | TufThreshold | TufSignature | TufExpiry | TufRollback | TufTargetHash

definition tuf_error_class :: "tuf_error \<Rightarrow> string" where
  "tuf_error_class e =
     (case e of TufMalformed \<Rightarrow> ''malformed'' | TufChain \<Rightarrow> ''chain'' | TufThreshold \<Rightarrow> ''threshold''
      | TufSignature \<Rightarrow> ''signature'' | TufExpiry \<Rightarrow> ''expiry'' | TufRollback \<Rightarrow> ''rollback''
      | TufTargetHash \<Rightarrow> ''target-hash'')"

definition TRUSTED_ROOT_TARGET :: string where "TRUSTED_ROOT_TARGET = ''trusted_root.json''"
definition ROOT_ROLE :: rstr where "ROOT_ROLE = str ''root''"
definition TIMESTAMP_ROLE :: rstr where "TIMESTAMP_ROLE = str ''timestamp''"
definition SNAPSHOT_ROLE :: rstr where "SNAPSHOT_ROLE = str ''snapshot''"
definition TARGETS_ROLE :: rstr where "TARGETS_ROLE = str ''targets''"
definition SNAPSHOT_META :: string where "SNAPSHOT_META = ''snapshot.json''"
definition TARGETS_META :: string where "TARGETS_META = ''targets.json''"
definition STATE_FORMAT_VERSION :: u64 where "STATE_FORMAT_VERSION = 4"

record tuf_metadata =
  tm_roots :: "bytes list"
  tm_timestamp :: bytes
  tm_snapshot :: bytes
  tm_targets :: bytes
  tm_trusted_root :: bytes

record pin_state =
  ps_root :: bytes
  ps_root_chain :: "bytes list"
  ps_root_version :: u64
  ps_timestamp_version :: u64
  ps_snapshot_version :: u64
  ps_targets_version :: u64
  ps_targets :: bytes
  ps_trusted_root :: bytes
  ps_updated_at :: u64
  ps_anchor_digest :: digest

section \<open>Metadata files\<close>

record meta =
  m_role :: rstr
  m_version :: u64
  m_expires :: int
  m_signed :: json
  m_canonical :: bytes
  m_signatures :: "(rstr \<times> bytes) list"

fun parse_signatures :: "tuf_libs \<Rightarrow> json list \<Rightarrow> tuf_error + (rstr \<times> bytes) list" where
  "parse_signatures l [] = Inr []"
| "parse_signatures l (entry # rest) =
     result_bind (ok_or TufMalformed (as_str (json_at entry ''keyid''))) (\<lambda>keyid.
     result_bind (ok_or TufMalformed (as_str (json_at entry ''sig''))) (\<lambda>text.
     result_bind (ok_or TufMalformed (hex_decode l text)) (\<lambda>sig.
     result_bind (parse_signatures l rest) (\<lambda>sigs. Inr ((keyid, sig) # sigs)))))"

definition meta_parse :: "tuf_libs \<Rightarrow> bytes \<Rightarrow> rstr \<Rightarrow> tuf_error + meta" where
  "meta_parse l bs role =
     result_bind (ok_or TufMalformed (from_slice l bs)) (\<lambda>v.
     result_bind (ok_or TufMalformed (json_get v (str ''signed''))) (\<lambda>signed.
     result_bind (ok_or TufMalformed (as_str (json_at signed ''_type''))) (\<lambda>declared.
     if declared \<noteq> role then Inl TufChain
     else result_bind (ok_or TufMalformed (as_str (json_at signed ''spec_version''))) (\<lambda>spec.
     if \<not> starts_with (str ''1.'') spec then Inl TufMalformed
     else result_bind (ok_or TufMalformed (as_u64 (json_at signed ''version''))) (\<lambda>version.
     result_bind (ok_or TufMalformed (as_str (json_at signed ''expires''))) (\<lambda>until.
     result_bind (ok_or TufMalformed (parse_rfc3339 until)) (\<lambda>expires.
     result_bind (ok_or TufMalformed (as_array (json_at v ''signatures''))) (\<lambda>entries.
     result_bind (parse_signatures l entries) (\<lambda>signatures.
     result_bind (ok_or TufMalformed (canonical_json signed)) (\<lambda>canonical.
     Inr \<lparr>m_role = role, m_version = version, m_expires = expires, m_signed = signed, m_canonical = canonical,
       m_signatures = signatures\<rparr>))))))))))"

definition check_expiry :: "meta \<Rightarrow> u64 \<Rightarrow> tuf_error + unit" where
  "check_expiry m now = (if 0 \<le> m_expires m \<and> m_expires m > int (unat now) then Inr () else Inl TufExpiry)"

definition check_rollback :: "meta \<Rightarrow> u64 \<Rightarrow> tuf_error + unit" where
  "check_rollback m accepted = (if m_version m \<ge> accepted then Inr () else Inl TufRollback)"

definition check_hashes :: "crates \<Rightarrow> json \<Rightarrow> bytes \<Rightarrow> tuf_error + unit" where
  "check_hashes x entry bs =
     (if (case as_u64 (json_at entry ''length'') of Some n \<Rightarrow> n \<noteq> of_nat (length bs) | None \<Rightarrow> False) then Inl TufTargetHash
      else if (case as_str (json_at (json_at entry ''hashes'') ''sha256'') of
          Some expected \<Rightarrow> \<not> eq_ignore_ascii_case expected (hex x (sha x bs)) | None \<Rightarrow> False) then Inl TufTargetHash
      else Inr ())"

definition check_listed :: "crates \<Rightarrow> meta \<Rightarrow> string \<Rightarrow> bytes \<Rightarrow> u64 \<Rightarrow> tuf_error + unit" where
  "check_listed x m file bs version =
     (let entry = json_at (json_at (m_signed m) ''meta'') file in
      result_bind (ok_or TufChain (as_u64 (json_at entry ''version''))) (\<lambda>listed.
      if listed \<noteq> version then Inl TufRollback else check_hashes x entry bs))"

definition check_target :: "crates \<Rightarrow> meta \<Rightarrow> string \<Rightarrow> bytes \<Rightarrow> tuf_error + unit" where
  "check_target x m name bs =
     (let entry = json_at (json_at (m_signed m) ''targets'') name in
      if entry = JNull then Inl TufTargetHash
      else if as_str (json_at (json_at entry ''hashes'') ''sha256'') = None then Inl TufTargetHash
      else check_hashes x entry bs)"

section \<open>Keys\<close>

definition pem_body :: "crates \<Rightarrow> rstr \<Rightarrow> tuf_error + bytes" where
  "pem_body x pem =
     (let body = concat (filter (\<lambda>line. \<not> starts_with (str ''-----'') line) (lines pem))
      in ok_or TufSignature (base64_decode x (trim body)))"

fun str_contains :: "rstr \<Rightarrow> rstr \<Rightarrow> bool" where
  "str_contains p [] = (p = [])"
| "str_contains p (c # s) = (starts_with p (c # s) \<or> str_contains p s)"

definition tuf_key_parse :: "crates \<Rightarrow> tuf_libs \<Rightarrow> json \<Rightarrow> tuf_error + raw_key" where
  "tuf_key_parse x l key =
     result_bind
       (case as_str (json_at key ''scheme'') of
          Some s \<Rightarrow>
            if s = str ''ecdsa-sha2-nistp256'' then Inr EcdsaP256Sha256
            else if s = str ''ed25519'' then Inr Ed25519
            else Inl TufSignature
        | None \<Rightarrow> Inl TufSignature) (\<lambda>sch.
     result_bind (ok_or TufSignature (as_str (json_at (json_at key ''keyval'') ''public''))) (\<lambda>pub.
     if str_contains (str ''-----BEGIN'') pub then
       result_bind (pem_body x pub) (\<lambda>der. ok_or TufSignature (from_spki_as der sch))
     else
       result_bind (ok_or TufSignature (hex_decode l (trim pub))) (\<lambda>raw. ok_or TufSignature (from_raw raw sch))))"

definition tuf_key_verify :: "verifiers \<Rightarrow> raw_key \<Rightarrow> bytes \<Rightarrow> bytes \<Rightarrow> tuf_error + unit" where
  "tuf_key_verify g key message sig = (if verifies g key message sig then Inr () else Inl TufSignature)"

section \<open>The root role\<close>

record root =
  r_version :: u64
  r_meta :: meta
  r_bytes :: bytes
  r_roles :: "(rstr, rstr list \<times> u64) btmap"
  r_keys :: "(rstr, raw_key) btmap"

fun parse_roles :: "(rstr \<times> json) list \<Rightarrow> (rstr, rstr list \<times> u64) btmap \<Rightarrow> tuf_error + (rstr, rstr list \<times> u64) btmap" where
  "parse_roles [] roles = Inr roles"
| "parse_roles ((name, role) # rest) roles =
     result_bind (ok_or TufMalformed (as_u64 (json_at role ''threshold''))) (\<lambda>threshold.
     if threshold = 0 then Inl TufMalformed
     else result_bind (ok_or TufMalformed (as_array (json_at role ''keyids''))) (\<lambda>ids.
     parse_roles rest (bt_insert name (List.map_filter as_str ids, threshold) roles)))"

fun parse_keys :: "crates \<Rightarrow> tuf_libs \<Rightarrow> (rstr \<times> json) list \<Rightarrow> (rstr, raw_key) btmap \<Rightarrow> (rstr, raw_key) btmap" where
  "parse_keys x l [] keys = keys"
| "parse_keys x l ((ident, key) # rest) keys =
     parse_keys x l rest (case tuf_key_parse x l key of Inr parsed \<Rightarrow> bt_insert ident parsed keys | Inl _ \<Rightarrow> keys)"

definition root_parse :: "crates \<Rightarrow> tuf_libs \<Rightarrow> bytes \<Rightarrow> tuf_error + root" where
  "root_parse x l bs =
     result_bind (meta_parse l bs ROOT_ROLE) (\<lambda>m.
     result_bind (ok_or TufMalformed (as_object (json_at (m_signed m) ''roles''))) (\<lambda>role_members.
     result_bind (parse_roles role_members []) (\<lambda>roles.
     result_bind (ok_or TufMalformed (as_object (json_at (m_signed m) ''keys''))) (\<lambda>key_members.
     Inr \<lparr>r_version = m_version m, r_meta = m, r_bytes = bs, r_roles = roles, r_keys = parse_keys x l key_members []\<rparr>))))"

text \<open>The sets of key ids are lists without repetition.\<close>

fun count_signed ::
  "verifiers \<Rightarrow> (rstr, raw_key) btmap \<Rightarrow> rstr list \<Rightarrow> bytes \<Rightarrow> (rstr \<times> bytes) list \<Rightarrow> rstr list \<Rightarrow> rstr list \<Rightarrow> rstr list" where
  "count_signed g keys authorized canonical [] tried endorsed = endorsed"
| "count_signed g keys authorized canonical ((keyid, signature) # rest) tried endorsed =
     (if keyid \<notin> set authorized \<or> keyid \<in> set tried then count_signed g keys authorized canonical rest tried endorsed
      else
        (case map_of keys keyid of
           None \<Rightarrow> count_signed g keys authorized canonical rest (keyid # tried) endorsed
         | Some key \<Rightarrow>
             count_signed g keys authorized canonical rest (keyid # tried)
               (if is_ok (tuf_key_verify g key canonical signature) then List.insert keyid endorsed else endorsed)))"

definition check_role :: "verifiers \<Rightarrow> root \<Rightarrow> rstr \<Rightarrow> meta \<Rightarrow> tuf_error + unit" where
  "check_role g r role m =
     result_bind (ok_or TufChain (map_of (r_roles r) role)) (\<lambda>(keyids, threshold).
     let endorsed = count_signed g (r_keys r) keyids (m_canonical m) (m_signatures m) [] []
     in if (of_nat (length endorsed) :: u64) \<ge> threshold then Inr () else Inl TufThreshold)"

section \<open>Transparency logs\<close>

record tlog =
  tl_base_url :: rstr
  tl_spki :: bytes
  tl_log_id :: digest
  tl_valid_from :: int
  tl_valid_until :: "int option"

abbreviation I64_MAX :: int where
  "I64_MAX \<equiv> 2 ^ 63 - 1"

definition valid_at :: "tlog \<Rightarrow> u64 \<Rightarrow> bool" where
  "valid_at log now =
     (let started = (if 0 \<le> tl_valid_from log then tl_valid_from log \<le> int (unat now) else True);
          open = (case tl_valid_until log of None \<Rightarrow> True
            | Some e \<Rightarrow> if 0 \<le> e then int (unat now) < e else False)
      in started \<and> open)"

definition tlog_entry :: "crates \<Rightarrow> json \<Rightarrow> tlog option" where
  "tlog_entry x entry =
     Option.bind (as_str (json_at (json_at entry ''publicKey'') ''rawBytes'')) (\<lambda>raw.
     Option.bind (base64_decode x raw) (\<lambda>spki.
     if \<not> is_ok (log_key_from_spki x spki) then None
     else Option.bind (as_str (json_at entry ''baseUrl'')) (\<lambda>base_url.
     let when = json_at (json_at entry ''publicKey'') ''validFor'';
         valid_from = (case json_get when (str ''start'') of None \<Rightarrow> 0
           | Some start \<Rightarrow> (case Option.bind (as_str start) parse_rfc3339 of Some t \<Rightarrow> t | None \<Rightarrow> I64_MAX));
         valid_until = (case json_get when (str ''end'') of None \<Rightarrow> None
           | Some e \<Rightarrow> Some (case Option.bind (as_str e) parse_rfc3339 of Some t \<Rightarrow> t | None \<Rightarrow> 0))
     in Some \<lparr>tl_base_url = trim_end (\<lambda>c. c = 47) base_url, tl_spki = spki, tl_log_id = sha x spki,
         tl_valid_from = valid_from, tl_valid_until = valid_until\<rparr>)))"

definition tlogs :: "crates \<Rightarrow> tuf_libs \<Rightarrow> bytes \<Rightarrow> tuf_error + tlog list" where
  "tlogs x l trusted_root =
     result_bind (ok_or TufMalformed (from_slice l trusted_root)) (\<lambda>v.
     result_bind (ok_or TufMalformed (as_array (json_at v ''tlogs''))) (\<lambda>entries.
     let logs = List.map_filter (tlog_entry x) entries
     in if logs = [] then Inl TufMalformed else Inr logs))"

text \<open>\<^verbatim>\<open>max_by_key\<close> keeps the last of several greatest elements.\<close>

definition current_tlog :: "tlog list \<Rightarrow> u64 \<Rightarrow> tlog option" where
  "current_tlog logs now =
     fold (\<lambda>log best. case best of None \<Rightarrow> Some log
         | Some b \<Rightarrow> if tl_valid_from b \<le> tl_valid_from log then Some log else Some b)
       (filter (\<lambda>log. valid_at log now) logs) None"

definition note_origin :: "rstr \<Rightarrow> rstr option" where
  "note_origin base_url =
     Option.bind (case strip_prefix (str ''https://'') base_url of Some r \<Rightarrow> Some r
         | None \<Rightarrow> strip_prefix (str ''http://'') base_url) (\<lambda>rest.
     let host = trim_end (\<lambda>c. c = 46) (hd (split_on 47 rest))
     in if host = [] then None else Some (map ascii_lower host))"

fun keys_of_tlogs :: "crates \<Rightarrow> tlog list \<Rightarrow> tuf_error + log_keys" where
  "keys_of_tlogs x [] = Inr []"
| "keys_of_tlogs x (log # rest) =
     result_bind (map_err (\<lambda>_. TufMalformed) (log_key_from_spki x (tl_spki log))) (\<lambda>key.
     result_bind (keys_of_tlogs x rest) (\<lambda>keys.
     Inr ((case note_origin (tl_base_url log) of Some origin \<Rightarrow> for_origin origin key | None \<Rightarrow> key) # keys)))"

definition tlog_keys :: "crates \<Rightarrow> tuf_libs \<Rightarrow> bytes \<Rightarrow> tuf_error + log_keys" where
  "tlog_keys x l trusted_root = result_bind (tlogs x l trusted_root) (keys_of_tlogs x)"

definition root_version :: "tuf_libs \<Rightarrow> bytes \<Rightarrow> u64 option" where
  "root_version l bs = Option.bind (from_slice l bs) (\<lambda>v. as_u64 (json_at (json_at v ''signed'') ''version''))"

section \<open>The pin state\<close>

definition anchored :: "crates \<Rightarrow> tuf_libs \<Rightarrow> bytes \<Rightarrow> pin_state" where
  "anchored x l anchor =
     \<lparr>ps_root = anchor, ps_root_chain = [],
      ps_root_version = (case root_version l anchor of Some v \<Rightarrow> v | None \<Rightarrow> 0),
      ps_timestamp_version = 0, ps_snapshot_version = 0, ps_targets_version = 0,
      ps_targets = [], ps_trusted_root = [], ps_updated_at = 0, ps_anchor_digest = sha x anchor\<rparr>"

definition state_log_keys :: "crates \<Rightarrow> tuf_libs \<Rightarrow> pin_state \<Rightarrow> log_keys option" where
  "state_log_keys x l st =
     (if ps_trusted_root st = [] then None
      else (case tlog_keys x l (ps_trusted_root st) of Inr keys \<Rightarrow> Some keys | Inl _ \<Rightarrow> None))"

text \<open>The trusted root that is compiled in is the argument \<open>embedded\<close>.\<close>

definition trusted_root_in_force :: "bytes \<Rightarrow> pin_state \<Rightarrow> bytes" where
  "trusted_root_in_force embedded st = (if ps_trusted_root st = [] then embedded else ps_trusted_root st)"

definition state_tlogs :: "crates \<Rightarrow> tuf_libs \<Rightarrow> bytes \<Rightarrow> pin_state \<Rightarrow> tuf_error + tlog list" where
  "state_tlogs x l embedded st = tlogs x l (trusted_root_in_force embedded st)"

definition decode_anchored :: "crates \<Rightarrow> tuf_libs \<Rightarrow> rstr \<Rightarrow> bytes \<Rightarrow> pin_state option" where
  "decode_anchored x l text anchor =
     Option.bind (from_str l text) (\<lambda>v.
     let blob = (\<lambda>key. Option.bind (as_str (json_at v key)) (base64_decode x));
         number = (\<lambda>key. as_u64 (json_at v key))
     in if number ''version'' \<noteq> Some STATE_FORMAT_VERSION then None
     else
       Option.bind (as_array (json_at v ''root_chain'')) (\<lambda>entries.
       Option.bind (those (map (\<lambda>entry. Option.bind (as_str entry) (base64_decode x)) entries)) (\<lambda>root_chain.
       Option.bind (blob ''anchor_digest'') (\<lambda>stored_digest.
       if length stored_digest \<noteq> 32 then None
       else
         Option.bind (blob ''root'') (\<lambda>root.
         Option.bind (number ''root_version'') (\<lambda>root_v.
         Option.bind (number ''timestamp_version'') (\<lambda>timestamp_v.
         Option.bind (number ''snapshot_version'') (\<lambda>snapshot_v.
         Option.bind (number ''targets_version'') (\<lambda>targets_v.
         Option.bind (blob ''targets'') (\<lambda>targets.
         Option.bind (blob ''trusted_root'') (\<lambda>trusted_root.
         let st = \<lparr>ps_root = root, ps_root_chain = root_chain, ps_root_version = root_v,
             ps_timestamp_version = timestamp_v, ps_snapshot_version = snapshot_v, ps_targets_version = targets_v,
             ps_targets = targets, ps_trusted_root = trusted_root,
             ps_updated_at = (case number ''updated_at'' of Some n \<Rightarrow> n | None \<Rightarrow> 0),
             ps_anchor_digest = stored_digest\<rparr>
         in if ps_anchor_digest st = sha x anchor then Some st else None)))))))))))"

text \<open>The members are listed in the order of their keys, which is the order the library keeps.\<close>

definition state_json :: "tuf_libs \<Rightarrow> pin_state \<Rightarrow> json" where
  "state_json l st =
     (let blob = (\<lambda>bs. JString (base64_encode l bs)) in
      JObject (map (map_prod str id)
        [(''anchor_digest'', blob (ps_anchor_digest st)),
         (''root'', blob (ps_root st)),
         (''root_chain'', JArray (map blob (ps_root_chain st))),
         (''root_version'', JUInt (ps_root_version st)),
         (''snapshot_version'', JUInt (ps_snapshot_version st)),
         (''targets'', blob (ps_targets st)),
         (''targets_version'', JUInt (ps_targets_version st)),
         (''timestamp_version'', JUInt (ps_timestamp_version st)),
         (''trusted_root'', blob (ps_trusted_root st)),
         (''updated_at'', JUInt (ps_updated_at st)),
         (''version'', JUInt STATE_FORMAT_VERSION)]))"

definition encode_state :: "tuf_libs \<Rightarrow> pin_state \<Rightarrow> rstr" where
  "encode_state l st = to_string l (state_json l st)"

section \<open>Updates\<close>

record tuf_update =
  tu_state :: pin_state
  tu_log_keys :: log_keys
  tu_changed :: bool

fun walk_roots :: "crates \<Rightarrow> verifiers \<Rightarrow> tuf_libs \<Rightarrow> bytes list \<Rightarrow> root \<Rightarrow> bytes list \<Rightarrow> tuf_error + (root \<times> bytes list)" where
  "walk_roots x g l [] trusted chain = Inr (trusted, chain)"
| "walk_roots x g l (bs # rest) trusted chain =
     result_bind (root_parse x l bs) (\<lambda>candidate.
     if r_version candidate \<le> r_version trusted then walk_roots x g l rest trusted chain
     else if r_version candidate \<noteq> r_version trusted + 1 then Inl TufChain
     else result_bind (check_role g trusted ROOT_ROLE (r_meta candidate)) (\<lambda>_.
     result_bind (check_role g candidate ROOT_ROLE (r_meta candidate)) (\<lambda>_.
     walk_roots x g l rest candidate (chain @ [r_bytes candidate]))))"

definition update :: "crates \<Rightarrow> verifiers \<Rightarrow> tuf_libs \<Rightarrow> tuf_metadata \<Rightarrow> pin_state \<Rightarrow> u64 \<Rightarrow> tuf_error + tuf_update" where
  "update x g l md st now =
     result_bind (root_parse x l (ps_root st)) (\<lambda>start.
     result_bind (walk_roots x g l (tm_roots md) start (ps_root_chain st)) (\<lambda>(trusted, chain).
     if r_version trusted < ps_root_version st then Inl TufRollback
     else result_bind (check_expiry (r_meta trusted) now) (\<lambda>_.
     result_bind (meta_parse l (tm_timestamp md) TIMESTAMP_ROLE) (\<lambda>timestamp.
     result_bind (check_role g trusted TIMESTAMP_ROLE timestamp) (\<lambda>_.
     result_bind (check_expiry timestamp now) (\<lambda>_.
     result_bind (check_rollback timestamp (ps_timestamp_version st)) (\<lambda>_.
     result_bind (meta_parse l (tm_snapshot md) SNAPSHOT_ROLE) (\<lambda>snapshot.
     result_bind (check_listed x timestamp SNAPSHOT_META (tm_snapshot md) (m_version snapshot)) (\<lambda>_.
     result_bind (check_role g trusted SNAPSHOT_ROLE snapshot) (\<lambda>_.
     result_bind (check_expiry snapshot now) (\<lambda>_.
     result_bind (check_rollback snapshot (ps_snapshot_version st)) (\<lambda>_.
     result_bind (meta_parse l (tm_targets md) TARGETS_ROLE) (\<lambda>targets.
     result_bind (check_listed x snapshot TARGETS_META (tm_targets md) (m_version targets)) (\<lambda>_.
     result_bind (check_role g trusted TARGETS_ROLE targets) (\<lambda>_.
     result_bind (check_expiry targets now) (\<lambda>_.
     result_bind (check_rollback targets (ps_targets_version st)) (\<lambda>_.
     result_bind (check_target x targets TRUSTED_ROOT_TARGET (tm_trusted_root md)) (\<lambda>_.
     result_bind (tlog_keys x l (tm_trusted_root md)) (\<lambda>log_keys.
     let changed = (r_version trusted \<noteq> ps_root_version st \<or> m_version timestamp \<noteq> ps_timestamp_version st \<or>
           m_version snapshot \<noteq> ps_snapshot_version st \<or> m_version targets \<noteq> ps_targets_version st \<or>
           tm_trusted_root md \<noteq> ps_trusted_root st)
     in Inr \<lparr>tu_state = \<lparr>ps_root = r_bytes trusted, ps_root_chain = chain, ps_root_version = r_version trusted,
           ps_timestamp_version = m_version timestamp, ps_snapshot_version = m_version snapshot,
           ps_targets_version = m_version targets, ps_targets = tm_targets md, ps_trusted_root = tm_trusted_root md,
           ps_updated_at = now, ps_anchor_digest = ps_anchor_digest st\<rparr>,
         tu_log_keys = log_keys, tu_changed = changed\<rparr>)))))))))))))))))))"

end
