(* ===== verification/Tuf_Update.thy ===== *)
theory Tuf_Update
  imports Tuf
begin

text \<open>
  What \<open>update\<close> of \<open>Tuf\<close> establishes. \<open>quorum\<close> is the reading of a role's threshold: so many different
  authorised keys. \<open>lineage\<close> is the succession of roots. An accepted update rests on quorums, is unexpired
  and names the trusted root by its digest; over any sequence of updates and restarts no version
  goes back, and the roots that were accepted can be walked again from the anchor.
\<close>

section \<open>Quorums\<close>

definition endorsers :: "verifiers \<Rightarrow> root \<Rightarrow> rstr list \<Rightarrow> meta \<Rightarrow> rstr set" where
  "endorsers g r keyids m =
     {k \<in> set keyids. \<exists>key sig. map_of (r_keys r) k = Some key \<and> map_of (m_signatures m) k = Some sig \<and>
        verifies g key (m_canonical m) sig}"

definition quorum :: "verifiers \<Rightarrow> root \<Rightarrow> rstr \<Rightarrow> meta \<Rightarrow> bool" where
  "quorum g r role m \<longleftrightarrow>
     (\<exists>keyids threshold. map_of (r_roles r) role = Some (keyids, threshold) \<and> unat threshold \<le> card (endorsers g r keyids m))"

lemma is_ok_verify [simp]: "is_ok (tuf_key_verify g key bs sig) \<longleftrightarrow> verifies g key bs sig"
  by (simp add: tuf_key_verify_def)

lemma count_signed_set:
  "set endorsed \<subseteq> set tried \<Longrightarrow>
   set (count_signed g keys authorized canonical sigs tried endorsed) = set endorsed \<union>
     {k \<in> set authorized. k \<notin> set tried \<and> (\<exists>key sig. map_of keys k = Some key \<and> map_of sigs k = Some sig \<and> verifies g key canonical sig)}"
proof (induction g keys authorized canonical sigs tried endorsed rule: count_signed.induct)
  case (2 g keys authorized canonical keyid signature rest tried endorsed)
  show ?case
  proof (cases "keyid \<notin> set authorized \<or> keyid \<in> set tried")
    case True
    then show ?thesis using 2 by auto
  next
    case new: False
    show ?thesis
    proof (cases "map_of keys keyid")
      case None
      then show ?thesis using 2(2) [OF new None] 2(4) new by auto
    next
      case (Some key)
      have sub: "set (if is_ok (tuf_key_verify g key canonical signature) then List.insert keyid endorsed else endorsed) \<subseteq> set (keyid # tried)"
        using 2(4) by auto
      show ?thesis using 2(3) [OF new Some sub] new Some by (simp del: Un_iff) auto
    qed
  qed
qed auto

lemma count_signed_distinct:
  "distinct endorsed \<Longrightarrow> distinct (count_signed g keys authorized canonical sigs tried endorsed)"
  by (induction g keys authorized canonical sigs tried endorsed rule: count_signed.induct) (auto split: option.splits)

lemma count_signed_card:
  "length (count_signed g (r_keys r) keyids (m_canonical m) (m_signatures m) [] []) = card (endorsers g r keyids m)"
  using count_signed_set [of "[]" "[]"] count_signed_distinct [of "[]"]
  by (simp add: distinct_card [symmetric] endorsers_def)

lemma of_nat_ge_le: "threshold \<le> (of_nat n :: u64) \<Longrightarrow> unat threshold \<le> n"
  by (metis le_trans unat_of_nat mod_less_eq_dividend word_le_nat_alt)

lemma check_role_quorum: "check_role g r role m = Inr () \<Longrightarrow> quorum g r role m"
  by (auto simp: check_role_def quorum_def Let_def count_signed_card split: if_splits dest: of_nat_ge_le)

lemma card_endorsers_le: "card (endorsers g r keyids m) \<le> length (m_signatures m)"
proof -
  have "endorsers g r keyids m \<subseteq> fst ` set (m_signatures m)" by (force simp: endorsers_def dest: map_of_SomeD)
  then have "card (endorsers g r keyids m) \<le> card (fst ` set (m_signatures m))" by (intro card_mono) auto
  also have "\<dots> \<le> card (set (m_signatures m))" by (rule card_image_le) simp
  also have "\<dots> \<le> length (m_signatures m)" by (rule card_length)
  finally show ?thesis .
qed

text \<open>C13. The check of a role is the counting of different authorised keys: it passes exactly when as many key ids of the
  role as its threshold have a key that verifies their first signature; repeated signatures count
  once, and the signatures of other keys not at all.\<close>
theorem check_role_iff_quorum:
  assumes "length (m_signatures m) < 2 ^ 64"
  shows "check_role g r role m = Inr () \<longleftrightarrow> quorum g r role m"
proof
  assume "quorum g r role m"
  then obtain keyids threshold where k: "map_of (r_roles r) role = Some (keyids, threshold)"
    "unat threshold \<le> card (endorsers g r keyids m)" by (auto simp: quorum_def)
  have "card (endorsers g r keyids m) < 2 ^ 64" using card_endorsers_le [of g r keyids m] assms by linarith
  then have "unat (of_nat (card (endorsers g r keyids m)) :: u64) = card (endorsers g r keyids m)"
    by (simp add: unat_of_nat)
  then show "check_role g r role m = Inr ()" using k by (simp add: check_role_def count_signed_card word_le_nat_alt)
qed (rule check_role_quorum)

section \<open>The succession of roots\<close>

inductive lineage :: "crates \<Rightarrow> verifiers \<Rightarrow> tuf_libs \<Rightarrow> root \<Rightarrow> bytes list \<Rightarrow> root \<Rightarrow> bool" for x g l r where
  lineage_here: "lineage x g l r [] r"
| lineage_next: "lineage x g l r bss t \<Longrightarrow> root_parse x l bs = Inr c \<Longrightarrow> r_version t < r_version c \<Longrightarrow>
    r_version c = r_version t + 1 \<Longrightarrow> check_role g t ROOT_ROLE (r_meta c) = Inr () \<Longrightarrow>
    check_role g c ROOT_ROLE (r_meta c) = Inr () \<Longrightarrow> lineage x g l r (bss @ [bs]) c"

lemma root_parse_bytes: "root_parse x l bs = Inr c \<Longrightarrow> r_bytes c = bs"
  by (auto simp: root_parse_def)

lemma walk_roots_lineage:
  "walk_roots x g l bss t chain = Inr (t', chain') \<Longrightarrow> lineage x g l r pre t \<Longrightarrow> chain = start @ pre \<Longrightarrow>
   \<exists>pre'. lineage x g l r pre' t' \<and> chain' = start @ pre'"
proof (induction bss arbitrary: t chain pre)
  case (Cons bs bss)
  then obtain c where c: "root_parse x l bs = Inr c" by auto
  show ?case
  proof (cases "r_version c \<le> r_version t")
    case True
    then show ?thesis using Cons c by simp
  next
    case False
    then have "lineage x g l r (pre @ [bs]) c" "walk_roots x g l bss c (start @ pre @ [bs]) = Inr (t', chain')"
      using Cons.prems c root_parse_bytes [OF c] by (auto intro: lineage_next split: if_splits)
    then show ?thesis using Cons.IH by simp
  qed
qed auto

lemma lineage_version: "lineage x g l r bss t \<Longrightarrow> r_version r \<le> r_version t"
  by (induction rule: lineage.induct) auto

lemma lineage_trans: "lineage x g l t bss' t' \<Longrightarrow> lineage x g l r bss t \<Longrightarrow> lineage x g l r (bss @ bss') t'"
  by (induction rule: lineage.induct) (auto simp: append_assoc [symmetric] simp del: append_assoc intro: lineage_next)

lemma walk_roots_append:
  "walk_roots x g l (bss @ bss') t chain = result_bind (walk_roots x g l bss t chain) (\<lambda>(t', chain'). walk_roots x g l bss' t' chain')"
proof (induction bss arbitrary: t chain)
  case (Cons bs bss)
  then show ?case
    by (cases "root_parse x l bs"; cases "check_role g t ROOT_ROLE (r_meta (projr (root_parse x l bs)))";
        cases "check_role g (projr (root_parse x l bs)) ROOT_ROLE (r_meta (projr (root_parse x l bs)))") simp_all
qed simp

lemma lineage_walks: "lineage x g l r bss t \<Longrightarrow> walk_roots x g l bss r [] = Inr (t, bss)"
  by (induction rule: lineage.induct) (auto simp: walk_roots_append root_parse_bytes)

section \<open>Accepted updates\<close>

definition current_file :: "verifiers \<Rightarrow> tuf_libs \<Rightarrow> root \<Rightarrow> rstr \<Rightarrow> bytes \<Rightarrow> u64 \<Rightarrow> meta \<Rightarrow> bool" where
  "current_file g l r role bs now m \<longleftrightarrow>
     meta_parse l bs role = Inr m \<and> quorum g r role m \<and> int (unat now) < m_expires m"

definition lists_version :: "meta \<Rightarrow> string \<Rightarrow> u64 \<Rightarrow> bool" where
  "lists_version m file v \<longleftrightarrow> json_at (json_at (json_at (m_signed m) ''meta'') file) ''version'' = JUInt v"

definition names_digest :: "crates \<Rightarrow> meta \<Rightarrow> string \<Rightarrow> bytes \<Rightarrow> bool" where
  "names_digest x m name bs \<longleftrightarrow>
     (\<exists>expected. json_at (json_at (json_at (json_at (m_signed m) ''targets'') name) ''hashes'') ''sha256'' = JString expected \<and>
        eq_ignore_ascii_case expected (hex x (sha x bs)))"

lemma check_expiry_iff: "check_expiry m now = Inr () \<longleftrightarrow> int (unat now) < m_expires m"
proof -
  have "0 \<le> int (unat now)" by (rule of_nat_0_le_iff)
  then have "0 \<le> m_expires m" if "int (unat now) < m_expires m" using that by (rule order.trans [OF _ less_imp_le])
  then show ?thesis unfolding check_expiry_def by auto
qed

lemma check_listed_lists: "check_listed x m file bs v = Inr () \<Longrightarrow> lists_version m file v"
  by (auto simp: check_listed_def lists_version_def Let_def split: if_splits)

lemma check_target_names: "check_target x m name bs = Inr () \<Longrightarrow> names_digest x m name bs"
  by (auto simp: check_target_def names_digest_def check_hashes_def Let_def split: if_splits option.splits)

lemma check_rollback_iff: "check_rollback m v = Inr () \<longleftrightarrow> v \<le> m_version m"
  by (simp add: check_rollback_def)

lemma update_parts:
  assumes "update x g l md st now = Inr u"
  obtains start trusted chain ts sn tg where
    "root_parse x l (ps_root st) = Inr start"
    "walk_roots x g l (tm_roots md) start (ps_root_chain st) = Inr (trusted, chain)"
    "ps_root_version st \<le> r_version trusted" "int (unat now) < m_expires (r_meta trusted)"
    "current_file g l trusted TIMESTAMP_ROLE (tm_timestamp md) now ts" "ps_timestamp_version st \<le> m_version ts"
    "current_file g l trusted SNAPSHOT_ROLE (tm_snapshot md) now sn" "ps_snapshot_version st \<le> m_version sn"
    "current_file g l trusted TARGETS_ROLE (tm_targets md) now tg" "ps_targets_version st \<le> m_version tg"
    "lists_version ts SNAPSHOT_META (m_version sn)" "lists_version sn TARGETS_META (m_version tg)"
    "names_digest x tg TRUSTED_ROOT_TARGET (tm_trusted_root md)" "tlog_keys x l (tm_trusted_root md) = Inr (tu_log_keys u)"
    "tu_state u = \<lparr>ps_root = r_bytes trusted, ps_root_chain = chain, ps_root_version = r_version trusted,
       ps_timestamp_version = m_version ts, ps_snapshot_version = m_version sn, ps_targets_version = m_version tg,
       ps_targets = tm_targets md, ps_trusted_root = tm_trusted_root md, ps_updated_at = now,
       ps_anchor_digest = ps_anchor_digest st\<rparr>"
proof -
  from assms obtain start where start: "root_parse x l (ps_root st) = Inr start" by (auto simp: update_def)
  with assms obtain trusted chain where walk: "walk_roots x g l (tm_roots md) start (ps_root_chain st) = Inr (trusted, chain)"
    by (auto simp: update_def)
  from assms obtain ts sn tg keys where p: "\<not> r_version trusted < ps_root_version st" "check_expiry (r_meta trusted) now = Inr ()"
    "meta_parse l (tm_timestamp md) TIMESTAMP_ROLE = Inr ts" "check_role g trusted TIMESTAMP_ROLE ts = Inr ()"
    "check_expiry ts now = Inr ()" "check_rollback ts (ps_timestamp_version st) = Inr ()"
    "meta_parse l (tm_snapshot md) SNAPSHOT_ROLE = Inr sn" "check_listed x ts SNAPSHOT_META (tm_snapshot md) (m_version sn) = Inr ()"
    "check_role g trusted SNAPSHOT_ROLE sn = Inr ()" "check_expiry sn now = Inr ()" "check_rollback sn (ps_snapshot_version st) = Inr ()"
    "meta_parse l (tm_targets md) TARGETS_ROLE = Inr tg" "check_listed x sn TARGETS_META (tm_targets md) (m_version tg) = Inr ()"
    "check_role g trusted TARGETS_ROLE tg = Inr ()" "check_expiry tg now = Inr ()" "check_rollback tg (ps_targets_version st) = Inr ()"
    "check_target x tg TRUSTED_ROOT_TARGET (tm_trusted_root md) = Inr ()" "tlog_keys x l (tm_trusted_root md) = Inr keys"
    and u: "tu_log_keys u = keys" "tu_state u = \<lparr>ps_root = r_bytes trusted, ps_root_chain = chain, ps_root_version = r_version trusted,
       ps_timestamp_version = m_version ts, ps_snapshot_version = m_version sn, ps_targets_version = m_version tg,
       ps_targets = tm_targets md, ps_trusted_root = tm_trusted_root md, ps_updated_at = now,
       ps_anchor_digest = ps_anchor_digest st\<rparr>"
    unfolding update_def by (clarsimp simp: start walk Let_def)
  show thesis
    using start walk p u by (intro that [of start trusted chain ts sn tg])
      (simp_all add: current_file_def check_role_quorum check_expiry_iff check_rollback_iff check_listed_lists check_target_names)
qed

text \<open>C5. An accepted update is endorsed from the root that was trusted before: the roots it walks succeed each other one version at a
  time, each signed by the quorum of both; the last root is unexpired, and under it the
  timestamp, snapshot and targets are unexpired and signed by their quorums, each listing the version of the next; the
  targets name the trusted root by its SHA-256; and the new pins are the keys of that trusted root
  alone, whatever was pinned before.\<close>
theorem update_sound:
  assumes "update x g l md st now = Inr u"
  shows "\<exists>start bss trusted ts sn tg.
    root_parse x l (ps_root st) = Inr start \<and> lineage x g l start bss trusted \<and>
    ps_root (tu_state u) = r_bytes trusted \<and> ps_root_chain (tu_state u) = ps_root_chain st @ bss \<and>
    int (unat now) < m_expires (r_meta trusted) \<and>
    current_file g l trusted TIMESTAMP_ROLE (tm_timestamp md) now ts \<and>
    current_file g l trusted SNAPSHOT_ROLE (tm_snapshot md) now sn \<and> lists_version ts SNAPSHOT_META (m_version sn) \<and>
    current_file g l trusted TARGETS_ROLE (tm_targets md) now tg \<and> lists_version sn TARGETS_META (m_version tg) \<and>
    names_digest x tg TRUSTED_ROOT_TARGET (ps_trusted_root (tu_state u)) \<and>
    tlog_keys x l (ps_trusted_root (tu_state u)) = Inr (tu_log_keys u)"
proof (rule update_parts [OF assms])
  fix start trusted chain ts sn tg
  assume a: "root_parse x l (ps_root st) = Inr start"
    "walk_roots x g l (tm_roots md) start (ps_root_chain st) = Inr (trusted, chain)"
    "int (unat now) < m_expires (r_meta trusted)"
    "current_file g l trusted TIMESTAMP_ROLE (tm_timestamp md) now ts"
    "current_file g l trusted SNAPSHOT_ROLE (tm_snapshot md) now sn"
    "current_file g l trusted TARGETS_ROLE (tm_targets md) now tg"
    "lists_version ts SNAPSHOT_META (m_version sn)" "lists_version sn TARGETS_META (m_version tg)"
    "names_digest x tg TRUSTED_ROOT_TARGET (tm_trusted_root md)" "tlog_keys x l (tm_trusted_root md) = Inr (tu_log_keys u)"
    "tu_state u = \<lparr>ps_root = r_bytes trusted, ps_root_chain = chain, ps_root_version = r_version trusted,
       ps_timestamp_version = m_version ts, ps_snapshot_version = m_version sn, ps_targets_version = m_version tg,
       ps_targets = tm_targets md, ps_trusted_root = tm_trusted_root md, ps_updated_at = now,
       ps_anchor_digest = ps_anchor_digest st\<rparr>"
  obtain bss where "lineage x g l start bss trusted" "chain = ps_root_chain st @ bss"
    using walk_roots_lineage [OF a(2) lineage_here] by auto
  then show ?thesis using a by (intro exI [of _ start] exI [of _ bss] exI [of _ trusted] exI [of _ ts] exI [of _ sn] exI [of _ tg]) simp
qed

section \<open>Sequences of updates\<close>

text \<open>The states of a client: updates that are accepted, and restarts that read back what was saved.\<close>

inductive pin_step :: "crates \<Rightarrow> verifiers \<Rightarrow> tuf_libs \<Rightarrow> bytes \<Rightarrow> pin_state \<Rightarrow> pin_state \<Rightarrow> bool" for x g l anchor where
  step_update: "update x g l md st now = Inr u \<Longrightarrow> pin_step x g l anchor st (tu_state u)"
| step_restart: "decode_anchored x l (encode_state l st) anchor = Some st' \<Longrightarrow> pin_step x g l anchor st st'"

inductive_cases pin_stepE: "pin_step x g l anchor st st'"

text \<open>What the libraries promise: written JSON and base64 are read back.\<close>

definition tuf_libs_ok :: "crates \<Rightarrow> tuf_libs \<Rightarrow> bool" where
  "tuf_libs_ok x l \<longleftrightarrow>
     (\<forall>bs. base64_decode x (base64_encode l bs) = Some bs \<and> valid_str (base64_encode l bs)) \<and>
     (\<forall>j. json_ok j \<longrightarrow> whole j \<longrightarrow> from_str l (to_string l j) = Some j)"

lemma state_json_ok:
  assumes "tuf_libs_ok x l"
  shows "json_ok (state_json l st)" "whole (state_json l st)"
  using assms by (auto simp: state_json_def tuf_libs_ok_def list_all_iff valid_str_def scalar_def str_def)

lemma state_members:
  "json_at (state_json l st) ''version'' = JUInt STATE_FORMAT_VERSION"
  "json_at (state_json l st) ''root'' = JString (base64_encode l (ps_root st))"
  "json_at (state_json l st) ''root_chain'' = JArray (map (\<lambda>bs. JString (base64_encode l bs)) (ps_root_chain st))"
  "json_at (state_json l st) ''root_version'' = JUInt (ps_root_version st)"
  "json_at (state_json l st) ''timestamp_version'' = JUInt (ps_timestamp_version st)"
  "json_at (state_json l st) ''snapshot_version'' = JUInt (ps_snapshot_version st)"
  "json_at (state_json l st) ''targets_version'' = JUInt (ps_targets_version st)"
  "json_at (state_json l st) ''targets'' = JString (base64_encode l (ps_targets st))"
  "json_at (state_json l st) ''trusted_root'' = JString (base64_encode l (ps_trusted_root st))"
  "json_at (state_json l st) ''updated_at'' = JUInt (ps_updated_at st)"
  "json_at (state_json l st) ''anchor_digest'' = JString (base64_encode l (ps_anchor_digest st))"
  by (simp_all add: state_json_def json_at_def str_def)

lemma chain_reads_back:
  assumes "tuf_libs_ok x l"
  shows "those (map (\<lambda>entry. Option.bind (as_str entry) (base64_decode x)) (map (\<lambda>bs. JString (base64_encode l bs)) chain)) = Some chain"
  using assms by (induction chain) (auto simp: tuf_libs_ok_def)

lemma decode_encode_state:
  assumes "tuf_libs_ok x l" "length (ps_anchor_digest st) = 32"
  shows "decode_anchored x l (encode_state l st) anchor = (if ps_anchor_digest st = sha x anchor then Some st else None)"
proof -
  have r: "from_str l (encode_state l st) = Some (state_json l st)"
    using assms(1) state_json_ok [OF assms(1)] by (simp add: encode_state_def tuf_libs_ok_def)
  have b: "base64_decode x (base64_encode l bs) = Some bs" for bs using assms(1) by (simp add: tuf_libs_ok_def)
  show ?thesis
    unfolding decode_anchored_def r bind.bind_lunit Let_def state_members json_accessors chain_reads_back [OF assms(1)] b
    using assms(2) by simp
qed

lemma no_rollback_step:
  assumes "pin_step x g l anchor st st'" "tuf_libs_ok x l" "length (ps_anchor_digest st) = 32"
  shows "ps_root_version st \<le> ps_root_version st' \<and> ps_timestamp_version st \<le> ps_timestamp_version st' \<and>
    ps_snapshot_version st \<le> ps_snapshot_version st' \<and> ps_targets_version st \<le> ps_targets_version st' \<and>
    ps_anchor_digest st' = ps_anchor_digest st"
  using assms(1)
proof (rule pin_stepE)
  fix md now u
  assume u: "st' = tu_state u" "update x g l md st now = Inr u"
  from u(2) show ?thesis unfolding u(1) by (rule update_parts) simp
next
  assume "decode_anchored x l (encode_state l st) anchor = Some st'"
  then show ?thesis using decode_encode_state [OF assms(2,3)] by (auto split: if_splits)
qed


section \<open>The roots can be walked again\<close>

definition lineage_inv :: "crates \<Rightarrow> verifiers \<Rightarrow> tuf_libs \<Rightarrow> bytes \<Rightarrow> pin_state \<Rightarrow> bool" where
  "lineage_inv x g l anchor st \<longleftrightarrow>
     length (ps_anchor_digest st) = 32 \<and>
     (\<forall>start. root_parse x l anchor = Inr start \<longrightarrow>
        (\<exists>t. lineage x g l start (ps_root_chain st) t \<and> root_parse x l (ps_root st) = Inr t \<and> r_version t = ps_root_version st))"

lemma json_at_get: "json_get v (str key) = Some j \<Longrightarrow> json_at v key = j"
  by (simp add: json_at_def)

lemma meta_parse_version:
  assumes "meta_parse l bs role = Inr m"
  shows "root_version l bs = Some (m_version m)"
proof -
  from assms obtain v where v: "from_slice l bs = Some v" by (auto simp: meta_parse_def)
  with assms obtain signed where s: "json_get v (str ''signed'') = Some signed" by (auto simp: meta_parse_def)
  with assms v have "as_u64 (json_at signed ''version'') = Some (m_version m)"
    unfolding meta_parse_def by (clarsimp simp del: json_accessors_iff split: if_splits)
  then show ?thesis by (simp add: root_version_def v json_at_get [OF s])
qed

lemma root_version_parse: "root_parse x l bs = Inr r \<Longrightarrow> root_version l bs = Some (r_version r)"
  using meta_parse_version by (fastforce simp: root_parse_def)

lemma lineage_parses: "lineage x g l r bss t \<Longrightarrow> root_parse x l (r_bytes r) = Inr r \<Longrightarrow> root_parse x l (r_bytes t) = Inr t"
proof (induction rule: lineage.induct)
  case (lineage_next bss t bs c)
  then show ?case using root_parse_bytes [OF lineage_next(2)] by simp
qed

lemma anchored_lineage: "crates_ok x \<Longrightarrow> lineage_inv x g l anchor (anchored x l anchor)"
  by (auto simp: lineage_inv_def anchored_def crates_ok_def root_version_parse intro: lineage_here)

lemma update_lineage:
  assumes "update x g l md st now = Inr u" "lineage_inv x g l anchor st"
  shows "lineage_inv x g l anchor (tu_state u)"
  using assms(1)
proof (rule update_parts)
  fix start trusted chain ts sn tg
  assume a: "root_parse x l (ps_root st) = Inr start"
    "walk_roots x g l (tm_roots md) start (ps_root_chain st) = Inr (trusted, chain)"
    "tu_state u = \<lparr>ps_root = r_bytes trusted, ps_root_chain = chain, ps_root_version = r_version trusted,
       ps_timestamp_version = m_version ts, ps_snapshot_version = m_version sn, ps_targets_version = m_version tg,
       ps_targets = tm_targets md, ps_trusted_root = tm_trusted_root md, ps_updated_at = now,
       ps_anchor_digest = ps_anchor_digest st\<rparr>"
  obtain bss where b: "lineage x g l start bss trusted" "chain = ps_root_chain st @ bss"
    using walk_roots_lineage [OF a(2) lineage_here] by auto
  have "root_parse x l (r_bytes trusted) = Inr trusted" using lineage_parses [OF b(1)] a(1) root_parse_bytes [OF a(1)] by simp
  then show ?thesis using assms(2) a(1,3) b unfolding lineage_inv_def by (auto intro: lineage_trans)
qed

lemma restart_lineage:
  assumes "decode_anchored x l (encode_state l st) anchor = Some st'" "tuf_libs_ok x l" "lineage_inv x g l anchor st"
  shows "lineage_inv x g l anchor st'"
  using assms(1,3) decode_encode_state [OF assms(2)] by (auto simp: lineage_inv_def split: if_splits)

text \<open>C15. Whatever state a client reaches from the embedded root, the chain of roots it keeps leads from that root, through consecutive
  versions that each carry the quorums of predecessor and successor, to the root it
  trusts: walking the chain again accepts every one of them.\<close>
theorem root_chain_rewalks:
  assumes "(pin_step x g l anchor)\<^sup>*\<^sup>* (anchored x l anchor) st" "crates_ok x" "tuf_libs_ok x l" "root_parse x l anchor = Inr start"
  shows "\<exists>t. walk_roots x g l (ps_root_chain st) start [] = Inr (t, ps_root_chain st) \<and> r_bytes t = ps_root st \<and>
    r_version t = ps_root_version st"
proof -
  have "lineage_inv x g l anchor st"
    using assms(1)
  proof (induction rule: rtranclp_induct)
    case base
    then show ?case using assms(2) by (rule anchored_lineage)
  next
    case (step st1 st2)
    from step(2,3) show ?case using assms(3) by (auto elim!: pin_stepE intro: update_lineage restart_lineage)
  qed
  then show ?thesis using assms(4) by (force simp: lineage_inv_def dest: lineage_walks root_parse_bytes)
qed

section \<open>A small repository\<close>

text \<open>A serialisation that can be read back, standing in for JSON text.\<close>

fun toks :: "json \<Rightarrow> nat list" where
  "toks JNull = [0]"
| "toks (JBool b) = [1, if b then 1 else 0]"
| "toks (JUInt n) = [2, unat n]"
| "toks (JNegInt i) = [3, nat (- i)]"
| "toks JFloat = [4]"
| "toks (JString s) = 5 # length s # s"
| "toks (JArray js) = 6 # length js # concat (map toks js)"
| "toks (JObject m) = 7 # length m # concat (map (\<lambda>(k, v). length k # k @ toks v) m)"

fun read_n :: "(nat list \<Rightarrow> ('a \<times> nat list) option) \<Rightarrow> nat \<Rightarrow> nat list \<Rightarrow> ('a list \<times> nat list) option" where
  "read_n f 0 r = Some ([], r)"
| "read_n f (Suc n) r =
     Option.bind (f r) (\<lambda>(a, r). Option.bind (read_n f n r) (\<lambda>(as, r). Some (a # as, r)))"

fun read_toks :: "nat \<Rightarrow> nat list \<Rightarrow> (json \<times> nat list) option" where
  "read_toks (Suc d) (t # r) =
     (if t = 0 then Some (JNull, r)
      else if t = 4 then Some (JFloat, r)
      else case r of [] \<Rightarrow> None | n # r \<Rightarrow>
        if t = 1 then Some (JBool (n = 1), r)
        else if t = 2 then Some (JUInt (of_nat n), r)
        else if t = 3 then Some (JNegInt (- int n), r)
        else if t = 5 then Some (JString (take n r), drop n r)
        else if t = 6 then map_option (\<lambda>(js, r). (JArray js, r)) (read_n (read_toks d) n r)
        else map_option (\<lambda>(m, r). (JObject m, r)) (read_n (\<lambda>r. case r of [] \<Rightarrow> None
          | k # r \<Rightarrow> map_option (\<lambda>(v, r'). ((take k r, v), r')) (read_toks d (drop k r))) n r))"
| "read_toks d r = None"

lemma read_n_all:
  "(\<And>a r. a \<in> set as \<Longrightarrow> f (g a @ r) = Some (a, r)) \<Longrightarrow> read_n f (length as) (concat (map g as) @ r) = Some (as, r)"
  by (induction as) auto

lemma read_toks_back: "json_ok j \<Longrightarrow> length (toks j) \<le> d \<Longrightarrow> read_toks d (toks j @ r) = Some (j, r)"
proof (induction j arbitrary: d r)
  case (JArray js)
  then obtain d' where d: "d = Suc d'" by (cases d) auto
  have "read_toks d' (toks a @ r) = Some (a, r)" if "a \<in> set js" for a r
    using JArray that d member_le_sum_list [of "length (toks a)" "map (length \<circ> toks) js"]
    by (auto simp: list_all_iff length_concat)
  then show ?case using read_n_all [of js "read_toks d'" toks] by (simp add: d)
next
  case (JObject m)
  then obtain d' where d: "d = Suc d'" by (cases d) auto
  let ?g = "\<lambda>(k, v). length k # k @ toks v"
  let ?f = "\<lambda>r. case r of [] \<Rightarrow> None | k # r \<Rightarrow> map_option (\<lambda>(v, r'). ((take k r, v), r')) (read_toks d' (drop k r))"
  have "?f (?g p @ r) = Some (p, r)" if p: "p \<in> set m" for p r
  proof -
    have "length (?g p) \<le> d'" using p JObject.prems(2) d member_le_sum_list [of "length (?g p)" "map (length \<circ> ?g) m"]
      by (auto simp: length_concat)
    then show ?thesis using JObject.IH [of p "snd p" d' r] JObject.prems(1) p by (cases p) (auto simp: list_all_iff snds.simps)
  qed
  then show ?case using read_n_all [of m ?f ?g] by (simp add: d)
qed (case_tac d; simp)+

definition tuf_obj :: "(string \<times> json) list \<Rightarrow> json" where
  "tuf_obj m = JObject (map (\<lambda>(k, v). (str k, v)) m)"

definition tuf_text :: "string \<Rightarrow> json" where
  "tuf_text s = JString (str s)"

definition tuf_file :: "string \<Rightarrow> u64 \<Rightarrow> (string \<times> json) list \<Rightarrow> json" where
  "tuf_file role version extra =
     tuf_obj [(''signatures'', JArray [tuf_obj [(''keyid'', tuf_text ''k''), (''sig'', tuf_text ''s'')]]),
       (''signed'', tuf_obj ([(''_type'', tuf_text role), (''expires'', tuf_text ''2030-01-01T00:00:00Z''),
          (''spec_version'', tuf_text ''1.0''), (''version'', JUInt version)] @ extra))]"

definition tuf_root :: "u64 \<Rightarrow> json" where
  "tuf_root version =
     (let role = tuf_obj [(''keyids'', JArray [tuf_text ''k'']), (''threshold'', JUInt 1)] in
      tuf_file ''root'' version
        [(''keys'', tuf_obj [(''k'', tuf_obj [(''keyval'', tuf_obj [(''public'', tuf_text ''p'')]), (''scheme'', tuf_text ''ed25519'')])]),
         (''roles'', tuf_obj [(''root'', role), (''snapshot'', role), (''targets'', role), (''timestamp'', role)])])"

definition tuf_log_key :: bytes where
  "tuf_log_key = ED25519_SPKI_PREFIX @ replicate 32 5"

definition demo_tuf_slice :: "bytes \<Rightarrow> json option" where
  "demo_tuf_slice bs =
     (if bs = [1] then Some (tuf_root 1)
      else if bs = [2] then Some (tuf_root 2)
      else if bs = [3] then Some (tuf_file ''timestamp'' 7 [(''meta'', tuf_obj [(''snapshot.json'', tuf_obj [(''version'', JUInt 8)])])])
      else if bs = [4] then Some (tuf_file ''snapshot'' 8 [(''meta'', tuf_obj [(''targets.json'', tuf_obj [(''version'', JUInt 9)])])])
      else if bs = [5] then Some (tuf_file ''targets'' 9 [(''targets'', tuf_obj [(''trusted_root.json'',
        tuf_obj [(''hashes'', tuf_obj [(''sha256'', JString (demo_hex (demo_sha [6])))])])])])
      else if bs = [7] then Some (tuf_file ''timestamp'' 6 [(''meta'', tuf_obj [(''snapshot.json'', tuf_obj [(''version'', JUInt 8)])])])
      else if bs = [6] then Some (tuf_obj [(''tlogs'', JArray [tuf_obj [(''baseUrl'', tuf_text ''https://log.test/''),
        (''publicKey'', tuf_obj [(''rawBytes'', JString (demo_hex tuf_log_key))])]])])
      else None)"

definition demo_tuf_libs :: tuf_libs where
  "demo_tuf_libs = \<lparr>from_slice = demo_tuf_slice, from_str = (\<lambda>s. map_option fst (read_toks (length s) s)), to_string = toks,
     hex_decode = (\<lambda>s. Some (replicate 32 0)), base64_encode = demo_hex\<rparr>"

definition demo_tuf_verifiers :: verifiers where
  "demo_tuf_verifiers = \<lparr>ecdsa_asn1 = (\<lambda>_ _ _. False), ecdsa_fixed = (\<lambda>_ _ _. False), ed25519 = (\<lambda>_ _ sig. sig = replicate 32 0)\<rparr>"

text \<open>Two timestamps, of which \<open>[7]\<close> is the older.\<close>

definition demo_tuf_metadata :: tuf_metadata where
  "demo_tuf_metadata = \<lparr>tm_roots = [[1], [2]], tm_timestamp = [3], tm_snapshot = [4], tm_targets = [5], tm_trusted_root = [6]\<rparr>"

lemma demo_base64: "base64_decode demo_crates (demo_hex bs) = Some bs" "valid_str (demo_hex bs)"
proof -
  have lower: "is_lower_hex c" if "c \<in> set (demo_hex bs)" for c
    using demo_crates_ok that by (auto simp: crates_ok_def demo_crates_def list_all_iff)
  then have "filter (\<lambda>c. \<not> is_whitespace c \<and> c \<noteq> 61) (demo_hex bs) = demo_hex bs"
    by (intro filter_True_id) (auto simp: is_lower_hex_def is_whitespace_def dest!: lower)
  then show "base64_decode demo_crates (demo_hex bs) = Some bs"
    by (simp add: base64_decode_def decode_padless_def demo_crates_def demo_unhex_hex)
  show "valid_str (demo_hex bs)" unfolding valid_str_def list_all_iff using lower by (fastforce simp: scalar_def is_lower_hex_def)
qed

lemma demo_tuf_libs_ok: "tuf_libs_ok demo_crates demo_tuf_libs"
  using read_toks_back [where r = "[]"] by (simp add: tuf_libs_ok_def demo_tuf_libs_def demo_base64)

definition tuf_signed :: "string \<Rightarrow> u64 \<Rightarrow> (string \<times> json) list \<Rightarrow> json" where
  "tuf_signed role version extra =
     tuf_obj ([(''_type'', tuf_text role), (''expires'', tuf_text ''2030-01-01T00:00:00Z''),
          (''spec_version'', tuf_text ''1.0''), (''version'', JUInt version)] @ extra)"

definition tuf_meta :: "string \<Rightarrow> u64 \<Rightarrow> (string \<times> json) list \<Rightarrow> meta" where
  "tuf_meta role version extra =
     \<lparr>m_role = str role, m_version = version, m_expires = 1893456000, m_signed = tuf_signed role version extra,
      m_canonical = as_bytes (form (tuf_signed role version extra)), m_signatures = [(str ''k'', replicate 32 0)]\<rparr>"

lemma demo_expires: "parse_rfc3339 (str ''2030-01-01T00:00:00Z'') = Some 1893456000"
proof -
  have "days_from_civil 2030 1 1 = 21915" by code_simp
  then show ?thesis
    by (simp add: parse_rfc3339_def str_get_def parse_i64_def last_day_def skip_fraction_def strip_prefix_def starts_with_def
      zone_offset_def as_bytes_def utf8_char_def utf8_width_def str_def to_digit_def digit_value_def)
qed

lemma demo_meta_parse:
  assumes "demo_tuf_slice bs = Some (tuf_file role version extra)" "list_all whole (map snd extra)"
  shows "meta_parse demo_tuf_libs bs (str role) = Inr (tuf_meta role version extra)"
proof -
  have w: "whole (tuf_signed role version extra)"
    using assms(2) by (auto simp: tuf_signed_def tuf_obj_def tuf_text_def list_all_iff)
  have g: "json_get (tuf_file role version extra) (str ''signed'') = Some (tuf_signed role version extra)"
    "json_at (tuf_file role version extra) ''signatures'' =
       JArray [tuf_obj [(''keyid'', tuf_text ''k''), (''sig'', tuf_text ''s'')]]"
    by (simp_all add: tuf_file_def tuf_obj_def tuf_signed_def json_at_def str_def)
  have m: "json_at (tuf_signed role version extra) ''_type'' = JString (str role)"
    "json_at (tuf_signed role version extra) ''expires'' = JString (str ''2030-01-01T00:00:00Z'')"
    "json_at (tuf_signed role version extra) ''spec_version'' = JString (str ''1.0'')"
    "json_at (tuf_signed role version extra) ''version'' = JUInt version"
    by (simp_all add: tuf_signed_def tuf_obj_def json_at_def tuf_text_def str_def)
  have sigs: "parse_signatures demo_tuf_libs [tuf_obj [(''keyid'', tuf_text ''k''), (''sig'', tuf_text ''s'')]] = Inr [(str ''k'', replicate 32 0)]"
    by (simp add: tuf_obj_def json_at_def tuf_text_def str_def demo_tuf_libs_def)
  have "canonical_json (tuf_signed role version extra) = Some (as_bytes (form (tuf_signed role version extra)))"
    using w by (simp add: canonical_form)
  moreover have "starts_with (str ''1.'') (str ''1.0'')" by (simp add: starts_with_def str_def)
  moreover have "from_slice demo_tuf_libs bs = Some (tuf_file role version extra)" using assms(1) by (simp add: demo_tuf_libs_def)
  ultimately show ?thesis
    unfolding meta_parse_def by (simp add: g m sigs demo_expires tuf_meta_def del: parse_signatures.simps)
qed

definition tuf_root_extra :: "(string \<times> json) list" where
  "tuf_root_extra =
     (let role = tuf_obj [(''keyids'', JArray [tuf_text ''k'']), (''threshold'', JUInt 1)] in
        [(''keys'', tuf_obj [(''k'', tuf_obj [(''keyval'', tuf_obj [(''public'', tuf_text ''p'')]), (''scheme'', tuf_text ''ed25519'')])]),
         (''roles'', tuf_obj [(''root'', role), (''snapshot'', role), (''targets'', role), (''timestamp'', role)])])"

definition tuf_demo_root :: "bytes \<Rightarrow> u64 \<Rightarrow> root" where
  "tuf_demo_root bs version =
     \<lparr>r_version = version, r_meta = tuf_meta ''root'' version tuf_root_extra, r_bytes = bs,
      r_roles = map (\<lambda>role. (str role, ([str ''k''], 1))) [''root'', ''snapshot'', ''targets'', ''timestamp''],
      r_keys = [(str ''k'', \<lparr>rk_scheme = Ed25519, rk_point = replicate 32 0\<rparr>)]\<rparr>"

lemma demo_key_parse:
  "tuf_key_parse demo_crates demo_tuf_libs (tuf_obj [(''keyval'', tuf_obj [(''public'', tuf_text ''p'')]), (''scheme'', tuf_text ''ed25519'')])
   = Inr \<lparr>rk_scheme = Ed25519, rk_point = replicate 32 0\<rparr>"
  by (simp add: tuf_key_parse_def tuf_obj_def json_at_def tuf_text_def str_def starts_with_def demo_tuf_libs_def from_raw_def)

lemma demo_root_parse:
  assumes "demo_tuf_slice bs = Some (tuf_root version)"
  shows "root_parse demo_crates demo_tuf_libs bs = Inr (tuf_demo_root bs version)"
proof -
  have f: "demo_tuf_slice bs = Some (tuf_file ''root'' version tuf_root_extra)"
    using assms by (simp add: tuf_root_def tuf_root_extra_def Let_def)
  have w: "list_all whole (map snd tuf_root_extra)" by (simp add: tuf_root_extra_def tuf_obj_def tuf_text_def Let_def)
  have k: "parse_keys demo_crates demo_tuf_libs [(str ''k'', tuf_obj [(''keyval'', tuf_obj [(''public'', tuf_text ''p'')]), (''scheme'', tuf_text ''ed25519'')])] []
    = r_keys (tuf_demo_root bs version)"
    by (simp add: demo_key_parse tuf_demo_root_def)
  let ?role = "tuf_obj [(''keyids'', JArray [tuf_text ''k'']), (''threshold'', JUInt 1)]"
  have r: "parse_roles (map (\<lambda>role. (str role, ?role)) [''root'', ''snapshot'', ''targets'', ''timestamp'']) [] = Inr (r_roles (tuf_demo_root bs version))"
    by (simp add: tuf_demo_root_def tuf_obj_def json_at_def tuf_text_def str_def map_filter_simps)
  have m: "json_at (m_signed (tuf_meta ''root'' version tuf_root_extra)) ''keys'' =
      JObject [(str ''k'', tuf_obj [(''keyval'', tuf_obj [(''public'', tuf_text ''p'')]), (''scheme'', tuf_text ''ed25519'')])]"
    "json_at (m_signed (tuf_meta ''root'' version tuf_root_extra)) ''roles'' =
      JObject (map (\<lambda>role. (str role, ?role)) [''root'', ''snapshot'', ''targets'', ''timestamp''])"
    by (simp_all add: tuf_meta_def tuf_signed_def tuf_root_extra_def tuf_obj_def json_at_def str_def Let_def)
  have "root_parse demo_crates demo_tuf_libs bs = Inr \<lparr>r_version = m_version (tuf_meta ''root'' version tuf_root_extra),
      r_meta = tuf_meta ''root'' version tuf_root_extra, r_bytes = bs, r_roles = r_roles (tuf_demo_root bs version),
      r_keys = r_keys (tuf_demo_root bs version)\<rparr>"
    unfolding root_parse_def ROOT_ROLE_def demo_meta_parse [OF f w] by (simp only: result_bind.simps m json_accessors ok_or_simps r k)
  then show ?thesis by (simp add: tuf_demo_root_def tuf_meta_def)
qed

lemma demo_check_role:
  assumes "role \<in> {''root'', ''snapshot'', ''targets'', ''timestamp''}"
  shows "check_role demo_tuf_verifiers (tuf_demo_root bs v) (str role) (tuf_meta role' v' extra) = Inr ()"
  using assms by (auto simp: check_role_def tuf_demo_root_def str_def tuf_meta_def tuf_key_verify_def verifies_def demo_tuf_verifiers_def)

definition demo_tuf_state :: pin_state where
  "demo_tuf_state = \<lparr>ps_root = [2], ps_root_chain = [[2]], ps_root_version = 2, ps_timestamp_version = 7, ps_snapshot_version = 8,
     ps_targets_version = 9, ps_targets = [5], ps_trusted_root = [6], ps_updated_at = 1000,
     ps_anchor_digest = sha demo_crates [1]\<rparr>"

definition demo_tuf_keys :: log_keys where
  "demo_tuf_keys = [\<lparr>lk_id = demo_sha tuf_log_key, lk_key = \<lparr>rk_scheme = Ed25519, rk_point = replicate 32 5\<rparr>,
     lk_origin = Some (str ''log.test'')\<rparr>]"

lemma demo_tlog_keys: "tlog_keys demo_crates demo_tuf_libs [6] = Inr demo_tuf_keys"
proof -
  have k: "log_key_from_spki demo_crates tuf_log_key =
      Inr \<lparr>lk_id = demo_sha tuf_log_key, lk_key = \<lparr>rk_scheme = Ed25519, rk_point = replicate 32 5\<rparr>, lk_origin = None\<rparr>"
    by (simp add: log_key_from_spki_def tuf_log_key_def from_spki_def bytes_strip_prefix_def ED25519_SPKI_PREFIX_def
        P256_SPKI_PREFIX_def demo_crates_def)
  have "tlogs demo_crates demo_tuf_libs [6] = Inr [\<lparr>tl_base_url = str ''https://log.test'', tl_spki = tuf_log_key,
      tl_log_id = demo_sha tuf_log_key, tl_valid_from = 0, tl_valid_until = None\<rparr>]"
    by (simp add: tlogs_def demo_tuf_libs_def demo_tuf_slice_def tlog_entry_def tuf_obj_def json_at_def json_get_def tuf_text_def str_def
        demo_base64 k map_filter_simps trim_end_def demo_crates_def [THEN arg_cong, of sha])
  then show ?thesis
    by (simp add: tlog_keys_def k note_origin_def demo_tuf_keys_def for_origin_def str_def strip_prefix_def starts_with_def trim_end_def ascii_lower_def)
qed

lemma demo_anchored: "anchored demo_crates demo_tuf_libs [1] =
  \<lparr>ps_root = [1], ps_root_chain = [], ps_root_version = 1, ps_timestamp_version = 0, ps_snapshot_version = 0, ps_targets_version = 0,
   ps_targets = [], ps_trusted_root = [], ps_updated_at = 0, ps_anchor_digest = sha demo_crates [1]\<rparr>"
  using root_version_parse [OF demo_root_parse, of "[1]" 1] by (simp add: anchored_def demo_tuf_slice_def tuf_demo_root_def)

lemma demo_walk: "walk_roots demo_crates demo_tuf_verifiers demo_tuf_libs [[1], [2]] (tuf_demo_root [1] 1) [] = Inr (tuf_demo_root [2] 2, [[2]])"
proof -
  have r: "root_parse demo_crates demo_tuf_libs [1] = Inr (tuf_demo_root [1] 1)" "root_parse demo_crates demo_tuf_libs [2] = Inr (tuf_demo_root [2] 2)"
    by (simp_all add: demo_root_parse demo_tuf_slice_def)
  have v: "r_version (tuf_demo_root bs n) = n" "r_meta (tuf_demo_root bs n) = tuf_meta ''root'' n tuf_root_extra" "r_bytes (tuf_demo_root bs n) = bs" for bs n
    by (simp_all add: tuf_demo_root_def)
  show ?thesis by (simp add: r v ROOT_ROLE_def demo_check_role word_le_nat_alt)
qed

lemma demo_update:
  assumes "uint now < 1893456000" "(tsb, tsv) \<in> {([3], 7), ([7], 6)}"
  shows "update demo_crates demo_tuf_verifiers demo_tuf_libs (demo_tuf_metadata\<lparr>tm_timestamp := tsb\<rparr>) (anchored demo_crates demo_tuf_libs [1]) now =
   Inr \<lparr>tu_state = demo_tuf_state\<lparr>ps_timestamp_version := tsv, ps_updated_at := now\<rparr>, tu_log_keys = demo_tuf_keys, tu_changed = True\<rparr>"
proof -
  have r: "root_parse demo_crates demo_tuf_libs [1] = Inr (tuf_demo_root [1] 1)" by (simp add: demo_root_parse demo_tuf_slice_def)
  have v: "r_version (tuf_demo_root bs n) = n" "r_meta (tuf_demo_root bs n) = tuf_meta ''root'' n tuf_root_extra" "r_bytes (tuf_demo_root bs n) = bs" for bs n
    by (simp_all add: tuf_demo_root_def)
  let ?meta = "\<lambda>fl n. [(''meta'', tuf_obj [(fl, tuf_obj [(''version'', JUInt n)])])]"
  let ?targets = "[(''targets'', tuf_obj [(''trusted_root.json'', tuf_obj [(''hashes'', tuf_obj [(''sha256'', JString (demo_hex (demo_sha [6])))])])])]"
  have p: "meta_parse demo_tuf_libs tsb TIMESTAMP_ROLE = Inr (tuf_meta ''timestamp'' tsv (?meta ''snapshot.json'' 8))"
    "meta_parse demo_tuf_libs [4] SNAPSHOT_ROLE = Inr (tuf_meta ''snapshot'' 8 (?meta ''targets.json'' 9))"
    "meta_parse demo_tuf_libs [5] TARGETS_ROLE = Inr (tuf_meta ''targets'' 9 ?targets)"
    unfolding TIMESTAMP_ROLE_def SNAPSHOT_ROLE_def TARGETS_ROLE_def
    using assms(2) by (intro demo_meta_parse; auto simp: demo_tuf_slice_def tuf_obj_def)+
  have l: "check_listed demo_crates (tuf_meta role n (?meta fl v)) fl bs v = Inr ()" for role n fl bs v
    by (simp add: check_listed_def tuf_meta_def tuf_signed_def tuf_obj_def json_at_def json_get_def check_hashes_def str_def as_u64_def as_str_def)
  have t: "check_target demo_crates (tuf_meta ''targets'' 9 ?targets) TRUSTED_ROOT_TARGET [6] = Inr ()"
    by (simp add: check_target_def tuf_meta_def tuf_signed_def tuf_obj_def json_at_def check_hashes_def str_def as_u64_def as_str_def
        TRUSTED_ROOT_TARGET_def eq_ignore_ascii_case_def demo_crates_def)
  have m: "m_version (tuf_meta role n extra) = n" "check_expiry (tuf_meta role n extra) now = Inr ()" for role n extra
    using assms(1) by (simp_all add: tuf_meta_def check_expiry_def)
  have c: "check_role demo_tuf_verifiers (tuf_demo_root bs n) role (tuf_meta role' k extra) = Inr ()"
    if "role \<in> {TIMESTAMP_ROLE, SNAPSHOT_ROLE, TARGETS_ROLE}" for bs n role role' k extra
    using that demo_check_role by (auto simp: TIMESTAMP_ROLE_def SNAPSHOT_ROLE_def TARGETS_ROLE_def)
  show ?thesis
    unfolding update_def demo_anchored demo_tuf_metadata_def
    by (simp add: r demo_walk v p l t m c SNAPSHOT_META_def TARGETS_META_def check_rollback_def demo_tlog_keys demo_tuf_state_def
        word_le_nat_alt word_less_nat_alt del: walk_roots.simps result_bind_Inr_iff)
qed

theorem check_role_iff_quorum_witness:
  "quorum demo_tuf_verifiers (tuf_demo_root [1] 1) (str ''root'') (tuf_meta ''root'' 1 [])"
proof -
  have "length (m_signatures (tuf_meta ''root'' 1 [])) < 2 ^ 64" by (simp add: tuf_meta_def)
  from check_role_iff_quorum [OF this, of demo_tuf_verifiers "tuf_demo_root [1] 1" "str ''root''"]
  show ?thesis using demo_check_role [of "''root''" "[1]" 1 "''root''" 1 "[]"] by simp
qed

theorem update_sound_witness:
  "\<exists>start bss trusted ts sn tg.
    root_parse demo_crates demo_tuf_libs [1] = Inr start \<and> lineage demo_crates demo_tuf_verifiers demo_tuf_libs start bss trusted \<and>
    [2] = r_bytes trusted \<and> [[2]] = [] @ bss \<and> int (unat (1000 :: u64)) < m_expires (r_meta trusted) \<and>
    current_file demo_tuf_verifiers demo_tuf_libs trusted TIMESTAMP_ROLE [3] 1000 ts \<and>
    current_file demo_tuf_verifiers demo_tuf_libs trusted SNAPSHOT_ROLE [4] 1000 sn \<and> lists_version ts SNAPSHOT_META (m_version sn) \<and>
    current_file demo_tuf_verifiers demo_tuf_libs trusted TARGETS_ROLE [5] 1000 tg \<and> lists_version sn TARGETS_META (m_version tg) \<and>
    names_digest demo_crates tg TRUSTED_ROOT_TARGET [6] \<and> tlog_keys demo_crates demo_tuf_libs [6] = Inr demo_tuf_keys"
  using update_sound [OF demo_update [of 1000 "[3]" 7]] by (simp add: demo_anchored demo_tuf_state_def demo_tuf_metadata_def)

lemma demo_pin_steps:
  "(pin_step demo_crates demo_tuf_verifiers demo_tuf_libs [1])\<^sup>*\<^sup>* (anchored demo_crates demo_tuf_libs [1]) demo_tuf_state"
proof -
  have "demo_tuf_state\<lparr>ps_timestamp_version := 7, ps_updated_at := 1000\<rparr> = demo_tuf_state" by (simp add: demo_tuf_state_def)
  then show ?thesis using step_update [OF demo_update [of 1000 "[3]" 7], of "[1]"] by (simp add: r_into_rtranclp)
qed


theorem root_chain_rewalks_witness:
  "\<exists>t. walk_roots demo_crates demo_tuf_verifiers demo_tuf_libs [[2]] (tuf_demo_root [1] 1) [] = Inr (t, [[2]]) \<and> r_bytes t = [2] \<and>
    r_version t = 2"
proof -
  have "root_parse demo_crates demo_tuf_libs [1] = Inr (tuf_demo_root [1] 1)" by (simp add: demo_root_parse demo_tuf_slice_def)
  from root_chain_rewalks [OF demo_pin_steps demo_crates_ok demo_tuf_libs_ok this] show ?thesis by (simp add: demo_tuf_state_def)
qed

end
