(* ===== verification/Tuf_Fetch.thy ===== *)
theory Tuf_Fetch
  imports Tuf_Update
begin

text \<open>
  The walk of a TUF repository (\<^verbatim>\<open>synch-net/src/tuf.rs\<close>): \<open>fetch_metadata\<close>, its budget of bytes and
  time, and the HTTP repository. The world answers the requests one after another: \<open>w_elapsed n\<close> is the
  time on the clock before request \<open>n\<close>, and \<open>w_get n\<close> what the repository answers to it.
\<close>

section \<open>The budget\<close>

definition ROOT_CEILING :: nat where "ROOT_CEILING = 200"
definition MAX_WALK_BYTES :: nat where "MAX_WALK_BYTES = 8 * 1024 * 1024"
definition MAX_WALK_TIME :: duration where "MAX_WALK_TIME = 120 * secs_ns"
definition MAX_TUF_BYTES :: nat where "MAX_TUF_BYTES = 8 * 1024 * 1024"

record walk_world =
  w_elapsed :: "nat \<Rightarrow> duration"
  w_get :: "nat \<Rightarrow> rstr \<Rightarrow> unit + bytes option"

text \<open>\<open>b_asked\<close> counts the requests, to tell the answers apart; the code has no such field.\<close>

record budget =
  b_spent :: nat
  b_asked :: nat

definition budget_new :: budget where
  "budget_new = \<lparr>b_spent = 0, b_asked = 0\<rparr>"

definition budget_check :: "duration \<Rightarrow> tuf_error + unit" where
  "budget_check elapsed = (if elapsed > MAX_WALK_TIME then Inl TufMalformed else Inr ())"

definition saturating_add :: "nat \<Rightarrow> nat \<Rightarrow> nat" where
  "saturating_add a b = min (2 ^ 64 - 1) (a + b)"

definition budget_spend :: "budget \<Rightarrow> nat \<Rightarrow> tuf_error + budget" where
  "budget_spend b n =
     (let b = b\<lparr>b_spent := saturating_add (b_spent b) n\<rparr>
      in if b_spent b \<le> MAX_WALK_BYTES then Inr b else Inl TufMalformed)"

section \<open>The walk\<close>

definition walk_get :: "walk_world \<Rightarrow> budget \<Rightarrow> rstr \<Rightarrow> tuf_error + (bytes option \<times> budget)" where
  "walk_get w b path =
     result_bind (budget_check (w_elapsed w (b_asked b))) (\<lambda>_.
     result_bind (map_err (\<lambda>_. TufMalformed) (w_get w (b_asked b) path)) (\<lambda>answer.
     result_bind (budget_spend (b\<lparr>b_asked := b_asked b + 1\<rparr>) (case answer of None \<Rightarrow> 0 | Some bs \<Rightarrow> length bs)) (\<lambda>b.
     Inr (answer, b))))"

definition walk_fetch :: "walk_world \<Rightarrow> budget \<Rightarrow> rstr \<Rightarrow> tuf_error + (bytes \<times> budget)" where
  "walk_fetch w b path =
     result_bind (walk_get w b path) (\<lambda>(answer, b).
     result_bind (ok_or TufChain answer) (\<lambda>bs. Inr (bs, b)))"

definition root_path :: "u64 \<Rightarrow> rstr" where
  "root_path version = fmt_u64 version @ str ''.root.json''"

text \<open>The loop over \<open>left\<close> further versions.\<close>

fun fetch_roots :: "walk_world \<Rightarrow> nat \<Rightarrow> u64 \<Rightarrow> budget \<Rightarrow> tuf_error + (bytes list \<times> budget)" where
  "fetch_roots w 0 version b = Inr ([], b)"
| "fetch_roots w (Suc left) version b =
     result_bind (walk_get w b (root_path version)) (\<lambda>(answer, b).
     case answer of
       None \<Rightarrow> Inr ([], b)
     | Some bs \<Rightarrow>
         result_bind (fetch_roots w left (version + 1) b) (\<lambda>(roots, b). Inr (bs # roots, b)))"

definition meta_version :: "tuf_libs \<Rightarrow> bytes \<Rightarrow> string \<Rightarrow> tuf_error + u64" where
  "meta_version l bs file =
     result_bind (ok_or TufMalformed (from_slice l bs)) (\<lambda>v.
     ok_or TufMalformed (as_u64 (json_at (json_at (json_at (json_at v ''signed'') ''meta'') file) ''version'')))"

definition target_digest :: "tuf_libs \<Rightarrow> bytes \<Rightarrow> string \<Rightarrow> tuf_error + rstr" where
  "target_digest l targets name =
     result_bind (ok_or TufMalformed (from_slice l targets)) (\<lambda>v.
     result_bind (ok_or TufMalformed
       (as_str (json_at (json_at (json_at (json_at (json_at v ''signed'') ''targets'') name) ''hashes'') ''sha256''))) (\<lambda>digest.
     if utf8_len digest = 64 \<and> list_all is_hexdigit digest then Inr (map ascii_lower digest) else Inl TufMalformed))"

definition fetch_metadata :: "tuf_libs \<Rightarrow> walk_world \<Rightarrow> u64 \<Rightarrow> tuf_error + tuf_metadata" where
  "fetch_metadata l w from_root =
     result_bind (fetch_roots w (saturating_add (unat from_root) ROOT_CEILING - unat from_root) from_root budget_new) (\<lambda>(roots, b).
     if roots = [] then Inl TufChain
     else
       result_bind (walk_fetch w b (str ''timestamp.json'')) (\<lambda>(timestamp, b).
       result_bind (meta_version l timestamp SNAPSHOT_META) (\<lambda>snapshot_version.
       result_bind (walk_fetch w b (fmt_u64 snapshot_version @ str ''.'' @ str SNAPSHOT_META)) (\<lambda>(snapshot, b).
       result_bind (meta_version l snapshot TARGETS_META) (\<lambda>targets_version.
       result_bind (walk_fetch w b (fmt_u64 targets_version @ str ''.'' @ str TARGETS_META)) (\<lambda>(targets, b).
       result_bind (target_digest l targets TRUSTED_ROOT_TARGET) (\<lambda>digest.
       result_bind (walk_fetch w b (str ''targets/'' @ digest @ str ''.'' @ str TRUSTED_ROOT_TARGET)) (\<lambda>(trusted_root, b).
       Inr \<lparr>tm_roots = roots, tm_timestamp = timestamp, tm_snapshot = snapshot, tm_targets = targets,
         tm_trusted_root = trusted_root\<rparr>))))))))"

text \<open>A response is its status and its body, cut off after as many bytes as are asked for; either may fail.\<close>

record http_response =
  hr_status :: nat
  hr_read :: "nat \<Rightarrow> unit + bytes"

definition http_get :: "rstr \<Rightarrow> (rstr \<Rightarrow> unit + http_response) \<Rightarrow> rstr \<Rightarrow> unit + bytes option" where
  "http_get base send path =
     result_bind (send (base @ str ''/'' @ path)) (\<lambda>response.
     if hr_status response = 200 then
       result_bind (hr_read response (MAX_TUF_BYTES + 1)) (\<lambda>body.
       if length body > MAX_TUF_BYTES then Inl () else Inr (Some body))
     else if hr_status response = 403 \<or> hr_status response = 404 then Inr None
     else Inl ())"

definition http_repo_new :: "rstr \<Rightarrow> rstr" where
  "http_repo_new base = trim_end (\<lambda>c. c = 47) base"

section \<open>What a walk may cost\<close>

definition answer_size :: "bytes option \<Rightarrow> nat" where
  "answer_size answer = (case answer of None \<Rightarrow> 0 | Some bs \<Rightarrow> length bs)"

lemma saturating_small: "saturating_add a b \<le> MAX_WALK_BYTES \<longleftrightarrow> a + b \<le> MAX_WALK_BYTES"
  "a + b \<le> MAX_WALK_BYTES \<Longrightarrow> saturating_add a b = a + b"
  by (auto simp: saturating_add_def MAX_WALK_BYTES_def min_def)

lemma walk_get_Inr:
  "walk_get w b path = Inr (answer, b') \<longleftrightarrow>
     w_elapsed w (b_asked b) \<le> MAX_WALK_TIME \<and> w_get w (b_asked b) path = Inr answer \<and>
     b_spent b + answer_size answer \<le> MAX_WALK_BYTES \<and>
     b' = \<lparr>b_spent = b_spent b + answer_size answer, b_asked = b_asked b + 1\<rparr>"
  by (cases b) (auto simp: walk_get_def budget_check_def budget_spend_def Let_def answer_size_def [symmetric] saturating_small
      split: if_splits)

lemma walk_fetch_Inr:
  "walk_fetch w b path = Inr (bs, b') \<longleftrightarrow> walk_get w b path = Inr (Some bs, b')"
  by (auto simp: walk_fetch_def)

lemma fetch_roots_bounds:
  "fetch_roots w left version b = Inr (roots, b') \<Longrightarrow> b_spent b \<le> MAX_WALK_BYTES \<Longrightarrow>
   length roots \<le> left \<and> b_spent b' = b_spent b + sum_list (map length roots) \<and> b_spent b' \<le> MAX_WALK_BYTES"
proof (induction left arbitrary: version b roots b')
  case (Suc left)
  then obtain answer c where c: "walk_get w b (root_path version) = Inr (answer, c)" by auto
  show ?case
  proof (cases answer)
    case None
    then show ?thesis using Suc.prems c by (auto simp: walk_get_Inr answer_size_def)
  next
    case (Some bs)
    then obtain rest where r: "fetch_roots w left (version + 1) c = Inr (rest, b')" "roots = bs # rest"
      using Suc.prems(1) c by auto
    have "b_spent c = b_spent b + length bs" "b_spent c \<le> MAX_WALK_BYTES" using c Some by (auto simp: walk_get_Inr answer_size_def)
    then show ?thesis using Suc.IH [OF r(1)] r(2) by simp
  qed
qed simp

text \<open>Worlds that agree on their first \<open>k\<close> requests.\<close>

definition agree :: "walk_world \<Rightarrow> walk_world \<Rightarrow> nat \<Rightarrow> bool" where
  "agree w w' k \<longleftrightarrow> (\<forall>n < k. w_elapsed w n = w_elapsed w' n \<and> w_get w n = w_get w' n)"

lemma walk_get_agree: "agree w w' k \<Longrightarrow> b_asked b < k \<Longrightarrow> walk_get w b path = walk_get w' b path"
  by (simp add: walk_get_def agree_def)

lemma walk_get_asked: "walk_get w b path = Inr (answer, b') \<Longrightarrow> b_asked b' = b_asked b + 1"
  by (simp add: walk_get_Inr)

lemma fetch_roots_agree:
  "agree w w' k \<Longrightarrow> b_asked b + left \<le> k \<Longrightarrow> fetch_roots w left version b = fetch_roots w' left version b"
proof (induction left arbitrary: version b)
  case (Suc left)
  have e: "walk_get w b path = walk_get w' b path" for path using Suc.prems by (intro walk_get_agree) auto
  have "fetch_roots w left (version + 1) b' = fetch_roots w' left (version + 1) b'"
    if "walk_get w' b path = Inr (answer, b')" for path answer b'
    using that Suc.prems walk_get_asked [OF that] by (intro Suc.IH) auto
  then show ?case unfolding fetch_roots.simps e
    by (intro result_bind_cong) (auto split: option.splits prod.splits intro!: result_bind_cong)
qed simp

lemma fetch_roots_asked: "fetch_roots w left version b = Inr (roots, b') \<Longrightarrow> b_asked b' \<le> b_asked b + left"
proof (induction left arbitrary: version b roots b')
  case (Suc left)
  then obtain answer c where c: "walk_get w b (root_path version) = Inr (answer, c)" by auto
  show ?case
  proof (cases answer)
    case None
    then show ?thesis using Suc.prems c walk_get_asked [OF c] by auto
  next
    case (Some bs)
    then obtain rest where "fetch_roots w left (version + 1) c = Inr (rest, b')" using Suc.prems c by auto
    then show ?thesis using Suc.IH walk_get_asked [OF c] by fastforce
  qed
qed simp

lemma walk_fetch_agree:
  "agree w w' k \<Longrightarrow> b_asked b < k \<Longrightarrow> walk_fetch w b path = walk_fetch w' b path"
  by (simp add: walk_fetch_def walk_get_agree)

lemma walk_fetch_asked: "walk_fetch w b path = Inr (bs, b') \<Longrightarrow> b_asked b' = b_asked b + 1"
  by (simp add: walk_fetch_Inr walk_get_Inr)

text \<open>A walk makes at most 204 requests: it does not depend on what the repository, or the clock, would
  answer to any later one.\<close>

lemma fetch_asks_few:
  assumes "agree w w' (ROOT_CEILING + 4)"
  shows "fetch_metadata l w from_root = fetch_metadata l w' from_root"
proof -
  define left where "left = saturating_add (unat from_root) ROOT_CEILING - unat from_root"
  have "left \<le> ROOT_CEILING" by (simp add: left_def saturating_add_def)
  then have n: "b_asked budget_new + left \<le> ROOT_CEILING + 4" by (simp add: budget_new_def)
  have asked: "b_asked b \<le> ROOT_CEILING" if "fetch_roots w' left from_root budget_new = Inr (roots, b)" for roots b
    using fetch_roots_asked [OF that] \<open>left \<le> ROOT_CEILING\<close> by (simp add: budget_new_def)
  show ?thesis
    unfolding fetch_metadata_def left_def [symmetric] fetch_roots_agree [OF assms n]
    by (intro result_bind_cong refl)
      (auto dest!: asked walk_fetch_asked intro!: walk_fetch_agree [OF assms] result_bind_cong)
qed

lemma fetch_sizes:
  assumes "fetch_metadata l w from_root = Inr md"
  shows "sum_list (map length (tm_roots md @ [tm_timestamp md, tm_snapshot md, tm_targets md, tm_trusted_root md])) \<le> MAX_WALK_BYTES \<and>
    0 < length (tm_roots md) \<and> length (tm_roots md) \<le> ROOT_CEILING"
proof -
  from assms obtain b b1 b2 b3 b4 p1 p2 p3 where r: "tm_roots md \<noteq> []"
    "fetch_roots w (saturating_add (unat from_root) ROOT_CEILING - unat from_root) from_root budget_new = Inr (tm_roots md, b)"
    and f: "walk_fetch w b (str ''timestamp.json'') = Inr (tm_timestamp md, b1)" "walk_fetch w b1 p1 = Inr (tm_snapshot md, b2)"
    "walk_fetch w b2 p2 = Inr (tm_targets md, b3)" "walk_fetch w b3 p3 = Inr (tm_trusted_root md, b4)"
    unfolding fetch_metadata_def by (clarsimp split: if_splits prod.splits)
  have "b_spent budget_new \<le> MAX_WALK_BYTES" "b_spent budget_new = 0" by (simp_all add: budget_new_def)
  note b = fetch_roots_bounds [OF r(2) this(1), unfolded this(2)]
  have "saturating_add (unat from_root) ROOT_CEILING - unat from_root \<le> ROOT_CEILING" by (simp add: saturating_add_def)
  then have "length (tm_roots md) \<le> ROOT_CEILING" using b by linarith
  moreover have "b_spent b4 \<le> MAX_WALK_BYTES" "b_spent b4 = b_spent b + length (tm_timestamp md) + length (tm_snapshot md) +
      length (tm_targets md) + length (tm_trusted_root md)"
    using f by (auto simp: walk_fetch_Inr walk_get_Inr answer_size_def)
  ultimately show ?thesis using b r(1) by simp
qed

text \<open>C33. Whatever a repository answers, one walk makes at most 204 requests, since it does not depend on what would be answered to a later one,
  and the files it returns are at most eight megabytes together, with at most 200 roots among them.\<close>
theorem fetch_bounded:
  assumes "agree w w' (ROOT_CEILING + 4)" "fetch_metadata l w from_root = Inr md"
  shows "fetch_metadata l w' from_root = Inr md \<and>
    sum_list (map length (tm_roots md @ [tm_timestamp md, tm_snapshot md, tm_targets md, tm_trusted_root md])) \<le> MAX_WALK_BYTES \<and>
    0 < length (tm_roots md) \<and> length (tm_roots md) \<le> ROOT_CEILING"
  using fetch_asks_few [OF assms(1)] fetch_sizes [OF assms(2)] assms(2) by simp

section \<open>What a walk finds\<close>

definition serves :: "walk_world \<Rightarrow> (rstr \<Rightarrow> bytes option) \<Rightarrow> bool" where
  "serves w files \<longleftrightarrow> (\<forall>n. w_elapsed w n \<le> MAX_WALK_TIME \<and> (\<forall>path. w_get w n path = Inr (files path)))"

lemma serves_fetch:
  "serves w files \<Longrightarrow> files path = Some bs \<Longrightarrow> b_spent b + length bs \<le> MAX_WALK_BYTES \<Longrightarrow>
   walk_fetch w b path = Inr (bs, \<lparr>b_spent = b_spent b + length bs, b_asked = b_asked b + 1\<rparr>)"
  by (simp add: walk_fetch_Inr walk_get_Inr serves_def answer_size_def)

lemma serves_roots:
  "serves w files \<Longrightarrow> (\<And>i. i < length roots \<Longrightarrow> files (root_path (version + of_nat i)) = Some (roots ! i)) \<Longrightarrow>
   files (root_path (version + of_nat (length roots))) = None \<Longrightarrow> length roots < left \<Longrightarrow>
   b_spent b + sum_list (map length roots) \<le> MAX_WALK_BYTES \<Longrightarrow>
   \<exists>b'. fetch_roots w left version b = Inr (roots, b') \<and> b_spent b' = b_spent b + sum_list (map length roots)"
proof (induction roots arbitrary: left version b)
  case Nil
  then obtain left' where "left = Suc left'" by (cases left) auto
  moreover have "walk_get w b (root_path version) = Inr (None, \<lparr>b_spent = b_spent b, b_asked = b_asked b + 1\<rparr>)"
    using Nil by (simp add: walk_get_Inr serves_def answer_size_def)
  ultimately show ?case by simp
next
  case (Cons bs roots)
  then obtain left' where left: "left = Suc left'" by (cases left) auto
  define c where "c = \<lparr>b_spent = b_spent b + length bs, b_asked = b_asked b + 1\<rparr>"
  have "walk_get w b (root_path version) = Inr (Some bs, c)"
    using Cons.prems(1,5) Cons.prems(2) [of 0] by (simp add: walk_get_Inr serves_def answer_size_def c_def)
  moreover have "\<exists>b'. fetch_roots w left' (version + 1) c = Inr (roots, b') \<and> b_spent b' = b_spent c + sum_list (map length roots)"
    using Cons.prems left Cons.prems(2) [of "Suc _"] by (intro Cons.IH) (auto simp: c_def add.assoc)
  ultimately show ?case by (auto simp: left c_def)
qed

text \<open>C34. A walk of a repository that answers consistently and in time, and fits the budget, returns exactly its
  files: the roots from the trusted version up to the last one published, and the
  snapshot, targets and trusted root that the metadata name.\<close>
theorem fetch_collects:
  assumes "serves w files" "roots \<noteq> []" "length roots < ROOT_CEILING" "unat from_root + ROOT_CEILING < 2 ^ 64"
    and "\<And>i. i < length roots \<Longrightarrow> files (root_path (from_root + of_nat i)) = Some (roots ! i)"
    and "files (root_path (from_root + of_nat (length roots))) = None"
    and "files (str ''timestamp.json'') = Some ts" "meta_version l ts SNAPSHOT_META = Inr sv"
    and "files (fmt_u64 sv @ str ''.'' @ str SNAPSHOT_META) = Some sn" "meta_version l sn TARGETS_META = Inr tv"
    and "files (fmt_u64 tv @ str ''.'' @ str TARGETS_META) = Some tg" "target_digest l tg TRUSTED_ROOT_TARGET = Inr digest"
    and "files (str ''targets/'' @ digest @ str ''.'' @ str TRUSTED_ROOT_TARGET) = Some tr"
    and "sum_list (map length (roots @ [ts, sn, tg, tr])) \<le> MAX_WALK_BYTES"
  shows "fetch_metadata l w from_root =
    Inr \<lparr>tm_roots = roots, tm_timestamp = ts, tm_snapshot = sn, tm_targets = tg, tm_trusted_root = tr\<rparr>"
proof -
  have "saturating_add (unat from_root) ROOT_CEILING - unat from_root = ROOT_CEILING" using assms(4) by (simp add: saturating_add_def)
  moreover obtain b where "fetch_roots w ROOT_CEILING from_root budget_new = Inr (roots, b)" "b_spent b = sum_list (map length roots)"
    using serves_roots [OF assms(1,5,6,3), of budget_new] assms(14) by (auto simp: budget_new_def)
  ultimately show ?thesis
    using assms(2,7-14) serves_fetch [OF assms(1)] by (simp add: fetch_metadata_def)
qed

definition demo_files :: "rstr \<Rightarrow> bytes option" where
  "demo_files path =
     (if path = str ''1.root.json'' then Some [1]
      else if path = str ''2.root.json'' then Some [2]
      else if path = str ''timestamp.json'' then Some [3]
      else if path = str ''8.snapshot.json'' then Some [4]
      else if path = str ''9.targets.json'' then Some [5]
      else if starts_with (str ''targets/'') path then Some [6]
      else None)"

definition demo_world :: walk_world where
  "demo_world = \<lparr>w_elapsed = (\<lambda>_. 0), w_get = (\<lambda>_ path. Inr (demo_files path))\<rparr>"

lemma demo_hex_digest: "utf8_len (demo_hex bs) = 2 * length bs" "list_all is_hexdigit (demo_hex bs)"
proof -
  have h: "length (demo_hex bs) = 2 * length bs" "c \<in> set (demo_hex bs) \<Longrightarrow> is_lower_hex c" for c
    using demo_crates_ok by (auto simp: crates_ok_def demo_crates_def list_all_iff)
  have "\<forall>c \<in> set s. is_lower_hex c \<Longrightarrow> utf8_len s = length s" for s
    by (induction s) (auto simp: utf8_width_def is_lower_hex_def)
  then show "utf8_len (demo_hex bs) = 2 * length bs" using h by simp
  show "list_all is_hexdigit (demo_hex bs)" using h(2) by (auto simp: list_all_iff is_lower_hex_def is_hexdigit_def)
qed

lemma demo_root_paths:
  "root_path 1 = str ''1.root.json''" "root_path 2 = str ''2.root.json''" "root_path 3 = str ''3.root.json''"
  by (simp_all add: root_path_def fmt_u64_def fmt_nat.simps digit_char_def str_def)

lemma demo_links_named:
  "meta_version demo_tuf_libs [3] SNAPSHOT_META = Inr 8" "meta_version demo_tuf_libs [4] TARGETS_META = Inr 9"
  by (simp_all add: meta_version_def demo_tuf_libs_def demo_tuf_slice_def tuf_file_def tuf_obj_def json_at_def json_get_def str_def
      SNAPSHOT_META_def TARGETS_META_def)

lemma demo_digest_named:
  "\<exists>digest. target_digest demo_tuf_libs [5] TRUSTED_ROOT_TARGET = Inr digest"
proof -
  have "length (demo_sha [6]) = 32" using demo_crates_ok by (simp add: crates_ok_def demo_crates_def)
  then show ?thesis using demo_hex_digest [of "demo_sha [6]"]
    by (simp add: target_digest_def demo_tuf_libs_def demo_tuf_slice_def tuf_file_def tuf_obj_def json_at_def json_get_def str_def
        TRUSTED_ROOT_TARGET_def)
qed

lemma demo_served:
  "serves demo_world demo_files" "demo_files (str ''timestamp.json'') = Some [3]"
  "demo_files (fmt_u64 8 @ str ''.'' @ str SNAPSHOT_META) = Some [4]" "demo_files (fmt_u64 9 @ str ''.'' @ str TARGETS_META) = Some [5]"
  "demo_files (str ''targets/'' @ digest @ str ''.'' @ str TRUSTED_ROOT_TARGET) = Some [6]"
  "i < length [[1 :: u8], [2]] \<Longrightarrow> demo_files (root_path (1 + of_nat i)) = Some ([[1], [2]] ! i)"
  "demo_files (root_path (1 + of_nat (length [[1 :: u8], [2]]))) = None"
proof -
  show "i < length [[1 :: u8], [2]] \<Longrightarrow> demo_files (root_path (1 + of_nat i)) = Some ([[1], [2]] ! i)"
    by (cases i) (simp_all add: demo_root_paths demo_files_def str_def)
qed (simp_all add: serves_def demo_world_def demo_root_paths demo_files_def str_def fmt_u64_def fmt_nat.simps digit_char_def
    SNAPSHOT_META_def TARGETS_META_def starts_with_def)

theorem fetch_collects_witness:
  "fetch_metadata demo_tuf_libs demo_world 1 =
   Inr \<lparr>tm_roots = [[1], [2]], tm_timestamp = [3], tm_snapshot = [4], tm_targets = [5], tm_trusted_root = [6]\<rparr>"
proof -
  obtain digest where d: "target_digest demo_tuf_libs [5] TRUSTED_ROOT_TARGET = Inr digest" using demo_digest_named by blast
  show ?thesis
    by (rule fetch_collects [OF demo_served(1) _ _ _ demo_served(6,7,2) demo_links_named(1) demo_served(3) demo_links_named(2)
          demo_served(4) d demo_served(5)])
      (simp_all add: ROOT_CEILING_def MAX_WALK_BYTES_def)
qed

lemma demo_fetch: "fetch_metadata demo_tuf_libs demo_world 1 = Inr demo_tuf_metadata"
proof -
  obtain digest where d: "target_digest demo_tuf_libs [5] TRUSTED_ROOT_TARGET = Inr digest" using demo_digest_named by blast
  have "saturating_add (unat (1 :: u64)) ROOT_CEILING - unat (1 :: u64) = ROOT_CEILING" by (simp add: saturating_add_def ROOT_CEILING_def)
  moreover obtain b where "fetch_roots demo_world ROOT_CEILING 1 budget_new = Inr ([[1], [2]], b)" "b_spent b = 2"
    using serves_roots [OF demo_served(1,6,7), of ROOT_CEILING budget_new] by (auto simp: ROOT_CEILING_def MAX_WALK_BYTES_def budget_new_def)
  ultimately show ?thesis
    using d demo_links_named demo_served serves_fetch [OF demo_served(1)]
    by (simp add: fetch_metadata_def MAX_WALK_BYTES_def demo_tuf_metadata_def)
qed

theorem fetch_bounded_witness:
  "fetch_metadata demo_tuf_libs demo_world 1 = Inr demo_tuf_metadata \<and> 0 < length (tm_roots demo_tuf_metadata) \<and>
   length (tm_roots demo_tuf_metadata) \<le> ROOT_CEILING"
proof -
  have "agree demo_world demo_world (ROOT_CEILING + 4)" by (simp add: agree_def)
  from fetch_bounded [OF this demo_fetch] show ?thesis by simp
qed

end
