(* ===== verification/Tuf_Refresh.thy ===== *)
theory Tuf_Refresh
  imports Tuf_Fetch
begin

text \<open>
  The pins a resolver runs on and their refresh (\<^verbatim>\<open>synch-net/src/dns.rs\<close>): when a walk is due, from which
  state it is checked, and what is adopted. \<open>refresh_tuf\<close> is cut at its awaits: \<open>refresh_begin\<close> under the lock, the
  walk, \<open>refresh_current\<close>, which picks the further of the state in memory and the state saved, \<open>update\<close>, and
  \<open>refresh_commit\<close>. The clock, what is saved and whether it can be written are arguments; a saved state is the
  text of the configuration row or of the file.
\<close>

section \<open>The clock\<close>

definition REFRESH_INTERVAL :: u64 where "REFRESH_INTERVAL = 24 * 60 * 60"
definition MAX_CLOCK_FLOOR_LEAD :: u64 where "MAX_CLOCK_FLOOR_LEAD = 24 * 60 * 60"
definition PIN_REFRESH_STALE_AFTER :: u64 where "PIN_REFRESH_STALE_AFTER = 7 * REFRESH_INTERVAL"

definition sat_add :: "u64 \<Rightarrow> u64 \<Rightarrow> u64" where
  "sat_add a b = (if unat a + unat b < 2 ^ 64 then a + b else - 1)"

definition now_unix :: "u64 option \<Rightarrow> u64 \<Rightarrow> u64 option" where
  "now_unix clock floor_at =
     (case clock of None \<Rightarrow> None
      | Some now \<Rightarrow> if floor_at > sat_add now MAX_CLOCK_FLOOR_LEAD then Some now else Some (max now floor_at))"

definition refresh_due :: "u64 \<Rightarrow> u64 \<Rightarrow> bool" where
  "refresh_due checked_at now \<longleftrightarrow> checked_at > now \<or> now \<ge> sat_add checked_at REFRESH_INTERVAL"

section \<open>Pins\<close>

record pin_slot =
  sl_keys :: log_keys
  sl_state :: pin_state
  sl_anchor :: bytes
  sl_checked_at :: u64

datatype pins = Static log_keys | Refreshable pin_slot

definition pins_log_keys :: "pins \<Rightarrow> log_keys" where
  "pins_log_keys p = (case p of Static keys \<Rightarrow> keys | Refreshable s \<Rightarrow> sl_keys s)"

definition versions :: "pin_state \<Rightarrow> u64 list" where
  "versions st = [ps_root_version st, ps_timestamp_version st, ps_snapshot_version st, ps_targets_version st]"

definition dominates :: "pin_state \<Rightarrow> pin_state \<Rightarrow> bool" where
  "dominates a b \<longleftrightarrow> list_all (\<lambda>(a, b). a \<ge> b) (zip (versions a) (versions b))"

definition load_pin_state :: "crates \<Rightarrow> tuf_libs \<Rightarrow> rstr option \<Rightarrow> bytes \<Rightarrow> pin_state option" where
  "load_pin_state x l saved anchor = Option.bind saved (\<lambda>text. decode_anchored x l text anchor)"

text \<open>The pins at the start: a key file makes them static; otherwise a saved state, from the row or else the file, or else
  the anchor. \<open>embedded\<close> are the keys that are compiled in.\<close>

definition pins_new :: "crates \<Rightarrow> tuf_libs \<Rightarrow> log_keys \<Rightarrow> log_keys option \<Rightarrow> bytes \<Rightarrow> rstr option \<Rightarrow> rstr option \<Rightarrow> pins" where
  "pins_new x l embedded key_file anchor row file =
     (case key_file of
        Some keys \<Rightarrow> Static keys
      | None \<Rightarrow>
          let st = (case load_pin_state x l row anchor of Some st \<Rightarrow> st
                | None \<Rightarrow> (case load_pin_state x l file anchor of Some st \<Rightarrow> st | None \<Rightarrow> anchored x l anchor))
          in Refreshable \<lparr>sl_keys = (case state_log_keys x l st of Some keys \<Rightarrow> keys | None \<Rightarrow> embedded),
               sl_state = st, sl_anchor = anchor, sl_checked_at = ps_updated_at st\<rparr>)"

definition pin_refresh_overdue :: "u64 option \<Rightarrow> pins \<Rightarrow> bool" where
  "pin_refresh_overdue clock p =
     (case p of Static _ \<Rightarrow> False
      | Refreshable s \<Rightarrow>
          let updated_at = ps_updated_at (sl_state s) in
          case now_unix clock updated_at of None \<Rightarrow> False | Some now \<Rightarrow> now > sat_add updated_at PIN_REFRESH_STALE_AFTER)"

section \<open>A refresh\<close>

text \<open>Whether a walk is due, and then its time and the root version to start from.\<close>

definition refresh_begin :: "bool \<Rightarrow> u64 option \<Rightarrow> pins \<Rightarrow> (tuf_error + (u64 \<times> u64) option) \<times> pins" where
  "refresh_begin has_source clock p =
     (if \<not> has_source then (Inr None, p)
      else
        (case p of
           Static _ \<Rightarrow> (Inr None, p)
         | Refreshable s \<Rightarrow>
             (case now_unix clock (ps_updated_at (sl_state s)) of
                None \<Rightarrow> (Inl TufExpiry, p)
              | Some now \<Rightarrow>
                  if \<not> refresh_due (sl_checked_at s) now then (Inr None, p)
                  else (Inr (Some (now, ps_root_version (sl_state s))), Refreshable (s\<lparr>sl_checked_at := now\<rparr>)))))"

definition refresh_current :: "crates \<Rightarrow> tuf_libs \<Rightarrow> pin_slot \<Rightarrow> rstr option \<Rightarrow> pin_state" where
  "refresh_current x l s saved =
     (case load_pin_state x l saved (sl_anchor s) of
        Some stored \<Rightarrow> if dominates stored (sl_state s) then stored else sl_state s
      | None \<Rightarrow> sl_state s)"

definition refresh_commit :: "tuf_libs \<Rightarrow> bool \<Rightarrow> tuf_update \<Rightarrow> pins \<times> rstr option \<Rightarrow> pins \<times> rstr option" where
  "refresh_commit l writable u = (\<lambda>(p, saved).
     (case p of Static _ \<Rightarrow> p | Refreshable s \<Rightarrow> Refreshable (s\<lparr>sl_keys := tu_log_keys u, sl_state := tu_state u\<rparr>),
      if writable then Some (encode_state l (tu_state u)) else saved))"

definition refresh_tuf ::
  "crates \<Rightarrow> verifiers \<Rightarrow> tuf_libs \<Rightarrow> walk_world \<Rightarrow> bool \<Rightarrow> u64 option \<Rightarrow> bool \<Rightarrow> pins \<times> rstr option \<Rightarrow>
     (tuf_error + tuf_update option) \<times> pins \<times> rstr option" where
  "refresh_tuf x g l w has_source clock writable c =
     (let (p, saved) = c; (r, p) = refresh_begin has_source clock p in
      case r of
        Inl e \<Rightarrow> (Inl e, p, saved)
      | Inr None \<Rightarrow> (Inr None, p, saved)
      | Inr (Some (now, from_root)) \<Rightarrow>
          (case fetch_metadata l w from_root of
             Inl e \<Rightarrow> (Inl e, p, saved)
           | Inr metadata \<Rightarrow>
               (case p of
                  Static _ \<Rightarrow> (Inr None, p, saved)
                | Refreshable s \<Rightarrow>
                    (case update x g l metadata (refresh_current x l s saved) now of
                       Inl e \<Rightarrow> (Inl e, p, saved)
                     | Inr u \<Rightarrow> (Inr (Some u), refresh_commit l writable u (p, saved))))))"

section \<open>No step back\<close>

lemma dominates_iff:
  "dominates a b \<longleftrightarrow> ps_root_version b \<le> ps_root_version a \<and> ps_timestamp_version b \<le> ps_timestamp_version a \<and>
     ps_snapshot_version b \<le> ps_snapshot_version a \<and> ps_targets_version b \<le> ps_targets_version a"
  by (simp add: dominates_def versions_def)

lemma dominates_refl: "dominates a a"
  by (simp add: dominates_iff)

lemma dominates_trans: "dominates a b \<Longrightarrow> dominates b c \<Longrightarrow> dominates a c"
  unfolding dominates_iff by (elim conjE, intro conjI) (erule (1) order.trans)+

lemma update_dominates: "update x g l md st now = Inr u \<Longrightarrow> dominates (tu_state u) st"
  by (erule update_parts) (simp add: dominates_iff)

lemma current_dominates: "dominates (refresh_current x l s saved) (sl_state s)"
  by (auto simp: refresh_current_def dominates_refl split: option.splits)

text \<open>C14. TUF trouble is never worse than not having asked: whatever the repository serves, the clock says and the saved
  text holds, a refresh leaves the state in force at least as far along in every role; a
  refresh that adopts nothing changes neither pins nor saved state; and one that adopts an update runs on the
  keys of exactly the trusted root it accepted, checked from the further of memory and saved state.\<close>
theorem refresh_never_behind:
  assumes "refresh_tuf x g l w has_source clock writable (Refreshable s, saved) = (r, p', saved')"
  shows "\<exists>s'. p' = Refreshable s' \<and> dominates (sl_state s') (sl_state s) \<and> sl_anchor s' = sl_anchor s \<and>
    (case r of
       Inr (Some u) \<Rightarrow> sl_state s' = tu_state u \<and> tlog_keys x l (ps_trusted_root (tu_state u)) = Inr (sl_keys s') \<and>
         (\<exists>md now. update x g l md (refresh_current x l s saved) now = Inr u)
     | _ \<Rightarrow> sl_state s' = sl_state s \<and> sl_keys s' = sl_keys s \<and> saved' = saved)"
proof -
  have "\<exists>q t. refresh_begin has_source clock (Refreshable s) = (q, Refreshable t) \<and> sl_state t = sl_state s \<and>
      sl_keys t = sl_keys s \<and> sl_anchor t = sl_anchor s"
    by (simp add: refresh_begin_def split: option.split)
  then obtain q t where t: "refresh_begin has_source clock (Refreshable s) = (q, Refreshable t)" "sl_state t = sl_state s"
    "sl_keys t = sl_keys s" "sl_anchor t = sl_anchor s" by blast
  note run = assms [unfolded refresh_tuf_def Let_def prod.case t(1)]
  show ?thesis
  proof (cases r)
    case (Inl e)
    then show ?thesis using run t
      by (auto simp: dominates_refl split: prod.splits sum.splits option.splits)
  next
    case (Inr v)
    show ?thesis
    proof (cases v)
      case None
      then show ?thesis using run t Inr
        by (auto simp: dominates_refl split: prod.splits sum.splits option.splits)
    next
      case (Some u)
      then obtain now md where u: "update x g l md (refresh_current x l t saved) now = Inr u"
        "(p', saved') = refresh_commit l writable u (Refreshable t, saved)"
        using run Inr by (auto split: prod.splits sum.splits option.splits)
      have c: "refresh_current x l t saved = refresh_current x l s saved" unfolding refresh_current_def t(2,4) ..
      have "tlog_keys x l (ps_trusted_root (tu_state u)) = Inr (tu_log_keys u)" by (rule update_parts [OF u(1)]) simp
      then show ?thesis
        using u t Inr Some c update_dominates [OF u(1)] current_dominates [of x l s saved]
        by (auto simp: refresh_commit_def intro: dominates_trans)
    qed
  qed
qed

text \<open>The floor of the clock and the stamp of the last walk are read from a file: neither can be used to
  move the clock of the expiry checks, or to put off a walk, by more than a day.\<close>

lemma sat_add_unat: "unat (sat_add a b) = min (2 ^ 64 - 1) (unat a + unat b)"
proof -
  have "unat (- 1 :: u64) = 2 ^ 64 - 1" by (simp add: unsigned_minus_1_eq_mask mask_eq_exp_minus_1)
  then show ?thesis by (auto simp: sat_add_def unat_word_ariths min_def)
qed

lemma now_unix_bounds:
  assumes "now_unix (Some clock) floor_at = Some now"
  shows "unat clock \<le> unat now" "unat now \<le> unat clock + 24 * 60 * 60"
  using assms sat_add_unat [of clock MAX_CLOCK_FLOOR_LEAD]
  by (auto simp: now_unix_def max_def word_le_nat_alt word_less_nat_alt MAX_CLOCK_FLOOR_LEAD_def split: if_splits)

lemma not_due_bounds: "\<not> refresh_due checked_at now \<Longrightarrow> unat checked_at \<le> unat now \<and> unat now < unat checked_at + 24 * 60 * 60"
  using sat_add_unat [of checked_at REFRESH_INTERVAL]
  by (auto simp: refresh_due_def word_le_nat_alt word_less_nat_alt REFRESH_INTERVAL_def)

section \<open>A refresh that adopts, and two that race\<close>

definition demo_slot :: pin_slot where
  "demo_slot = \<lparr>sl_keys = [], sl_state = anchored demo_crates demo_tuf_libs [1], sl_anchor = [1], sl_checked_at = 0\<rparr>"

definition demo_adopted :: "bytes \<Rightarrow> u64 \<Rightarrow> tuf_update" where
  "demo_adopted tsb tsv = \<lparr>tu_state = demo_tuf_state\<lparr>ps_timestamp_version := tsv, ps_updated_at := 100000\<rparr>,
     tu_log_keys = demo_tuf_keys, tu_changed = True\<rparr>"

lemma demo_refresh_update:
  "(tsb, tsv) \<in> {([3], 7), ([7], 6)} \<Longrightarrow>
   update demo_crates demo_tuf_verifiers demo_tuf_libs (demo_tuf_metadata\<lparr>tm_timestamp := tsb\<rparr>)
     (refresh_current demo_crates demo_tuf_libs demo_slot None) 100000 = Inr (demo_adopted tsb tsv)"
  by (simp add: demo_update demo_adopted_def refresh_current_def demo_slot_def load_pin_state_def)

lemma demo_refresh:
  "refresh_tuf demo_crates demo_tuf_verifiers demo_tuf_libs demo_world True (Some 100000) True (Refreshable demo_slot, None) =
   (Inr (Some (demo_adopted [3] 7)), Refreshable (demo_slot\<lparr>sl_checked_at := 100000, sl_keys := demo_tuf_keys,
      sl_state := tu_state (demo_adopted [3] 7)\<rparr>), Some (encode_state demo_tuf_libs (tu_state (demo_adopted [3] 7))))"
proof -
  have a: "ps_updated_at (sl_state demo_slot) = 0" "ps_root_version (sl_state demo_slot) = 1" "sl_checked_at demo_slot = 0"
    by (simp_all add: demo_slot_def demo_anchored)
  have "now_unix (Some 100000) 0 = Some 100000" "refresh_due 0 100000"
    by (simp_all add: now_unix_def refresh_due_def sat_add_def REFRESH_INTERVAL_def max_def word_le_nat_alt word_less_nat_alt)
  then have b: "refresh_begin True (Some 100000) (Refreshable demo_slot) = (Inr (Some (100000, 1)), Refreshable (demo_slot\<lparr>sl_checked_at := 100000\<rparr>))"
    by (simp add: refresh_begin_def a)
  have "refresh_current demo_crates demo_tuf_libs (demo_slot\<lparr>sl_checked_at := 100000\<rparr>) None = refresh_current demo_crates demo_tuf_libs demo_slot None"
    by (simp add: refresh_current_def load_pin_state_def demo_slot_def)
  moreover have "demo_tuf_metadata\<lparr>tm_timestamp := [3]\<rparr> = demo_tuf_metadata" by (simp add: demo_tuf_metadata_def)
  ultimately show ?thesis
    using demo_refresh_update [of "[3]" 7] by (simp add: refresh_tuf_def b demo_fetch refresh_commit_def demo_adopted_def)
qed

theorem refresh_never_behind_witness:
  "dominates (tu_state (demo_adopted [3] 7)) (sl_state demo_slot) \<and>
   tlog_keys demo_crates demo_tuf_libs (ps_trusted_root (tu_state (demo_adopted [3] 7))) = Inr demo_tuf_keys"
  using refresh_never_behind [OF demo_refresh] by auto

text \<open>Two refreshes that overlap, of one process whose clock went back or of two processes that share the saved state, both
  check their files from the state before; the one that commits last wins, whichever is older.\<close>

lemma overlapping_refreshes_roll_back:
  "\<exists>u u' md md'.
     update demo_crates demo_tuf_verifiers demo_tuf_libs md (refresh_current demo_crates demo_tuf_libs demo_slot None) 100000 = Inr u \<and>
     update demo_crates demo_tuf_verifiers demo_tuf_libs md' (refresh_current demo_crates demo_tuf_libs demo_slot None) 100000 = Inr u' \<and>
     (\<exists>s saved. refresh_commit demo_tuf_libs True u' (refresh_commit demo_tuf_libs True u (Refreshable demo_slot, None)) = (Refreshable s, saved) \<and>
        ps_timestamp_version (sl_state s) < ps_timestamp_version (tu_state u) \<and>
        saved = Some (encode_state demo_tuf_libs (sl_state s)))"
proof -
  have "ps_timestamp_version (tu_state (demo_adopted [7] 6)) < ps_timestamp_version (tu_state (demo_adopted [3] 7))"
    by (simp add: demo_adopted_def word_less_nat_alt)
  then show ?thesis
    using demo_refresh_update [of "[3]" 7] demo_refresh_update [of "[7]" 6] by (fastforce simp: refresh_commit_def)
qed

end
