(* ===== verification/Resolver.thy ===== *)
theory Resolver
  imports Proof_Memo Tuf_Refresh
begin

text \<open>
  From a domain to its members and its control plane (\<^verbatim>\<open>synch-net/src/dns.rs\<close>). The validating handle of the
  DNS library is an argument: for a name and a type it returns the records of an answer, each with the
  library's verdict on it. What the code adds to that verdict is modelled in full: which records of an answer
  count and who signed them, the one key that verifies the signature, the apex between the two names, and
  the transparency gate. A lookup that is gated reads its answers, clocks and repository from one
  \<open>dns_world\<close>; the state that outlives it is the record \<open>resolver\<close>.
\<close>

section \<open>Answers\<close>

record 'n live_rr = "'n rr" +
  rr_secure :: bool
  rr_ttl :: u32

definition MIN_TTL :: duration where "MIN_TTL = 60 * secs_ns"
definition MAX_TTL :: duration where "MAX_TTL = 24 * 60 * 60 * secs_ns"

definition clamp_ttl :: "duration \<Rightarrow> duration" where
  "clamp_ttl ttl = min MAX_TTL (max MIN_TTL ttl)"

definition covered_by_signed_data :: "'n dns \<Rightarrow> 'n live_rr \<Rightarrow> 'n \<Rightarrow> bool" where
  "covered_by_signed_data d r own \<longleftrightarrow> name_eq d (rr_name r) own \<and> rr_class_in r \<and> rr_secure r"

record 'n dnssec_txt =
  dt_records :: "rstr list"
  dt_ttl :: duration
  dt_signer :: 'n
  dt_key_tag :: nat
  dt_rrsig :: "'n rrsig"
  dt_txt_rrset :: "'n live_rr list"
  dt_expires_at :: nat

definition signed_txt :: "'n dns \<Rightarrow> 'n \<Rightarrow> 'n live_rr \<Rightarrow> 'n rrsig option" where
  "signed_txt d qname r =
     (if \<not> covered_by_signed_data d r qname then None
      else case rr_data r of RRrsig sig \<Rightarrow> (if s_type_covered sig = TyTXT then Some sig else None) | _ \<Rightarrow> None)"

fun collect_txt ::
  "'n dns \<Rightarrow> 'n \<Rightarrow> 'n live_rr list \<Rightarrow> rstr list \<Rightarrow> 'n live_rr list \<Rightarrow> duration \<Rightarrow>
     net_error + rstr list \<times> 'n live_rr list \<times> duration"
where
  "collect_txt d qname [] records rrset ttl = Inr (records, rrset, ttl)"
| "collect_txt d qname (r # rs) records rrset ttl =
     (if \<not> name_eq d (rr_name r) qname then collect_txt d qname rs records rrset ttl
      else if \<not> rr_class_in r then collect_txt d qname rs records rrset ttl
      else case rr_data r of
          RTxt chunks \<Rightarrow>
            if \<not> rr_secure r then Inl NetDns
            else collect_txt d qname rs (records @ [concat (map from_utf8_lossy chunks)]) (rrset @ [r])
                   (min ttl (unat (rr_ttl r) * secs_ns))
        | _ \<Rightarrow> collect_txt d qname rs records rrset ttl)"

definition secure_txt :: "'n dns \<Rightarrow> rstr \<Rightarrow> 'n live_rr list \<Rightarrow> u64 option \<Rightarrow> net_error + 'n dnssec_txt" where
  "secure_txt d name answers now =
     result_bind (ok_or NetDns (from_utf8_name d name)) (\<lambda>qname.
     let qname = set_fqdn d qname in
     case List.map_filter (signed_txt d qname) answers of
       [] \<Rightarrow> Inl NetDns
     | sig # _ \<Rightarrow>
         let signer = lowercase d (s_signer sig) in
         if \<not> zone_of d signer qname then Inl NetDns
         else result_bind (collect_txt d qname answers [] [] MAX_TTL) (\<lambda>(records, rrset, ttl).
           if records = [] then Inl NetDns
           else
             let expires_at = unat (s_expiration sig);
                 ttl = (case now of
                     None \<Rightarrow> clamp_ttl ttl
                   | Some now \<Rightarrow> clamp_ttl (min ttl ((expires_at - unat now) * secs_ns)))
             in Inr \<lparr>dt_records = records, dt_ttl = ttl, dt_signer = signer, dt_key_tag = s_key_tag sig, dt_rrsig = sig,
                  dt_txt_rrset = rrset, dt_expires_at = expires_at\<rparr>))"

section \<open>The key that signed\<close>

definition encloses_dnskeys :: "'n dns \<Rightarrow> 'n \<Rightarrow> 'n live_rr \<Rightarrow> bool" where
  "encloses_dnskeys d zone r \<longleftrightarrow>
     covered_by_signed_data d r zone \<and>
     (case rr_data r of RRrsig sig \<Rightarrow> s_type_covered sig = TyDNSKEY \<and> zone_of d (lowercase d (s_signer sig)) zone | _ \<Rightarrow> False)"

definition is_txt :: "('n, 'z) rr_scheme \<Rightarrow> bool" where
  "is_txt r = (case rr_data r of RTxt _ \<Rightarrow> True | _ \<Rightarrow> False)"

fun match_keys ::
  "'n dns \<Rightarrow> 'n \<Rightarrow> 'n rrsig \<Rightarrow> 'n \<Rightarrow> 'n live_rr list \<Rightarrow> bytes option \<Rightarrow> 'n live_rr list \<Rightarrow> net_error + bytes option"
where
  "match_keys d zone sig own rrset matched [] = Inr matched"
| "match_keys d zone sig own rrset matched (r # rs) =
     (if \<not> covered_by_signed_data d r zone then match_keys d zone sig own rrset matched rs
      else case rr_data r of
          RDnskey k \<Rightarrow>
            if calculate_key_tag d k \<noteq> Some (s_key_tag sig) then match_keys d zone sig own rrset matched rs
            else if \<not> verify_rrsig d k own sig (map rr.truncate rrset) then match_keys d zone sig own rrset matched rs
            else (case matched of
                Some existing \<Rightarrow>
                  if existing \<noteq> dnskey_rdata k then Inl NetDns else match_keys d zone sig own rrset matched rs
              | None \<Rightarrow> match_keys d zone sig own rrset (Some (dnskey_rdata k)) rs)
        | _ \<Rightarrow> match_keys d zone sig own rrset matched rs)"

definition signing_key_rdata ::
  "'n dns \<Rightarrow> 'n \<Rightarrow> 'n rrsig \<Rightarrow> 'n live_rr list \<Rightarrow> 'n live_rr list \<Rightarrow> net_error + bytes"
where
  "signing_key_rdata d zone sig txt_rrset dnskey_answers =
     (if \<not> list_ex (encloses_dnskeys d zone) dnskey_answers then Inl NetDns
      else result_bind (ok_or NetDns (find is_txt txt_rrset)) (\<lambda>first.
        result_bind (match_keys d zone sig (rr_name first) txt_rrset None dnskey_answers) (\<lambda>matched.
        ok_or NetDns matched)))"

section \<open>The apex\<close>

fun named_apex :: "'n dns \<Rightarrow> 'n \<Rightarrow> 'n \<Rightarrow> 'n option \<Rightarrow> rstr list \<Rightarrow> net_error + 'n option" where
  "named_apex d own zone named [] = Inr named"
| "named_apex d own zone named (s # ss) =
     (case from_utf8_name d s of
        None \<Rightarrow> named_apex d own zone named ss
      | Some n \<Rightarrow>
          let apex = lowercase d (set_fqdn d n) in
          if \<not> zone_of d apex own \<or> \<not> zone_of d zone apex then named_apex d own zone named ss
          else (case named of
              Some first \<Rightarrow> if \<not> name_eq d first apex then Inl NetDns else named_apex d own zone (Some apex) ss
            | None \<Rightarrow> named_apex d own zone (Some apex) ss))"

definition apexes_of :: "origin_lib \<Rightarrow> rstr list \<Rightarrow> rstr list" where
  "apexes_of v records = List.map_filter (\<lambda>r. case parse_record v r of Inr m \<Rightarrow> mr_apex m | Inl _ \<Rightarrow> None) records"

definition apex_of :: "origin_lib \<Rightarrow> 'n dns \<Rightarrow> rstr \<Rightarrow> 'n \<Rightarrow> rstr list \<Rightarrow> net_error + 'n" where
  "apex_of v d domain zone records =
     result_bind (ok_or NetDns (from_utf8_name d domain)) (\<lambda>own.
     let own = lowercase d (set_fqdn d own) in
     result_bind (named_apex d own zone None (apexes_of v records)) (\<lambda>named. ok_or NetDns named))"

section \<open>Lookups\<close>

record 'n resolver_libs = "'n gate_libs" +
  rl_origin :: origin_lib
  rl_tuf :: tuf_libs

text \<open>What one gated lookup sees: the validated answers, the clock when an answer to a name is judged and when
  the pins are refreshed, the repository, and whether the pin state can be saved.\<close>

record 'n dns_world =
  dw_answer :: "'n \<Rightarrow> rtype \<Rightarrow> 'n live_rr list option"
  dw_clock :: "rstr \<Rightarrow> u64 option"
  dw_refresh_clock :: "u64 option"
  dw_repository :: walk_world
  dw_writable :: bool

datatype rekor_policy = Require | Off

record resolver =
  rs_policy :: rekor_policy
  rs_has_source :: bool
  rs_pins :: pins
  rs_saved :: "rstr option"
  rs_memo :: proof_memo

definition rekor_policy_of :: "rekor_policy option \<Rightarrow> rekor_policy" where
  "rekor_policy_of chosen = (case chosen of None \<Rightarrow> Require | Some p \<Rightarrow> p)"

definition dns_lookup :: "'n dns \<Rightarrow> 'n dns_world \<Rightarrow> rstr \<Rightarrow> rtype \<Rightarrow> net_error + 'n live_rr list" where
  "dns_lookup d w name ty =
     result_bind (ok_or NetDns (from_utf8_name d name)) (\<lambda>qname. ok_or NetDns (dw_answer w (set_fqdn d qname) ty))"

definition validated_txt :: "'n dns \<Rightarrow> 'n dns_world \<Rightarrow> rstr \<Rightarrow> 'n live_rr list \<Rightarrow> net_error + 'n dnssec_txt" where
  "validated_txt d w name answers = secure_txt d name answers (now_unix (dw_clock w name) 0)"

definition lookup_txt_ungated :: "('n, 'z) resolver_libs_scheme \<Rightarrow> 'n dns_world \<Rightarrow> rstr \<Rightarrow> net_error + 'n dnssec_txt" where
  "lookup_txt_ungated l w domain =
     result_bind (ok_or NetDns (normalize_domain (rl_origin l) domain)) (\<lambda>domain.
     let name = query_name domain in
     result_bind (dns_lookup (gl_dns l) w name TyTXT) (\<lambda>answers. validated_txt (gl_dns l) w name answers))"

definition zone_dnskey :: "'n dns \<Rightarrow> 'n dns_world \<Rightarrow> 'n \<Rightarrow> 'n rrsig \<Rightarrow> 'n live_rr list \<Rightarrow> net_error + bytes" where
  "zone_dnskey d w zone sig rrset =
     result_bind (dns_lookup d w (name_string d zone) TyDNSKEY) (\<lambda>answers. signing_key_rdata d zone sig rrset answers)"

definition part_records :: "'n dns \<Rightarrow> 'n dns_world \<Rightarrow> rstr \<Rightarrow> nat \<Rightarrow> rstr list" where
  "part_records d w apex index =
     (let part = rekor_part_query_name apex index in
      case dns_lookup d w part TyTXT of
        Inl _ \<Rightarrow> []
      | Inr answers \<Rightarrow> (case validated_txt d w part answers of Inl _ \<Rightarrow> [] | Inr t \<Rightarrow> dt_records t))"

text \<open>The records of a zone's proof: part 1 at the base name, and the later parts it claims there are.\<close>

definition proof_records :: "'n dns \<Rightarrow> 'n dns_world \<Rightarrow> rstr \<Rightarrow> net_error + rstr list" where
  "proof_records d w apex =
     (let name = rekor_query_name apex in
      result_bind (dns_lookup d w name TyTXT) (\<lambda>answers.
      result_bind (case validated_txt d w name answers of
          Inr t \<Rightarrow> Inr (dt_records t)
        | Inl e \<Rightarrow> if e = NetDns \<and> answers = [] then Inl RekorAbsent else Inl e) (\<lambda>records.
      Inr (records @ concat (map (part_records d w apex) [2..<Suc (parts_claimed records)])))))"

definition verify_zone_key ::
  "('n, 'z) resolver_libs_scheme \<Rightarrow> 'n dns_world \<Rightarrow> log_keys \<Rightarrow> rstr \<Rightarrow> 'n \<Rightarrow> 'n dnssec_txt \<Rightarrow> proof_memo \<Rightarrow>
     (net_error + verified_record) \<times> proof_memo"
where
  "verify_zone_key l w pins domain apex membership m =
     (let d = gl_dns l; zone = dt_signer membership in
      case zone_dnskey d w zone (dt_rrsig membership) (dt_txt_rrset membership) of
        Inl e \<Rightarrow> (Inl e, m)
      | Inr rdata \<Rightarrow>
          (case proof_records d w (trim_end (\<lambda>c. c = 46) (name_string d apex)) of
             Inl e \<Rightarrow> (Inl e, m)
           | Inr records \<Rightarrow>
               verify_proof_records l pins records
                 \<lparr>zk_domain = domain, zk_signing_zone = name_string d zone, zk_key_tag = s_key_tag (dt_rrsig membership),
                  zk_rdata = rdata\<rparr> m))"

section \<open>The gate\<close>

datatype 'n gate_apex = FromRecords | Under 'n

definition gate_apex_of :: "('n, 'z) resolver_libs_scheme \<Rightarrow> rstr \<Rightarrow> 'n gate_apex \<Rightarrow> 'n dnssec_txt \<Rightarrow> net_error + 'n" where
  "gate_apex_of l domain apex t =
     (case apex of
        FromRecords \<Rightarrow> apex_of (rl_origin l) (gl_dns l) domain (dt_signer t) (dt_records t)
      | Under apex \<Rightarrow> Inr apex)"

definition gated_txt ::
  "('n, 'z) resolver_libs_scheme \<Rightarrow> 'n dns_world \<Rightarrow> rstr \<Rightarrow> rstr \<Rightarrow> 'n gate_apex \<Rightarrow> resolver \<Rightarrow>
     (net_error + 'n dnssec_txt) \<times> resolver"
where
  "gated_txt l w domain name apex r =
     (case result_bind (dns_lookup (gl_dns l) w name TyTXT) (validated_txt (gl_dns l) w name) of
        Inl e \<Rightarrow> (Inl e, r)
      | Inr t \<Rightarrow>
          if rs_policy r \<noteq> Require then (Inr t, r)
          else (case gate_apex_of l domain apex t of
              Inl e \<Rightarrow> (Inl e, r)
            | Inr apex \<Rightarrow>
                let (_, pins, saved) = refresh_tuf (gl_crates l) (gl_verifiers l) (rl_tuf l) (dw_repository w)
                      (rs_has_source r) (dw_refresh_clock w) (dw_writable w) (rs_pins r, rs_saved r);
                    (checked, m) = verify_zone_key l w (pins_log_keys pins) domain apex t (rs_memo r);
                    r = r\<lparr>rs_pins := pins, rs_saved := saved, rs_memo := m\<rparr>
                in (case checked of Inl e \<Rightarrow> (Inl e, r) | Inr _ \<Rightarrow> (Inr t, r))))"

definition resolve_members ::
  "('n, 'z) resolver_libs_scheme \<Rightarrow> 'n dns_world \<Rightarrow> rstr \<Rightarrow> resolver \<Rightarrow> (net_error + member_set \<times> duration) \<times> resolver"
where
  "resolve_members l w domain r =
     (case normalize_domain (rl_origin l) domain of
        None \<Rightarrow> (Inl NetDns, r)
      | Some domain \<Rightarrow>
          (case gated_txt l w domain (query_name domain) FromRecords r of
             (Inl e, r) \<Rightarrow> (Inl e, r)
           | (Inr t, r) \<Rightarrow> (result_bind (from_records (rl_origin l) domain (dt_records t)) (\<lambda>ms. Inr (ms, dt_ttl t)), r)))"

definition MAX_CP_ENDPOINTS :: nat where "MAX_CP_ENDPOINTS = 8"

definition endpoints_of :: "rstr list \<Rightarrow> rstr list" where
  "endpoints_of records =
     fold (\<lambda>r es. case parse_control_plane_record r of Inr e \<Rightarrow> if e \<in> set es then es else es @ [e] | Inl _ \<Rightarrow> es) records []"

definition control_plane ::
  "('n, 'z) resolver_libs_scheme \<Rightarrow> 'n dns_world \<Rightarrow> 'n dns_world \<Rightarrow> rstr \<Rightarrow> resolver \<Rightarrow>
     (net_error + rstr list \<times> duration) \<times> resolver"
where
  "control_plane l w w' domain r =
     (case normalize_domain (rl_origin l) domain of
        None \<Rightarrow> (Inl NetDns, r)
      | Some domain \<Rightarrow>
          (case gated_txt l w domain (query_name domain) FromRecords r of
             (Inl e, r) \<Rightarrow> (Inl e, r)
           | (Inr membership, r) \<Rightarrow>
               (case apex_of (rl_origin l) (gl_dns l) domain (dt_signer membership) (dt_records membership) of
                  Inl e \<Rightarrow> (Inl e, r)
                | Inr apex \<Rightarrow>
                    (case gated_txt l w' domain
                        (control_plane_query_name (trim_end (\<lambda>c. c = 46) (name_string (gl_dns l) apex))) (Under apex) r of
                       (Inl e, r) \<Rightarrow> (Inl e, r)
                     | (Inr validated, r) \<Rightarrow>
                         let endpoints = endpoints_of (dt_records validated) in
                         (if endpoints = [] then Inl NetDns
                          else Inr (take MAX_CP_ENDPOINTS (sort endpoints), min (dt_ttl validated) (dt_ttl membership)), r)))))"

section \<open>Transport\<close>

text \<open>A response of an endpoint: the status, the announced length, and the chunks of its body as far as they arrive.\<close>

record doh_response =
  dr_success :: bool
  dr_content_length :: "nat option"
  dr_chunks :: "(unit + bytes) list"

definition MAX_DOH_RESPONSE :: nat where "MAX_DOH_RESPONSE = 64 * 1024"

fun read_chunks :: "bytes \<Rightarrow> (unit + bytes) list \<Rightarrow> unit + bytes" where
  "read_chunks bs [] = Inr bs"
| "read_chunks bs (Inl e # cs) = Inl e"
| "read_chunks bs (Inr c # cs) = (if length bs + length c > MAX_DOH_RESPONSE then Inl () else read_chunks (bs @ c) cs)"

definition exchange_with :: "doh_response option \<Rightarrow> unit + bytes" where
  "exchange_with response =
     (case response of None \<Rightarrow> Inl ()
      | Some r \<Rightarrow>
          if \<not> dr_success r then Inl ()
          else if (case dr_content_length r of None \<Rightarrow> False | Some n \<Rightarrow> n > MAX_DOH_RESPONSE) then Inl ()
          else read_chunks [] (dr_chunks r))"

fun try_endpoints :: "(nat \<Rightarrow> doh_response option) \<Rightarrow> nat list \<Rightarrow> (nat \<times> bytes) option" where
  "try_endpoints send [] = None"
| "try_endpoints send (i # idx) =
     (case exchange_with (send i) of Inr bs \<Rightarrow> Some (i, bs) | Inl _ \<Rightarrow> try_endpoints send idx)"

definition exchange :: "(nat \<Rightarrow> doh_response option) \<Rightarrow> nat \<Rightarrow> nat \<Rightarrow> (unit + bytes) \<times> nat" where
  "exchange send n preferred =
     (let first = preferred mod n in
      case try_endpoints send (map (\<lambda>offset. (first + offset) mod n) [0..<n]) of
        Some (i, bs) \<Rightarrow> (Inr bs, i)
      | None \<Rightarrow> (Inl (), preferred))"

definition rrsig_signer_encloses_owner :: "'n dns \<Rightarrow> ('n, 'z) rr_scheme \<Rightarrow> bool" where
  "rrsig_signer_encloses_owner d r =
     (case rr_data r of RRrsig sig \<Rightarrow> zone_of d (lowercase d (s_signer sig)) (rr_name r) | _ \<Rightarrow> True)"

definition drop_off_path_rrsigs :: "'n dns \<Rightarrow> ('n, 'z) rr_scheme list \<Rightarrow> ('n, 'z) rr_scheme list" where
  "drop_off_path_rrsigs d rs = filter (rrsig_signer_encloses_owner d) rs"

record 'n dns_response =
  dns_answers :: "'n rr list"
  dns_authorities :: "'n rr list"
  dns_additionals :: "'n rr list"

definition strip_off_path_rrsigs :: "'n dns \<Rightarrow> 'n dns_response \<Rightarrow> 'n dns_response" where
  "strip_off_path_rrsigs d r =
     \<lparr>dns_answers = drop_off_path_rrsigs d (dns_answers r), dns_authorities = drop_off_path_rrsigs d (dns_authorities r),
      dns_additionals = drop_off_path_rrsigs d (dns_additionals r)\<rparr>"

section \<open>Which records of an answer count\<close>

definition counts :: "'n dns \<Rightarrow> 'n \<Rightarrow> 'n live_rr \<Rightarrow> bool" where
  "counts d qname r \<longleftrightarrow> name_eq d (rr_name r) qname \<and> rr_class_in r \<and> is_txt r"

definition txt_of :: "'n live_rr \<Rightarrow> rstr" where
  "txt_of r = (case rr_data r of RTxt chunks \<Rightarrow> concat (map from_utf8_lossy chunks) | _ \<Rightarrow> [])"

abbreviation ttl_of :: "'n live_rr \<Rightarrow> duration" where
  "ttl_of r \<equiv> unat (rr_ttl r) * secs_ns"

lemma collect_txt_Cons:
  "collect_txt d q (r # rs) records rrset ttl =
     (if \<not> counts d q r then collect_txt d q rs records rrset ttl
      else if \<not> rr_secure r then Inl NetDns
      else collect_txt d q rs (records @ [txt_of r]) (rrset @ [r]) (min ttl (ttl_of r)))"
  by (cases "rr_data r") (simp_all add: counts_def is_txt_def txt_of_def)

lemma collect_txt_eq:
  "collect_txt d q answers records rrset ttl =
     (if \<exists>r \<in> set answers. counts d q r \<and> \<not> rr_secure r then Inl NetDns
      else Inr (records @ map txt_of (filter (counts d q) answers), rrset @ filter (counts d q) answers,
        fold (\<lambda>r t. min t (ttl_of r)) (filter (counts d q) answers) ttl))"
proof (induction answers arbitrary: records rrset ttl)
  case (Cons r rs)
  show ?case unfolding collect_txt_Cons Cons.IH by simp
qed simp

lemma fold_min_le: "fold (\<lambda>r t. min t (f r)) rs t \<le> (t :: nat)"
proof (induction rs arbitrary: t)
  case (Cons a rs)
  from Cons [of "min t (f a)"] show ?case by simp
qed simp

lemma fold_min_le_elem: "r \<in> set rs \<Longrightarrow> fold (\<lambda>r t. min t (f r)) rs t \<le> (f r :: nat)"
proof (induction rs arbitrary: t)
  case (Cons a rs)
  then show ?case using fold_min_le [of f rs "min t (f a)"] by (cases "r = a") auto
qed simp

lemma clamp_ttl_bounds: "MIN_TTL \<le> clamp_ttl t" "clamp_ttl t \<le> MAX_TTL" "t \<le> u \<Longrightarrow> clamp_ttl t \<le> max MIN_TTL u"
  by (auto simp: clamp_ttl_def MIN_TTL_def MAX_TTL_def)

lemma map_filter_Cons: "List.map_filter f xs = y # ys \<Longrightarrow> \<exists>x \<in> set xs. f x = Some y"
  by (induction xs) (auto simp: List.map_filter_simps split: option.splits)

text \<open>What an accepted answer is, spelled out.\<close>

lemma secure_txt_cases:
  assumes "secure_txt d name answers now = Inr a"
  obtains n q where "from_utf8_name d name = Some n" "q = set_fqdn d n"
    "\<exists>r \<in> set answers. covered_by_signed_data d r q \<and> rr_data r = RRrsig (dt_rrsig a)"
    "s_type_covered (dt_rrsig a) = TyTXT" "dt_signer a = lowercase d (s_signer (dt_rrsig a))" "zone_of d (dt_signer a) q"
    "dt_txt_rrset a = filter (counts d q) answers" "dt_records a = map txt_of (dt_txt_rrset a)" "dt_records a \<noteq> []"
    "\<forall>r \<in> set (dt_txt_rrset a). rr_secure r" "dt_key_tag a = s_key_tag (dt_rrsig a)"
    "dt_expires_at a = unat (s_expiration (dt_rrsig a))"
    "dt_ttl a = (let ttl = fold (\<lambda>r t. min t (ttl_of r)) (dt_txt_rrset a) MAX_TTL in
       case now of None \<Rightarrow> clamp_ttl ttl | Some now \<Rightarrow> clamp_ttl (min ttl ((dt_expires_at a - unat now) * secs_ns)))"
proof -
  obtain n where n: "from_utf8_name d name = Some n" using assms by (auto simp: secure_txt_def)
  define q where "q = set_fqdn d n"
  obtain sig sigs where s: "List.map_filter (signed_txt d q) answers = sig # sigs"
    using assms by (auto simp: secure_txt_def n q_def [symmetric] split: list.splits)
  have z: "zone_of d (lowercase d (s_signer sig)) q" and
    ok: "\<not> (\<exists>r \<in> set answers. counts d q r \<and> \<not> rr_secure r)"
    using assms by (auto simp: secure_txt_def n q_def [symmetric] s collect_txt_eq Let_def split: if_splits)
  have a: "a = \<lparr>dt_records = map txt_of (filter (counts d q) answers),
      dt_ttl = (let ttl = fold (\<lambda>r t. min t (ttl_of r)) (filter (counts d q) answers) MAX_TTL in
        case now of None \<Rightarrow> clamp_ttl ttl | Some now \<Rightarrow> clamp_ttl (min ttl ((unat (s_expiration sig) - unat now) * secs_ns))),
      dt_signer = lowercase d (s_signer sig), dt_key_tag = s_key_tag sig, dt_rrsig = sig,
      dt_txt_rrset = filter (counts d q) answers, dt_expires_at = unat (s_expiration sig)\<rparr>"
    and ne: "map txt_of (filter (counts d q) answers) \<noteq> []"
    using assms ok z by (auto simp: secure_txt_def n q_def [symmetric] s collect_txt_eq Let_def split: if_splits)
  obtain r where r: "r \<in> set answers" "signed_txt d q r = Some sig" using map_filter_Cons [OF s] by blast
  have "covered_by_signed_data d r q" "rr_data r = RRrsig sig" "s_type_covered sig = TyTXT"
    using r(2) by (auto simp: signed_txt_def split: if_splits rdata.splits)
  moreover have "dt_ttl a = (let ttl = fold (\<lambda>r t. min t (ttl_of r)) (dt_txt_rrset a) MAX_TTL in
       case now of None \<Rightarrow> clamp_ttl ttl | Some now \<Rightarrow> clamp_ttl (min ttl ((dt_expires_at a - unat now) * secs_ns)))"
    by (simp add: a Let_def split: option.split)
  ultimately show ?thesis
    by (intro that [OF n q_def]) (use r(1) z ok ne in \<open>auto simp: a\<close>)
qed

text \<open>C16. An accepted answer is signed by a zone that holds the name: a secure RRSIG of class IN at that very name names it,
  the answer consists of all the TXT records of class IN at the name and of nothing else, each of
  them validated, and it may be believed for a minute to a day, and past that minute never longer than
  a record's own TTL or the signature allows.\<close>
theorem secure_txt_sound:
  assumes "secure_txt d name answers now = Inr a"
  shows "\<exists>n. from_utf8_name d name = Some n \<and> zone_of d (dt_signer a) (set_fqdn d n) \<and>
    dt_signer a = lowercase d (s_signer (dt_rrsig a)) \<and> s_type_covered (dt_rrsig a) = TyTXT \<and>
    (\<exists>r \<in> set answers. covered_by_signed_data d r (set_fqdn d n) \<and> rr_data r = RRrsig (dt_rrsig a)) \<and>
    dt_txt_rrset a = filter (counts d (set_fqdn d n)) answers \<and> dt_txt_rrset a \<noteq> [] \<and> dt_records a = map txt_of (dt_txt_rrset a) \<and>
    (\<forall>r \<in> set (dt_txt_rrset a). covered_by_signed_data d r (set_fqdn d n) \<and> dt_ttl a \<le> max MIN_TTL (ttl_of r)) \<and>
    MIN_TTL \<le> dt_ttl a \<and> dt_ttl a \<le> MAX_TTL \<and>
    (\<forall>t. now = Some t \<longrightarrow> dt_ttl a \<le> max MIN_TTL ((unat (s_expiration (dt_rrsig a)) - unat t) * secs_ns))"
  using assms
proof (rule secure_txt_cases)
  fix n q
  assume c: "from_utf8_name d name = Some n" "q = set_fqdn d n"
    "\<exists>r \<in> set answers. covered_by_signed_data d r q \<and> rr_data r = RRrsig (dt_rrsig a)"
    "s_type_covered (dt_rrsig a) = TyTXT" "dt_signer a = lowercase d (s_signer (dt_rrsig a))" "zone_of d (dt_signer a) q"
    "dt_txt_rrset a = filter (counts d q) answers" "dt_records a = map txt_of (dt_txt_rrset a)" "dt_records a \<noteq> []"
    "\<forall>r \<in> set (dt_txt_rrset a). rr_secure r" "dt_expires_at a = unat (s_expiration (dt_rrsig a))"
    "dt_ttl a = (let ttl = fold (\<lambda>r t. min t (ttl_of r)) (dt_txt_rrset a) MAX_TTL in
       case now of None \<Rightarrow> clamp_ttl ttl | Some now \<Rightarrow> clamp_ttl (min ttl ((dt_expires_at a - unat now) * secs_ns)))"
  let ?f = "fold (\<lambda>r t. min t (ttl_of r)) (dt_txt_rrset a) MAX_TTL"
  obtain t where t: "dt_ttl a = clamp_ttl t" "t \<le> ?f"
    using c(12) by (cases now) (auto simp: Let_def)
  have "dt_ttl a \<le> max MIN_TTL (ttl_of r)" if "r \<in> set (dt_txt_rrset a)" for r
  proof -
    have "t \<le> ttl_of r" using t(2) fold_min_le_elem [OF that, of ttl_of MAX_TTL] by (rule order_trans)
    then show ?thesis unfolding t(1) by (rule clamp_ttl_bounds)
  qed
  moreover have "covered_by_signed_data d r q" if "r \<in> set (dt_txt_rrset a)" for r
    using that c(7,10) by (auto simp: covered_by_signed_data_def counts_def)
  moreover have "dt_ttl a \<le> max MIN_TTL ((unat (s_expiration (dt_rrsig a)) - unat u) * secs_ns)" if "now = Some u" for u
  proof -
    have "dt_ttl a = clamp_ttl (min ?f ((dt_expires_at a - unat u) * secs_ns))" using c(12) that by (simp add: Let_def)
    then show ?thesis unfolding c(11) by (simp only: clamp_ttl_bounds min.cobounded2)
  qed
  ultimately show ?thesis using c t(1) clamp_ttl_bounds(1,2) [of t] by (intro exI [of _ n]) auto
qed

text \<open>Records that are spliced into an answer, of other names, classes and types, change nothing.\<close>

lemma secure_txt_splice:
  assumes "from_utf8_name d name = Some n" "\<And>r. counts d (set_fqdn d n) r \<or> signed_txt d (set_fqdn d n) r \<noteq> None \<Longrightarrow> keep r"
  shows "secure_txt d name (filter keep answers) now = secure_txt d name answers now"
proof -
  have "List.map_filter (signed_txt d (set_fqdn d n)) (filter keep answers) = List.map_filter (signed_txt d (set_fqdn d n)) answers"
    using assms(2) by (induction answers) (auto simp: List.map_filter_simps split: option.split)
  moreover have "filter (counts d (set_fqdn d n)) (filter keep answers) = filter (counts d (set_fqdn d n)) answers"
    using assms(2) by (induction answers) auto
  moreover have "(\<exists>r \<in> set (filter keep answers). counts d (set_fqdn d n) r \<and> \<not> rr_secure r) \<longleftrightarrow>
      (\<exists>r \<in> set answers. counts d (set_fqdn d n) r \<and> \<not> rr_secure r)" using assms(2) by auto
  ultimately show ?thesis by (simp only: secure_txt_def assms(1) ok_or_simps result_bind.simps Let_def collect_txt_eq)
qed

section \<open>One key, one apex\<close>

text \<open>A key that is validated at the zone and verifies the signature over the records.\<close>

definition signs :: "'n dns \<Rightarrow> 'n \<Rightarrow> 'n rrsig \<Rightarrow> 'n \<Rightarrow> 'n live_rr list \<Rightarrow> 'n live_rr \<Rightarrow> dnskey \<Rightarrow> bool" where
  "signs d zone sig own rrset r k \<longleftrightarrow> covered_by_signed_data d r zone \<and> rr_data r = RDnskey k \<and>
     calculate_key_tag d k = Some (s_key_tag sig) \<and> verify_rrsig d k own sig (map rr.truncate rrset)"

definition live_rdata :: "'n live_rr \<Rightarrow> bytes" where
  "live_rdata r = (case rr_data r of RDnskey k \<Rightarrow> dnskey_rdata k | _ \<Rightarrow> [])"

lemma match_keys_Cons:
  "match_keys d zone sig own rrset matched (r # rs) =
     (if \<exists>k. signs d zone sig own rrset r k then
        (case matched of
           Some existing \<Rightarrow> if existing \<noteq> live_rdata r then Inl NetDns else match_keys d zone sig own rrset matched rs
         | None \<Rightarrow> match_keys d zone sig own rrset (Some (live_rdata r)) rs)
      else match_keys d zone sig own rrset matched rs)"
  by (cases "rr_data r") (auto simp: signs_def live_rdata_def split: option.splits)

lemma match_keys_Inr:
  "match_keys d zone sig own rrset matched rs = Inr m \<Longrightarrow>
     (\<forall>r \<in> set rs. \<forall>k. signs d zone sig own rrset r k \<longrightarrow> m = Some (live_rdata r)) \<and> (\<forall>x. matched = Some x \<longrightarrow> m = Some x) \<and>
     (m = matched \<or> (\<exists>r \<in> set rs. \<exists>k. signs d zone sig own rrset r k \<and> m = Some (live_rdata r)))"
proof (induction rs arbitrary: matched)
  case (Cons r rs)
  show ?case
  proof (cases "\<exists>k. signs d zone sig own rrset r k")
    case True
    then have "match_keys d zone sig own rrset (Some (live_rdata r)) rs = Inr m" "matched = None \<or> matched = Some (live_rdata r)"
      using Cons.prems by (auto simp: match_keys_Cons simp del: match_keys.simps split: option.splits if_splits)
    then show ?thesis using Cons.IH [of "Some (live_rdata r)"] True unfolding list.set(2) by blast
  next
    case False
    then have "match_keys d zone sig own rrset matched rs = Inr m"
      using Cons.prems by (simp add: match_keys_Cons del: match_keys.simps)
    then show ?thesis using Cons.IH [of matched] False unfolding list.set(2) by blast
  qed
qed simp

text \<open>C17. The key that is held to the log is the key that signed: it is validated at the signing zone, which an enclosing zone's
  signature over its key set vouches for, it has the tag of the signature and verifies it over the records of
  the answer, and no other validated key of the zone does.\<close>
theorem signing_key_unique:
  assumes "signing_key_rdata d zone sig rrset answers = Inr rdata"
  shows "\<exists>first. find is_txt rrset = Some first \<and> list_ex (encloses_dnskeys d zone) answers \<and>
    (\<exists>r \<in> set answers. \<exists>k. signs d zone sig (rr_name first) rrset r k \<and> rdata = dnskey_rdata k) \<and>
    (\<forall>r \<in> set answers. \<forall>k. signs d zone sig (rr_name first) rrset r k \<longrightarrow> dnskey_rdata k = rdata)"
proof -
  obtain first where f: "find is_txt rrset = Some first" "list_ex (encloses_dnskeys d zone) answers"
    and m: "match_keys d zone sig (rr_name first) rrset None answers = Inr (Some rdata)"
    using assms by (auto simp: signing_key_rdata_def split: if_splits)
  have r: "signs d zone sig (rr_name first) rrset r k \<Longrightarrow> live_rdata r = dnskey_rdata k" for r k
    by (simp add: signs_def live_rdata_def)
  note m = match_keys_Inr [OF m]
  have "dnskey_rdata k = rdata" if "r \<in> set answers" "signs d zone sig (rr_name first) rrset r k" for r k
    using m that r [OF that(2)] by (metis option.inject)
  moreover have "\<exists>r \<in> set answers. \<exists>k. signs d zone sig (rr_name first) rrset r k" using m by blast
  ultimately show ?thesis using f by (intro exI [of _ first]) blast
qed

definition usable_apex :: "'n dns \<Rightarrow> 'n \<Rightarrow> 'n \<Rightarrow> rstr \<Rightarrow> 'n option" where
  "usable_apex d own zone s =
     (case from_utf8_name d s of None \<Rightarrow> None
      | Some n \<Rightarrow> let apex = lowercase d (set_fqdn d n) in if zone_of d apex own \<and> zone_of d zone apex then Some apex else None)"

lemma named_apex_Cons:
  "named_apex d own zone named (s # ss) =
     (case usable_apex d own zone s of
        None \<Rightarrow> named_apex d own zone named ss
      | Some apex \<Rightarrow> (case named of
            Some first \<Rightarrow> if \<not> name_eq d first apex then Inl NetDns else named_apex d own zone (Some apex) ss
          | None \<Rightarrow> named_apex d own zone (Some apex) ss))"
  by (simp add: usable_apex_def Let_def split: option.split)

lemma named_apex_Inr:
  assumes "equivp (name_eq d)"
  shows "named_apex d own zone named ss = Inr (Some apex) \<Longrightarrow>
    (\<forall>x. named = Some x \<longrightarrow> name_eq d x apex) \<and> (\<forall>s \<in> set ss. \<forall>x. usable_apex d own zone s = Some x \<longrightarrow> name_eq d x apex) \<and>
    (named = Some apex \<or> (\<exists>s \<in> set ss. usable_apex d own zone s = Some apex))"
proof (induction ss arbitrary: named)
  case Nil
  then show ?case using equivp_reflp [OF assms] by simp
next
  case (Cons s ss)
  show ?case
  proof (cases "usable_apex d own zone s")
    case None
    then show ?thesis using Cons.prems Cons.IH [of named] by (auto simp: named_apex_Cons simp del: named_apex.simps)
  next
    case (Some x)
    then have n: "named_apex d own zone (Some x) ss = Inr (Some apex)" "\<forall>y. named = Some y \<longrightarrow> name_eq d y x"
      using Cons.prems by (auto simp: named_apex_Cons simp del: named_apex.simps split: option.splits if_splits)
    show ?thesis using Cons.IH [OF n(1)] n(2) Some equivp_transp [OF assms] by auto
  qed
qed

text \<open>The apex lies between the zone that signed and the domain, one of the records names it, and every record that names a
  usable apex names this one.\<close>

lemma apex_of_Inr:
  assumes "apex_of v d domain zone records = Inr apex" "equivp (name_eq d)"
  shows "\<exists>n. from_utf8_name d domain = Some n \<and> zone_of d apex (lowercase d (set_fqdn d n)) \<and> zone_of d zone apex \<and>
    (\<exists>s \<in> set (apexes_of v records). usable_apex d (lowercase d (set_fqdn d n)) zone s = Some apex) \<and>
    (\<forall>s \<in> set (apexes_of v records). \<forall>x. usable_apex d (lowercase d (set_fqdn d n)) zone s = Some x \<longrightarrow> name_eq d x apex)"
proof -
  obtain n where n: "from_utf8_name d domain = Some n"
    "named_apex d (lowercase d (set_fqdn d n)) zone None (apexes_of v records) = Inr (Some apex)"
    using assms(1) by (auto simp: apex_of_def Let_def)
  note a = named_apex_Inr [OF assms(2) n(2)]
  then obtain s where "usable_apex d (lowercase d (set_fqdn d n)) zone s = Some apex" by blast
  then have "zone_of d apex (lowercase d (set_fqdn d n)) \<and> zone_of d zone apex"
    by (auto simp: usable_apex_def Let_def split: option.splits if_splits)
  then show ?thesis using n(1) a by blast
qed

section \<open>What the gate lets through\<close>

lemma try_candidates_Inr: "try_candidates l key pins e cs = Inr v \<Longrightarrow> \<exists>c \<in> set cs. gate_verify l c key pins = Inr v"
  by (induction cs arbitrary: e) (auto split: sum.splits)

lemma read_candidates_set: "c \<in> set (fst (read_candidates rs)) \<longleftrightarrow> Inr c \<in> set rs"
  by (induction rs) (auto simp: Let_def split: prod.splits sum.splits)

lemma check_records_Inr:
  assumes "check_records l pins records key = Inr v"
  shows "\<exists>c. Inr c \<in> set (proofs_from_txt (gl_crates l) records) \<and> gate_verify l c key pins = Inr v"
proof -
  let ?rs = "proofs_from_txt (gl_crates l) records"
  have "try_candidates l key pins None (candidates_to_verify (fst (read_candidates ?rs))) = Inr v"
    using assms by (simp add: check_records_def case_prod_beta Let_def split: if_splits)
  then obtain c where "c \<in> set (candidates_to_verify (fst (read_candidates ?rs)))" "gate_verify l c key pins = Inr v"
    using try_candidates_Inr by blast
  moreover from this(1) have "c \<in> set (fst (read_candidates ?rs))" unfolding candidates_to_verify_def by (rule in_set_takeD)
  ultimately show ?thesis unfolding read_candidates_set by blast
qed

text \<open>What Rust's types say of the values the libraries return: strings are made of scalar values, nothing is as long as an
  address is wide, and a key tag has sixteen bits.\<close>

definition str_fits :: "rstr \<Rightarrow> bool" where
  "str_fits s \<longleftrightarrow> valid_str s \<and> utf8_len s < 2 ^ 64"

definition rr_typed :: "'n dns \<Rightarrow> 'n live_rr \<Rightarrow> bool" where
  "rr_typed d r =
     (case rr_data r of
        RTxt chunks \<Rightarrow> utf8_len (concat (map from_utf8_lossy chunks)) < 2 ^ 64
      | RDnskey k \<Rightarrow> length (k_public k) < 2 ^ 63
      | RRrsig sig \<Rightarrow> s_key_tag sig < 2 ^ 16 \<and> str_fits (name_string d (lowercase d (s_signer sig)))
      | _ \<Rightarrow> True)"

definition world_typed :: "'n dns \<Rightarrow> 'n dns_world \<Rightarrow> bool" where
  "world_typed d w \<longleftrightarrow> (\<forall>q ty answers. dw_answer w q ty = Some answers \<longrightarrow> list_all (rr_typed d) answers)"

lemma utf8_step_scalar: "utf8_step bs = Some (c, n) \<Longrightarrow> scalar c"
  by (auto simp: utf8_step_def scalar_def Let_def is_cont_def split: list.splits if_splits)

lemma utf8_lossy_valid: "valid_str (utf8_lossy bs)"
proof (induction bs rule: utf8_lossy.induct)
  case (1 bs)
  then show ?case
    by (subst utf8_lossy.simps) (auto simp: scalar_def dest: utf8_step_scalar split: option.split)
qed

lemma txt_of_fits: "rr_typed d r \<Longrightarrow> is_txt r \<Longrightarrow> str_fits (txt_of r)"
proof -
  have "valid_str (concat (map from_utf8_lossy chunks))" for chunks
    by (induction chunks) (simp_all add: from_utf8_lossy_def utf8_lossy_valid)
  then show "rr_typed d r \<Longrightarrow> is_txt r \<Longrightarrow> str_fits (txt_of r)"
    by (auto simp: rr_typed_def is_txt_def txt_of_def str_fits_def split: rdata.splits)
qed

lemma secure_txt_typed:
  assumes "secure_txt d name answers now = Inr a" "list_all (rr_typed d) answers"
  shows "list_all str_fits (dt_records a)" "s_key_tag (dt_rrsig a) < 2 ^ 16" "str_fits (name_string d (dt_signer a))"
proof -
  from assms(1) obtain q where c: "\<exists>r \<in> set answers. covered_by_signed_data d r q \<and> rr_data r = RRrsig (dt_rrsig a)"
    "dt_txt_rrset a = filter (counts d q) answers" "dt_records a = map txt_of (dt_txt_rrset a)"
    "dt_signer a = lowercase d (s_signer (dt_rrsig a))"
    by (rule secure_txt_cases) blast
  show "list_all str_fits (dt_records a)"
    using assms(2) txt_of_fits unfolding c(2,3) by (auto simp: list_all_iff counts_def)
  obtain r where "r \<in> set answers" "rr_data r = RRrsig (dt_rrsig a)" using c(1) by blast
  then show "s_key_tag (dt_rrsig a) < 2 ^ 16" "str_fits (name_string d (dt_signer a))"
    using assms(2) unfolding c(4) by (force simp: list_all_iff rr_typed_def)+
qed

lemma dns_lookup_typed: "world_typed d w \<Longrightarrow> dns_lookup d w name ty = Inr answers \<Longrightarrow> list_all (rr_typed d) answers"
  by (auto simp: dns_lookup_def world_typed_def)

lemma validated_typed:
  assumes "world_typed d w" "dns_lookup d w name TyTXT = Inr answers" "validated_txt d w name answers = Inr t"
  shows "list_all str_fits (dt_records t)" "s_key_tag (dt_rrsig t) < 2 ^ 16" "str_fits (name_string d (dt_signer t))"
  using secure_txt_typed [OF assms(3) [unfolded validated_txt_def] dns_lookup_typed [OF assms(1,2)]] .

lemma proof_records_typed:
  assumes "world_typed d w" "proof_records d w ap = Inr records"
  shows "list_all str_fits records"
proof -
  obtain answers t where t: "dns_lookup d w (rekor_query_name ap) TyTXT = Inr answers"
      "validated_txt d w (rekor_query_name ap) answers = Inr t"
      "records = dt_records t @ concat (map (part_records d w ap) [2..<Suc (parts_claimed (dt_records t))])"
  proof -
    obtain answers where a: "dns_lookup d w (rekor_query_name ap) TyTXT = Inr answers"
      using assms(2) by (auto simp: proof_records_def Let_def)
    then show ?thesis
      using assms(2) that by (cases "validated_txt d w (rekor_query_name ap) answers")
        (auto simp: proof_records_def Let_def split: if_splits simp del: upt_Suc)
  qed
  have "list_all str_fits (part_records d w ap i)" for i
    using validated_typed(1) [OF assms(1)] by (auto simp: part_records_def Let_def split: sum.split)
  then have "list_all str_fits (concat (map (part_records d w ap) idx))" for idx by (induction idx) auto
  then show ?thesis using validated_typed(1) [OF assms(1) t(1,2)] by (simp add: t(3) del: upt_Suc)
qed

lemma zone_dnskey_Inr:
  assumes "zone_dnskey d w zone sig rrset = Inr rdata"
  obtains answers where "dns_lookup d w (name_string d zone) TyDNSKEY = Inr answers" "signing_key_rdata d zone sig rrset answers = Inr rdata"
  using assms by (auto simp: zone_dnskey_def)

lemma signing_key_Inr:
  assumes "signing_key_rdata d zone sig rrset answers = Inr rdata"
  obtains first r k where "find is_txt rrset = Some first" "r \<in> set answers" "signs d zone sig (rr_name first) rrset r k" "rdata = dnskey_rdata k"
proof -
  obtain first where f: "find is_txt rrset = Some first"
    and m: "match_keys d zone sig (rr_name first) rrset None answers = Inr (Some rdata)"
    using assms by (auto simp: signing_key_rdata_def split: if_splits)
  then obtain r k where "r \<in> set answers" "signs d zone sig (rr_name first) rrset r k" "rdata = live_rdata r"
    using match_keys_Inr [OF m] by blast
  moreover from this(2) have "live_rdata r = dnskey_rdata k" by (simp add: signs_def live_rdata_def)
  ultimately show ?thesis using that [OF f] by simp
qed

lemma zone_dnskey_typed:
  assumes "world_typed d w" "zone_dnskey d w zone sig rrset = Inr rdata"
  shows "length rdata < 2 ^ 64"
proof -
  obtain answers where a: "dns_lookup d w (name_string d zone) TyDNSKEY = Inr answers"
      "signing_key_rdata d zone sig rrset answers = Inr rdata"
    using assms(2) by (rule zone_dnskey_Inr)
  obtain first r k where k: "find is_txt rrset = Some first" "r \<in> set answers" "signs d zone sig (rr_name first) rrset r k"
      "rdata = dnskey_rdata k"
    using a(2) by (rule signing_key_Inr)
  have "rr_typed d r" using dns_lookup_typed [OF assms(1) a(1)] k(2) by (simp add: list_all_iff)
  then show ?thesis using k(3,4) by (simp add: signs_def rr_typed_def dnskey_rdata_def)
qed

text \<open>What was hashed for the results in the memo cannot be matched by anything else.\<close>

definition no_second_preimage :: "(bytes \<Rightarrow> bytes) \<Rightarrow> bytes set \<Rightarrow> bool" where
  "no_second_preimage h seen \<longleftrightarrow> (\<forall>i \<in> seen. \<forall>j. h j = h i \<longrightarrow> j = i)"

lemma verify_proof_records_fresh:
  assumes "memo_run l seen m" "no_second_preimage (gl_blake3 l) seen" "memo_args key records"
    and "verify_proof_records l pins records key m = (Inr v, m')"
  shows "check_records l pins records key = Inr v"
proof (cases "map_of (pm_entries (use_pins pins m)) (proof_memo_key (gl_blake3 l) key records)")
  case None
  then show ?thesis using assms(4) by (simp add: verify_proof_records_def memo_get_def Let_def split: sum.splits)
next
  case (Some u)
  then have "u = v" using assms(4) by (simp add: verify_proof_records_def memo_get_def Let_def)
  have "memo_true l seen (use_pins pins m)" using memo_run_true [OF assms(1)] by (rule memo_true_use_pins)
  then obtain key' records' where k: "memo_args key' records'" "memo_input key' records' \<in> seen"
      "proof_memo_key (gl_blake3 l) key records = gl_blake3 l (memo_input key' records')" "check_records l pins records' key' = Inr v"
    using Some unfolding memo_true_def use_pins_simps \<open>u = v\<close> by blast
  then have "memo_input key records = memo_input key' records'"
    using assms(2) unfolding proof_memo_key_def no_second_preimage_def by blast
  then have "key = key'" "mset records = mset records'" using memo_input_inject [OF assms(3) k(1)] by blast+
  then show ?thesis using k(4) check_records_perm by metis
qed

lemma gate_memo_args:
  assumes "world_typed d w" "str_fits domain" "s_key_tag sig < 2 ^ 16" "str_fits (name_string d zone)"
    and "zone_dnskey d w zone sig rrset = Inr rdata" "proof_records d w ap = Inr records"
  shows "memo_args \<lparr>zk_domain = domain, zk_signing_zone = name_string d zone, zk_key_tag = s_key_tag sig, zk_rdata = rdata\<rparr> records"
  using assms(2-4) proof_records_typed [OF assms(1,6)] zone_dnskey_typed [OF assms(1,5)]
  by (simp add: memo_args_def str_fits_def list_all_iff)

lemma verify_zone_key_Inr:
  assumes "verify_zone_key l w pins domain apex t m = (Inr v, m')"
  shows "\<exists>rdata records. zone_dnskey (gl_dns l) w (dt_signer t) (dt_rrsig t) (dt_txt_rrset t) = Inr rdata \<and>
    proof_records (gl_dns l) w (trim_end (\<lambda>c. c = 46) (name_string (gl_dns l) apex)) = Inr records \<and>
    verify_proof_records l pins records \<lparr>zk_domain = domain, zk_signing_zone = name_string (gl_dns l) (dt_signer t),
       zk_key_tag = s_key_tag (dt_rrsig t), zk_rdata = rdata\<rparr> m = (Inr v, m')"
  using assms by (simp add: verify_zone_key_def Let_def split: sum.splits)

lemma gated_txt_Inr:
  assumes "gated_txt l w domain name ga r = (Inr t, r')"
  shows "\<exists>answers. dns_lookup (gl_dns l) w name TyTXT = Inr answers \<and> validated_txt (gl_dns l) w name answers = Inr t"
proof (cases "result_bind (dns_lookup (gl_dns l) w name TyTXT) (validated_txt (gl_dns l) w name)")
  case (Inl e)
  then show ?thesis using assms by (simp add: gated_txt_def)
next
  case (Inr u)
  then have "u = t" using assms by (auto simp: gated_txt_def Let_def split: if_splits sum.splits prod.splits)
  then show ?thesis using Inr by simp
qed

lemma gated_txt_policy: "gated_txt l w domain name ga r = (x, r') \<Longrightarrow> rs_policy r' = rs_policy r"
  by (auto simp: gated_txt_def Let_def split: sum.splits prod.splits if_splits)

lemma gated_txt_Require:
  assumes "gated_txt l w domain name ga r = (Inr t, r')" "rs_policy r = Require"
  shows "\<exists>apex v. gate_apex_of l domain ga t = Inr apex \<and>
    verify_zone_key l w (pins_log_keys (rs_pins r')) domain apex t (rs_memo r) = (Inr v, rs_memo r')"
proof -
  obtain answers where a: "dns_lookup (gl_dns l) w name TyTXT = Inr answers" "validated_txt (gl_dns l) w name answers = Inr t"
    using gated_txt_Inr [OF assms(1)] by blast
  obtain apex where apex: "gate_apex_of l domain ga t = Inr apex"
    using assms by (cases "gate_apex_of l domain ga t") (simp_all add: gated_txt_def a)
  obtain e pins saved where f: "refresh_tuf (gl_crates l) (gl_verifiers l) (rl_tuf l) (dw_repository w)
      (rs_has_source r) (dw_refresh_clock w) (dw_writable w) (rs_pins r, rs_saved r) = (e, pins, saved)" by (metis surj_pair)
  obtain c m where c: "verify_zone_key l w (pins_log_keys pins) domain apex t (rs_memo r) = (c, m)" by fastforce
  have "\<exists>v. c = Inr v \<and> r' = r\<lparr>rs_pins := pins, rs_saved := saved, rs_memo := m\<rparr>"
    using assms by (cases c) (auto simp: gated_txt_def a apex f c)
  then show ?thesis using apex c by auto
qed


lemma endpoints_of_set:
  "distinct (endpoints_of records) \<and> set (endpoints_of records) = {e. \<exists>r \<in> set records. parse_control_plane_record r = Inr e}"
proof (induction records rule: rev_induct)
  case (snoc r records)
  then show ?case by (auto simp: endpoints_of_def split: sum.splits)
qed (simp add: endpoints_of_def)

text \<open>C18. The endpoints a node attaches to come from an answer that passed the gate itself, under the apex that a gated membership answer
  named: they are the records of that answer that parse, sorted, without repetition, one to eight of them, and
  believed no longer than either answer.\<close>
theorem attach_gated:
  assumes "control_plane l w w' domain r = (Inr (es, ttl), r')" "rs_policy r = Require"
  shows "\<exists>base t apex r1 v1 t' v2. normalize_domain (rl_origin l) domain = Some base \<and>
    gated_txt l w base (query_name base) FromRecords r = (Inr t, r1) \<and>
    apex_of (rl_origin l) (gl_dns l) base (dt_signer t) (dt_records t) = Inr apex \<and>
    verify_zone_key l w (pins_log_keys (rs_pins r1)) base apex t (rs_memo r) = (Inr v1, rs_memo r1) \<and>
    gated_txt l w' base (control_plane_query_name (trim_end (\<lambda>c. c = 46) (name_string (gl_dns l) apex))) (Under apex) r1 = (Inr t', r') \<and>
    verify_zone_key l w' (pins_log_keys (rs_pins r')) base apex t' (rs_memo r1) = (Inr v2, rs_memo r') \<and>
    es \<noteq> [] \<and> length es \<le> 8 \<and> sorted es \<and> distinct es \<and>
    set es \<subseteq> {e. \<exists>x \<in> set (dt_records t'). parse_control_plane_record x = Inr e} \<and> ttl = min (dt_ttl t') (dt_ttl t)"
proof -
  obtain base where base: "normalize_domain (rl_origin l) domain = Some base"
    using assms(1) by (auto simp: control_plane_def split: option.splits)
  obtain x r1 where g: "gated_txt l w base (query_name base) FromRecords r = (x, r1)" by fastforce
  then obtain t where t: "x = Inr t" using assms(1) by (cases x) (simp_all add: control_plane_def base)
  obtain apex where apex: "apex_of (rl_origin l) (gl_dns l) base (dt_signer t) (dt_records t) = Inr apex"
    using assms(1) g t by (cases "apex_of (rl_origin l) (gl_dns l) base (dt_signer t) (dt_records t)") (simp_all add: control_plane_def base)
  let ?cp = "control_plane_query_name (trim_end (\<lambda>c. c = 46) (name_string (gl_dns l) apex))"
  obtain y r2 where g': "gated_txt l w' base ?cp (Under apex) r1 = (y, r2)" by fastforce
  then obtain t' where t': "y = Inr t'" using assms(1) g t apex by (cases y) (simp_all add: control_plane_def base)
  have es: "es = take 8 (sort (endpoints_of (dt_records t')))" "endpoints_of (dt_records t') \<noteq> []" "ttl = min (dt_ttl t') (dt_ttl t)" "r2 = r'"
    using assms(1) g t apex g' t' by (auto simp: control_plane_def base Let_def MAX_CP_ENDPOINTS_def split: if_splits)
  obtain v1 where v1: "verify_zone_key l w (pins_log_keys (rs_pins r1)) base apex t (rs_memo r) = (Inr v1, rs_memo r1)"
    using gated_txt_Require [OF g [unfolded t] assms(2)] apex by (auto simp: gate_apex_of_def)
  have "rs_policy r1 = Require" using gated_txt_policy [OF g] assms(2) by simp
  then obtain v2 where v2: "verify_zone_key l w' (pins_log_keys (rs_pins r')) base apex t' (rs_memo r1) = (Inr v2, rs_memo r')"
    using gated_txt_Require [OF g' [unfolded t' es(4)]] by (auto simp: gate_apex_of_def)
  have "es \<noteq> []" using es(2) unfolding es(1) by (metis length_0_conv length_sort take_eq_Nil zero_neq_numeral)
  moreover have "sorted es" "distinct es" "length es \<le> 8" using endpoints_of_set unfolding es(1) by (simp_all add: sorted_wrt_take)
  moreover have "set es \<subseteq> {e. \<exists>x \<in> set (dt_records t'). parse_control_plane_record x = Inr e}"
    using endpoints_of_set [of "dt_records t'"] set_take_subset [of 8 "sort (endpoints_of (dt_records t'))"] unfolding es(1) by simp
  ultimately show ?thesis using base g [unfolded t] apex v1 g' [unfolded t' es(4)] v2 es(3) by blast
qed

section \<open>Falling back\<close>

lemma read_chunks_Inr: "read_chunks bs cs = Inr out \<Longrightarrow> length bs \<le> MAX_DOH_RESPONSE \<Longrightarrow> length out \<le> MAX_DOH_RESPONSE"
  by (induction bs cs rule: read_chunks.induct) (auto split: if_splits)

lemma exchange_with_bounded: "exchange_with r = Inr bs \<Longrightarrow> length bs \<le> 65536"
  using read_chunks_Inr [of "[]"] by (auto simp: exchange_with_def MAX_DOH_RESPONSE_def split: option.splits if_splits)

text \<open>The first endpoint that answers is taken.\<close>

lemma try_endpoints_find:
  "try_endpoints send idx =
     map_option (\<lambda>i. (i, projr (exchange_with (send i)))) (find (\<lambda>i. is_ok (exchange_with (send i))) idx)"
  by (induction idx) (auto simp: is_ok_iff split: sum.split)

lemma try_endpoints_Some: "try_endpoints send idx = Some (i, bs) \<Longrightarrow> i \<in> set idx \<and> exchange_with (send i) = Inr bs"
  by (auto simp: try_endpoints_find is_ok_iff find_Some_iff)

lemma try_endpoints_None: "try_endpoints send idx = None \<longleftrightarrow> (\<forall>i \<in> set idx. \<not> is_ok (exchange_with (send i)))"
  by (induction idx) (auto simp: is_ok_iff split: sum.split)

text \<open>An exchange succeeds exactly when some endpoint answers, and the next exchange starts with the one that did.\<close>

lemma exchange_falls_back:
  assumes "0 < n"
  shows "(\<exists>bs. fst (exchange send n p) = Inr bs) \<longleftrightarrow> (\<exists>i < n. is_ok (exchange_with (send i)))"
    and "exchange send n p = (Inr bs, i) \<Longrightarrow> i < n \<and> exchange_with (send i) = Inr bs \<and> length bs \<le> 65536"
proof -
  let ?idx = "map (\<lambda>offset. (p mod n + offset) mod n) [0..<n]"
  have "set ?idx \<subseteq> {..<n}" using assms by auto
  moreover have "i \<in> set ?idx" if "i < n" for i
  proof -
    have "(p mod n + (i + (n - p mod n)) mod n) mod n = (p mod n + (i + (n - p mod n))) mod n" by (rule mod_add_right_eq)
    also have "p mod n + (i + (n - p mod n)) = i + n" using mod_less_divisor [OF assms, of p] by simp
    also have "(i + n) mod n = i" using that by simp
    finally show ?thesis using assms by (force intro: image_eqI [of _ _ "(i + (n - p mod n)) mod n"])
  qed
  ultimately have idx: "set ?idx = {..<n}" by auto
  show "(\<exists>bs. fst (exchange send n p) = Inr bs) \<longleftrightarrow> (\<exists>i < n. is_ok (exchange_with (send i)))"
  proof (cases "try_endpoints send ?idx")
    case None
    then have "\<not> is_ok (exchange_with (send i))" if "i < n" for i using that idx unfolding try_endpoints_None by blast
    then show ?thesis using None by (auto simp: exchange_def)
  next
    case (Some out)
    then have "is_ok (exchange_with (send (fst out)))" "fst out \<in> set ?idx"
      using try_endpoints_Some [of send ?idx "fst out" "snd out"] by (simp_all add: is_ok_iff)
    then show ?thesis using Some idx by (cases out) (auto simp: exchange_def)
  qed
  assume e: "exchange send n p = (Inr bs, i)"
  then have "try_endpoints send ?idx = Some (i, bs)" by (auto simp: exchange_def Let_def split: option.splits)
  then have "exchange_with (send i) = Inr bs" "i \<in> set ?idx" using try_endpoints_Some by blast+
  then show "i < n \<and> exchange_with (send i) = Inr bs \<and> length bs \<le> 65536" using idx exchange_with_bounded by auto
qed

lemma drop_off_path_enclosed:
  "r \<in> set (drop_off_path_rrsigs d rs) \<longleftrightarrow> r \<in> set rs \<and> (\<forall>sig. rr_data r = RRrsig sig \<longrightarrow> zone_of d (lowercase d (s_signer sig)) (rr_name r))"
  by (auto simp: drop_off_path_rrsigs_def rrsig_signer_encloses_owner_def split: rdata.splits)

section \<open>A domain that resolves\<close>

definition demo_libs :: "rstr resolver_libs" where
  "demo_libs = \<lparr>gl_crates = demo_rekor_crates, gl_verifiers = demo_verifiers, gl_dns = demo_dns, gl_json = demo_slices,
     gl_anchors = (\<lambda>k. k = demo_key), gl_blake3 = id, rl_origin = demo_origin_lib, rl_tuf = demo_tuf_libs\<rparr>"

definition demo_live :: "rstr \<Rightarrow> rstr rdata \<Rightarrow> rstr live_rr" where
  "demo_live name data = \<lparr>rr_name = name, rr_class_in = True, rr_data = data, rr_secure = True, rr_ttl = 300\<rparr>"

definition demo_signed :: "rstr \<Rightarrow> rtype \<Rightarrow> rstr rdata \<Rightarrow> rstr live_rr list" where
  "demo_signed name ty data = [demo_live name (RRrsig (demo_sig ty)), demo_live name data]"

definition demo_member_txt :: rstr where "demo_member_txt = str ''v=sync1 nk=K apex=z''"
definition demo_cp_txt :: rstr where "demo_cp_txt = str ''v=synccp1 url=https://c''"

definition demo_answer :: "rstr \<Rightarrow> rtype \<Rightarrow> rstr live_rr list option" where
  "demo_answer q ty =
     (if q = query_name demo_zone then Some (demo_signed q TyTXT (RTxt [as_bytes demo_member_txt]))
      else if q = rekor_query_name demo_zone then Some (demo_signed q TyTXT (RTxt [as_bytes demo_proof_txt]))
      else if q = control_plane_query_name demo_zone then Some (demo_signed q TyTXT (RTxt [as_bytes demo_cp_txt]))
      else if q = demo_zone then Some (demo_signed q TyDNSKEY (RDnskey demo_key))
      else None)"

definition demo_dns_world :: "rstr dns_world" where
  "demo_dns_world = \<lparr>dw_answer = demo_answer, dw_clock = (\<lambda>_. None), dw_refresh_clock = None, dw_repository = demo_world, dw_writable = False\<rparr>"

definition demo_resolver :: resolver where
  "demo_resolver = \<lparr>rs_policy = Require, rs_has_source = False, rs_pins = Static [demo_log], rs_saved = None, rs_memo = memo_default\<rparr>"

lemmas demo_names = query_name_def rekor_query_name_def control_plane_query_name_def TXT_PREFIX_def REKOR_TXT_PREFIX_def
  CP_TXT_PREFIX_def demo_zone_def str_def

lemma demo_answers:
  "dns_lookup demo_dns demo_dns_world (query_name demo_zone) TyTXT = Inr (demo_signed (query_name demo_zone) TyTXT (RTxt [as_bytes demo_member_txt]))"
  "dns_lookup demo_dns demo_dns_world (rekor_query_name demo_zone) TyTXT = Inr (demo_signed (rekor_query_name demo_zone) TyTXT (RTxt [as_bytes demo_proof_txt]))"
  "dns_lookup demo_dns demo_dns_world (control_plane_query_name demo_zone) TyTXT = Inr (demo_signed (control_plane_query_name demo_zone) TyTXT (RTxt [as_bytes demo_cp_txt]))"
  "dns_lookup demo_dns demo_dns_world demo_zone TyDNSKEY = Inr (demo_signed demo_zone TyDNSKEY (RDnskey demo_key))"
  by (simp_all add: dns_lookup_def demo_dns_def demo_dns_world_def demo_answer_def demo_names)

definition demo_txt :: "rstr \<Rightarrow> rstr \<Rightarrow> rstr dnssec_txt" where
  "demo_txt name s = \<lparr>dt_records = [s], dt_ttl = 300 * secs_ns, dt_signer = demo_zone, dt_key_tag = 7, dt_rrsig = demo_sig TyTXT,
     dt_txt_rrset = [demo_live name (RTxt [as_bytes s])], dt_expires_at = 0\<rparr>"

lemma demo_validated:
  assumes "valid_str s"
  shows "validated_txt demo_dns demo_dns_world (p @ demo_zone) (demo_signed (p @ demo_zone) TyTXT (RTxt [as_bytes s])) =
    Inr (demo_txt (p @ demo_zone) s)"
  using from_utf8_lossy_as_bytes [OF assms]
  by (simp add: validated_txt_def secure_txt_def demo_dns_def demo_dns_world_def now_unix_def demo_signed_def demo_live_def demo_sig_def
      signed_txt_def covered_by_signed_data_def List.map_filter_simps ends_with_iff clamp_ttl_def MIN_TTL_def MAX_TTL_def demo_txt_def Let_def)

lemma demo_texts: "valid_str demo_member_txt" "valid_str demo_proof_txt" "valid_str demo_cp_txt"
  using demo_memo_args by (simp_all add: memo_args_def demo_member_txt_def demo_cp_txt_def str_def scalar_def)

lemma demo_validated_names:
  "validated_txt demo_dns demo_dns_world (query_name demo_zone) (demo_signed (query_name demo_zone) TyTXT (RTxt [as_bytes demo_member_txt])) =
     Inr (demo_txt (query_name demo_zone) demo_member_txt)"
  "validated_txt demo_dns demo_dns_world (rekor_query_name demo_zone) (demo_signed (rekor_query_name demo_zone) TyTXT (RTxt [as_bytes demo_proof_txt])) =
     Inr (demo_txt (rekor_query_name demo_zone) demo_proof_txt)"
  "validated_txt demo_dns demo_dns_world (control_plane_query_name demo_zone) (demo_signed (control_plane_query_name demo_zone) TyTXT (RTxt [as_bytes demo_cp_txt])) =
     Inr (demo_txt (control_plane_query_name demo_zone) demo_cp_txt)"
  using demo_validated [OF demo_texts(1), of "TXT_PREFIX @ str ''.''"] demo_validated [OF demo_texts(2), of "REKOR_TXT_PREFIX @ str ''.''"]
    demo_validated [OF demo_texts(3), of "CP_TXT_PREFIX @ str ''.''"]
  by (simp_all add: query_name_def rekor_query_name_def control_plane_query_name_def)

lemma demo_member_parses:
  "parse_record demo_origin_lib demo_member_txt =
     Inr \<lparr>mr_id = None, mr_node_key = [75], mr_relay = None, mr_addr = None, mr_apex = Some demo_zone\<rparr>"
  by (simp add: parse_record_def demo_member_txt_def split_whitespace_def str_def is_whitespace_def RECORD_VERSION_TAG_def demo_origin_lib_def
      demo_zone_def ascii_lower_def)

lemma demo_apex: "apex_of demo_origin_lib demo_dns demo_zone demo_zone [demo_member_txt] = Inr demo_zone"
  by (simp add: apex_of_def apexes_of_def List.map_filter_simps demo_member_parses demo_dns_def ends_with_iff)

lemma demo_zone_key:
  "zone_dnskey demo_dns demo_dns_world demo_zone (demo_sig TyTXT) [demo_live name (RTxt chunks)] = Inr (dnskey_rdata demo_key)"
proof -
  have "name_string demo_dns demo_zone = demo_zone" by (simp add: demo_dns_def)
  moreover have "signing_key_rdata demo_dns demo_zone (demo_sig TyTXT) [demo_live name (RTxt chunks)]
      (demo_signed demo_zone TyDNSKEY (RDnskey demo_key)) = Inr (dnskey_rdata demo_key)"
    by (simp add: signing_key_rdata_def encloses_dnskeys_def covered_by_signed_data_def demo_signed_def demo_live_def demo_sig_def demo_dns_def
        is_txt_def ends_with_iff demo_key_def)
  ultimately show ?thesis by (simp add: zone_dnskey_def demo_answers)
qed

lemma demo_proof_records: "proof_records demo_dns demo_dns_world demo_zone = Inr [demo_proof_txt]"
proof -
  have "parse_chunk demo_proof_txt = Inr (demo_hex (take 4 (demo_sha (encode_unchecked demo_record))), 1, 1, demo_hex (encode_unchecked demo_record))"
    unfolding demo_proof_txt_def
  proof (rule parse_txt_record)
    show "list_all is_url64 (demo_hex (encode_unchecked demo_record))"
      using demo_hex_lower(1) [of "encode_unchecked demo_record"] by (auto simp: list_all_iff lower_hex_digit)
    show "demo_hex (encode_unchecked demo_record) \<noteq> []"
      using demo_hex_lower(2) [of "encode_unchecked demo_record"] demo_record_fits(3) by auto
  qed (simp_all add: demo_hex_lower demo_sha_def)
  then have "parts_claimed [demo_proof_txt] = 1" by (simp add: parts_claimed_def MAX_PROOF_PARTS_def)
  then show ?thesis by (simp add: proof_records_def demo_answers demo_validated_names demo_txt_def Let_def)
qed

lemma demo_libs_check: "check_records demo_libs [demo_log] [demo_proof_txt] demo_observed = Inr demo_verified"
  using demo_record_verifies
  by (simp add: check_records_def demo_libs_def demo_proofs candidates_to_verify_def MAX_PROOF_CANDIDATES_def gate_verify_def
      map_err_def demo_verified_def)

definition demo_memo :: proof_memo where
  "demo_memo = \<lparr>pm_pins = [demo_log], pm_entries = [(memo_input demo_observed [demo_proof_txt], demo_verified)],
     pm_order = [memo_input demo_observed [demo_proof_txt]]\<rparr>"

lemma demo_verify_records:
  "m \<in> {memo_default, demo_memo} \<Longrightarrow>
     verify_proof_records demo_libs [demo_log] [demo_proof_txt] demo_observed m = (Inr demo_verified, demo_memo)"
proof -
  have b: "gl_blake3 demo_libs = id" by (simp add: demo_libs_def)
  have 1: "verify_proof_records demo_libs [demo_log] [demo_proof_txt] demo_observed memo_default = (Inr demo_verified, demo_memo)"
    by (simp add: verify_proof_records_def memo_get_def memo_insert_def use_pins_def memo_default_def demo_libs_check b proof_memo_key_def Let_def
        MAX_PROOF_MEMOS_def demo_memo_def)
  have 2: "verify_proof_records demo_libs [demo_log] [demo_proof_txt] demo_observed demo_memo = (Inr demo_verified, demo_memo)"
    by (simp add: verify_proof_records_def memo_get_def use_pins_def b proof_memo_key_def Let_def demo_memo_def)
  show "m \<in> {memo_default, demo_memo} \<Longrightarrow>
      verify_proof_records demo_libs [demo_log] [demo_proof_txt] demo_observed m = (Inr demo_verified, demo_memo)" using 1 2 by auto
qed

lemma demo_verify_zone_key:
  assumes "m \<in> {memo_default, demo_memo}"
  shows "verify_zone_key demo_libs demo_dns_world [demo_log] demo_zone demo_zone (demo_txt name s) m = (Inr demo_verified, demo_memo)"
proof -
  have "gl_dns demo_libs = demo_dns" "name_string demo_dns demo_zone = demo_zone" "trim_end (\<lambda>c. c = 46) demo_zone = demo_zone"
    by (simp_all add: demo_libs_def demo_dns_def demo_zone_def str_def trim_end_def)
  then show ?thesis
    using demo_verify_records [OF assms]
    by (simp add: verify_zone_key_def demo_txt_def demo_zone_key demo_proof_records demo_observed_def [symmetric] demo_sig_def [of TyTXT, THEN arg_cong [of _ _ s_key_tag]])
qed

lemma demo_gated:
  assumes "m \<in> {memo_default, demo_memo}"
  shows "gated_txt demo_libs demo_dns_world demo_zone (query_name demo_zone) FromRecords (demo_resolver\<lparr>rs_memo := m\<rparr>) =
      (Inr (demo_txt (query_name demo_zone) demo_member_txt), demo_resolver\<lparr>rs_memo := demo_memo\<rparr>)"
    and "gated_txt demo_libs demo_dns_world demo_zone (control_plane_query_name demo_zone) (Under demo_zone) (demo_resolver\<lparr>rs_memo := m\<rparr>) =
      (Inr (demo_txt (control_plane_query_name demo_zone) demo_cp_txt), demo_resolver\<lparr>rs_memo := demo_memo\<rparr>)"
proof -
  have l: "gl_dns demo_libs = demo_dns" "rl_origin demo_libs = demo_origin_lib" by (simp_all add: demo_libs_def)
  have a: "gate_apex_of demo_libs demo_zone FromRecords (demo_txt (query_name demo_zone) demo_member_txt) = Inr demo_zone"
    "gate_apex_of demo_libs demo_zone (Under demo_zone) t = Inr demo_zone" for t
    by (simp_all add: gate_apex_of_def l demo_txt_def demo_apex)
  note g = gated_txt_def l demo_answers demo_validated_names refresh_tuf_def refresh_begin_def demo_resolver_def pins_log_keys_def
    demo_verify_zone_key [OF assms] a
  show "gated_txt demo_libs demo_dns_world demo_zone (query_name demo_zone) FromRecords (demo_resolver\<lparr>rs_memo := m\<rparr>) =
      (Inr (demo_txt (query_name demo_zone) demo_member_txt), demo_resolver\<lparr>rs_memo := demo_memo\<rparr>)" by (simp add: g)
  show "gated_txt demo_libs demo_dns_world demo_zone (control_plane_query_name demo_zone) (Under demo_zone) (demo_resolver\<lparr>rs_memo := m\<rparr>) =
      (Inr (demo_txt (control_plane_query_name demo_zone) demo_cp_txt), demo_resolver\<lparr>rs_memo := demo_memo\<rparr>)" by (simp add: g)
qed

definition demo_members :: member_set where
  "demo_members = \<lparr>ms_domain = demo_zone, ms_bindings = [(Key [75], [75])], ms_ambiguous_keys = [], ms_rejected = [], ms_hints = []\<rparr>"

lemma demo_from_records: "from_records demo_origin_lib demo_zone [demo_member_txt] = Inr demo_members"
  by (simp add: from_records_alt demo_member_parses ambiguous_of_def identities_def entry_or_default_def record_origin_def add_hints_def
      record_hints_def demo_members_def) (simp add: demo_origin_lib_def)

lemma demo_resolve: "resolve_members demo_libs demo_dns_world demo_zone demo_resolver =
   (Inr (demo_members, 300 * secs_ns), demo_resolver\<lparr>rs_memo := demo_memo\<rparr>)"
proof -
  have "demo_resolver\<lparr>rs_memo := memo_default\<rparr> = demo_resolver" by (simp add: demo_resolver_def)
  moreover have "normalize_domain (rl_origin demo_libs) demo_zone = Some demo_zone" "rl_origin demo_libs = demo_origin_lib"
    by (simp_all add: demo_libs_def demo_origin_lib_def)
  ultimately show ?thesis using demo_gated(1) [of memo_default] demo_from_records by (simp add: resolve_members_def demo_txt_def)
qed

lemma demo_typed: "world_typed demo_dns demo_dns_world"
proof -
  have t: "utf8_len s < 2 ^ 64" if "s \<in> {demo_member_txt, demo_proof_txt, demo_cp_txt}" for s
    using that demo_memo_args by (auto simp: memo_args_def demo_member_txt_def demo_cp_txt_def str_def utf8_width_def)
  have z: "str_fits demo_zone" by (simp add: str_fits_def demo_zone_def str_def scalar_def utf8_width_def)
  have "list_all (rr_typed demo_dns) (demo_signed n ty (RTxt [as_bytes s]))" if "s \<in> {demo_member_txt, demo_proof_txt, demo_cp_txt}" for n ty s
    using t [OF that] z that demo_texts from_utf8_lossy_as_bytes
    by (auto simp: demo_signed_def demo_live_def rr_typed_def demo_sig_def demo_dns_def)
  moreover have "list_all (rr_typed demo_dns) (demo_signed n ty (RDnskey demo_key))" for n ty
    using z by (simp add: demo_signed_def demo_live_def rr_typed_def demo_sig_def demo_dns_def demo_key_def)
  ultimately show ?thesis by (auto simp: world_typed_def demo_dns_world_def demo_answer_def split: if_splits)
qed


lemma demo_endpoints: "endpoints_of [demo_cp_txt] = [str ''https://c'']"
  by (simp add: endpoints_of_def parse_control_plane_record_def demo_cp_txt_def split_whitespace_def str_def is_whitespace_def
      CP_RECORD_VERSION_TAG_def trim_end_def starts_with_def)

lemma demo_control_plane: "control_plane demo_libs demo_dns_world demo_dns_world demo_zone demo_resolver =
   (Inr ([str ''https://c''], 300 * secs_ns), demo_resolver\<lparr>rs_memo := demo_memo\<rparr>)"
proof -
  have "demo_resolver\<lparr>rs_memo := memo_default\<rparr> = demo_resolver" by (simp add: demo_resolver_def)
  moreover have "normalize_domain (rl_origin demo_libs) demo_zone = Some demo_zone" "rl_origin demo_libs = demo_origin_lib" "gl_dns demo_libs = demo_dns"
    by (simp_all add: demo_libs_def demo_origin_lib_def)
  moreover have "trim_end (\<lambda>c. c = 46) (name_string demo_dns demo_zone) = demo_zone" by (simp add: demo_dns_def demo_zone_def str_def trim_end_def)
  ultimately show ?thesis
    using demo_gated(1) [of memo_default] demo_gated(2) [of demo_memo]
    by (simp add: control_plane_def demo_txt_def demo_apex demo_endpoints MAX_CP_ENDPOINTS_def)
qed

theorem attach_gated_witness:
  "\<exists>apex t' v1 v2. verify_zone_key demo_libs demo_dns_world [demo_log] demo_zone apex t' v1 = (Inr v2, demo_memo) \<and>
     {str ''https://c''} \<subseteq> {e. \<exists>x \<in> set (dt_records t'). parse_control_plane_record x = Inr e}"
proof -
  have l: "normalize_domain (rl_origin demo_libs) demo_zone = Some demo_zone" "rs_policy demo_resolver = Require"
    "pins_log_keys (rs_pins (demo_resolver\<lparr>rs_memo := demo_memo\<rparr>)) = [demo_log]" "rs_memo (demo_resolver\<lparr>rs_memo := demo_memo\<rparr>) = demo_memo"
    by (simp_all add: demo_libs_def demo_origin_lib_def demo_resolver_def pins_log_keys_def)
  show ?thesis
    using attach_gated [OF demo_control_plane l(2)] unfolding l option.inject list.set
    by (elim exE conjE, hypsubst, intro exI conjI) assumption+
qed

theorem signing_key_unique_witness:
  "\<exists>r \<in> set (demo_signed demo_zone TyDNSKEY (RDnskey demo_key)). \<exists>k.
     signs demo_dns demo_zone (demo_sig TyTXT) demo_zone [demo_live demo_zone (RTxt [])] r k \<and> dnskey_rdata demo_key = dnskey_rdata k"
proof -
  have "signing_key_rdata demo_dns demo_zone (demo_sig TyTXT) [demo_live demo_zone (RTxt [])]
      (demo_signed demo_zone TyDNSKEY (RDnskey demo_key)) = Inr (dnskey_rdata demo_key)"
    using demo_zone_key [of demo_zone "[]"] by (rule zone_dnskey_Inr) (simp add: demo_dns_def [THEN arg_cong [of _ _ name_string]] demo_answers)
  from signing_key_unique [OF this] show ?thesis by (auto simp: demo_live_def is_txt_def)
qed

theorem secure_txt_sound_witness:
  "zone_of demo_dns demo_zone (query_name demo_zone) \<and>
   filter (counts demo_dns (query_name demo_zone)) (demo_signed (query_name demo_zone) TyTXT (RTxt [as_bytes demo_member_txt])) =
     [demo_live (query_name demo_zone) (RTxt [as_bytes demo_member_txt])]"
proof -
  have d: "set_fqdn demo_dns n = n" "from_utf8_name demo_dns s = Some s" for n s by (simp_all add: demo_dns_def)
  show ?thesis
    using secure_txt_sound [OF demo_validated_names(1) [unfolded validated_txt_def]] unfolding d option.inject by (simp add: demo_txt_def)
qed


end
